(* ===== verification/Prelude.thy ===== *)
theory Prelude
  imports Main "HOL-Library.Word"
begin

unbundle bit_operations_syntax

text \<open>
  What every component of the development shares: the machine types of the C code, the way a C
  function that returns 0 or 1 and updates an object through a pointer is modelled, the
  collections of simplification rules, and the facts on words, byte strings and lists that the
  component theories use.

  A C function \<open>int f(T *obj, ..., R *out)\<close> becomes \<open>f :: ... \<Rightarrow> 'T \<Rightarrow> 'R option \<times> 'T\<close>: \<open>None\<close>
  is the return value 0 and \<open>Some r\<close> the return value 1 with \<open>*out = r\<close>; the second component is
  the object as the call leaves it, on success and on failure alike. \<open>pbind\<close> sequences two such
  calls as \<open>if (!f(obj, &x)) return 0; ... g(obj, x)\<close> does.
\<close>

section \<open>Machine types\<close>

type_synonym u8 = "8 word"
type_synonym u16 = "16 word"
type_synonym u32 = "32 word"
type_synonym u64 = "64 word"
type_synonym bytes = "8 word list"

text \<open>\<open>size_t\<close> has 64 bits on every platform the pods are built for; a size is a \<open>nat\<close>, and an
  addition the code checks for overflow is written with \<open>size_wrap\<close>.\<close>

definition size_wrap :: "nat \<Rightarrow> nat" where
  "size_wrap n = n mod 2 ^ 64"

abbreviation SIZE_MAX :: nat where
  "SIZE_MAX \<equiv> 2 ^ 64 - 1"

abbreviation UINT_MAX :: nat where
  "UINT_MAX \<equiv> 2 ^ 32 - 1"

abbreviation INT_MAX :: nat where
  "INT_MAX \<equiv> 2 ^ 31 - 1"

named_theorems word_nat \<open>unsigned values of word expressions\<close>
named_theorems cbs_defs \<open>the definitions of the byte-string reader\<close>
named_theorems cbb_defs \<open>the definitions of the byte-string builder\<close>

section \<open>Calls that return 0 or 1\<close>

definition pbind :: "'a option \<times> 's \<Rightarrow> ('a \<Rightarrow> 's \<Rightarrow> 'b option \<times> 's) \<Rightarrow> 'b option \<times> 's" where
  "pbind m f = (case m of (None, s) \<Rightarrow> (None, s) | (Some a, s) \<Rightarrow> f a s)"

lemma pbind_simps [simp]:
  "pbind (None, s) f = (None, s)"
  "pbind (Some a, s) f = f a s"
  by (simp_all add: pbind_def)

lemma pbind_eq_Some:
  "pbind m f = (Some b, s') \<longleftrightarrow> (\<exists>a s. m = (Some a, s) \<and> f a s = (Some b, s'))"
  by (auto simp: pbind_def split: prod.splits option.splits)

lemma pbind_eq_None:
  "pbind m f = (None, s') \<longleftrightarrow> m = (None, s') \<or> (\<exists>a s. m = (Some a, s) \<and> f a s = (None, s'))"
  by (auto simp: pbind_def split: prod.splits option.splits)

lemma pbind_assoc: "pbind (pbind m f) g = pbind m (\<lambda>a s. pbind (f a s) g)"
  by (auto simp: pbind_def split: prod.splits option.splits)

lemma pbind_SomeE:
  assumes "pbind m f = (Some b, s')"
  obtains a s where "m = (Some a, s)" "f a s = (Some b, s')"
  using assms by (auto simp: pbind_eq_Some)

lemma pbind_cong [fundef_cong]:
  assumes "m = m'" "\<And>a s. m' = (Some a, s) \<Longrightarrow> f a s = g a s"
  shows "pbind m f = pbind m' g"
  using assms by (auto simp: pbind_def split: prod.splits option.splits)

text \<open>\<open>guard c s\<close> is \<open>if (!c) return 0;\<close>.\<close>

definition guard :: "bool \<Rightarrow> 's \<Rightarrow> unit option \<times> 's" where
  "guard c s = (if c then Some () else None, s)"

lemma guard_simps [simp]:
  "guard True s = (Some (), s)"
  "guard False s = (None, s)"
  by (simp_all add: guard_def)

lemma guard_eq_Some [simp]: "guard c s = (Some u, s') \<longleftrightarrow> c \<and> s' = s"
  by (auto simp: guard_def)

section \<open>Words\<close>

lemma unat_u8_lt [simp]: "unat (b :: u8) < 256"
  using unsigned_less [of b, where 'a = nat] by simp

lemma u8_high: "\<not> unat (b :: u8) < 128 \<Longrightarrow> unat b mod 128 + 128 = unat b"
proof -
  assume h: "\<not> unat b < 128"
  then have "unat b - 128 < 128" using unat_u8_lt [of b] by linarith
  then show ?thesis using h by (simp add: le_mod_geq)
qed

lemma unat_u32_lt [simp]: "unat (b :: u32) < 4294967296"
  using unsigned_less [of b, where 'a = nat] by simp

lemma unat_u64_lt [simp]: "unat (b :: u64) < 18446744073709551616"
  using unsigned_less [of b, where 'a = nat] by simp

lemma unat_ucast:
  "unat (ucast (w :: 'a::len word) :: 'b::len word) = unat w mod 2 ^ LENGTH('b)"
  by (metis of_nat_unat unat_of_nat)

lemma unat_ucast_up:
  assumes "LENGTH('a) \<le> LENGTH('b)"
  shows "unat (ucast (w :: 'a::len word) :: 'b::len word) = unat w"
proof -
  have "unat w < 2 ^ LENGTH('a)" by (rule unsigned_less)
  also have "\<dots> \<le> 2 ^ LENGTH('b)" using assms by simp
  finally show ?thesis unfolding unat_ucast by (rule mod_less)
qed

lemma unat_ucast_wider [word_nat]:
  "unat (ucast (b :: u8) :: u16) = unat b"
  "unat (ucast (b :: u8) :: u32) = unat b"
  "unat (ucast (b :: u8) :: u64) = unat b"
  "unat (ucast (h :: u16) :: u32) = unat h"
  "unat (ucast (h :: u16) :: u64) = unat h"
  "unat (ucast (w :: u32) :: u64) = unat w"
  by (simp_all add: unat_ucast_up)

lemma unat_ucast_narrower [word_nat]:
  "unat (ucast (x :: u64) :: u32) = unat x mod 2 ^ 32"
  "unat (ucast (x :: u64) :: u16) = unat x mod 2 ^ 16"
  "unat (ucast (x :: u64) :: u8) = unat x mod 256"
  "unat (ucast (w :: u32) :: u16) = unat w mod 2 ^ 16"
  "unat (ucast (w :: u32) :: u8) = unat w mod 256"
  "unat (ucast (h :: u16) :: u8) = unat h mod 256"
  by (simp_all add: unat_ucast)

lemma unat_push_bit [word_nat]:
  "unat (push_bit n (w :: 'a::len word)) = (unat w * 2 ^ n) mod 2 ^ LENGTH('a)"
proof -
  have "unat (push_bit n w) = take_bit LENGTH('a) (push_bit n (unat w))"
    by (rule unsigned_push_bit_eq)
  then show ?thesis
    unfolding push_bit_eq_mult [where 'a = nat] take_bit_eq_mod [where 'a = nat] .
qed

lemma unat_drop_bit [word_nat]:
  "unat (drop_bit n (w :: 'a::len word)) = unat w div 2 ^ n"
  using unat_drop_bit_eq [of n w] unfolding drop_bit_eq_div [where 'a = nat] .

lemma unat_take_bit [word_nat]:
  "unat (take_bit n (w :: 'a::len word)) = unat w mod 2 ^ n"
  by (simp add: unsigned_take_bit_eq take_bit_eq_mod [where 'a = nat])

lemma unat_of_nat_small:
  "n < 256 \<Longrightarrow> unat (of_nat n :: u8) = n"
  "n < 2 ^ 16 \<Longrightarrow> unat (of_nat n :: u16) = n"
  "n < 2 ^ 32 \<Longrightarrow> unat (of_nat n :: u32) = n"
  "n < 2 ^ 64 \<Longrightarrow> unat (of_nat n :: u64) = n"
  by (simp_all add: unat_of_nat)

text \<open>Masking with a run of \<open>n\<close> ones above \<open>k\<close> zeros reads those bits.\<close>

lemma unat_and_bits:
  fixes w m :: "'a::len word"
  assumes m: "m = push_bit k (mask n)" and kn: "k + n \<le> LENGTH('a)"
  shows "unat (w AND m) = unat w div 2 ^ k mod 2 ^ n * 2 ^ k"
proof -
  have "w AND m = push_bit k (take_bit n (drop_bit k w))"
    unfolding m by (rule bit_eqI) (auto simp: bit_simps)
  moreover have "unat w div 2 ^ k mod 2 ^ n * 2 ^ k < 2 ^ LENGTH('a)"
  proof -
    have "unat w div 2 ^ k mod 2 ^ n * 2 ^ k < 2 ^ n * 2 ^ k" by simp
    also have "\<dots> \<le> 2 ^ LENGTH('a)" using kn by (simp add: add.commute flip: power_add)
    finally show ?thesis .
  qed
  ultimately show ?thesis by (simp only: unat_push_bit unat_take_bit unat_drop_bit mod_less)
qed

lemma unat_and_80: "unat ((b :: u8) AND 0x80) = unat b div 128 mod 2 * 128"
  by (simp add: unat_and_bits [where k = 7 and n = 1] mask_eq_exp_minus_1)

lemma and_80_eq_0: "(b :: u8) AND 0x80 = 0 \<longleftrightarrow> unat b < 128"
proof -
  have "b AND 0x80 = 0 \<longleftrightarrow> unat (b AND 0x80) = 0" by (simp only: unat_eq_zero)
  also have "\<dots> \<longleftrightarrow> unat b < 128"
  proof -
    have "unat b div 128 < 2" using unat_u8_lt [of b] by (intro less_mult_imp_div_less) simp
    then have "unat b div 128 mod 2 = unat b div 128" by (rule mod_less)
    then show ?thesis by (simp only: unat_and_80) (simp add: div_eq_0_iff)
  qed
  finally show ?thesis .
qed

lemma u8_and_7f [word_nat]: "unat ((b :: u8) AND 0x7f) = unat b mod 128"
  by (simp add: unat_and_bits [where k = 0 and n = 7] mask_eq_exp_minus_1)

lemma u8_and_1f [word_nat]: "unat ((b :: u8) AND 0x1f) = unat b mod 32"
  by (simp add: unat_and_bits [where k = 0 and n = 5] mask_eq_exp_minus_1)

lemma u64_and_7f [word_nat]: "unat ((w :: u64) AND 0x7f) = unat w mod 128"
  by (simp add: unat_and_bits [where k = 0 and n = 7] mask_eq_exp_minus_1)

text \<open>An OR of two words whose ones do not overlap is their sum.\<close>

lemma nat_and_disjoint:
  fixes a b :: nat
  assumes "b < 2 ^ n" "2 ^ n dvd a"
  shows "a AND b = 0"
proof -
  have a: "a = push_bit n (a div 2 ^ n)" using assms(2) by (simp add: push_bit_eq_mult)
  have b: "b = take_bit n b" using assms(1) by (simp add: take_bit_nat_eq_self)
  show ?thesis by (subst a, subst b) (rule bit_eqI, auto simp: bit_simps)
qed

lemma unat_or_add:
  fixes a b :: "'a::len word"
  assumes "unat b < 2 ^ n" "2 ^ n dvd unat a"
  shows "unat (a OR b) = unat a + unat b"
  using disjunctive_add_eq_or [OF nat_and_disjoint [OF assms]] by (simp add: unsigned_or_eq)

lemma sint_u64_of_int: "- (2 ^ 63) \<le> x \<Longrightarrow> x < 2 ^ 63 \<Longrightarrow> sint (of_int x :: u64) = x"
  by (simp add: sint_sbintrunc' signed_take_bit_int_eq_self)

text \<open>A statement on all bytes, by evaluation of its 256 instances.\<close>

lemma u8_exhaust:
  assumes "list_all (\<lambda>n. P (of_nat n :: u8)) [0..<256]"
  shows "P b"
proof -
  from assms have "\<forall>n \<in> {0..<256}. P (of_nat n :: u8)" by (simp add: list_all_iff)
  then have "P (of_nat (unat b))" by (rule bspec) simp
  then show ?thesis by simp
qed

section \<open>Big-endian byte strings\<close>

fun be_val :: "bytes \<Rightarrow> nat" where
  "be_val [] = 0"
| "be_val (b # bs) = unat b * 256 ^ length bs + be_val bs"

fun be_bytes :: "nat \<Rightarrow> nat \<Rightarrow> bytes" where
  "be_bytes 0 v = []"
| "be_bytes (Suc n) v = be_bytes n (v div 256) @ [of_nat v]"

lemma length_be_bytes [simp]: "length (be_bytes n v) = n"
  by (induction n arbitrary: v) auto

lemma be_val_append: "be_val (xs @ ys) = be_val xs * 256 ^ length ys + be_val ys"
  by (induction xs) (auto simp: algebra_simps power_add)

lemma be_val_lt: "be_val bs < 256 ^ length bs"
proof (induction bs)
  case (Cons b bs)
  have "be_val (b # bs) < unat b * 256 ^ length bs + 256 ^ length bs" using Cons by simp
  also have "\<dots> = (unat b + 1) * 256 ^ length bs" by (simp add: algebra_simps)
  also have "\<dots> \<le> 256 * 256 ^ length bs"
    using unat_u8_lt [of b] by (intro mult_right_mono) linarith+
  finally show ?case by simp
qed simp

lemma be_val_be_bytes: "be_val (be_bytes n v) = v mod 256 ^ n"
proof (induction n arbitrary: v)
  case (Suc n)
  have "be_val (be_bytes (Suc n) v) = v div 256 mod 256 ^ n * 256 + v mod 256"
    by (simp add: be_val_append Suc unat_of_nat)
  also have "\<dots> = v mod 256 ^ Suc n" by (simp add: mod_mult2_eq mult.commute)
  finally show ?case .
qed simp

lemma be_bytes_be_val: "be_bytes (length bs) (be_val bs) = bs"
proof (induction bs rule: rev_induct)
  case (snoc b bs)
  have "be_val (bs @ [b]) div 256 = be_val bs" by (simp add: be_val_append)
  moreover have "of_nat (be_val (bs @ [b])) = b"
  proof -
    have "of_nat (be_val bs * 256) = (0 :: u8)" by (simp only: word_of_nat_eq_0_iff) simp
    then show ?thesis by (simp only: be_val_append of_nat_add) simp
  qed
  ultimately show ?case using snoc by simp
qed simp

end
