(* ===== verification/Mem.thy ===== *)
theory Mem
  imports Prelude
begin

text \<open>
  crypto/mem.c of BoringSSL: the allocator every buffer of the library comes from, and the string
  and memory functions that stand in for the C library's.

  A block of memory is a total function from offsets to bytes: the offsets the program may touch
  are those below the block's size, and what an uninitialised byte holds is whatever the function
  gives there, so a theorem that holds for every such function does not depend on it. A C string
  is the list of the bytes from the pointer on; the end of the list is read as the terminating
  NUL.
\<close>

section \<open>Allocation\<close>

text \<open>
  \<open>memory_alloc\<close> is the optional hook \<open>OPENSSL_memory_alloc\<close>, \<open>libc_malloc\<close> the C library's
  \<open>malloc\<close>; each answers whether a request of a given size is granted. \<open>fresh\<close> is the content of
  a granted block.
\<close>

record allocator =
  memory_alloc :: "(nat \<Rightarrow> bool) option"
  libc_malloc :: "nat \<Rightarrow> bool"
  fresh :: "nat \<Rightarrow> u8"

definition OPENSSL_MALLOC_PREFIX :: nat where
  "OPENSSL_MALLOC_PREFIX = 8"

definition OPENSSL_malloc :: "allocator \<Rightarrow> nat \<Rightarrow> (nat \<Rightarrow> u8) option" where
  "OPENSSL_malloc a sz =
     (case memory_alloc a of
        Some alloc \<Rightarrow> (if alloc sz then Some (fresh a) else None)
      | None \<Rightarrow>
          if size_wrap (sz + OPENSSL_MALLOC_PREFIX) < sz then None
          else if libc_malloc a (sz + OPENSSL_MALLOC_PREFIX) then Some (fresh a)
          else None)"

text \<open>\<open>old\<close> is the block's pointer: \<open>None\<close> for NULL, else its content and its recorded size.\<close>

definition OPENSSL_realloc ::
  "allocator \<Rightarrow> ((nat \<Rightarrow> u8) \<times> nat) option \<Rightarrow> nat \<Rightarrow> (nat \<Rightarrow> u8) option" where
  "OPENSSL_realloc a old new_size =
     (case old of
        None \<Rightarrow> OPENSSL_malloc a new_size
      | Some (orig, old_size) \<Rightarrow>
          (case OPENSSL_malloc a new_size of
             None \<Rightarrow> None
           | Some ret \<Rightarrow>
               let to_copy = (if old_size < new_size then old_size else new_size)
               in Some (\<lambda>i. if i < to_copy then orig i else ret i)))"

definition OPENSSL_memdup :: "allocator \<Rightarrow> bytes \<Rightarrow> bytes option" where
  "OPENSSL_memdup a data =
     (if data = [] then None
      else case OPENSSL_malloc a (length data) of None \<Rightarrow> None | Some _ \<Rightarrow> Some data)"

text \<open>An allocator that grants every request of a size the address space can hold.\<close>

definition plentiful :: "allocator \<Rightarrow> bool" where
  "plentiful a \<longleftrightarrow> (\<forall>n < 2 ^ 63. OPENSSL_malloc a n \<noteq> None)"

lemma plentiful_malloc: "plentiful a \<Longrightarrow> n < 2 ^ 63 \<Longrightarrow> \<exists>f. OPENSSL_malloc a n = Some f"
  by (auto simp: plentiful_def)

text \<open>An allocator of the C library that never runs out, and contents of 0 for fresh memory.\<close>

definition plenty :: allocator where
  "plenty = \<lparr>memory_alloc = None, libc_malloc = (\<lambda>_. True), fresh = (\<lambda>_. 0)\<rparr>"

lemma plentiful_plenty: "plentiful plenty"
  unfolding plentiful_def plenty_def
  by (auto simp: OPENSSL_malloc_def OPENSSL_MALLOC_PREFIX_def size_wrap_def)

lemma realloc_prefix:
  "OPENSSL_realloc a (Some (orig, old_size)) new_size = Some f \<Longrightarrow>
   i < old_size \<Longrightarrow> i < new_size \<Longrightarrow> f i = orig i"
  by (auto simp: OPENSSL_realloc_def Let_def split: option.splits if_splits)

lemma realloc_plentiful:
  "plentiful a \<Longrightarrow> n < 2 ^ 63 \<Longrightarrow> \<exists>f. OPENSSL_realloc a (Some old) n = Some f"
  by (cases old) (auto simp: OPENSSL_realloc_def Let_def dest: plentiful_malloc)

section \<open>Comparison\<close>

text \<open>\<open>CRYPTO_memcmp\<close> runs over both buffers to the end whatever they hold.\<close>

fun CRYPTO_memcmp_loop :: "u8 \<Rightarrow> bytes \<Rightarrow> bytes \<Rightarrow> u8" where
  "CRYPTO_memcmp_loop x (a # as) (b # bs) = CRYPTO_memcmp_loop (x OR (a XOR b)) as bs"
| "CRYPTO_memcmp_loop x _ _ = x"

definition CRYPTO_memcmp :: "bytes \<Rightarrow> bytes \<Rightarrow> u8" where
  "CRYPTO_memcmp a b = CRYPTO_memcmp_loop 0 a b"

lemma or_eq_0: "(x :: u8) OR y = 0 \<longleftrightarrow> x = 0 \<and> y = 0"
  by (simp add: or_eq_0_iff)

lemma xor_eq_0: "(x :: u8) XOR y = 0 \<longleftrightarrow> x = y"
  by (auto simp: bit_eq_iff bit_simps)

lemma CRYPTO_memcmp_loop_0:
  "length as = length bs \<Longrightarrow> CRYPTO_memcmp_loop x as bs = 0 \<longleftrightarrow> x = 0 \<and> as = bs"
  by (induction x as bs rule: CRYPTO_memcmp_loop.induct) (auto simp: or_eq_0 xor_eq_0)

lemma CRYPTO_memcmp_0 [simp]:
  "length as = length bs \<Longrightarrow> CRYPTO_memcmp as bs = 0 \<longleftrightarrow> as = bs"
  by (simp add: CRYPTO_memcmp_def CRYPTO_memcmp_loop_0)

text \<open>The C library's \<open>memcmp\<close>: the sign of the first difference, as unsigned bytes.\<close>

fun memcmp :: "bytes \<Rightarrow> bytes \<Rightarrow> int" where
  "memcmp (a # as) (b # bs) =
     (if a < b then -1 else if b < a then 1 else memcmp as bs)"
| "memcmp _ _ = 0"

lemma memcmp_0: "length as = length bs \<Longrightarrow> memcmp as bs = 0 \<longleftrightarrow> as = bs"
  by (induction as bs rule: memcmp.induct) auto

lemma memcmp_antisym: "memcmp bs as = - memcmp as bs"
  by (induction as bs rule: memcmp.induct) (auto simp: not_less_iff_gr_or_eq)

section \<open>C strings\<close>

definition c_head :: "bytes \<Rightarrow> u8" where
  "c_head s = (case s of [] \<Rightarrow> 0 | c # _ \<Rightarrow> c)"

definition cstr :: "bytes \<Rightarrow> bytes" where
  "cstr s = takeWhile (\<lambda>c. c \<noteq> 0) s"

definition strlen :: "bytes \<Rightarrow> nat" where
  "strlen s = length (cstr s)"

lemma cstr_simps [simp]:
  "cstr [] = []"
  "cstr (c # s) = (if c = 0 then [] else c # cstr s)"
  by (simp_all add: cstr_def)

lemma strlen_simps [simp]:
  "strlen [] = 0"
  "strlen (c # s) = (if c = 0 then 0 else Suc (strlen s))"
  by (simp_all add: strlen_def)

fun OPENSSL_strnlen :: "bytes \<Rightarrow> nat \<Rightarrow> nat" where
  "OPENSSL_strnlen (c # s) (Suc n) = (if c = 0 then 0 else Suc (OPENSSL_strnlen s n))"
| "OPENSSL_strnlen _ _ = 0"

lemma OPENSSL_strnlen_eq: "OPENSSL_strnlen s n = min (strlen s) n"
  by (induction s n rule: OPENSSL_strnlen.induct) auto

definition OPENSSL_strndup :: "allocator \<Rightarrow> bytes \<Rightarrow> nat \<Rightarrow> bytes option" where
  "OPENSSL_strndup a str n =
     (let n = OPENSSL_strnlen str n; alloc_size = size_wrap (n + 1)
      in if alloc_size < n then None
         else case OPENSSL_malloc a alloc_size of
                None \<Rightarrow> None
              | Some _ \<Rightarrow> Some (take n str @ [0]))"

definition OPENSSL_strdup :: "allocator \<Rightarrow> bytes \<Rightarrow> bytes option" where
  "OPENSSL_strdup a s =
     (let len = strlen s + 1
      in case OPENSSL_malloc a len of None \<Rightarrow> None | Some _ \<Rightarrow> Some (cstr s @ [0]))"

text \<open>\<open>char\<close> is signed on the platforms of the pods, so a character is read with \<open>sint\<close>.\<close>

definition OPENSSL_tolower :: "int \<Rightarrow> int" where
  "OPENSSL_tolower c = (if 65 \<le> c \<and> c \<le> 90 then c + (97 - 65) else c)"

function OPENSSL_strcasecmp :: "bytes \<Rightarrow> bytes \<Rightarrow> int" where
  "OPENSSL_strcasecmp a b =
     (let aa = OPENSSL_tolower (sint (c_head a)); bb = OPENSSL_tolower (sint (c_head b))
      in if aa < bb then -1 else if aa > bb then 1
         else if aa = 0 then 0
         else OPENSSL_strcasecmp (tl a) (tl b))"
  by pat_completeness auto
termination
proof (relation "measure (\<lambda>(a, b). length a)")
  fix a b aa bb
  assume "aa = OPENSSL_tolower (sint (c_head a))" "aa \<noteq> 0"
  then have "a \<noteq> []" by (auto simp: OPENSSL_tolower_def c_head_def)
  then show "((tl a, tl b), (a, b)) \<in> measure (\<lambda>(a, b). length a)" by (cases a) auto
qed auto

declare OPENSSL_strcasecmp.simps [simp del]

fun OPENSSL_strncasecmp :: "bytes \<Rightarrow> bytes \<Rightarrow> nat \<Rightarrow> int" where
  "OPENSSL_strncasecmp a b 0 = 0"
| "OPENSSL_strncasecmp a b (Suc n) =
     (let aa = OPENSSL_tolower (sint (c_head a)); bb = OPENSSL_tolower (sint (c_head b))
      in if aa < bb then -1 else if aa > bb then 1
         else if aa = 0 then 0
         else OPENSSL_strncasecmp (tl a) (tl b) n)"

text \<open>\<open>dst\<close> is the memory the destination points into and \<open>pos\<close> the pointer's offset there.\<close>

fun strlcpy_loop ::
  "bytes \<Rightarrow> nat \<Rightarrow> bytes \<Rightarrow> nat \<Rightarrow> nat \<Rightarrow> bytes \<times> nat \<times> bytes \<times> nat \<times> nat" where
  "strlcpy_loop dst pos (c # src) dst_size l =
     (if dst_size > 1 \<and> c \<noteq> 0
      then strlcpy_loop (dst[pos := c]) (pos + 1) src (dst_size - 1) (l + 1)
      else (dst, pos, c # src, dst_size, l))"
| "strlcpy_loop dst pos [] dst_size l = (dst, pos, [], dst_size, l)"

definition OPENSSL_strlcpy :: "bytes \<Rightarrow> nat \<Rightarrow> bytes \<Rightarrow> nat \<Rightarrow> bytes \<times> nat" where
  "OPENSSL_strlcpy dst pos src dst_size =
     (let (dst, pos, src, dst_size, l) = strlcpy_loop dst pos src dst_size 0
      in (if dst_size \<noteq> 0 then dst[pos := 0] else dst, l + strlen src))"

fun strlcat_loop :: "bytes \<Rightarrow> nat \<Rightarrow> nat \<Rightarrow> nat \<Rightarrow> nat \<times> nat \<times> nat" where
  "strlcat_loop dst pos 0 l = (pos, 0, l)"
| "strlcat_loop dst pos (Suc dst_size) l =
     (if c_head (drop pos dst) \<noteq> 0 then strlcat_loop dst (pos + 1) dst_size (l + 1)
      else (pos, Suc dst_size, l))"

definition OPENSSL_strlcat :: "bytes \<Rightarrow> nat \<Rightarrow> bytes \<Rightarrow> nat \<Rightarrow> bytes \<times> nat" where
  "OPENSSL_strlcat dst pos src dst_size =
     (let (pos, dst_size, l) = strlcat_loop dst pos dst_size 0;
          (dst, r) = OPENSSL_strlcpy dst pos src dst_size
      in (dst, l + r))"

text \<open>
  What the copy leaves in memory and what it returns: \<open>strlcpy\<close> writes at most \<open>dst_size\<close> bytes
  from \<open>pos\<close>, ends them with a NUL and returns the length it would have needed.
\<close>

lemma strlcpy_loop_eq:
  "pos + n \<le> length dst \<Longrightarrow> k = min (strlen src) (n - 1) \<Longrightarrow>
   strlcpy_loop dst pos src n l =
     (take pos dst @ take k src @ drop (pos + k) dst, pos + k, drop k src, n - k, l + k)"
proof (induction dst pos src n l arbitrary: k rule: strlcpy_loop.induct)
  case (1 dst pos c src n l)
  show ?case
  proof (cases "n > 1 \<and> c \<noteq> 0")
    case True
    define j where "j = min (strlen src) (n - 1 - 1)"
    have k: "k = Suc j" using True "1.prems" by (auto simp: j_def)
    have "strlcpy_loop (dst[pos := c]) (pos + 1) src (n - 1) (l + 1) =
        (take (pos + 1) (dst[pos := c]) @ take j src @ drop (pos + 1 + j) (dst[pos := c]),
         pos + 1 + j, drop j src, n - 1 - j, l + 1 + j)"
      using "1.IH" [OF True _ j_def] "1.prems" True by simp
    moreover have "take (pos + 1) (dst[pos := c]) = take pos dst @ [c]"
      using True "1.prems"(1) by (simp add: take_Suc_conv_app_nth)
    ultimately show ?thesis using True by (simp add: k)
  next
    case False
    then have "k = 0" using "1.prems" by auto
    with False show ?thesis by auto
  qed
qed simp

lemma take_strlen: "k \<le> strlen s \<Longrightarrow> take k s = take k (cstr s)"
proof (induction s arbitrary: k)
  case (Cons c s)
  then show ?case by (cases k) (auto split: if_splits)
qed simp

lemma length_cstr: "length (cstr s) = strlen s"
  by (simp add: strlen_def)

lemma strlen_drop: "k \<le> strlen s \<Longrightarrow> k + strlen (drop k s) = strlen s"
proof (induction s arbitrary: k)
  case (Cons c s)
  then show ?case by (cases k) (auto split: if_splits)
qed simp

lemma strlcpy_eq:
  assumes "pos + n \<le> length dst" "0 < n"
  shows "OPENSSL_strlcpy dst pos src n =
    (let k = min (strlen src) (n - 1) in
     (take pos dst @ take k (cstr src) @ [0] @ drop (pos + k + 1) dst, strlen src))"
proof -
  define k where "k = min (strlen src) (n - 1)"
  have "(take pos dst @ take k src @ drop (pos + k) dst)[pos + k := 0] =
      take pos dst @ take k (cstr src) @ [0] @ drop (pos + k + 1) dst"
  proof -
    have len: "length (take k src) = k" "take k src = take k (cstr src)"
      using take_strlen [of k src] by (auto simp: k_def length_cstr)
    have "drop (pos + k) dst = dst ! (pos + k) # drop (pos + k + 1) dst"
      using assms by (simp add: k_def Cons_nth_drop_Suc)
    then show ?thesis using len assms by (simp add: list_update_append k_def length_cstr)
  qed
  moreover have "strlcpy_loop dst pos src n 0 =
      (take pos dst @ take k src @ drop (pos + k) dst, pos + k, drop k src, n - k, 0 + k)"
    using assms(1) k_def by (rule strlcpy_loop_eq)
  moreover have "n - k \<noteq> 0" "k + strlen (drop k src) = strlen src"
    using assms(2) strlen_drop [of k src] by (auto simp: k_def)
  ultimately show ?thesis
    unfolding OPENSSL_strlcpy_def k_def [symmetric] Let_def by simp
qed

section \<open>Hashing\<close>

fun hash32_loop :: "u32 \<Rightarrow> bytes \<Rightarrow> u32" where
  "hash32_loop h [] = h"
| "hash32_loop h (c # s) = hash32_loop ((h XOR ucast c) * 16777619) s"

definition OPENSSL_hash32 :: "bytes \<Rightarrow> u32" where
  "OPENSSL_hash32 s = hash32_loop 2166136261 s"

definition OPENSSL_strhash :: "bytes \<Rightarrow> u32" where
  "OPENSSL_strhash s = OPENSSL_hash32 (cstr s)"

end
