(* ===== verification/Cbs.thy ===== *)
theory Cbs
  imports Mem
begin

text \<open>
  crypto/bytestring/cbs.c: the reader. A \<open>CBS\<close> is a pointer and a length into memory it does not
  own and never writes; it is modelled by the bytes it designates. Every \<open>CBS_get_...\<close> call is a
  function that returns what it read (\<open>None\<close> when the C function returns 0) and the reader as the
  call leaves it. An output the C function may not write when it fails is part of the result only.
  The 64-bit little-endian layout of the platform shows in \<open>u64_of_le\<close> alone.
\<close>

type_synonym cbs = bytes

section \<open>Fixed-size reads\<close>

definition CBS_init :: "bytes \<Rightarrow> nat \<Rightarrow> cbs" where
  "CBS_init data len = take len data"

definition CBS_data :: "cbs \<Rightarrow> bytes" where
  "CBS_data cbs = cbs"

definition CBS_len :: "cbs \<Rightarrow> nat" where
  "CBS_len cbs = length cbs"

definition cbs_get :: "nat \<Rightarrow> cbs \<Rightarrow> bytes option \<times> cbs" where
  "cbs_get n cbs = (if CBS_len cbs < n then (None, cbs) else (Some (take n cbs), drop n cbs))"

definition CBS_skip :: "nat \<Rightarrow> cbs \<Rightarrow> unit option \<times> cbs" where
  "CBS_skip len cbs = pbind (cbs_get len cbs) (\<lambda>_ cbs. (Some (), cbs))"

text \<open>\<open>CBS_stow\<close> returns its result and the new \<open>*out_ptr\<close> (\<open>None\<close> for NULL).\<close>

definition CBS_stow :: "allocator \<Rightarrow> cbs \<Rightarrow> bool \<times> bytes option \<times> nat" where
  "CBS_stow a cbs =
     (if CBS_len cbs = 0 then (True, None, 0)
      else case OPENSSL_memdup a (CBS_data cbs) of
             None \<Rightarrow> (False, None, 0)
           | Some p \<Rightarrow> (True, Some p, CBS_len cbs))"

definition CBS_strdup :: "allocator \<Rightarrow> cbs \<Rightarrow> bytes option" where
  "CBS_strdup a cbs = OPENSSL_strndup a (CBS_data cbs) (CBS_len cbs)"

text \<open>\<open>OPENSSL_memchr\<close>: the offset of the first byte equal to \<open>c\<close>.\<close>

fun OPENSSL_memchr :: "bytes \<Rightarrow> u8 \<Rightarrow> nat option" where
  "OPENSSL_memchr [] c = None"
| "OPENSSL_memchr (b # bs) c = (if b = c then Some 0 else map_option Suc (OPENSSL_memchr bs c))"

definition CBS_contains_zero_byte :: "cbs \<Rightarrow> bool" where
  "CBS_contains_zero_byte cbs = (OPENSSL_memchr (CBS_data cbs) 0 \<noteq> None)"

definition CBS_mem_equal :: "cbs \<Rightarrow> bytes \<Rightarrow> bool" where
  "CBS_mem_equal cbs data =
     (if length data \<noteq> CBS_len cbs then False else CRYPTO_memcmp (CBS_data cbs) data = 0)"

fun cbs_get_u_loop :: "u64 \<Rightarrow> bytes \<Rightarrow> u64" where
  "cbs_get_u_loop result [] = result"
| "cbs_get_u_loop result (b # data) = cbs_get_u_loop (push_bit 8 result OR ucast b) data"

definition cbs_get_u :: "nat \<Rightarrow> cbs \<Rightarrow> u64 option \<times> cbs" where
  "cbs_get_u len cbs = pbind (cbs_get len cbs) (\<lambda>data cbs. (Some (cbs_get_u_loop 0 data), cbs))"

definition CBS_get_u8 :: "cbs \<Rightarrow> u8 option \<times> cbs" where
  "CBS_get_u8 cbs = pbind (cbs_get 1 cbs) (\<lambda>v cbs. (Some (v ! 0), cbs))"

definition CBS_get_u16 :: "cbs \<Rightarrow> u16 option \<times> cbs" where
  "CBS_get_u16 cbs = pbind (cbs_get_u 2 cbs) (\<lambda>v cbs. (Some (ucast v), cbs))"

definition CRYPTO_bswap2 :: "u16 \<Rightarrow> u16" where
  "CRYPTO_bswap2 x = drop_bit 8 x OR push_bit 8 x"

definition CRYPTO_bswap4 :: "u32 \<Rightarrow> u32" where
  "CRYPTO_bswap4 x =
     (let x = drop_bit 16 x OR push_bit 16 x
      in drop_bit 8 (x AND 0xff00ff00) OR push_bit 8 (x AND 0x00ff00ff))"

definition CRYPTO_bswap8 :: "u64 \<Rightarrow> u64" where
  "CRYPTO_bswap8 x =
     ucast (CRYPTO_bswap4 (ucast (drop_bit 32 x))) OR
     push_bit 32 (ucast (CRYPTO_bswap4 (ucast x)))"

definition CBS_get_u16le :: "cbs \<Rightarrow> u16 option \<times> cbs" where
  "CBS_get_u16le cbs = pbind (CBS_get_u16 cbs) (\<lambda>v cbs. (Some (CRYPTO_bswap2 v), cbs))"

definition CBS_get_u24 :: "cbs \<Rightarrow> u32 option \<times> cbs" where
  "CBS_get_u24 cbs = pbind (cbs_get_u 3 cbs) (\<lambda>v cbs. (Some (ucast v), cbs))"

definition CBS_get_u32 :: "cbs \<Rightarrow> u32 option \<times> cbs" where
  "CBS_get_u32 cbs = pbind (cbs_get_u 4 cbs) (\<lambda>v cbs. (Some (ucast v), cbs))"

definition CBS_get_u32le :: "cbs \<Rightarrow> u32 option \<times> cbs" where
  "CBS_get_u32le cbs = pbind (CBS_get_u32 cbs) (\<lambda>v cbs. (Some (CRYPTO_bswap4 v), cbs))"

definition CBS_get_u64 :: "cbs \<Rightarrow> u64 option \<times> cbs" where
  "CBS_get_u64 cbs = cbs_get_u 8 cbs"

definition CBS_get_u64le :: "cbs \<Rightarrow> u64 option \<times> cbs" where
  "CBS_get_u64le cbs = pbind (cbs_get_u 8 cbs) (\<lambda>v cbs. (Some (CRYPTO_bswap8 v), cbs))"

definition CBS_get_last_u8 :: "cbs \<Rightarrow> u8 option \<times> cbs" where
  "CBS_get_last_u8 cbs =
     (if CBS_len cbs = 0 then (None, cbs)
      else (Some (CBS_data cbs ! (CBS_len cbs - 1)), take (CBS_len cbs - 1) cbs))"

definition CBS_get_bytes :: "nat \<Rightarrow> cbs \<Rightarrow> cbs option \<times> cbs" where
  "CBS_get_bytes len cbs = pbind (cbs_get len cbs) (\<lambda>v cbs. (Some (CBS_init v len), cbs))"

text \<open>\<open>CBS_copy_bytes\<close> returns the memory at \<open>out\<close> after the copy.\<close>

definition CBS_copy_bytes :: "bytes \<Rightarrow> nat \<Rightarrow> cbs \<Rightarrow> bytes option \<times> cbs" where
  "CBS_copy_bytes out len cbs = pbind (cbs_get len cbs) (\<lambda>v cbs. (Some (v @ drop len out), cbs))"

definition cbs_get_length_prefixed :: "nat \<Rightarrow> cbs \<Rightarrow> cbs option \<times> cbs" where
  "cbs_get_length_prefixed len_len cbs =
     pbind (cbs_get_u len_len cbs) (\<lambda>len cbs. CBS_get_bytes (unat len) cbs)"

definition CBS_get_u8_length_prefixed :: "cbs \<Rightarrow> cbs option \<times> cbs" where
  "CBS_get_u8_length_prefixed cbs = cbs_get_length_prefixed 1 cbs"

definition CBS_get_u16_length_prefixed :: "cbs \<Rightarrow> cbs option \<times> cbs" where
  "CBS_get_u16_length_prefixed cbs = cbs_get_length_prefixed 2 cbs"

definition CBS_get_u24_length_prefixed :: "cbs \<Rightarrow> cbs option \<times> cbs" where
  "CBS_get_u24_length_prefixed cbs = cbs_get_length_prefixed 3 cbs"

definition CBS_get_until_first :: "u8 \<Rightarrow> cbs \<Rightarrow> cbs option \<times> cbs" where
  "CBS_get_until_first c cbs =
     (case OPENSSL_memchr (CBS_data cbs) c of
        None \<Rightarrow> (None, cbs)
      | Some split \<Rightarrow> CBS_get_bytes split cbs)"

lemmas [cbs_defs] = CBS_init_def CBS_data_def CBS_len_def cbs_get_def CBS_skip_def
  CBS_get_u8_def CBS_get_bytes_def

text \<open>What a successful read takes from the front, and what stays.\<close>

lemma cbs_get_eq_Some: "cbs_get n s = (Some v, s') \<longleftrightarrow> s = v @ s' \<and> length v = n"
  by (auto simp: cbs_get_def CBS_len_def)

lemma CBS_get_bytes_eq_Some: "CBS_get_bytes n s = (Some v, s') \<longleftrightarrow> s = v @ s' \<and> length v = n"
  by (auto simp: CBS_get_bytes_def CBS_init_def pbind_eq_Some cbs_get_eq_Some)

lemma CBS_skip_eq_Some: "CBS_skip n s = (Some u, s') \<longleftrightarrow> (\<exists>v. s = v @ s' \<and> length v = n)"
  by (auto simp: CBS_skip_def pbind_eq_Some cbs_get_eq_Some)

lemma CBS_get_u8_simps [simp]:
  "CBS_get_u8 [] = (None, [])"
  "CBS_get_u8 (b # s) = (Some b, s)"
  by (simp_all add: cbs_defs)

lemma CBS_get_u8_eq_Some: "CBS_get_u8 s = (Some b, s') \<longleftrightarrow> s = b # s'"
  by (cases s) auto

lemma CBS_get_u8_shorter [termination_simp]:
  "(Some b, s') = CBS_get_u8 s \<Longrightarrow> length s' < length s"
  by (cases s) auto

lemma CBS_get_u8_shorter' [termination_simp]:
  "CBS_get_u8 s = (Some b, s') \<Longrightarrow> length s' < length s"
  by (cases s) auto

section \<open>DER elements\<close>

definition CBS_ASN1_TAG_SHIFT :: nat where "CBS_ASN1_TAG_SHIFT = 24"
definition CBS_ASN1_CONSTRUCTED :: u32 where "CBS_ASN1_CONSTRUCTED = 0x20000000"
definition CBS_ASN1_TAG_NUMBER_MASK :: u32 where "CBS_ASN1_TAG_NUMBER_MASK = 0x1fffffff"
definition CBS_ASN1_BOOLEAN :: u32 where "CBS_ASN1_BOOLEAN = 1"
definition CBS_ASN1_INTEGER :: u32 where "CBS_ASN1_INTEGER = 2"
definition CBS_ASN1_OCTETSTRING :: u32 where "CBS_ASN1_OCTETSTRING = 4"

text \<open>
  \<open>parse_base128_integer\<close>: seven bits at a time, most significant first, the high bit set on
  every byte but the last. It fails at the end of the input, on a value over 64 bits and on a
  leading \<open>0x80\<close>.
\<close>

fun parse_base128_loop :: "u64 \<Rightarrow> cbs \<Rightarrow> u64 option \<times> cbs" where
  "parse_base128_loop v cbs =
     pbind (CBS_get_u8 cbs) (\<lambda>b cbs.
       if drop_bit (64 - 7) v \<noteq> 0 then (None, cbs)
       else if v = 0 \<and> b = 0x80 then (None, cbs)
       else let v = push_bit 7 v OR (ucast b AND 0x7f)
            in if b AND 0x80 \<noteq> 0 then parse_base128_loop v cbs
               else (Some v, cbs))"

declare parse_base128_loop.simps [simp del]

definition parse_base128_integer :: "cbs \<Rightarrow> u64 option \<times> cbs" where
  "parse_base128_integer cbs = parse_base128_loop 0 cbs"

definition parse_asn1_tag :: "cbs \<Rightarrow> u32 option \<times> cbs" where
  "parse_asn1_tag cbs =
     pbind (CBS_get_u8 cbs) (\<lambda>tag_byte cbs.
       let tag = push_bit CBS_ASN1_TAG_SHIFT (ucast tag_byte AND 0xe0 :: u32);
           tag_number = ucast (tag_byte AND 0x1f) :: u32
       in if tag_number = 0x1f
          then pbind (parse_base128_integer cbs) (\<lambda>v cbs.
                 if v > ucast CBS_ASN1_TAG_NUMBER_MASK \<or> v < 0x1f then (None, cbs)
                 else (Some (tag OR ucast v), cbs))
          else (Some (tag OR tag_number), cbs))"

text \<open>
  \<open>cbs_get_any_asn1_element\<close> parses a copy of the reader as far as the contents and then takes
  the whole element from the reader itself. The result is the element, its tag, the length of its
  header and \<open>*out_ber_found\<close>.
\<close>

definition cbs_get_any_asn1_element ::
  "bool \<Rightarrow> cbs \<Rightarrow> (cbs \<times> u32 \<times> nat \<times> bool) option \<times> cbs" where
  "cbs_get_any_asn1_element ber_ok cbs =
     (case parse_asn1_tag cbs of
        (None, _) \<Rightarrow> (None, cbs)
      | (Some tag, header) \<Rightarrow>
     (case CBS_get_u8 header of
        (None, _) \<Rightarrow> (None, cbs)
      | (Some length_byte, header) \<Rightarrow>
          let header_len = CBS_len cbs - CBS_len header in
          if length_byte AND 0x80 = 0 then
            let len = unat length_byte + header_len
            in pbind (CBS_get_bytes len cbs) (\<lambda>out cbs. (Some (out, tag, header_len, False), cbs))
          else
            let num_bytes = unat (length_byte AND 0x7f) in
            if ber_ok \<and> tag AND CBS_ASN1_CONSTRUCTED \<noteq> 0 \<and> num_bytes = 0 then
              pbind (CBS_get_bytes header_len cbs)
                (\<lambda>out cbs. (Some (out, tag, header_len, True), cbs))
            else if num_bytes = 0 \<or> num_bytes > 4 then (None, cbs)
            else
              (case cbs_get_u num_bytes header of
                 (None, _) \<Rightarrow> (None, cbs)
               | (Some len64, header) \<Rightarrow>
                   if \<not> ber_ok \<and> len64 < 128 then (None, cbs)
                   else if \<not> ber_ok \<and> drop_bit ((num_bytes - 1) * 8) len64 = 0 then (None, cbs)
                   else
                     let ber_found = (len64 < 128 \<or> drop_bit ((num_bytes - 1) * 8) len64 = 0);
                         len = unat len64 in
                     if size_wrap (len + header_len + num_bytes) < len then (None, cbs)
                     else
                       let len = len + (header_len + num_bytes)
                       in pbind (CBS_get_bytes len cbs)
                            (\<lambda>out cbs. (Some (out, tag, header_len + num_bytes, ber_found), cbs)))))"

definition CBS_get_any_asn1_element :: "cbs \<Rightarrow> (cbs \<times> u32 \<times> nat) option \<times> cbs" where
  "CBS_get_any_asn1_element cbs =
     pbind (cbs_get_any_asn1_element False cbs)
       (\<lambda>(out, tag, header_len, _) cbs. (Some (out, tag, header_len), cbs))"

definition CBS_get_any_ber_asn1_element :: "cbs \<Rightarrow> (cbs \<times> u32 \<times> nat \<times> bool) option \<times> cbs" where
  "CBS_get_any_ber_asn1_element cbs = cbs_get_any_asn1_element True cbs"

definition CBS_get_any_asn1 :: "cbs \<Rightarrow> (cbs \<times> u32) option \<times> cbs" where
  "CBS_get_any_asn1 cbs =
     pbind (CBS_get_any_asn1_element cbs) (\<lambda>(out, tag, header_len) cbs.
       case CBS_skip header_len out of
         (None, _) \<Rightarrow> (None, cbs)
       | (Some _, out) \<Rightarrow> (Some (out, tag), cbs))"

definition cbs_get_asn1 :: "u32 \<Rightarrow> bool \<Rightarrow> cbs \<Rightarrow> cbs option \<times> cbs" where
  "cbs_get_asn1 tag_value skip_header cbs =
     pbind (CBS_get_any_asn1_element cbs) (\<lambda>(out, tag, header_len) cbs.
       if tag \<noteq> tag_value then (None, cbs)
       else if skip_header then
         (case CBS_skip header_len out of
            (None, _) \<Rightarrow> (None, cbs)
          | (Some _, out) \<Rightarrow> (Some out, cbs))
       else (Some out, cbs))"

definition CBS_get_asn1 :: "u32 \<Rightarrow> cbs \<Rightarrow> cbs option \<times> cbs" where
  "CBS_get_asn1 tag_value cbs = cbs_get_asn1 tag_value True cbs"

definition CBS_get_asn1_element :: "u32 \<Rightarrow> cbs \<Rightarrow> cbs option \<times> cbs" where
  "CBS_get_asn1_element tag_value cbs = cbs_get_asn1 tag_value False cbs"

definition CBS_peek_asn1_tag :: "u32 \<Rightarrow> cbs \<Rightarrow> bool" where
  "CBS_peek_asn1_tag tag_value cbs =
     (if CBS_len cbs < 1 then False
      else case parse_asn1_tag cbs of
             (None, _) \<Rightarrow> False
           | (Some actual_tag, _) \<Rightarrow> tag_value = actual_tag)"

end
