(* ===== verification/Cbs_Values.thy ===== *)
theory Cbs_Values
  imports Cbs
begin

text \<open>
  crypto/bytestring/cbs.c, the typed readers: INTEGER, BOOLEAN, optional and explicitly tagged
  values, BIT STRING and the checks on their contents.
\<close>

section \<open>Contents of INTEGER and BIT STRING\<close>

text \<open>The result is \<open>*out_is_negative\<close>, \<open>None\<close> where the C function returns 0.\<close>

definition CBS_is_valid_asn1_integer :: "cbs \<Rightarrow> bool option" where
  "CBS_is_valid_asn1_integer cbs =
     (case CBS_get_u8 cbs of
        (None, _) \<Rightarrow> None
      | (Some first_byte, copy) \<Rightarrow>
          let is_negative = (first_byte AND 0x80 \<noteq> 0) in
          (case CBS_get_u8 copy of
             (None, _) \<Rightarrow> Some is_negative
           | (Some second_byte, _) \<Rightarrow>
               if first_byte = 0x00 \<and> second_byte AND 0x80 = 0 \<or>
                  first_byte = 0xff \<and> second_byte AND 0x80 \<noteq> 0 then None
               else Some is_negative))"

definition CBS_is_unsigned_asn1_integer :: "cbs \<Rightarrow> bool" where
  "CBS_is_unsigned_asn1_integer cbs = (CBS_is_valid_asn1_integer cbs = Some False)"

definition CBS_is_valid_asn1_bitstring :: "cbs \<Rightarrow> bool" where
  "CBS_is_valid_asn1_bitstring cbs =
     (case CBS_get_u8 cbs of
        (None, _) \<Rightarrow> False
      | (Some num_unused_bits, in') \<Rightarrow>
          if num_unused_bits > 7 then False
          else if num_unused_bits = 0 then True
          else (case CBS_get_last_u8 in' of
                  (None, _) \<Rightarrow> False
                | (Some last_byte, _) \<Rightarrow>
                    last_byte AND (push_bit (unat num_unused_bits) 1 - 1) = 0))"

definition CBS_asn1_bitstring_has_bit :: "cbs \<Rightarrow> u32 \<Rightarrow> bool" where
  "CBS_asn1_bitstring_has_bit cbs b =
     (if \<not> CBS_is_valid_asn1_bitstring cbs then False
      else
        let byte_num = unat (drop_bit 3 b + 1); bit_num = unat (7 - (b AND 7))
        in byte_num < CBS_len cbs \<and> (CBS_data cbs ! byte_num) AND push_bit bit_num 1 \<noteq> 0)"

section \<open>Values\<close>

fun asn1_uint64_loop :: "u64 \<Rightarrow> bytes \<Rightarrow> u64 option" where
  "asn1_uint64_loop out [] = Some out"
| "asn1_uint64_loop out (b # data) =
     (if drop_bit 56 out \<noteq> 0 then None
      else asn1_uint64_loop (push_bit 8 out OR ucast b) data)"

definition CBS_get_asn1_uint64 :: "cbs \<Rightarrow> u64 option \<times> cbs" where
  "CBS_get_asn1_uint64 cbs =
     pbind (CBS_get_asn1 CBS_ASN1_INTEGER cbs) (\<lambda>bytes cbs.
       if \<not> CBS_is_unsigned_asn1_integer bytes then (None, cbs)
       else (asn1_uint64_loop 0 (CBS_data bytes), cbs))"

text \<open>
  The union of an \<open>int64_t\<close> and its eight bytes: byte \<open>i\<close> holds bits \<open>8 i\<close> to \<open>8 i + 7\<close> on a
  little-endian platform. An \<open>int64_t\<close> is a 64-bit word read with \<open>sint\<close>.
\<close>

definition u64_of_le :: "bytes \<Rightarrow> u64" where
  "u64_of_le bs = of_nat (be_val (rev bs))"

definition le_of_u64 :: "u64 \<Rightarrow> bytes" where
  "le_of_u64 v = rev (be_bytes 8 (unat v))"

definition CBS_get_asn1_int64 :: "cbs \<Rightarrow> u64 option \<times> cbs" where
  "CBS_get_asn1_int64 cbs =
     pbind (CBS_get_asn1 CBS_ASN1_INTEGER cbs) (\<lambda>bytes cbs.
       case CBS_is_valid_asn1_integer bytes of
         None \<Rightarrow> (None, cbs)
       | Some is_negative \<Rightarrow>
           let data = CBS_data bytes; len = CBS_len bytes in
           if len > 8 then (None, cbs)
           else
             let u = replicate 8 (if is_negative then 0xff else 0);
                 u = fold (\<lambda>i u. u[i := data ! (len - i - 1)]) [0..<len] u
             in (Some (u64_of_le u), cbs))"

definition CBS_get_asn1_bool :: "cbs \<Rightarrow> bool option \<times> cbs" where
  "CBS_get_asn1_bool cbs =
     pbind (CBS_get_asn1 CBS_ASN1_BOOLEAN cbs) (\<lambda>bytes cbs.
       if CBS_len bytes \<noteq> 1 then (None, cbs)
       else
         let value = CBS_data bytes ! 0 in
         if value \<noteq> 0 \<and> value \<noteq> 0xff then (None, cbs)
         else (Some (value \<noteq> 0), cbs))"

section \<open>Optional values\<close>

text \<open>\<open>Some None\<close> is success with \<open>*out_present\<close> 0, \<open>Some (Some c)\<close> success with contents \<open>c\<close>.\<close>

definition CBS_get_optional_asn1 :: "u32 \<Rightarrow> cbs \<Rightarrow> cbs option option \<times> cbs" where
  "CBS_get_optional_asn1 tag cbs =
     (if CBS_peek_asn1_tag tag cbs
      then pbind (CBS_get_asn1 tag cbs) (\<lambda>out cbs. (Some (Some out), cbs))
      else (Some None, cbs))"

definition CBS_get_optional_asn1_octet_string ::
  "u32 \<Rightarrow> cbs \<Rightarrow> (cbs \<times> bool) option \<times> cbs" where
  "CBS_get_optional_asn1_octet_string tag cbs =
     pbind (CBS_get_optional_asn1 tag cbs) (\<lambda>r cbs.
       case r of
         None \<Rightarrow> (Some (CBS_init [] 0, False), cbs)
       | Some child \<Rightarrow>
           (case CBS_get_asn1 CBS_ASN1_OCTETSTRING child of
              (None, _) \<Rightarrow> (None, cbs)
            | (Some out, child) \<Rightarrow>
                if CBS_len child \<noteq> 0 then (None, cbs) else (Some (out, True), cbs)))"

definition CBS_get_optional_asn1_uint64 :: "u32 \<Rightarrow> u64 \<Rightarrow> cbs \<Rightarrow> u64 option \<times> cbs" where
  "CBS_get_optional_asn1_uint64 tag default_value cbs =
     pbind (CBS_get_optional_asn1 tag cbs) (\<lambda>r cbs.
       case r of
         None \<Rightarrow> (Some default_value, cbs)
       | Some child \<Rightarrow>
           (case CBS_get_asn1_uint64 child of
              (None, _) \<Rightarrow> (None, cbs)
            | (Some out, child) \<Rightarrow>
                if CBS_len child \<noteq> 0 then (None, cbs) else (Some out, cbs)))"

definition CBS_get_optional_asn1_bool :: "u32 \<Rightarrow> int \<Rightarrow> cbs \<Rightarrow> int option \<times> cbs" where
  "CBS_get_optional_asn1_bool tag default_value cbs =
     pbind (CBS_get_optional_asn1 tag cbs) (\<lambda>r cbs.
       case r of
         None \<Rightarrow> (Some default_value, cbs)
       | Some child \<Rightarrow>
           (case CBS_get_asn1 CBS_ASN1_BOOLEAN child of
              (None, _) \<Rightarrow> (None, cbs)
            | (Some child2, child) \<Rightarrow>
                if CBS_len child2 \<noteq> 1 \<or> CBS_len child \<noteq> 0 then (None, cbs)
                else
                  let boolean = CBS_data child2 ! 0 in
                  if boolean = 0 then (Some 0, cbs)
                  else if boolean = 0xff then (Some 1, cbs)
                  else (None, cbs)))"

end
