(* ===== verification/Cbb.thy ===== *)
theory Cbb
  imports Cbs_Values
begin

text \<open>
  crypto/bytestring/cbb.c: the builder. One buffer is shared by a top-level \<open>CBB\<close> and the chain of
  children whose length prefixes are pending. The structs live wherever the caller put them, so a
  \<open>CBB\<close> is named by its address (a \<open>nat\<close>); the state of one builder is the shared buffer together
  with the chain, the top-level \<open>CBB\<close> first and every other the \<open>child\<close> of the one before it. An
  address that is not in the chain is a \<open>CBB\<close> whose \<open>base\<close> is NULL: it was flushed, discarded or
  never initialised. The buffer's memory is a function on offsets, so what lies beyond the bytes
  written is arbitrary.
\<close>

section \<open>The buffer\<close>

record cbb_buffer =
  cb_buf :: "nat \<Rightarrow> u8"
  cb_len :: nat
  cb_cap :: nat
  cb_can_resize :: bool
  cb_error :: bool

record cbb_node =
  cn_offset :: nat
  cn_pending_len_len :: nat
  cn_pending_is_asn1 :: bool
  cn_is_child :: bool

record cbb =
  cbb_base :: "cbb_buffer option"
  cbb_chain :: "(nat \<times> cbb_node) list"

definition written :: "cbb_buffer \<Rightarrow> bytes" where
  "written b = map (cb_buf b) [0..<cb_len b]"

definition cbb_init :: "nat \<Rightarrow> (nat \<Rightarrow> u8) \<Rightarrow> nat \<Rightarrow> cbb" where
  "cbb_init h buf cap =
     \<lparr>cbb_base = Some \<lparr>cb_buf = buf, cb_len = 0, cb_cap = cap, cb_can_resize = True, cb_error = False\<rparr>,
      cbb_chain = [(h, \<lparr>cn_offset = 0, cn_pending_len_len = 0, cn_pending_is_asn1 = False,
                       cn_is_child = False\<rparr>)]\<rparr>"

definition CBB_zero :: cbb where
  "CBB_zero = \<lparr>cbb_base = None, cbb_chain = []\<rparr>"

text \<open>\<open>sizeof(struct cbb_buffer_st)\<close> is 32; the base is allocated apart from the buffer.\<close>

definition CBB_init :: "allocator \<Rightarrow> nat \<Rightarrow> nat \<Rightarrow> unit option \<times> cbb" where
  "CBB_init a h initial_capacity =
     (let buf = OPENSSL_malloc a initial_capacity in
      if initial_capacity > 0 \<and> buf = None then (None, CBB_zero)
      else if OPENSSL_malloc a 32 = None then (None, CBB_zero)
      else (Some (), cbb_init h (case buf of None \<Rightarrow> fresh a | Some m \<Rightarrow> m) initial_capacity))"

definition CBB_init_fixed :: "allocator \<Rightarrow> nat \<Rightarrow> (nat \<Rightarrow> u8) \<Rightarrow> nat \<Rightarrow> unit option \<times> cbb" where
  "CBB_init_fixed a h buf len =
     (if OPENSSL_malloc a 32 = None then (None, CBB_zero)
      else
        let c = cbb_init h buf len
        in (Some (), c\<lparr>cbb_base := map_option (\<lambda>b. b\<lparr>cb_can_resize := False\<rparr>) (cbb_base c)\<rparr>))"

definition CBB_cleanup :: "cbb \<Rightarrow> cbb" where
  "CBB_cleanup c = c\<lparr>cbb_base := None\<rparr>"

definition cbb_buffer_err :: "cbb_buffer \<Rightarrow> cbb_buffer" where
  "cbb_buffer_err b = b\<lparr>cb_error := True\<rparr>"

text \<open>The result is the offset of \<open>*out\<close> in the buffer.\<close>

definition cbb_buffer_reserve :: "allocator \<Rightarrow> nat \<Rightarrow> cbb_buffer \<Rightarrow> nat option \<times> cbb_buffer" where
  "cbb_buffer_reserve a len b =
     (let newlen = size_wrap (cb_len b + len) in
      if newlen < cb_len b then (None, cbb_buffer_err b)
      else if newlen > cb_cap b then
        let newcap = size_wrap (cb_cap b * 2) in
        if \<not> cb_can_resize b then (None, cbb_buffer_err b)
        else
          let newcap = (if newcap < cb_cap b \<or> newcap < newlen then newlen else newcap) in
          (case OPENSSL_realloc a (Some (cb_buf b, cb_cap b)) newcap of
             None \<Rightarrow> (None, cbb_buffer_err b)
           | Some newbuf \<Rightarrow> (Some (cb_len b), b\<lparr>cb_buf := newbuf, cb_cap := newcap\<rparr>))
      else (Some (cb_len b), b))"

definition cbb_buffer_add :: "allocator \<Rightarrow> nat \<Rightarrow> cbb_buffer \<Rightarrow> nat option \<times> cbb_buffer" where
  "cbb_buffer_add a len b =
     pbind (cbb_buffer_reserve a len b) (\<lambda>out b. (Some out, b\<lparr>cb_len := cb_len b + len\<rparr>))"

text \<open>Stores: \<open>memcpy\<close>, \<open>memset\<close> to zero, \<open>memmove\<close> inside the buffer, and a big-endian number.\<close>

definition buf_copy :: "nat \<Rightarrow> bytes \<Rightarrow> cbb_buffer \<Rightarrow> cbb_buffer" where
  "buf_copy dest data b =
     b\<lparr>cb_buf := (\<lambda>i. if dest \<le> i \<and> i < dest + length data then data ! (i - dest) else cb_buf b i)\<rparr>"

definition buf_move :: "nat \<Rightarrow> nat \<Rightarrow> nat \<Rightarrow> cbb_buffer \<Rightarrow> cbb_buffer" where
  "buf_move dest src len b =
     b\<lparr>cb_buf := (\<lambda>i. if dest \<le> i \<and> i < dest + len then cb_buf b (src + (i - dest)) else cb_buf b i)\<rparr>"

definition buf_store :: "nat \<Rightarrow> u8 \<Rightarrow> cbb_buffer \<Rightarrow> cbb_buffer" where
  "buf_store i v b = b\<lparr>cb_buf := (cb_buf b)(i := v)\<rparr>"

fun store_be :: "nat \<Rightarrow> nat \<Rightarrow> nat \<Rightarrow> cbb_buffer \<Rightarrow> nat \<times> cbb_buffer" where
  "store_be off 0 v b = (v, b)"
| "store_be off (Suc i) v b = store_be off i (v div 256) (buf_store (off + i) (of_nat v) b)"

definition cbb_buffer_add_u :: "allocator \<Rightarrow> u64 \<Rightarrow> nat \<Rightarrow> cbb_buffer \<Rightarrow> unit option \<times> cbb_buffer" where
  "cbb_buffer_add_u a v len_len b =
     (if len_len = 0 then (Some (), b)
      else pbind (cbb_buffer_add a len_len b) (\<lambda>buf b.
        let (v, b) = store_be buf len_len (unat v) b in
        if v \<noteq> 0 then (None, cbb_buffer_err b) else (Some (), b)))"

section \<open>Flushing\<close>

text \<open>
  \<open>CBB_flush\<close> on a \<open>CBB\<close> whose children, outermost first, are the given nodes: the result of the
  call, the buffer and the children that are still attached.
\<close>

definition asn1_prefix_len :: "nat \<Rightarrow> (nat \<times> u8 \<times> nat) option" where
  \<comment> \<open>\<open>len_len\<close>, \<open>initial_length_byte\<close> and what is left of \<open>len\<close> to write; \<open>None\<close>: too large\<close>
  "asn1_prefix_len len =
     (if len > 0xfffffffe then None
      else if len > 0xffffff then Some (5, 0x80 OR 4, len)
      else if len > 0xffff then Some (4, 0x80 OR 3, len)
      else if len > 0xff then Some (3, 0x80 OR 2, len)
      else if len > 0x7f then Some (2, 0x80 OR 1, len)
      else Some (1, of_nat len, 0))"

text \<open>Write the prefix of one child, its contents complete: \<open>None\<close> is the jump to \<open>err\<close>.\<close>

definition flush_asn1_prefix ::
  "allocator \<Rightarrow> nat \<Rightarrow> nat \<Rightarrow> cbb_node \<Rightarrow> cbb_buffer \<Rightarrow> (nat \<times> cbb_node) option \<times> cbb_buffer" where
  "flush_asn1_prefix a child_start len c b =
     (case asn1_prefix_len len of
        None \<Rightarrow> (None, b)
      | Some (len_len, initial_length_byte, len') \<Rightarrow>
          pbind
            (if len_len \<noteq> 1 then
               let extra_bytes = len_len - 1 in
               pbind (cbb_buffer_add a extra_bytes b) (\<lambda>_ b.
                 (Some (), buf_move (child_start + extra_bytes) child_start len' b))
             else (Some (), b))
            (\<lambda>_ b.
              (Some (len', c\<lparr>cn_offset := cn_offset c + 1, cn_pending_len_len := len_len - 1\<rparr>),
               buf_store (cn_offset c) initial_length_byte b)))"

definition flush_prefix ::
  "allocator \<Rightarrow> nat \<Rightarrow> cbb_node \<Rightarrow> cbb_buffer \<Rightarrow> unit option \<times> cbb_buffer" where
  "flush_prefix a child_start c b =
     (let len = cb_len b - child_start in
      pbind
        (if cn_pending_is_asn1 c then flush_asn1_prefix a child_start len c b
         else (Some (len, c), b))
        (\<lambda>(len, c) b.
          let (len, b) = store_be (cn_offset c) (cn_pending_len_len c) len b
          in if len \<noteq> 0 then (None, b) else (Some (), b)))"

fun flush_children ::
  "allocator \<Rightarrow> (nat \<times> cbb_node) list \<Rightarrow> cbb_buffer \<Rightarrow>
   unit option \<times> cbb_buffer \<times> (nat \<times> cbb_node) list" where
  "flush_children a [] b = (if cb_error b then None else Some (), b, [])"
| "flush_children a ((h, c) # cs) b =
     (if cb_error b then (None, b, (h, c) # cs)
      else if cn_pending_len_len c = 0 then (Some (), b, (h, c) # cs)
      else
        let child_start = size_wrap (cn_offset c + cn_pending_len_len c);
            (r, b, cs) = flush_children a cs b
        in if r = None \<or> child_start < cn_offset c \<or> cb_len b < child_start
           then (None, cbb_buffer_err b, (h, c) # cs)
           else case flush_prefix a child_start c b of
                  (None, b) \<Rightarrow> (None, cbb_buffer_err b, (h, c) # cs)
                | (Some _, b) \<Rightarrow> (Some (), b, []))"

definition chain_before :: "nat \<Rightarrow> (nat \<times> cbb_node) list \<Rightarrow> (nat \<times> cbb_node) list" where
  "chain_before h ch = takeWhile (\<lambda>p. fst p \<noteq> h) ch"

definition chain_from :: "nat \<Rightarrow> (nat \<times> cbb_node) list \<Rightarrow> (nat \<times> cbb_node) list" where
  "chain_from h ch = dropWhile (\<lambda>p. fst p \<noteq> h) ch"

definition CBB_flush :: "allocator \<Rightarrow> nat \<Rightarrow> cbb \<Rightarrow> unit option \<times> cbb" where
  "CBB_flush a h c =
     (case (cbb_base c, chain_from h (cbb_chain c)) of
        (Some b, me # cs) \<Rightarrow>
          (let (r, b, cs) = flush_children a cs b
           in (r, c\<lparr>cbb_base := Some b, cbb_chain := chain_before h (cbb_chain c) @ me # cs\<rparr>))
      | _ \<Rightarrow> (None, c))"

text \<open>Run an operation of the buffer on \<open>cbb->base\<close>; a NULL base fails.\<close>

definition on_base :: "(cbb_buffer \<Rightarrow> 'a option \<times> cbb_buffer) \<Rightarrow> cbb \<Rightarrow> 'a option \<times> cbb" where
  "on_base f c =
     (case cbb_base c of
        None \<Rightarrow> (None, c)
      | Some b \<Rightarrow> (case f b of (r, b) \<Rightarrow> (r, c\<lparr>cbb_base := Some b\<rparr>)))"


section \<open>Operations\<close>

text \<open>\<open>want_data\<close> and \<open>want_len\<close> say that \<open>out_data\<close> and \<open>out_len\<close> are not NULL; the result is the
  buffer they hand out.\<close>

definition CBB_finish :: "allocator \<Rightarrow> nat \<Rightarrow> bool \<Rightarrow> bool \<Rightarrow> cbb \<Rightarrow> bytes option \<times> cbb" where
  "CBB_finish a h want_data want_len c =
     (if (case chain_from h (cbb_chain c) of [] \<Rightarrow> False | (_, n) # _ \<Rightarrow> cn_is_child n) then (None, c)
      else pbind (CBB_flush a h c) (\<lambda>_ c.
        case cbb_base c of
          None \<Rightarrow> (None, c)
        | Some b \<Rightarrow>
            (if cb_can_resize b \<and> (\<not> want_data \<or> \<not> want_len) then (None, c)
             else (Some (written b), CBB_cleanup c))))"

definition CBB_len :: "nat \<Rightarrow> cbb \<Rightarrow> nat" where
  "CBB_len h c =
     (case (cbb_base c, chain_from h (cbb_chain c)) of
        (Some b, (_, n) # _) \<Rightarrow> cb_len b - cn_offset n - cn_pending_len_len n
      | _ \<Rightarrow> 0)"

text \<open>The bytes \<open>CBB_data\<close> points at, up to \<open>CBB_len\<close>.\<close>

definition CBB_data :: "nat \<Rightarrow> cbb \<Rightarrow> bytes" where
  "CBB_data h c =
     (case (cbb_base c, chain_from h (cbb_chain c)) of
        (Some b, (_, n) # _) \<Rightarrow> drop (cn_offset n + cn_pending_len_len n) (written b)
      | _ \<Rightarrow> [])"

definition attach_child :: "nat \<Rightarrow> nat \<Rightarrow> cbb_node \<Rightarrow> cbb \<Rightarrow> cbb" where
  "attach_child h child n c =
     c\<lparr>cbb_chain := chain_before h (cbb_chain c) @ take 1 (chain_from h (cbb_chain c)) @ [(child, n)]\<rparr>"

definition base_len :: "cbb \<Rightarrow> nat" where
  "base_len c = (case cbb_base c of None \<Rightarrow> 0 | Some b \<Rightarrow> cb_len b)"

definition cbb_add_length_prefixed :: "allocator \<Rightarrow> nat \<Rightarrow> nat \<Rightarrow> nat \<Rightarrow> cbb \<Rightarrow> unit option \<times> cbb" where
  "cbb_add_length_prefixed a h out_contents len_len c =
     pbind (CBB_flush a h c) (\<lambda>_ c.
       let offset = base_len c in
       pbind (on_base (cbb_buffer_add a len_len) c) (\<lambda>prefix_bytes c.
         pbind (on_base (\<lambda>b. (Some (), buf_copy prefix_bytes (replicate len_len 0) b)) c) (\<lambda>_ c.
           (Some (), attach_child h out_contents
              \<lparr>cn_offset = offset, cn_pending_len_len = len_len, cn_pending_is_asn1 = False,
               cn_is_child = True\<rparr> c))))"

definition CBB_add_u8_length_prefixed :: "allocator \<Rightarrow> nat \<Rightarrow> nat \<Rightarrow> cbb \<Rightarrow> unit option \<times> cbb" where
  "CBB_add_u8_length_prefixed a h out_contents c = cbb_add_length_prefixed a h out_contents 1 c"

definition CBB_add_u16_length_prefixed :: "allocator \<Rightarrow> nat \<Rightarrow> nat \<Rightarrow> cbb \<Rightarrow> unit option \<times> cbb" where
  "CBB_add_u16_length_prefixed a h out_contents c = cbb_add_length_prefixed a h out_contents 2 c"

definition CBB_add_u24_length_prefixed :: "allocator \<Rightarrow> nat \<Rightarrow> nat \<Rightarrow> cbb \<Rightarrow> unit option \<times> cbb" where
  "CBB_add_u24_length_prefixed a h out_contents c = cbb_add_length_prefixed a h out_contents 3 c"

definition CBB_add_space :: "allocator \<Rightarrow> nat \<Rightarrow> nat \<Rightarrow> cbb \<Rightarrow> nat option \<times> cbb" where
  "CBB_add_space a h len c = pbind (CBB_flush a h c) (\<lambda>_ c. on_base (cbb_buffer_add a len) c)"

definition CBB_add_bytes :: "allocator \<Rightarrow> nat \<Rightarrow> bytes \<Rightarrow> cbb \<Rightarrow> unit option \<times> cbb" where
  "CBB_add_bytes a h data c =
     pbind (CBB_flush a h c) (\<lambda>_ c.
       pbind (on_base (cbb_buffer_add a (length data)) c) (\<lambda>dest c.
         on_base (\<lambda>b. (Some (), buf_copy dest data b)) c))"

definition CBB_add_zeros :: "allocator \<Rightarrow> nat \<Rightarrow> nat \<Rightarrow> cbb \<Rightarrow> unit option \<times> cbb" where
  "CBB_add_zeros a h len c =
     pbind (CBB_add_space a h len c) (\<lambda>out c.
       on_base (\<lambda>b. (Some (), buf_copy out (replicate len 0) b)) c)"

definition CBB_reserve :: "allocator \<Rightarrow> nat \<Rightarrow> nat \<Rightarrow> cbb \<Rightarrow> nat option \<times> cbb" where
  "CBB_reserve a h len c = pbind (CBB_flush a h c) (\<lambda>_ c. on_base (cbb_buffer_reserve a len) c)"

definition CBB_did_write :: "nat \<Rightarrow> nat \<Rightarrow> cbb \<Rightarrow> unit option \<times> cbb" where
  "CBB_did_write h len c =
     on_base (\<lambda>b.
       let newlen = size_wrap (cb_len b + len) in
       if length (chain_from h (cbb_chain c)) > 1 \<or> newlen < cb_len b \<or> newlen > cb_cap b
       then (None, b)
       else (Some (), b\<lparr>cb_len := newlen\<rparr>)) c"

definition CBB_add_u :: "allocator \<Rightarrow> nat \<Rightarrow> u64 \<Rightarrow> nat \<Rightarrow> cbb \<Rightarrow> unit option \<times> cbb" where
  "CBB_add_u a h v len_len c =
     pbind (CBB_flush a h c) (\<lambda>_ c. on_base (cbb_buffer_add_u a v len_len) c)"

definition CBB_add_u8 :: "allocator \<Rightarrow> nat \<Rightarrow> u8 \<Rightarrow> cbb \<Rightarrow> unit option \<times> cbb" where
  "CBB_add_u8 a h value c = CBB_add_u a h (ucast value) 1 c"

definition CBB_add_u16 :: "allocator \<Rightarrow> nat \<Rightarrow> u16 \<Rightarrow> cbb \<Rightarrow> unit option \<times> cbb" where
  "CBB_add_u16 a h value c = CBB_add_u a h (ucast value) 2 c"

definition CBB_add_u16le :: "allocator \<Rightarrow> nat \<Rightarrow> u16 \<Rightarrow> cbb \<Rightarrow> unit option \<times> cbb" where
  "CBB_add_u16le a h value c = CBB_add_u16 a h (CRYPTO_bswap2 value) c"

definition CBB_add_u24 :: "allocator \<Rightarrow> nat \<Rightarrow> u32 \<Rightarrow> cbb \<Rightarrow> unit option \<times> cbb" where
  "CBB_add_u24 a h value c = CBB_add_u a h (ucast value) 3 c"

definition CBB_add_u32 :: "allocator \<Rightarrow> nat \<Rightarrow> u32 \<Rightarrow> cbb \<Rightarrow> unit option \<times> cbb" where
  "CBB_add_u32 a h value c = CBB_add_u a h (ucast value) 4 c"

definition CBB_add_u32le :: "allocator \<Rightarrow> nat \<Rightarrow> u32 \<Rightarrow> cbb \<Rightarrow> unit option \<times> cbb" where
  "CBB_add_u32le a h value c = CBB_add_u32 a h (CRYPTO_bswap4 value) c"

definition CBB_add_u64 :: "allocator \<Rightarrow> nat \<Rightarrow> u64 \<Rightarrow> cbb \<Rightarrow> unit option \<times> cbb" where
  "CBB_add_u64 a h value c = CBB_add_u a h value 8 c"

definition CBB_add_u64le :: "allocator \<Rightarrow> nat \<Rightarrow> u64 \<Rightarrow> cbb \<Rightarrow> unit option \<times> cbb" where
  "CBB_add_u64le a h value c = CBB_add_u64 a h (CRYPTO_bswap8 value) c"

definition CBB_discard_child :: "nat \<Rightarrow> cbb \<Rightarrow> cbb" where
  "CBB_discard_child h c =
     (case chain_from h (cbb_chain c) of
        me # (_, child) # _ \<Rightarrow>
          c\<lparr>cbb_base := map_option (\<lambda>b. b\<lparr>cb_len := cn_offset child\<rparr>) (cbb_base c),
            cbb_chain := chain_before h (cbb_chain c) @ [me]\<rparr>
      | _ \<Rightarrow> c)"

section \<open>ASN.1\<close>

function base128_len_loop :: "u64 \<Rightarrow> nat \<Rightarrow> nat" where
  "base128_len_loop copy len_len =
     (if copy > 0 then base128_len_loop (drop_bit 7 copy) (len_len + 1) else len_len)"
  by pat_completeness auto
termination
  by (relation "measure (unat \<circ> fst)") (simp_all add: unat_drop_bit word_less_nat_alt)

declare base128_len_loop.simps [simp del]

fun add_base128_loop :: "allocator \<Rightarrow> nat \<Rightarrow> u64 \<Rightarrow> nat \<Rightarrow> cbb \<Rightarrow> unit option \<times> cbb" where
  "add_base128_loop a h v 0 c = (Some (), c)"
| "add_base128_loop a h v (Suc i) c =
     (let byte = ucast (drop_bit (7 * i) v) AND 0x7f;
          byte = (if i \<noteq> 0 then byte OR 0x80 else byte)
      in pbind (CBB_add_u8 a h byte c) (\<lambda>_ c. add_base128_loop a h v i c))"

definition add_base128_integer :: "allocator \<Rightarrow> nat \<Rightarrow> u64 \<Rightarrow> cbb \<Rightarrow> unit option \<times> cbb" where
  "add_base128_integer a h v c =
     (let len_len = base128_len_loop v 0;
          len_len = (if len_len = 0 then 1 else len_len)
      in add_base128_loop a h v len_len c)"

definition CBB_add_asn1 :: "allocator \<Rightarrow> nat \<Rightarrow> nat \<Rightarrow> u32 \<Rightarrow> cbb \<Rightarrow> unit option \<times> cbb" where
  "CBB_add_asn1 a h out_contents tag c =
     pbind (CBB_flush a h c) (\<lambda>_ c.
       let tag_bits = ucast (drop_bit CBS_ASN1_TAG_SHIFT tag) AND 0xe0 :: u8;
           tag_number = tag AND CBS_ASN1_TAG_NUMBER_MASK
       in pbind
            (if tag_number \<ge> 0x1f
             then pbind (CBB_add_u8 a h (tag_bits OR 0x1f) c) (\<lambda>_ c.
                    add_base128_integer a h (ucast tag_number) c)
             else CBB_add_u8 a h (ucast (ucast tag_bits OR tag_number)) c)
            (\<lambda>_ c.
              let offset = base_len c in
              pbind (CBB_add_u8 a h 0 c) (\<lambda>_ c.
                (Some (), attach_child h out_contents
                   \<lparr>cn_offset = offset, cn_pending_len_len = 1, cn_pending_is_asn1 = True,
                    cn_is_child = True\<rparr> c))))"

text \<open>The address of a local variable \<open>CBB child\<close>: one no other \<open>CBB\<close> has.\<close>

definition local_cbb :: "cbb \<Rightarrow> nat" where
  "local_cbb c = Suc (sum_list (map fst (cbb_chain c)))"

fun asn1_uint64_bytes ::
  "allocator \<Rightarrow> nat \<Rightarrow> u64 \<Rightarrow> bool \<Rightarrow> nat list \<Rightarrow> cbb \<Rightarrow> bool option \<times> cbb" where
  "asn1_uint64_bytes a child value started [] c = (Some started, c)"
| "asn1_uint64_bytes a child value started (i # is) c =
     (let byte = ucast (drop_bit (8 * (7 - i)) value AND 0xff) :: u8 in
      if \<not> started \<and> byte = 0 then asn1_uint64_bytes a child value started is c
      else
        pbind (if \<not> started \<and> byte AND 0x80 \<noteq> 0 then CBB_add_u8 a child 0 c else (Some (), c)) (\<lambda>_ c.
          pbind (CBB_add_u8 a child byte c) (\<lambda>_ c.
            asn1_uint64_bytes a child value True is c)))"

definition CBB_add_asn1_uint64 :: "allocator \<Rightarrow> nat \<Rightarrow> u64 \<Rightarrow> cbb \<Rightarrow> unit option \<times> cbb" where
  "CBB_add_asn1_uint64 a h value c =
     (let child = local_cbb c in
      pbind (CBB_add_asn1 a h child CBS_ASN1_INTEGER c) (\<lambda>_ c.
        pbind (asn1_uint64_bytes a child value False [0..<8] c) (\<lambda>started c.
          pbind (if \<not> started then CBB_add_u8 a child 0 c else (Some (), c)) (\<lambda>_ c.
            CBB_flush a h c))))"

fun int64_start :: "bytes \<Rightarrow> nat \<Rightarrow> nat" where
  "int64_start u 0 = 0"
| "int64_start u (Suc start) =
     (if u ! Suc start = 0xff \<and> u ! start AND 0x80 \<noteq> 0 then int64_start u start else Suc start)"

fun asn1_int64_bytes :: "allocator \<Rightarrow> nat \<Rightarrow> bytes \<Rightarrow> nat \<Rightarrow> cbb \<Rightarrow> unit option \<times> cbb" where
  "asn1_int64_bytes a child u 0 c = (Some (), c)"
| "asn1_int64_bytes a child u (Suc i) c =
     pbind (CBB_add_u8 a child (u ! i) c) (\<lambda>_ c. asn1_int64_bytes a child u i c)"

definition CBB_add_asn1_int64 :: "allocator \<Rightarrow> nat \<Rightarrow> u64 \<Rightarrow> cbb \<Rightarrow> unit option \<times> cbb" where
  "CBB_add_asn1_int64 a h value c =
     (if sint value \<ge> 0 then CBB_add_asn1_uint64 a h value c
      else
        let u = le_of_u64 value; start = int64_start u 7; child = local_cbb c in
        pbind (CBB_add_asn1 a h child CBS_ASN1_INTEGER c) (\<lambda>_ c.
          pbind (asn1_int64_bytes a child u (start + 1) c) (\<lambda>_ c. CBB_flush a h c)))"

definition CBB_add_asn1_octet_string :: "allocator \<Rightarrow> nat \<Rightarrow> bytes \<Rightarrow> cbb \<Rightarrow> unit option \<times> cbb" where
  "CBB_add_asn1_octet_string a h data c =
     (let child = local_cbb c in
      pbind (CBB_add_asn1 a h child CBS_ASN1_OCTETSTRING c) (\<lambda>_ c.
        pbind (CBB_add_bytes a child data c) (\<lambda>_ c. CBB_flush a h c)))"

definition CBB_add_asn1_bool :: "allocator \<Rightarrow> nat \<Rightarrow> int \<Rightarrow> cbb \<Rightarrow> unit option \<times> cbb" where
  "CBB_add_asn1_bool a h value c =
     (let child = local_cbb c in
      pbind (CBB_add_asn1 a h child CBS_ASN1_BOOLEAN c) (\<lambda>_ c.
        pbind (CBB_add_u8 a child (if value \<noteq> 0 then 0xff else 0) c) (\<lambda>_ c. CBB_flush a h c)))"

end
