(* ===== verification/Der.thy ===== *)
theory Der
  imports Cbs_Values
begin

text \<open>
  The reference encoding of an ASN.1 element under DER (X.690), stated on natural numbers without
  any of the parser's arithmetic, and the equivalence of the reader of cbs.c with it: the strict
  parser accepts exactly the encodings below and recovers what was encoded.
\<close>

section \<open>Reference encoding\<close>

text \<open>Base 128, most significant digit first, every byte but the last with its high bit set.\<close>

fun base128_hi :: "nat \<Rightarrow> bytes" where
  "base128_hi v = (if v = 0 then [] else base128_hi (v div 128) @ [of_nat (v mod 128 + 128)])"

declare base128_hi.simps [simp del]

definition base128 :: "nat \<Rightarrow> bytes" where
  "base128 v = base128_hi (v div 128) @ [of_nat (v mod 128)]"

text \<open>The tag as \<open>CBS_ASN1\<close> constants have it: class and constructed bit on top of 29 bits.\<close>

definition der_tag :: "u32 \<Rightarrow> bytes" where
  "der_tag tag =
     (let cls = unat tag div 2 ^ 29; number = unat tag mod 2 ^ 29
      in if number < 31 then [of_nat (cls * 32 + number)]
         else of_nat (cls * 32 + 31) # base128 number)"

fun byte_len :: "nat \<Rightarrow> nat" where
  "byte_len n = (if n = 0 then 0 else Suc (byte_len (n div 256)))"

declare byte_len.simps [simp del]

definition der_length :: "nat \<Rightarrow> bytes" where
  "der_length n =
     (if n < 128 then [of_nat n]
      else of_nat (128 + byte_len n) # be_bytes (byte_len n) n)"

definition der_header :: "u32 \<Rightarrow> nat \<Rightarrow> bytes" where
  "der_header tag len = der_tag tag @ der_length len"

definition der_element :: "u32 \<Rightarrow> bytes \<Rightarrow> bytes" where
  "der_element tag contents = der_header tag (length contents) @ contents"

lemma base128_hi_0 [simp]: "base128_hi 0 = []"
  by (simp add: base128_hi.simps)

lemma base128_hi_step:
  "d < 128 \<Longrightarrow> v \<noteq> 0 \<or> d \<noteq> 0 \<Longrightarrow> base128_hi (v * 128 + d) = base128_hi v @ [of_nat (d + 128)]"
  by (subst base128_hi.simps) auto

lemma base128_step: "d < 128 \<Longrightarrow> base128 (v * 128 + d) = base128_hi v @ [of_nat d]"
  by (simp add: base128_def)

lemma byte_len_0 [simp]: "byte_len 0 = 0"
  by (simp add: byte_len.simps)

lemma byte_len_pos: "0 < n \<Longrightarrow> byte_len n = Suc (byte_len (n div 256))"
  by (subst byte_len.simps) simp

lemma byte_len_bounds: "0 < n \<Longrightarrow> 256 ^ (byte_len n - 1) \<le> n \<and> n < 256 ^ byte_len n"
proof (induction n rule: byte_len.induct)
  case (1 n)
  show ?case
  proof (cases "n < 256")
    case True
    then show ?thesis using 1 by (simp add: byte_len_pos)
  next
    case False
    then have pos: "0 < n div 256" "n \<noteq> 0" by auto
    define k where "k = byte_len (n div 256)"
    have k: "0 < k" using pos by (simp add: k_def byte_len_pos)
    have "256 ^ (k - 1) \<le> n div 256 \<and> n div 256 < 256 ^ k" unfolding k_def using 1 pos by simp
    then have "256 ^ (k - 1) * 256 \<le> n" "n < 256 ^ k * 256" by (auto simp: div_less_iff_less_mult less_eq_div_iff_mult_less_eq)
    then show ?thesis using k pos 1(2)
      by (simp add: byte_len_pos flip: k_def power_Suc power_Suc2)
  qed
qed

lemma byte_len_unique:
  assumes k: "0 < k" "256 ^ (k - 1) \<le> n" "n < 256 ^ k"
  shows "byte_len n = k"
proof -
  have "(0 :: nat) < 256 ^ (k - 1)" by simp
  with k have n: "0 < n" by linarith
  note bnd = byte_len_bounds [OF n]
  show ?thesis
  proof (rule ccontr)
    assume "byte_len n \<noteq> k"
    then consider "byte_len n \<le> k - 1" | "k \<le> byte_len n - 1" by linarith
    then show False
    proof cases
      case 1
      then have "(256 :: nat) ^ byte_len n \<le> 256 ^ (k - 1)" by (rule power_increasing) simp
      then show False using bnd k by linarith
    next
      case 2
      then have "(256 :: nat) ^ k \<le> 256 ^ (byte_len n - 1)" by (rule power_increasing) simp
      then show False using bnd k by linarith
    qed
  qed
qed

section \<open>Base 128\<close>

lemma base128_digit:
  assumes "unat (v :: u64) < 2 ^ 57"
  shows "unat (push_bit 7 v OR (ucast (b :: u8) AND 0x7f)) = unat v * 128 + unat b mod 128"
proof -
  have "unat (push_bit 7 v) = unat v * 128" using assms by (simp add: word_nat)
  moreover have "unat (ucast b AND 0x7f :: u64) = unat b mod 128" by (simp add: word_nat)
  ultimately show ?thesis by (subst unat_or_add [of _ 7]) auto
qed

lemma drop_57: "drop_bit (64 - 7) (v :: u64) = 0 \<longleftrightarrow> unat v < 2 ^ 57"
proof -
  have "drop_bit 57 v = 0 \<longleftrightarrow> unat (drop_bit 57 v) = 0" by (simp only: unat_eq_zero)
  then show ?thesis by (simp add: unat_drop_bit div_eq_0_iff)
qed

lemma parse_base128_loop_Nil [simp]: "parse_base128_loop v [] = (None, [])"
  by (simp add: parse_base128_loop.simps)

lemma parse_base128_loop_Cons:
  "parse_base128_loop v (b # s) =
     (let v' = push_bit 7 v OR (ucast b AND 0x7f) in
      if 2 ^ 57 \<le> unat v \<or> v = 0 \<and> b = 0x80 then (None, s)
      else if unat b < 128 then (Some v', s)
      else parse_base128_loop v' s)"
proof -
  have "2 ^ 57 \<le> unat v \<longleftrightarrow> drop_bit (64 - 7) v \<noteq> 0" by (simp only: drop_57 not_less)
  then show ?thesis
    unfolding parse_base128_loop.simps [of v "b # s"] CBS_get_u8_simps pbind_simps and_80_eq_0 Let_def
    by (simp only: if_distrib) auto
qed

lemma leading_80: "v = 0 \<and> b = 0x80 \<longleftrightarrow> unat (v :: u64) = 0 \<and> unat (b :: u8) = 128"
  by (simp add: word_unat_eq_iff)

lemma parse_base128_loop_sound:
  "parse_base128_loop v s = (Some r, s') \<Longrightarrow>
   \<exists>p. s = p @ s' \<and> base128_hi (unat v) @ p = base128 (unat r)"
proof (induction s arbitrary: v)
  case (Cons b s)
  define v' where "v' = push_bit 7 v OR (ucast b AND 0x7f)"
  from Cons.prems have v: "unat v < 2 ^ 57" "\<not> (unat v = 0 \<and> unat b = 128)"
    and step: "(if unat b < 128 then (Some v', s) else parse_base128_loop v' s) = (Some r, s')"
    unfolding parse_base128_loop_Cons leading_80 v'_def Let_def by (auto split: if_splits)
  have v': "unat v' = unat v * 128 + unat b mod 128"
    unfolding v'_def by (rule base128_digit [OF v(1)])
  show ?case
  proof (cases "unat b < 128")
    case True
    then show ?thesis using step v' base128_step [of "unat b mod 128" "unat v"] by auto
  next
    case False
    then have b: "unat b mod 128 + 128 = unat b" by (intro u8_high)
    then have "unat v \<noteq> 0 \<or> unat b mod 128 \<noteq> 0" using v(2) by linarith
    then have "base128_hi (unat v') = base128_hi (unat v) @ [b]"
      unfolding v' by (subst base128_hi_step) (simp_all only: b, auto)
    then show ?thesis using Cons.IH [of v'] step False by auto
  qed
qed simp

lemma parse_base128_loop_hi:
  "unat v = n \<Longrightarrow> parse_base128_loop 0 (base128_hi n @ s) = parse_base128_loop v s"
proof (induction n arbitrary: v s rule: base128_hi.induct)
  case (1 n)
  show ?case
  proof (cases "n = 0")
    case True
    then show ?thesis using 1 by (simp add: unat_eq_zero)
  next
    case False
    define w :: u64 where "w = of_nat (n div 128)"
    define b :: u8 where "b = of_nat (n mod 128 + 128)"
    have n: "n < 2 ^ 64" using 1(2) unat_u64_lt [of v] by simp
    have w: "unat w = n div 128" unfolding w_def using n by (intro unat_of_nat_small) linarith
    have b: "unat b = n mod 128 + 128" unfolding b_def by (intro unat_of_nat_small) linarith
    have "parse_base128_loop 0 (base128_hi n @ s) = parse_base128_loop w (b # s)"
      using 1(1) [OF False w, of "b # s"] by (subst base128_hi.simps) (simp add: False b_def)
    also have "\<dots> = parse_base128_loop (push_bit 7 w OR (ucast b AND 0x7f)) s"
      using False n unfolding parse_base128_loop_Cons leading_80 w b Let_def by (auto simp: div_eq_0_iff)
    also have "push_bit 7 w OR (ucast b AND 0x7f) = v"
      unfolding word_unat_eq_iff by (subst base128_digit) (use n w b 1(2) in auto)
    finally show ?thesis .
  qed
qed

theorem parse_base128_integer_iff:
  "parse_base128_integer s = (Some v, s') \<longleftrightarrow> s = base128 (unat v) @ s'"
proof
  assume "parse_base128_integer s = (Some v, s')"
  then show "s = base128 (unat v) @ s'"
    using parse_base128_loop_sound [of 0] by (auto simp: parse_base128_integer_def)
next
  assume s: "s = base128 (unat v) @ s'"
  define w :: u64 where "w = of_nat (unat v div 128)"
  define b :: u8 where "b = of_nat (unat v mod 128)"
  have v: "unat v < 2 ^ 64" using unat_u64_lt [of v] by simp
  have w: "unat w = unat v div 128" unfolding w_def using v by (intro unat_of_nat_small) linarith
  have w57: "unat w < 2 ^ 57" unfolding w by (rule less_mult_imp_div_less) (use v in simp)
  have b: "unat b = unat v mod 128" unfolding b_def by (intro unat_of_nat_small) linarith
  have "parse_base128_loop 0 s = parse_base128_loop w (b # s')"
    using parse_base128_loop_hi [OF w] by (simp add: s base128_def b_def)
  also have "\<dots> = (Some (push_bit 7 w OR (ucast b AND 0x7f)), s')"
  proof -
    have "\<not> 2 ^ 57 \<le> unat w" using w57 by (simp only: not_le)
    moreover have "unat b < 128" by (simp add: b)
    moreover from this have "\<not> (unat w = 0 \<and> unat b = 128)" by linarith
    ultimately show ?thesis
      unfolding parse_base128_loop_Cons leading_80 Let_def by (simp only: simp_thms if_True if_False)
  qed
  also have "push_bit 7 w OR (ucast b AND 0x7f) = v"
    unfolding word_unat_eq_iff base128_digit [OF w57] using w b by simp
  finally show "parse_base128_integer s = (Some v, s')" by (simp add: parse_base128_integer_def)
qed

section \<open>Tags\<close>

definition mk_tag :: "nat \<Rightarrow> nat \<Rightarrow> u32" where
  "mk_tag cls number = of_nat (cls * 2 ^ 29 + number)"

lemma unat_mk_tag:
  assumes "cls < 8" "number < 2 ^ 29"
  shows "unat (mk_tag cls number) = cls * 2 ^ 29 + number"
proof -
  have "cls * 2 ^ 29 + number < (2 :: nat) ^ 32" using assms by simp
  then show ?thesis unfolding mk_tag_def by (rule unat_of_nat_small)
qed

lemma mk_tag_parts:
  assumes "cls < 8" "number < 2 ^ 29"
  shows "unat (mk_tag cls number) div 2 ^ 29 = cls" "unat (mk_tag cls number) mod 2 ^ 29 = number"
  using assms by (simp_all add: unat_mk_tag)

lemma mk_tag_unat [simp]: "mk_tag (unat t div 2 ^ 29) (unat t mod 2 ^ 29) = t"
  unfolding mk_tag_def by (simp only: div_mult_mod_eq) simp

lemma der_tag_mk_tag:
  assumes "cls < 8" "number < 2 ^ 29"
  shows "der_tag (mk_tag cls number) =
    (if number < 31 then [of_nat (cls * 32 + number)]
     else of_nat (cls * 32 + 31) # base128 number)"
  by (simp only: der_tag_def mk_tag_parts [OF assms] Let_def)

lemma tag_top: "unat (push_bit 24 (ucast (b :: u8) AND 0xe0 :: u32)) = unat b div 32 * 2 ^ 29"
proof -
  have b: "unat b div 32 < 8" using unat_u8_lt [of b] by linarith
  have "unat (ucast b AND 0xe0 :: u32) = unat b div 32 * 32"
    using b by (simp add: unat_and_bits [where k = 5 and n = 3] mask_eq_exp_minus_1 word_nat)
  moreover have "unat b div 32 * 2 ^ 29 < (2 :: nat) ^ 32" using b by simp
  ultimately show ?thesis unfolding unat_push_bit by simp
qed

lemma tag_or:
  assumes "unat (x :: u32) < 2 ^ 29"
  shows "push_bit 24 (ucast (b :: u8) AND 0xe0) OR x = mk_tag (unat b div 32) (unat x)"
proof -
  have "unat b div 32 < 8" using unat_u8_lt [of b] by linarith
  then show ?thesis
    using unat_or_add [of x 29 "push_bit 24 (ucast b AND 0xe0)"] assms
    unfolding word_unat_eq_iff by (simp only: tag_top unat_mk_tag) simp
qed

lemma parse_asn1_tag_Nil [simp]: "parse_asn1_tag [] = (None, [])"
  by (simp add: parse_asn1_tag_def)

lemma parse_asn1_tag_Cons:
  "parse_asn1_tag (b # s) =
     (if unat b mod 32 = 31
      then pbind (parse_base128_integer s) (\<lambda>v s.
             if 31 \<le> unat v \<and> unat v < 2 ^ 29
             then (Some (mk_tag (unat b div 32) (unat v)), s) else (None, s))
      else (Some (mk_tag (unat b div 32) (unat b mod 32)), s))"
proof -
  have num: "unat (ucast (b AND 0x1f) :: u32) = unat b mod 32" by (simp add: word_nat)
  then have low: "ucast (b AND 0x1f) = (0x1f :: u32) \<longleftrightarrow> unat b mod 32 = 31"
    by (simp add: word_unat_eq_iff)
  have "unat b mod 32 < 2 ^ 29" by (rule less_trans [of _ 32]) auto
  then have lowtag: "push_bit 24 (ucast b AND 0xe0) OR ucast (b AND 0x1f) =
      mk_tag (unat b div 32) (unat b mod 32)"
    using tag_or [of "ucast (b AND 0x1f)" b] by (simp only: num)
  have high: "(if v > ucast CBS_ASN1_TAG_NUMBER_MASK \<or> v < 0x1f then (None, s')
        else (Some (push_bit 24 (ucast b AND 0xe0) OR ucast v), s')) =
      (if 31 \<le> unat v \<and> unat v < 2 ^ 29
       then (Some (mk_tag (unat b div 32) (unat v)), s') else (None, s'))"
    for v :: u64 and s' :: cbs
  proof -
    have "v > ucast CBS_ASN1_TAG_NUMBER_MASK \<or> v < 0x1f \<longleftrightarrow> \<not> (31 \<le> unat v \<and> unat v < 2 ^ 29)"
      unfolding word_less_nat_alt CBS_ASN1_TAG_NUMBER_MASK_def by auto
    moreover have "push_bit 24 (ucast b AND 0xe0) OR ucast v = mk_tag (unat b div 32) (unat v)"
      if v: "unat v < 2 ^ 29"
    proof -
      have "unat (ucast v :: u32) = unat v" using v by (simp add: word_nat)
      then show ?thesis using tag_or [of "ucast v" b] v by (simp only:)
    qed
    ultimately show ?thesis by (simp only: split: if_split) blast
  qed
  show ?thesis
    unfolding parse_asn1_tag_def CBS_get_u8_simps pbind_simps Let_def low CBS_ASN1_TAG_SHIFT_def lowtag high ..
qed

lemma of_nat_div_mod_32: "of_nat (unat (b :: u8) div 32 * 32 + unat b mod 32) = b"
  by (simp only: div_mult_mod_eq) simp

theorem parse_asn1_tag_iff: "parse_asn1_tag s = (Some t, s') \<longleftrightarrow> s = der_tag t @ s'"
proof
  assume p: "parse_asn1_tag s = (Some t, s')"
  then obtain b r where s: "s = b # r" by (cases s) auto
  have b8: "unat b div 32 < 8" using unat_u8_lt [of b] by linarith
  note b32 = of_nat_div_mod_32 [of b]
  show "s = der_tag t @ s'"
  proof (cases "unat b mod 32 = 31")
    case True
    with p obtain v where v: "parse_base128_integer r = (Some v, s')" "31 \<le> unat v" "unat v < 2 ^ 29"
      "t = mk_tag (unat b div 32) (unat v)"
      unfolding s parse_asn1_tag_Cons by (auto simp only: pbind_eq_Some split: if_splits)
    then show ?thesis
      using b32 True by (simp add: s parse_base128_integer_iff der_tag_mk_tag b8)
  next
    case False
    have n: "unat b mod 32 < 2 ^ 29" by (rule less_trans [of _ 32]) auto
    have "unat b mod 32 < 31" using False mod_less_divisor [of 32 "unat b"] by linarith
    moreover have "r = s'" "t = mk_tag (unat b div 32) (unat b mod 32)"
      using p False unfolding s parse_asn1_tag_Cons by auto
    ultimately show ?thesis
      using b32 der_tag_mk_tag [OF b8 n] by (simp add: s)
  qed
next
  assume s: "s = der_tag t @ s'"
  define cls number where "cls = unat t div 2 ^ 29" and "number = unat t mod 2 ^ 29"
  have t: "t = mk_tag cls number" by (simp only: cls_def number_def mk_tag_unat)
  have bnd: "cls < 8" "number < 2 ^ 29"
    using unat_u32_lt [of t] unfolding cls_def number_def
    by (auto intro: less_mult_imp_div_less)
  have b: "unat (of_nat (cls * 32 + k) :: u8) = cls * 32 + k" if "k < 32" for k
    using bnd(1) that by (intro unat_of_nat_small) linarith
  show "parse_asn1_tag s = (Some t, s')"
  proof (cases "number < 31")
    case True
    then show ?thesis
      using b [of number] unfolding s t der_tag_mk_tag [OF bnd] append_Cons append_Nil
      by (simp only: if_True parse_asn1_tag_Cons append_Cons append_Nil) simp
  next
    case False
    have n: "unat (of_nat number :: u64) = number" using bnd by (intro unat_of_nat_small) simp
    have "parse_base128_integer (base128 number @ s') = (Some (of_nat number), s')"
      by (simp only: parse_base128_integer_iff n)
    then show ?thesis
      using b [of 31] False bnd n unfolding s t der_tag_mk_tag [OF bnd]
      by (simp only: if_False append_Cons parse_asn1_tag_Cons) simp
  qed
qed

section \<open>Elements\<close>

lemma cbs_get_u_loop_val:
  "unat r * 256 ^ length data + be_val data < 2 ^ 64 \<Longrightarrow>
   unat (cbs_get_u_loop r data) = unat r * 256 ^ length data + be_val data"
proof (induction data arbitrary: r)
  case (Cons b data)
  have "unat r * 256 * 256 ^ length data < 2 ^ 64" using Cons.prems by (simp add: mult.assoc)
  then have "unat r * 256 < 2 ^ 64"
    by (rule le_less_trans [rotated]) (metis mult.right_neutral mult_le_mono2 one_le_numeral one_le_power)
  then have r: "unat (push_bit 8 r) = unat r * 256" by (simp add: unat_push_bit)
  then have "unat (push_bit 8 r OR ucast b) = unat r * 256 + unat b"
    by (subst unat_or_add [of _ 8]) (simp_all add: word_nat)
  with Cons show ?case by (simp add: algebra_simps)
qed simp

lemma cbs_get_u_eq_Some:
  assumes "n \<le> 8"
  shows "cbs_get_u n s = (Some v, s') \<longleftrightarrow>
    (\<exists>d. s = d @ s' \<and> length d = n \<and> unat v = be_val d)"
proof -
  have "unat (cbs_get_u_loop 0 d) = be_val d" if "length d = n" for d
  proof -
    have "be_val d < 256 ^ length d" by (rule be_val_lt)
    also have "\<dots> \<le> 256 ^ 8" using assms that by (intro power_increasing) auto
    finally show ?thesis using cbs_get_u_loop_val [of 0 d] by simp
  qed
  then show ?thesis
    by (auto simp: cbs_get_u_def pbind_eq_Some cbs_get_eq_Some word_unat_eq_iff)
qed

lemma cbs_get_u_append:
  assumes "length d = n" "n \<le> 8"
  shows "cbs_get_u n (d @ s) = (Some (of_nat (be_val d)), s)"
proof -
  have "be_val d < 256 ^ length d" by (rule be_val_lt)
  also have "\<dots> \<le> 256 ^ 8" using assms by (intro power_increasing) auto
  finally have "unat (of_nat (be_val d) :: u64) = be_val d" by (intro unat_of_nat_small) simp
  then show ?thesis using assms by (auto simp: cbs_get_u_eq_Some)
qed

lemma u64_less_128: "(len64 :: u64) < 128 \<longleftrightarrow> unat len64 < 128"
  by (simp add: word_less_nat_alt)

lemma drop_bits_eq_0:
  "drop_bit ((k - 1) * 8) (len64 :: u64) = 0 \<longleftrightarrow> unat len64 < 256 ^ (k - 1)"
proof -
  have "drop_bit ((k - 1) * 8) len64 = 0 \<longleftrightarrow> unat len64 div 2 ^ ((k - 1) * 8) = 0"
    by (simp only: unat_drop_bit flip: unat_eq_zero)
  also have "(2 :: nat) ^ ((k - 1) * 8) = 256 ^ (k - 1)"
    by (simp only: mult.commute [of "k - 1"] power_mult) simp
  finally show ?thesis by (simp add: div_eq_0_iff)
qed

text \<open>The whole parser on natural numbers, once the tag and the length byte are there.\<close>

lemma cbs_get_any_asn1_element_unfold:
  assumes tag: "parse_asn1_tag s = (Some tag, lb # h)"
  shows "cbs_get_any_asn1_element ber_ok s =
    (let hl = length s - length h; nb = unat lb mod 128 in
     if unat lb < 128 then
       pbind (CBS_get_bytes (unat lb + hl) s) (\<lambda>out cbs. (Some (out, tag, hl, False), cbs))
     else if ber_ok \<and> tag AND CBS_ASN1_CONSTRUCTED \<noteq> 0 \<and> nb = 0 then
       pbind (CBS_get_bytes hl s) (\<lambda>out cbs. (Some (out, tag, hl, True), cbs))
     else if nb = 0 \<or> nb > 4 \<or> length h < nb then (None, s)
     else
       let len = be_val (take nb h); long = len < 128 \<or> len < 256 ^ (nb - 1) in
       if \<not> ber_ok \<and> long \<or> size_wrap (len + hl + nb) < len then (None, s)
       else pbind (CBS_get_bytes (len + (hl + nb)) s)
              (\<lambda>out cbs. (Some (out, tag, hl + nb, long), cbs)))"
proof -
  define nb where "nb = unat lb mod 128"
  have nb: "unat (lb AND 0x7f) = nb" by (simp add: word_nat nb_def)
  have u: "cbs_get_u nb h = (if length h < nb then (None, h)
      else (Some (of_nat (be_val (take nb h))), drop nb h))" if "nb \<le> 4"
  proof (cases "length h < nb")
    case True
    then show ?thesis by (simp add: cbs_get_u_def cbs_get_def CBS_len_def)
  next
    case False
    then have "cbs_get_u nb (take nb h @ drop nb h) = (Some (of_nat (be_val (take nb h))), drop nb h)"
      using that by (intro cbs_get_u_append) auto
    then show ?thesis using False by simp
  qed
  have v: "unat (of_nat (be_val (take nb h)) :: u64) = be_val (take nb h)" if "nb \<le> 4"
  proof -
    have "be_val (take nb h) < 256 ^ length (take nb h)" by (rule be_val_lt)
    also have "\<dots> \<le> 256 ^ 4" using that by (intro power_increasing) auto
    finally show ?thesis by (intro unat_of_nat_small) simp
  qed
  have base: "cbs_get_any_asn1_element ber_ok s =
     (let hl = length s - length h in
      if unat lb < 128 then
        pbind (CBS_get_bytes (unat lb + hl) s) (\<lambda>out cbs. (Some (out, tag, hl, False), cbs))
      else if ber_ok \<and> tag AND CBS_ASN1_CONSTRUCTED \<noteq> 0 \<and> nb = 0 then
        pbind (CBS_get_bytes hl s) (\<lambda>out cbs. (Some (out, tag, hl, True), cbs))
      else if nb = 0 \<or> nb > 4 then (None, s)
      else (case cbs_get_u nb h of (None, _) \<Rightarrow> (None, s)
        | (Some len64, _) \<Rightarrow>
          let len = unat len64; long = len < 128 \<or> len < 256 ^ (nb - 1) in
          if \<not> ber_ok \<and> long \<or> size_wrap (len + hl + nb) < len then (None, s)
          else pbind (CBS_get_bytes (len + (hl + nb)) s)
                 (\<lambda>out cbs. (Some (out, tag, hl + nb, long), cbs))))"
    unfolding cbs_get_any_asn1_element_def tag prod.case option.case CBS_get_u8_simps
      and_80_eq_0 nb CBS_len_def Let_def u64_less_128 drop_bits_eq_0
    by (auto split: option.split prod.split)
  show ?thesis
  proof (cases "nb \<le> 4")
    case True
    then show ?thesis
      unfolding base u [OF True] by (simp only: flip: nb_def) (simp add: Let_def v [OF True])
  next
    case False
    then show ?thesis unfolding base by (simp only: flip: nb_def) (simp add: Let_def)
  qed
qed

lemma cbs_get_any_asn1_element_fail:
  assumes "\<nexists>tag lb h. parse_asn1_tag s = (Some tag, lb # h)"
  shows "cbs_get_any_asn1_element ber_ok s = (None, s)"
proof -
  have "CBS_get_u8 h = (None, h)" if "parse_asn1_tag s = (Some tag, h)" for tag h
    using assms that by (cases h) auto
  then show ?thesis by (auto simp: cbs_get_any_asn1_element_def split: prod.split option.split)
qed

lemma length_base128_hi: "v < 128 ^ k \<Longrightarrow> length (base128_hi v) \<le> k"
proof (induction k arbitrary: v)
  case (Suc k)
  then have "v div 128 < 128 ^ k" by (intro less_mult_imp_div_less) (simp add: mult.commute)
  then have "length (base128_hi (v div 128)) \<le> k" by (rule Suc.IH)
  then show ?case by (subst base128_hi.simps) simp
qed simp

lemma length_der_tag: "length (der_tag t) \<le> 6"
proof -
  have "unat t mod 2 ^ 29 div 128 < 128 ^ 4"
    by (rule less_mult_imp_div_less, rule less_trans [of _ "2 ^ 29"]) simp_all
  then have "length (base128_hi (unat t mod 2 ^ 29 div 128)) \<le> 4" by (rule length_base128_hi)
  then show ?thesis unfolding der_tag_def base128_def Let_def by simp
qed

lemma der_length_short: "n < 128 \<Longrightarrow> der_length n = [of_nat n]"
  by (simp add: der_length_def)

lemma der_length_long: "128 \<le> n \<Longrightarrow> der_length n = of_nat (128 + byte_len n) # be_bytes (byte_len n) n"
  by (simp add: der_length_def)

lemma byte_len_le_4: "n < 2 ^ 32 \<Longrightarrow> byte_len n \<le> 4"
proof (rule ccontr)
  assume n: "n < 2 ^ 32" and "\<not> byte_len n \<le> 4"
  then have *: "4 \<le> byte_len n - 1" "0 < n" by (auto simp: byte_len.simps [of n] split: if_splits)
  have "256 ^ 4 \<le> (256 :: nat) ^ (byte_len n - 1)" using *(1) by (rule power_increasing) simp
  also have "\<dots> \<le> n" using byte_len_bounds [OF *(2)] by simp
  finally show False using n by simp
qed

text \<open>
  Completeness: an encoding followed by anything is parsed, in both modes. Soundness: whatever the
  strict parser accepts is an encoding.
\<close>

lemma cbs_get_any_asn1_element_der:
  assumes len: "length c < 2 ^ 32"
  shows "cbs_get_any_asn1_element ber_ok (der_element tag c @ rest) =
    (Some (der_element tag c, tag, length (der_header tag (length c)), False), rest)"
proof (cases "length c < 128")
  case True
  define s where "s = der_element tag c @ rest"
  have s: "s = der_tag tag @ of_nat (length c) # (c @ rest)"
    using True by (simp add: s_def der_element_def der_header_def der_length_short)
  then have "parse_asn1_tag s = (Some tag, of_nat (length c) # (c @ rest))"
    by (simp add: parse_asn1_tag_iff)
  moreover have "unat (of_nat (length c) :: u8) = length c" using True by (intro unat_of_nat_small) simp
  ultimately have "cbs_get_any_asn1_element ber_ok s = pbind (CBS_get_bytes (length c + (length s - length (c @ rest))) s)
      (\<lambda>out cbs. (Some (out, tag, length s - length (c @ rest), False), cbs))"
    using True by (simp add: cbs_get_any_asn1_element_unfold Let_def)
  moreover have "CBS_get_bytes (length c + (length s - length (c @ rest))) s = (Some (der_element tag c), rest)"
    using True by (auto simp: CBS_get_bytes_eq_Some s der_element_def der_header_def der_length_short)
  moreover have "length s - length (c @ rest) = length (der_header tag (length c))"
    using True by (simp add: s der_header_def der_length_short)
  ultimately show ?thesis by (simp flip: s_def)
next
  case False
  define k d where "k = byte_len (length c)" and "d = be_bytes k (length c)"
  define s where "s = der_element tag c @ rest"
  have "0 < length c" using False by linarith
  from byte_len_bounds [OF this] have bnd: "256 ^ (k - 1) \<le> length c" "length c < 256 ^ k"
    unfolding k_def by blast+
  have k: "0 < k" "k \<le> 4"
    using \<open>0 < length c\<close> byte_len_le_4 [OF len] unfolding k_def by (simp_all only: byte_len_pos zero_less_Suc)
  have d: "length d = k" "be_val d = length c" using bnd by (simp_all add: d_def be_val_be_bytes)
  have s: "s = der_tag tag @ of_nat (128 + k) # (d @ c @ rest)"
    using False by (simp add: s_def der_element_def der_header_def der_length_long d_def k_def)
  then have tag: "parse_asn1_tag s = (Some tag, of_nat (128 + k) # (d @ c @ rest))"
    by (simp only: parse_asn1_tag_iff)
  have lb: "unat (of_nat (128 + k) :: u8) = 128 + k" using k by (intro unat_of_nat_small) simp
  have hl: "length s - length (d @ c @ rest) = length (der_tag tag) + 1" by (simp add: s)
  have "size_wrap (length c + (length (der_tag tag) + 1) + k) = length c + (length (der_tag tag) + 1) + k"
    unfolding size_wrap_def using len k length_der_tag [of tag] by (intro mod_less) simp
  then have "cbs_get_any_asn1_element ber_ok s =
      pbind (CBS_get_bytes (length c + (length (der_tag tag) + 1 + k)) s)
        (\<lambda>out cbs. (Some (out, tag, length (der_tag tag) + 1 + k, False), cbs))"
    unfolding cbs_get_any_asn1_element_unfold [OF tag] lb hl
    using bnd(1) k False d by (simp add: Let_def not_less)
  moreover have "CBS_get_bytes (length c + (length (der_tag tag) + 1 + k)) s = (Some (der_element tag c), rest)"
    using False d
    by (auto simp: CBS_get_bytes_eq_Some s der_element_def der_header_def der_length_long d_def k_def)
  ultimately show ?thesis
    using False by (simp add: der_header_def der_length_long flip: s_def k_def)
qed

lemma der_element_long:
  assumes "256 ^ (nb - 1) \<le> length c" "length c < 256 ^ nb" "128 \<le> length c" "0 < nb"
    and "be_val d = length c" "length d = nb"
  shows "der_element tag c = der_tag tag @ of_nat (128 + nb) # d @ c"
proof -
  have "byte_len (length c) = nb" using assms by (intro byte_len_unique) auto
  moreover have "be_bytes nb (length c) = d" using be_bytes_be_val [of d] assms by simp
  ultimately show ?thesis using assms by (simp add: der_element_def der_header_def der_length_long)
qed

lemma cbs_get_any_asn1_element_sound:
  assumes "cbs_get_any_asn1_element False s = (Some (out, tag, hl, bf), rest)"
  shows "\<not> bf \<and> (\<exists>c. length c < 2 ^ 32 \<and> out = der_element tag c \<and>
    hl = length (der_header tag (length c)) \<and> s = out @ rest)"
proof -
  obtain tag' lb h where p: "parse_asn1_tag s = (Some tag', lb # h)"
    using assms cbs_get_any_asn1_element_fail [of s False] by auto
  then have s: "s = der_tag tag' @ lb # h" by (simp add: parse_asn1_tag_iff)
  have hl: "length s - length h = length (der_tag tag') + 1" by (simp add: s)
  define nb where "nb = unat lb mod 128"
  note a = assms [unfolded cbs_get_any_asn1_element_unfold [OF p] hl Let_def nb_def [symmetric]]
  show ?thesis
  proof (cases "unat lb < 128")
    case True
    with a have r: "s = out @ rest" "length out = unat lb + (length (der_tag tag') + 1)"
      "tag' = tag" "hl = length (der_tag tag') + 1" "\<not> bf"
      by (auto simp: pbind_eq_Some CBS_get_bytes_eq_Some)
    define c where "c = drop (length (der_tag tag') + 1) out"
    have "out = take (length (der_tag tag') + 1) s @ c" "length c = unat lb"
      using r by (simp_all add: c_def)
    moreover have "take (length (der_tag tag') + 1) s = der_tag tag' @ [lb]" by (simp add: s)
    ultimately show ?thesis using r True
      by (intro conjI exI [of _ c]) (simp_all add: der_element_def der_header_def der_length_short)
  next
    case False
    have lb: "of_nat (128 + nb) = lb"
    proof -
      have "128 + nb = unat lb" using u8_high [OF False] by (simp add: nb_def)
      then show ?thesis by simp
    qed
    define d where "d = take nb h"
    from a False have nb: "0 < nb" "nb \<le> 4" "nb \<le> length h" "128 \<le> be_val d" "256 ^ (nb - 1) \<le> be_val d"
      unfolding d_def by (simp_all add: not_less split: if_split_asm)
    from a False nb have r: "s = out @ rest" "length out = be_val d + (length (der_tag tag') + 1 + nb)"
      "tag' = tag" "hl = length (der_tag tag') + 1 + nb" "\<not> bf"
      by (auto simp: pbind_eq_Some CBS_get_bytes_eq_Some simp flip: d_def split: if_split_asm)
    define c where "c = drop (length (der_tag tag') + 1 + nb) out"
    have d: "length d = nb" using nb by (simp add: d_def)
    have "out = take (length (der_tag tag') + 1 + nb) s @ c" and c: "length c = be_val d"
      using r by (simp_all add: c_def)
    moreover have "take (length (der_tag tag') + 1 + nb) s = der_tag tag' @ lb # d"
      by (simp add: s d_def)
    ultimately have out: "out = der_tag tag @ lb # d @ c" using r(3) by simp
    have lt: "be_val d < 256 ^ nb" using be_val_lt [of d] by (simp only: d)
    also have "\<dots> \<le> 256 ^ 4" using nb(2) by (rule power_increasing) simp
    finally have "length c < 2 ^ 32" by (simp add: c)
    moreover have "der_element tag c = der_tag tag @ of_nat (128 + nb) # d @ c"
      by (rule der_element_long) (simp_all only: c nb lt d)
    then have "out = der_element tag c" by (simp only: out lb)
    moreover have "length (der_header tag (length c)) = hl"
      using c nb r(3,4) d byte_len_unique [of nb "be_val d"] be_val_lt [of d]
      by (simp add: der_header_def der_length_long)
    ultimately show ?thesis using r by blast
  qed
qed

theorem CBS_get_any_asn1_element_iff:
  "CBS_get_any_asn1_element s = (Some (out, tag, hl), rest) \<longleftrightarrow>
   (\<exists>c. length c < 2 ^ 32 \<and> out = der_element tag c \<and>
        hl = length (der_header tag (length c)) \<and> s = out @ rest)"
proof
  assume "CBS_get_any_asn1_element s = (Some (out, tag, hl), rest)"
  then obtain bf where "cbs_get_any_asn1_element False s = (Some (out, tag, hl, bf), rest)"
    by (auto simp: CBS_get_any_asn1_element_def pbind_eq_Some)
  from cbs_get_any_asn1_element_sound [OF this]
  show "\<exists>c. length c < 2 ^ 32 \<and> out = der_element tag c \<and>
        hl = length (der_header tag (length c)) \<and> s = out @ rest" by blast
qed (auto simp: CBS_get_any_asn1_element_def cbs_get_any_asn1_element_der)

end
