(* ===== verification/Cbb_Buffer.thy ===== *)
theory Cbb_Buffer
  imports Cbb Der
begin

text \<open>
  The buffer under a \<open>CBB\<close> as a byte string: what each store leaves in the bytes written so far,
  and that a buffer which grows keeps them, never lets its length pass its capacity and marks
  itself when it cannot grow.
\<close>

section \<open>Stores\<close>

lemma length_written [simp]: "length (written b) = cb_len b"
  by (simp add: written_def)

lemma written_nth: "i < cb_len b \<Longrightarrow> written b ! i = cb_buf b i"
  by (simp add: written_def)

lemma written_eqI:
  assumes "length xs = cb_len b" "\<And>i. i < cb_len b \<Longrightarrow> cb_buf b i = xs ! i"
  shows "written b = xs"
  using assms by (auto intro: nth_equalityI simp: written_nth)

lemma written_split: "length p + length s = cb_len b \<Longrightarrow> written b = p @ s \<longleftrightarrow>
    (\<forall>i < length p. cb_buf b i = p ! i) \<and> (\<forall>i < length s. cb_buf b (length p + i) = s ! i)"
proof
  assume *: "written b = p @ s" "length p + length s = cb_len b"
  then have "i < length p + length s \<Longrightarrow> cb_buf b i = (p @ s) ! i" for i
    using written_nth [of i b] by simp
  then show "(\<forall>i < length p. cb_buf b i = p ! i) \<and> (\<forall>i < length s. cb_buf b (length p + i) = s ! i)"
    by (auto simp: nth_append)
next
  assume *: "(\<forall>i < length p. cb_buf b i = p ! i) \<and> (\<forall>i < length s. cb_buf b (length p + i) = s ! i)"
    "length p + length s = cb_len b"
  show "written b = p @ s"
  proof (rule written_eqI)
    fix i assume "i < cb_len b"
    then show "cb_buf b i = (p @ s) ! i"
      using * spec [OF conjunct2 [OF *(1)], of "i - length p"] by (cases "i < length p") (auto simp: nth_append)
  qed (use * in simp)
qed

text \<open>A store leaves everything but the memory alone.\<close>

definition same_shape :: "cbb_buffer \<Rightarrow> cbb_buffer \<Rightarrow> bool" where
  "same_shape b b' \<longleftrightarrow> cb_len b' = cb_len b \<and> cb_cap b' = cb_cap b \<and>
     cb_can_resize b' = cb_can_resize b \<and> cb_error b' = cb_error b"

lemma same_shape_refl [simp]: "same_shape b b"
  by (simp add: same_shape_def)

lemma same_shape_trans: "same_shape b b' \<Longrightarrow> same_shape b' b'' \<Longrightarrow> same_shape b b''"
  by (simp add: same_shape_def)

lemma same_shape_stores [simp]:
  "same_shape b (buf_copy d xs b)" "same_shape b (buf_move d s n b)" "same_shape b (buf_store i v b)"
  by (simp_all add: same_shape_def buf_copy_def buf_move_def buf_store_def)

lemma written_buf_copy:
  assumes "written b = p @ x @ s" "length x = length d" "dest = length p"
  shows "written (buf_copy dest d b) = p @ d @ s"
proof (rule written_eqI)
  have l: "cb_len b = length p + length d + length s"
    using arg_cong [OF assms(1), of length] assms(2) by simp
  then show "length (p @ d @ s) = cb_len (buf_copy dest d b)" by (simp add: buf_copy_def)
  fix i assume "i < cb_len (buf_copy dest d b)"
  then have i: "i < cb_len b" by (simp add: buf_copy_def)
  have "cb_buf b i = (p @ x @ s) ! i" using written_nth [OF i] assms(1) by simp
  then show "cb_buf (buf_copy dest d b) i = (p @ d @ s) ! i"
    using i l assms(2,3) by (auto simp: buf_copy_def nth_append)
qed

lemma written_buf_store:
  assumes "written b = p @ x # s" "i = length p"
  shows "written (buf_store i v b) = p @ v # s"
proof -
  have "buf_store i v b = buf_copy i [v] b"
    by (auto simp: buf_store_def buf_copy_def fun_eq_iff intro!: cbb_buffer.equality)
  then show ?thesis using written_buf_copy [of b p "[x]" s "[v]" i] assms by simp
qed

lemma written_buf_move:
  assumes "written b = p @ xs @ zs" "src = length p" "dest = src + length zs" "n = length xs"
  shows "written (buf_move dest src n b) = p @ take (length zs) (xs @ zs) @ xs"
proof (rule written_eqI)
  have l: "cb_len b = length p + length xs + length zs"
    using arg_cong [OF assms(1), of length] by simp
  then show "length (p @ take (length zs) (xs @ zs) @ xs) = cb_len (buf_move dest src n b)"
    by (simp add: buf_move_def)
  fix i assume "i < cb_len (buf_move dest src n b)"
  then have i: "i < cb_len b" by (simp add: buf_move_def)
  have eq: "j < cb_len b \<Longrightarrow> cb_buf b j = (p @ xs @ zs) ! j" for j
    using written_nth [of j b] assms(1) by simp
  show "cb_buf (buf_move dest src n b) i = (p @ take (length zs) (xs @ zs) @ xs) ! i"
  proof (cases "dest \<le> i")
    case True
    then obtain k where k: "i = dest + k" by (auto simp: le_iff_add)
    then have "k < length xs" using i l assms(2,3) by simp
    then have "cb_buf b (src + k) = xs ! k"
      using eq [of "src + k"] l assms(2) by (simp add: nth_append)
    moreover define q where "q = take (length zs) (xs @ zs)"
    have "length q = length zs" by (simp add: q_def)
    then have "(p @ q @ xs) ! i = xs ! k" using k assms(2,3) by (simp add: nth_append)
    ultimately show ?thesis
      unfolding q_def [symmetric] using \<open>k < length xs\<close> k assms(4) by (simp add: buf_move_def)
  next
    case False
    then show ?thesis
      using eq [OF i] assms(2,3) by (auto simp: buf_move_def nth_append)
  qed
qed

lemma store_be_eq:
  assumes "written b = p @ x @ s" "length x = n" "off = length p" "store_be off n v b = (v', b')"
  shows "v' = v div 256 ^ n \<and> written b' = p @ be_bytes n v @ s \<and> same_shape b b'"
  using assms
proof (induction off n v b arbitrary: x s rule: store_be.induct)
  case (2 off i v b)
  from 2(3) obtain y z where x: "x = y @ [z]" and y: "length y = i" by (cases x rule: rev_cases) auto
  have "written b = (p @ y) @ z # s" using 2(2) x by simp
  then have w: "written (buf_store (off + i) (of_nat v) b) = p @ y @ of_nat v # s"
    using written_buf_store [of b "p @ y" z s "off + i"] y 2(4) by simp
  have st: "store_be off i (v div 256) (buf_store (off + i) (of_nat v) b) = (v', b')"
    using 2(5) by simp
  from "2.IH" [OF w y 2(4) st] show ?case
    using same_shape_trans [OF same_shape_stores(3)] by (auto simp: div_mult2_eq)
qed simp

section \<open>Growing\<close>

definition buf_ok :: "cbb_buffer \<Rightarrow> bool" where
  "buf_ok b \<longleftrightarrow> \<not> cb_error b \<and> cb_len b \<le> cb_cap b \<and> cb_cap b < 2 ^ 64"

text \<open>There is room for a total of \<open>n\<close> bytes: a fixed buffer is that long, a growing one has an
  allocator that delivers.\<close>

definition room :: "allocator \<Rightarrow> cbb_buffer \<Rightarrow> nat \<Rightarrow> bool" where
  "room a b n \<longleftrightarrow> (if cb_can_resize b then plentiful a \<and> n < 2 ^ 62 else n \<le> cb_cap b)"

lemma room_mono: "room a b n \<Longrightarrow> m \<le> n \<Longrightarrow> room a b m"
  by (auto simp: room_def split: if_splits)

lemma buf_ok_shape: "same_shape b b' \<Longrightarrow> buf_ok b' \<longleftrightarrow> buf_ok b"
  by (simp add: same_shape_def buf_ok_def)

lemma room_shape: "same_shape b b' \<Longrightarrow> room a b' n \<longleftrightarrow> room a b n"
  by (simp add: same_shape_def room_def)

lemma size_wrap_le: "size_wrap n \<le> n" "size_wrap n < 2 ^ 64"
  by (simp_all add: size_wrap_def)

lemma size_wrap_small [simp]: "n < 2 ^ 64 \<Longrightarrow> size_wrap n = n"
  by (simp add: size_wrap_def)

lemma size_wrap_add: "n < 2 ^ 64 \<Longrightarrow> m < 2 ^ 64 \<Longrightarrow> size_wrap (m + n) < m \<longleftrightarrow> \<not> m + n < 2 ^ 64"
proof (cases "m + n < 2 ^ 64")
  case False
  assume "n < 2 ^ 64" "m < 2 ^ 64"
  then have "size_wrap (m + n) = m + n - 2 ^ 64"
    using False by (simp add: size_wrap_def mod_if)
  then show ?thesis using False \<open>n < 2 ^ 64\<close> by simp
qed simp

text \<open>The capacity the buffer grows to.\<close>

definition grow_cap :: "cbb_buffer \<Rightarrow> nat \<Rightarrow> nat" where
  "grow_cap b newlen =
     (if size_wrap (cb_cap b * 2) < cb_cap b \<or> size_wrap (cb_cap b * 2) < newlen then newlen
      else size_wrap (cb_cap b * 2))"

lemma cbb_buffer_reserve_eq:
  assumes "cb_len b + n < 2 ^ 64"
  shows "cbb_buffer_reserve a n b =
    (if cb_len b + n \<le> cb_cap b then (Some (cb_len b), b)
     else if \<not> cb_can_resize b then (None, cbb_buffer_err b)
     else case OPENSSL_realloc a (Some (cb_buf b, cb_cap b)) (grow_cap b (cb_len b + n)) of
            None \<Rightarrow> (None, cbb_buffer_err b)
          | Some f \<Rightarrow> (Some (cb_len b), b\<lparr>cb_buf := f, cb_cap := grow_cap b (cb_len b + n)\<rparr>))"
  unfolding cbb_buffer_reserve_def Let_def size_wrap_small [OF assms] grow_cap_def [symmetric]
  by (auto simp: not_le)

lemma grow_cap_bounds:
  "newlen \<le> grow_cap b newlen"
  "newlen < 2 ^ 64 \<Longrightarrow> grow_cap b newlen < 2 ^ 64"
  "newlen < 2 ^ 62 \<Longrightarrow> cb_cap b < newlen \<Longrightarrow> grow_cap b newlen < 2 ^ 63"
proof -
  show "newlen \<le> grow_cap b newlen" by (auto simp: grow_cap_def)
  show "newlen < 2 ^ 64 \<Longrightarrow> grow_cap b newlen < 2 ^ 64"
    using size_wrap_le(2) [of "cb_cap b * 2"] by (auto simp: grow_cap_def)
  assume "newlen < 2 ^ 62" "cb_cap b < newlen"
  then have "cb_cap b * 2 < 2 ^ 63" "newlen < 2 ^ 63" by simp_all
  moreover note size_wrap_le(1) [of "cb_cap b * 2"]
  ultimately have "size_wrap (cb_cap b * 2) < 2 ^ 63" "newlen < 2 ^ 63" by linarith+
  then show "grow_cap b newlen < 2 ^ 63" unfolding grow_cap_def by (split if_split) blast
qed

lemma cbb_buffer_reserve_cases:
  assumes "buf_ok b" "n < 2 ^ 64" "cbb_buffer_reserve a n b = (r, b')"
  shows "(r = None \<and> b' = cbb_buffer_err b) \<or>
    (r = Some (cb_len b) \<and> buf_ok b' \<and> written b' = written b \<and> cb_len b' = cb_len b \<and>
     cb_len b + n \<le> cb_cap b' \<and> cb_can_resize b' = cb_can_resize b \<and>
     (\<not> cb_can_resize b \<longrightarrow> b' = b))"
proof -
  have b: "cb_len b \<le> cb_cap b" "cb_cap b < 2 ^ 64" "\<not> cb_error b" using assms(1) by (auto simp: buf_ok_def)
  show ?thesis
  proof (cases "cb_len b + n < 2 ^ 64")
    case False
    then have "size_wrap (cb_len b + n) < cb_len b" using size_wrap_add [of n "cb_len b"] assms(2) b by simp
    then show ?thesis using assms(3) by (simp add: cbb_buffer_reserve_def Let_def)
  next
    case True
    note eq = assms(3) [unfolded cbb_buffer_reserve_eq [OF True]]
    show ?thesis
    proof (cases "cb_len b + n \<le> cb_cap b \<or> \<not> cb_can_resize b")
      case True
      then show ?thesis using eq assms(1) by (auto split: if_split_asm)
    next
      case False
      define cap where "cap = grow_cap b (cb_len b + n)"
      have cap: "cb_len b + n \<le> cap" "cap < 2 ^ 64"
        using grow_cap_bounds(1,2) [of "cb_len b + n" b] True by (simp_all add: cap_def)
      show ?thesis
      proof (cases "OPENSSL_realloc a (Some (cb_buf b, cb_cap b)) cap")
        case None
        then show ?thesis using eq False by (simp flip: cap_def)
      next
        case (Some f)
        have r: "r = Some (cb_len b)" "b' = b\<lparr>cb_buf := f, cb_cap := cap\<rparr>"
          using eq False Some by (simp_all flip: cap_def)
        moreover have "f i = cb_buf b i" if "i < cb_len b" for i
          using realloc_prefix [OF Some, of i] that b(1) cap(1) by simp
        ultimately show ?thesis using cap b(3) False by (simp add: buf_ok_def written_def)
      qed
    qed
  qed
qed

lemma cbb_buffer_reserve_room:
  assumes "buf_ok b" "room a b (cb_len b + n)"
  shows "\<exists>b'. cbb_buffer_reserve a n b = (Some (cb_len b), b')"
proof (cases "cb_len b + n \<le> cb_cap b")
  case True
  then have "cb_len b + n < 2 ^ 64" using assms(1) unfolding buf_ok_def by linarith
  then show ?thesis using True by (simp add: cbb_buffer_reserve_eq)
next
  case False
  then have res: "cb_can_resize b" and p: "plentiful a" and n: "cb_len b + n < 2 ^ 62"
    using assms(2) by (auto simp: room_def split: if_splits)
  have "grow_cap b (cb_len b + n) < 2 ^ 63" using n False by (intro grow_cap_bounds) simp_all
  then obtain f where "OPENSSL_realloc a (Some (cb_buf b, cb_cap b)) (grow_cap b (cb_len b + n)) = Some f"
    using realloc_plentiful [OF p] by blast
  moreover have "cb_len b + n < 2 ^ 64" using n by simp
  ultimately show ?thesis using res by (simp add: cbb_buffer_reserve_eq)
qed

lemma room_reserve:
  assumes "buf_ok b" "n < 2 ^ 64" "cbb_buffer_reserve a n b = (Some r, b')"
  shows "room a' b' m \<longleftrightarrow> room a' b m"
  using cbb_buffer_reserve_cases [OF assms] by (auto simp: room_def)

lemma cbb_buffer_add_cases:
  assumes "buf_ok b" "n < 2 ^ 64" "cbb_buffer_add a n b = (r, b')"
  shows "(r = None \<and> b' = cbb_buffer_err b) \<or>
    (r = Some (cb_len b) \<and> buf_ok b' \<and> cb_can_resize b' = cb_can_resize b \<and>
     (\<forall>a m. room a b' m \<longleftrightarrow> room a b m) \<and>
     (\<exists>zs. length zs = n \<and> written b' = written b @ zs))"
proof -
  obtain r1 b1 where r1: "cbb_buffer_reserve a n b = (r1, b1)" by (cases "cbb_buffer_reserve a n b")
  from cbb_buffer_reserve_cases [OF assms(1,2) r1] show ?thesis
  proof (elim disjE conjE, goal_cases)
    case 1
    then show ?thesis using assms(3) r1 by (simp add: cbb_buffer_add_def)
  next
    case 2
    then have b': "r = Some (cb_len b)" "b' = b1\<lparr>cb_len := cb_len b1 + n\<rparr>"
      using assms(3) r1 by (simp_all add: cbb_buffer_add_def)
    have "written b' = written b1 @ map (cb_buf b1) [cb_len b..<cb_len b + n]"
    proof -
      have "[0..<cb_len b + n] = [0..<cb_len b] @ [cb_len b..<cb_len b + n]"
        by (rule upt_add_eq_append) simp
      then show ?thesis by (simp add: written_def b'(2) 2)
    qed
    moreover have "buf_ok b'" using 2 by (simp add: buf_ok_def b')
    moreover have "room a b' m \<longleftrightarrow> room a b m" for a m
      using 2 by (auto simp: room_def b')
    ultimately show ?thesis using 2 b' by auto
  qed
qed

lemma cbb_buffer_add_room:
  assumes "buf_ok b" "room a b (cb_len b + n)"
  shows "\<exists>b'. cbb_buffer_add a n b = (Some (cb_len b), b')"
  using cbb_buffer_reserve_room [OF assms] by (auto simp: cbb_buffer_add_def)

end
