(* ===== verification/Cbb_Frames.thy ===== *)
theory Cbb_Frames
  imports Cbb_Buffer
begin

text \<open>
  What a builder means: a stack of frames, one per \<open>CBB\<close> of the chain, each with the kind of its
  length prefix and the bytes of its contents so far. Closing a frame puts its prefix before its
  contents and both at the end of its parent's. The theorems of this theory show that
  \<open>CBB_flush\<close>, which moves bytes inside one flat buffer, closes the frames below a \<open>CBB\<close>, and that
  every operation that writes appends to the frame of its \<open>CBB\<close>.
\<close>

section \<open>Frames\<close>

datatype frame_kind = Root | Prefixed nat | Asn1

type_synonym frame = "nat \<times> frame_kind \<times> bytes"

fun placeholder :: "frame_kind \<Rightarrow> nat" where
  "placeholder Root = 0"
| "placeholder (Prefixed n) = n"
| "placeholder Asn1 = 1"

fun prefix_bytes :: "frame_kind \<Rightarrow> nat \<Rightarrow> bytes option" where
  "prefix_bytes Root n = None"
| "prefix_bytes (Prefixed l) n = (if n < 256 ^ l then Some (be_bytes l n) else None)"
| "prefix_bytes Asn1 n = (if n \<le> 0xfffffffe then Some (der_length n) else None)"

fun layout :: "frame list \<Rightarrow> bytes" where
  "layout [] = []"
| "layout ((h, k, xs) # fs) = replicate (placeholder k) 0 @ xs @ layout fs"

fun nodes :: "nat \<Rightarrow> frame list \<Rightarrow> (nat \<times> cbb_node) list" where
  "nodes off [] = []"
| "nodes off ((h, k, xs) # fs) =
     (h, \<lparr>cn_offset = off, cn_pending_len_len = placeholder k, cn_pending_is_asn1 = (k = Asn1),
          cn_is_child = (k \<noteq> Root)\<rparr>) # nodes (off + placeholder k + length xs) fs"

text \<open>The bytes a list of child frames becomes when all of them are closed.\<close>

fun collapse :: "frame list \<Rightarrow> bytes option" where
  "collapse [] = Some []"
| "collapse ((h, k, xs) # fs) =
     (case collapse fs of
        None \<Rightarrow> None
      | Some ys \<Rightarrow>
          (case prefix_bytes k (length (xs @ ys)) of None \<Rightarrow> None | Some p \<Rightarrow> Some (p @ xs @ ys)))"

definition child_kind :: "frame_kind \<Rightarrow> bool" where
  "child_kind k \<longleftrightarrow> k \<noteq> Root \<and> placeholder k \<noteq> 0"

abbreviation child_frames :: "frame list \<Rightarrow> bool" where
  "child_frames fs \<equiv> list_all (\<lambda>(h, k, xs). child_kind k) fs"

lemma layout_append: "layout (fs @ gs) = layout fs @ layout gs"
  by (induction fs rule: layout.induct) auto

lemma nodes_append: "nodes off (fs @ gs) = nodes off fs @ nodes (off + length (layout fs)) gs"
  by (induction off fs rule: nodes.induct) (auto simp: add.assoc)

lemma map_fst_nodes [simp]: "map fst (nodes off fs) = map fst fs"
  by (induction off fs rule: nodes.induct) auto

lemma length_prefix_bytes: "prefix_bytes k n = Some p \<Longrightarrow> placeholder k \<le> length p"
  by (cases k) (auto simp: der_length_def split: if_splits)

lemma length_collapse: "collapse fs = Some ys \<Longrightarrow> length (layout fs) \<le> length ys"
  by (induction fs arbitrary: ys rule: collapse.induct)
     (fastforce split: option.splits dest: length_prefix_bytes)+

section \<open>Closing\<close>

text \<open>The buffer after an operation that succeeded.\<close>

definition grown :: "cbb_buffer \<Rightarrow> cbb_buffer \<Rightarrow> bool" where
  "grown b b' \<longleftrightarrow> buf_ok b' \<and> cb_can_resize b' = cb_can_resize b \<and> (\<forall>a m. room a b' m \<longleftrightarrow> room a b m)"

lemma grown_refl: "buf_ok b \<Longrightarrow> grown b b"
  by (simp add: grown_def)

lemma grown_trans: "grown b b' \<Longrightarrow> grown b' b'' \<Longrightarrow> grown b b''"
  by (simp add: grown_def)

lemma grown_shape: "same_shape b b' \<Longrightarrow> buf_ok b \<Longrightarrow> grown b b'"
  unfolding grown_def by (auto simp: buf_ok_shape room_shape) (simp_all add: same_shape_def)

lemma cbb_buffer_add_grown:
  assumes "buf_ok b" "n < 2 ^ 64" "cbb_buffer_add a n b = (Some d, b')"
  shows "d = cb_len b \<and> grown b b' \<and> (\<exists>zs. length zs = n \<and> written b' = written b @ zs)"
  using cbb_buffer_add_cases [OF assms] by (auto simp: grown_def)

lemma asn1_prefix_len_eq:
  "asn1_prefix_len n =
     (if n > 0xfffffffe then None
      else if n < 128 then Some (1, of_nat n, 0)
      else Some (1 + byte_len n, of_nat (128 + byte_len n), n))"
proof -
  have "0x80 OR 4 = (0x84 :: u8)" "0x80 OR 3 = (0x83 :: u8)" "0x80 OR 2 = (0x82 :: u8)" "0x80 OR 1 = (0x81 :: u8)"
    by simp_all
  moreover consider "n > 0xfffffffe" | "n \<le> 0xfffffffe" "n > 0xffffff" | "n \<le> 0xffffff" "n > 0xffff"
    | "n \<le> 0xffff" "n > 0xff" | "n \<le> 0xff" "n > 0x7f" | "n < 128" by linarith
  then show ?thesis
  proof cases
    case 2 then have "byte_len n = 4" by (intro byte_len_unique) simp_all
    with 2 show ?thesis by (simp add: asn1_prefix_len_def)
  next
    case 3 then have "byte_len n = 3" by (intro byte_len_unique) simp_all
    with 3 show ?thesis by (simp add: asn1_prefix_len_def)
  next
    case 4 then have "byte_len n = 2" by (intro byte_len_unique) simp_all
    with 4 show ?thesis by (simp add: asn1_prefix_len_def)
  next
    case 5 then have "byte_len n = 1" by (intro byte_len_unique) simp_all
    with 5 show ?thesis by (simp add: asn1_prefix_len_def)
  qed (simp_all add: asn1_prefix_len_def)
qed

lemma flush_asn1_short:
  assumes "n < 128"
  shows "flush_asn1_prefix a st n c b =
    (Some (0, c\<lparr>cn_offset := cn_offset c + 1, cn_pending_len_len := 0\<rparr>),
     buf_store (cn_offset c) (of_nat n) b)"
  using assms by (simp add: flush_asn1_prefix_def asn1_prefix_len_eq)

lemma flush_asn1_long:
  assumes "128 \<le> n" "n \<le> 0xfffffffe"
  shows "flush_asn1_prefix a st n c b =
    pbind (cbb_buffer_add a (byte_len n) b) (\<lambda>_ b.
      (Some (n, c\<lparr>cn_offset := cn_offset c + 1, cn_pending_len_len := byte_len n\<rparr>),
       buf_store (cn_offset c) (of_nat (128 + byte_len n)) (buf_move (st + byte_len n) st n b)))"
proof -
  have "byte_len n \<noteq> 0" using assms by (simp add: byte_len_pos)
  then show ?thesis using assms
    by (simp add: flush_asn1_prefix_def asn1_prefix_len_eq Let_def pbind_assoc del: of_nat_add)
qed

text \<open>Writing the prefix of one child whose contents are at the end of the buffer.\<close>

abbreviation child_node :: "nat \<Rightarrow> frame_kind \<Rightarrow> cbb_node" where
  "child_node off k \<equiv> \<lparr>cn_offset = off, cn_pending_len_len = placeholder k,
     cn_pending_is_asn1 = (k = Asn1), cn_is_child = (k \<noteq> Root)\<rparr>"

lemma flush_prefix_Prefixed:
  assumes "buf_ok b" "written b = pre @ replicate l 0 @ xs"
  shows "\<exists>b'. flush_prefix a (length pre + l) (child_node (length pre) (Prefixed l)) b =
      (if length xs < 256 ^ l then Some () else None, b') \<and>
    grown b b' \<and> (length xs < 256 ^ l \<longrightarrow> written b' = pre @ be_bytes l (length xs) @ xs)"
proof -
  obtain v' b' where st: "store_be (length pre) l (length xs) b = (v', b')"
    by (cases "store_be (length pre) l (length xs) b")
  from store_be_eq [OF assms(2) _ refl st]
  have "v' = length xs div 256 ^ l" "written b' = pre @ be_bytes l (length xs) @ xs" "same_shape b b'"
    by simp_all
  moreover have "cb_len b - (length pre + l) = length xs"
    using arg_cong [OF assms(2), of length] by simp
  ultimately show ?thesis
    using st assms(1) grown_shape by (auto simp: flush_prefix_def Let_def div_eq_0_iff)
qed

lemma flush_prefix_Asn1_short:
  assumes "buf_ok b" "written b = pre @ 0 # xs" "length xs < 128"
  shows "\<exists>b'. flush_prefix a (Suc (length pre)) (child_node (length pre) Asn1) b = (Some (), b') \<and>
    grown b b' \<and> written b' = pre @ der_length (length xs) @ xs"
proof -
  have "cb_len b - Suc (length pre) = length xs"
    using arg_cong [OF assms(2), of length] by simp
  then have "flush_prefix a (Suc (length pre)) (child_node (length pre) Asn1) b =
      (Some (), buf_store (length pre) (of_nat (length xs)) b)"
    using assms(3) by (simp add: flush_prefix_def Let_def flush_asn1_short)
  moreover have "written (buf_store (length pre) (of_nat (length xs)) b) = pre @ der_length (length xs) @ xs"
    using written_buf_store [OF assms(2) refl] assms(3) by (simp add: der_length_short)
  ultimately show ?thesis using grown_shape [OF same_shape_stores(3) assms(1)] by blast
qed

lemma flush_prefix_Asn1_long:
  assumes ok: "buf_ok b" and w: "written b = pre @ 0 # xs" and n: "128 \<le> length xs" "length xs \<le> 0xfffffffe"
    and "cbb_buffer_add a (byte_len (length xs)) b = (Some d, b1)"
  shows "\<exists>b'. flush_prefix a (Suc (length pre)) (child_node (length pre) Asn1) b = (Some (), b') \<and>
    grown b b' \<and> written b' = pre @ der_length (length xs) @ xs"
proof -
  define k where "k = byte_len (length xs)"
  define n where "n = length xs"
  have "0 < length xs" using n by linarith
  then have k: "0 < k" "k \<le> 4"
    using n byte_len_le_4 [of "length xs"] by (simp_all add: k_def byte_len_pos)
  have "k < 2 ^ 64" using k by simp
  from cbb_buffer_add_grown [OF ok this assms(5) [folded k_def]] obtain zs where
    g: "grown b b1" and zs: "length zs = k" and w1: "written b1 = written b @ zs"
    by blast
  have len: "cb_len b - Suc (length pre) = n" using arg_cong [OF w, of length] by (simp add: n_def)
  define b2 where "b2 = buf_move (Suc (length pre) + k) (Suc (length pre)) n b1"
  define q where "q = take k (xs @ zs)"
  have q: "length q = k" using zs by (simp add: q_def)
  have "written b1 = (pre @ [0]) @ xs @ zs" using w1 w by simp
  from written_buf_move [OF this, of "Suc (length pre)" "Suc (length pre) + k" n]
  have w2: "written b2 = pre @ 0 # q @ xs"
    unfolding b2_def q_def using zs by (simp add: n_def)
  define b3 where "b3 = buf_store (length pre) (of_nat (128 + k)) b2"
  have w3: "written b3 = (pre @ [of_nat (128 + k)]) @ q @ xs"
    unfolding b3_def using written_buf_store [OF w2 refl] by simp
  obtain v b4 where st: "store_be (Suc (length pre)) k n b3 = (v, b4)"
    by (cases "store_be (Suc (length pre)) k n b3")
  have "v = n div 256 ^ k \<and> written b4 = (pre @ [of_nat (128 + k)]) @ be_bytes k n @ xs \<and> same_shape b3 b4"
    by (rule store_be_eq [OF w3 q _ st]) simp
  moreover have "n < 256 ^ k" using byte_len_bounds [OF \<open>0 < length xs\<close>] by (simp add: n_def k_def)
  ultimately have v: "v = 0" and w4: "written b4 = pre @ der_length n @ xs" and s: "same_shape b3 b4"
    using n(1) by (simp_all add: der_length_long n_def k_def)
  have "flush_prefix a (Suc (length pre)) (child_node (length pre) Asn1) b = (Some (), b4)"
  proof -
    have "byte_len n = k" by (simp add: k_def n_def)
    then show ?thesis using assms(5) st [unfolded b3_def b2_def] v
      by (simp add: flush_prefix_def Let_def len flush_asn1_long [OF n, folded n_def]
          flip: n_def del: of_nat_add)
  qed
  moreover have "same_shape b1 b4"
    using s same_shape_trans [OF same_shape_stores(2) same_shape_trans [OF same_shape_stores(3)]]
    by (simp add: b2_def b3_def)
  then have "grown b b4" using g grown_trans grown_shape by (meson grown_def)
  ultimately show ?thesis using w4 by (auto simp: n_def)
qed

lemma flush_prefix_Asn1_fail:
  assumes "written b = pre @ 0 # xs" "128 \<le> length xs"
    and "length xs > 0xfffffffe \<or> fst (cbb_buffer_add a (byte_len (length xs)) b) = None"
  shows "fst (flush_prefix a (Suc (length pre)) (child_node (length pre) Asn1) b) = None"
proof -
  have len: "cb_len b - Suc (length pre) = length xs"
    using arg_cong [OF assms(1), of length] by simp
  show ?thesis
  proof (cases "length xs > 0xfffffffe")
    case True
    then show ?thesis by (simp add: flush_prefix_def Let_def len flush_asn1_prefix_def asn1_prefix_len_eq)
  next
    case False
    then have "length xs \<le> 0xfffffffe" by simp
    then show ?thesis using assms False
      by (cases "cbb_buffer_add a (byte_len (length xs)) b")
        (simp add: flush_prefix_def Let_def len flush_asn1_long)
  qed
qed

lemma flush_prefix_cases:
  assumes ok: "buf_ok b" and w: "written b = pre @ replicate (placeholder k) 0 @ xs" and k: "k \<noteq> Root"
    and f: "flush_prefix a (length pre + placeholder k) (child_node (length pre) k) b = (r, b')"
  shows "r \<noteq> None \<Longrightarrow> \<exists>p. prefix_bytes k (length xs) = Some p \<and> written b' = pre @ p @ xs \<and> grown b b'"
    and "prefix_bytes k (length xs) = Some p \<Longrightarrow> room a b (length (pre @ p @ xs)) \<Longrightarrow> r \<noteq> None"
proof -
  consider (prefixed) l where "k = Prefixed l" | (short) "k = Asn1" "length xs < 128"
    | (long) "k = Asn1" "128 \<le> length xs" using k by (cases k) force+
  then have "(r \<noteq> None \<longrightarrow> (\<exists>p. prefix_bytes k (length xs) = Some p \<and> written b' = pre @ p @ xs \<and> grown b b')) \<and>
    (\<forall>p. prefix_bytes k (length xs) = Some p \<longrightarrow> room a b (length (pre @ p @ xs)) \<longrightarrow> r \<noteq> None)"
  proof cases
    case prefixed
    then show ?thesis using flush_prefix_Prefixed [OF ok, of pre l xs a] w f by (auto split: if_splits)
  next
    case short
    then show ?thesis using flush_prefix_Asn1_short [OF ok, of pre xs a] w f by auto
  next
    case long
    have w': "written b = pre @ 0 # xs" using w long by simp
    show ?thesis
    proof (cases "length xs > 0xfffffffe \<or> fst (cbb_buffer_add a (byte_len (length xs)) b) = None")
      case True
      have "r = None" using flush_prefix_Asn1_fail [OF w' long(2) True] f long(1) by simp
      moreover have "\<not> room a b (length (pre @ p @ xs))" if "prefix_bytes k (length xs) = Some p" for p
      proof
        assume "room a b (length (pre @ p @ xs))"
        moreover have "length p = 1 + byte_len (length xs)" "length xs \<le> 0xfffffffe"
          using that long by (auto simp: der_length_long split: if_splits)
        ultimately have "room a b (cb_len b + byte_len (length xs))"
          using arg_cong [OF w', of length] by (simp add: add_ac)
        then show False using cbb_buffer_add_room [OF ok] True \<open>length xs \<le> 0xfffffffe\<close> by fastforce
      qed
      ultimately show ?thesis by auto
    next
      case False
      then obtain d b1 where "cbb_buffer_add a (byte_len (length xs)) b = (Some d, b1)"
        by (cases "cbb_buffer_add a (byte_len (length xs)) b") auto
      with flush_prefix_Asn1_long [OF ok w' long(2) _ this] False f long show ?thesis by auto
    qed
  qed
  then show "r \<noteq> None \<Longrightarrow> \<exists>p. prefix_bytes k (length xs) = Some p \<and> written b' = pre @ p @ xs \<and> grown b b'"
    and "prefix_bytes k (length xs) = Some p \<Longrightarrow> room a b (length (pre @ p @ xs)) \<Longrightarrow> r \<noteq> None"
    by blast+
qed

end
