(* ===== verification/Sinks.thy ===== *)
theory Sinks
  imports Prelude
begin

text \<open>
  The interface a serialiser needs of whatever it writes to: a call that appends one byte and
  fails only when there is no space left. A loop that hands out a list of bytes through it appends
  all of them.
\<close>

fun put_all :: "(u8 \<Rightarrow> 's \<Rightarrow> unit option \<times> 's) \<Rightarrow> bytes \<Rightarrow> 's \<Rightarrow> unit option \<times> 's" where
  "put_all put [] s = (Some (), s)"
| "put_all put (b # bs) s = pbind (put b s) (\<lambda>_ s. put_all put bs s)"

lemma put_all_single [simp]: "put_all put [b] = put b"
  by (auto simp: pbind_def split: prod.split option.split)

lemma put_all_append:
  "put_all put (xs @ ys) s = pbind (put_all put xs s) (\<lambda>_ s. put_all put ys s)"
proof (induction xs arbitrary: s)
  case (Cons x xs)
  have "put_all put (xs @ ys) = (\<lambda>s. pbind (put_all put xs s) (\<lambda>_ s. put_all put ys s))"
    by (rule ext) (rule Cons.IH)
  then show ?case by (simp add: pbind_assoc)
qed simp

locale byte_sink =
  fixes put :: "u8 \<Rightarrow> 's \<Rightarrow> unit option \<times> 's"
    and holds :: "bytes \<Rightarrow> 's \<Rightarrow> bool"
    and space :: "nat \<Rightarrow> 's \<Rightarrow> bool"
  assumes put_Some:
      "holds xs s \<Longrightarrow> put b s = (Some (), s') \<Longrightarrow> holds (xs @ [b]) s' \<and> (\<forall>n. space n s' \<longleftrightarrow> space n s)"
    and put_None: "holds xs s \<Longrightarrow> put b s = (None, s') \<Longrightarrow> \<not> space (length xs + 1) s"
    and space_mono: "space n s \<Longrightarrow> m \<le> n \<Longrightarrow> space m s"
begin

lemma put_all_Some:
  "holds xs s \<Longrightarrow> put_all put bs s = (Some (), s') \<Longrightarrow>
   holds (xs @ bs) s' \<and> (\<forall>n. space n s' \<longleftrightarrow> space n s)"
proof (induction bs arbitrary: xs s)
  case (Cons b bs)
  from Cons.prems(2) obtain s1 where 1: "put b s = (Some (), s1)" "put_all put bs s1 = (Some (), s')"
    by (auto simp: pbind_eq_Some)
  note put_Some [OF Cons.prems(1) 1(1)]
  with Cons.IH [of "xs @ [b]" s1] 1(2) show ?case by simp
qed simp

lemma put_all_None:
  "holds xs s \<Longrightarrow> put_all put bs s = (None, s') \<Longrightarrow> \<not> space (length xs + length bs) s"
proof (induction bs arbitrary: xs s)
  case (Cons b bs)
  then consider "put b s = (None, s')" | s1 where "put b s = (Some (), s1)" "put_all put bs s1 = (None, s')"
    by (auto simp: pbind_eq_None)
  then show ?case
  proof cases
    case 1
    then show ?thesis using put_None [OF Cons.prems(1)] space_mono by fastforce
  next
    case 2
    note put_Some [OF Cons.prems(1) 2(1)]
    with Cons.IH [of "xs @ [b]" s1] 2(2) show ?thesis by simp
  qed
qed simp

text \<open>With space for all of them, all are written.\<close>

theorem put_all_space:
  assumes "holds xs s" "space (length xs + length bs) s"
  obtains s' where "put_all put bs s = (Some (), s')" "holds (xs @ bs) s'"
  using put_all_Some [OF assms(1), of bs] put_all_None [OF assms(1), of bs] assms(2)
  by (cases "put_all put bs s") (metis option.exhaust old.unit.exhaust)

end

end
