(* ===== verification/Cbb_Refine.thy ===== *)
theory Cbb_Refine
  imports Cbb_Frames Sinks
begin

text \<open>
  The builder refines the stack of frames: \<open>rep fs c\<close> relates the state of a builder to its
  frames, flushing a \<open>CBB\<close> closes the frames below it, and the writing operations append to the
  last frame. \<open>appends\<close> is the contract that the compound operations are built from.
\<close>

section \<open>Flushing closes frames\<close>

lemma flush_children_cases:
  assumes "buf_ok b" "written b = pre @ layout fs" "child_frames fs"
    and "flush_children a (nodes (length pre) fs) b = (r, b', cs')"
  shows "(r \<noteq> None \<longrightarrow> cs' = [] \<and> (\<exists>ys. collapse fs = Some ys \<and> written b' = pre @ ys \<and> grown b b')) \<and>
    (r = None \<longrightarrow> cb_error b') \<and>
    (\<forall>ys. collapse fs = Some ys \<longrightarrow> room a b (length pre + length ys) \<longrightarrow> r \<noteq> None)"
  using assms
proof (induction fs arbitrary: pre b r b' cs' rule: collapse.induct)
  case 1
  then show ?case using grown_refl by (auto simp: buf_ok_def)
next
  case (2 h k xs fs)
  have k: "k \<noteq> Root" "placeholder k \<noteq> 0" and fs: "child_frames fs" using "2.prems"(3) by (auto simp: child_kind_def)
  have err: "\<not> cb_error b" using "2.prems"(1) by (simp add: buf_ok_def)
  have len: "cb_len b = length pre + placeholder k + length xs + length (layout fs)"
    using arg_cong [OF "2.prems"(2), of length] by simp
  then have wrap: "size_wrap (length pre + placeholder k) = length pre + placeholder k"
    using "2.prems"(1) unfolding buf_ok_def by (intro size_wrap_small) linarith
  define pre1 where "pre1 = pre @ replicate (placeholder k) 0 @ xs"
  obtain r1 b1 cs1 where f1: "flush_children a (nodes (length pre1) fs) b = (r1, b1, cs1)"
    by (cases "flush_children a (nodes (length pre1) fs) b")
  have "length pre1 = length pre + placeholder k + length xs" by (simp add: pre1_def)
  note f1' = f1 [unfolded this]
  have IH: "(r1 \<noteq> None \<longrightarrow> cs1 = [] \<and> (\<exists>ys. collapse fs = Some ys \<and> written b1 = pre1 @ ys \<and> grown b b1)) \<and>
    (r1 = None \<longrightarrow> cb_error b1) \<and>
    (\<forall>ys. collapse fs = Some ys \<longrightarrow> room a b (length pre1 + length ys) \<longrightarrow> r1 \<noteq> None)"
    using "2.prems"(2) by (intro "2.IH" [OF "2.prems"(1) _ fs f1]) (simp add: pre1_def)
  show ?case
  proof (cases r1)
    case None
    then have "r = None" "cb_error b'" using "2.prems"(4) f1' err k(2) wrap
      by (auto simp: cbb_buffer_err_def Let_def)
    moreover have "\<not> room a b (length pre + length zs)" if zs: "collapse ((h, k, xs) # fs) = Some zs" for zs
    proof
      assume room: "room a b (length pre + length zs)"
      from zs obtain ys p where ys: "collapse fs = Some ys" "prefix_bytes k (length (xs @ ys)) = Some p"
          "zs = p @ xs @ ys" by (auto split: option.splits)
      have "length pre1 + length ys \<le> length pre + length zs"
        using length_prefix_bytes [OF ys(2)] by (simp add: pre1_def ys(3))
      then show False using room_mono [OF room] IH ys(1) None by blast
    qed
    ultimately show ?thesis by blast
  next
    case (Some u)
    then obtain ys where ys: "collapse fs = Some ys" "written b1 = pre1 @ ys" "grown b b1" using IH by blast
    have ok1: "buf_ok b1" using ys(3) by (simp add: grown_def)
    have w1: "written b1 = pre @ replicate (placeholder k) 0 @ (xs @ ys)" using ys(2) by (simp add: pre1_def)
    have len1: "\<not> cb_len b1 < length pre + placeholder k"
      using arg_cong [OF w1, of length] by simp
    obtain r2 b2 where f2: "flush_prefix a (length pre + placeholder k) (child_node (length pre) k) b1 = (r2, b2)"
      by (cases "flush_prefix a (length pre + placeholder k) (child_node (length pre) k) b1")
    note fp = flush_prefix_cases [OF ok1 w1 k(1) f2]
    have res: "(r, b', cs') = (case r2 of None \<Rightarrow> (None, cbb_buffer_err b2, nodes (length pre) ((h, k, xs) # fs) )
        | Some _ \<Rightarrow> (Some (), b2, [])) \<or> r2 = None \<and> r = None \<and> cb_error b'"
      using "2.prems"(4) f1' f2 Some err k(2) wrap len1
      by (cases r2) (auto simp: Let_def cbb_buffer_err_def)
    show ?thesis
    proof (cases r2)
      case None
      then have "r = None" "cb_error b'" using res by (auto simp: cbb_buffer_err_def)
      moreover have "\<not> room a b (length pre + length zs)" if "collapse ((h, k, xs) # fs) = Some zs" for zs
        using that fp(2) None ys(1,3) by (auto simp: grown_def split: option.splits)
      ultimately show ?thesis by blast
    next
      case (Some u)
      then have "r = Some ()" "b' = b2" "cs' = []" using res by auto
      moreover obtain p where "prefix_bytes k (length (xs @ ys)) = Some p" "written b2 = pre @ p @ xs @ ys" "grown b1 b2"
        using fp(1) Some by auto
      ultimately show ?thesis using ys(1) grown_trans [OF ys(3)] by auto
    qed
  qed
qed

section \<open>The representation\<close>

definition wf_frames :: "frame list \<Rightarrow> bool" where
  "wf_frames fs \<longleftrightarrow> fs \<noteq> [] \<and> fst (snd (hd fs)) = Root \<and> child_frames (tl fs) \<and> distinct (map fst fs)"

definition rep :: "frame list \<Rightarrow> cbb \<Rightarrow> bool" where
  "rep fs c \<longleftrightarrow> wf_frames fs \<and> cbb_chain c = nodes 0 fs \<and>
     (\<exists>b. cbb_base c = Some b \<and> buf_ok b \<and> written b = layout fs)"

text \<open>The builder has room for a total of \<open>n\<close> bytes.\<close>

definition roomy :: "allocator \<Rightarrow> nat \<Rightarrow> cbb \<Rightarrow> bool" where
  "roomy a n c \<longleftrightarrow> (case cbb_base c of None \<Rightarrow> False | Some b \<Rightarrow> room a b n)"

definition same_room :: "cbb \<Rightarrow> cbb \<Rightarrow> bool" where
  "same_room c c' \<longleftrightarrow> (\<forall>a n. roomy a n c' \<longleftrightarrow> roomy a n c)"

text \<open>The builder is gone or has recorded an error.\<close>

definition failed :: "cbb \<Rightarrow> bool" where
  "failed c \<longleftrightarrow> (case cbb_base c of None \<Rightarrow> True | Some b \<Rightarrow> cb_error b)"

lemma roomy_mono: "roomy a n c \<Longrightarrow> m \<le> n \<Longrightarrow> roomy a m c"
  by (auto simp: roomy_def split: option.splits intro: room_mono)

lemma same_room_refl [simp]: "same_room c c"
  by (simp add: same_room_def)

lemma same_room_trans: "same_room c c' \<Longrightarrow> same_room c' c'' \<Longrightarrow> same_room c c''"
  by (simp add: same_room_def)

lemma same_room_sym: "same_room c c' \<Longrightarrow> roomy a n c' \<longleftrightarrow> roomy a n c"
  by (simp add: same_room_def)

lemma rep_not_failed: "rep fs c \<Longrightarrow> \<not> failed c"
  by (auto simp: rep_def failed_def buf_ok_def)

lemma wf_frames_append:
  "wf_frames (fs @ [(h, k, xs)]) \<longleftrightarrow>
   (if fs = [] then k = Root else wf_frames fs \<and> child_kind k \<and> h \<notin> fst ` set fs)"
  by (auto simp: wf_frames_def)

lemma wf_frames_prefix: "wf_frames (fs @ (h, k, xs) # gs) \<Longrightarrow> wf_frames (fs @ [(h, k, ys)]) \<and> child_frames gs"
  by (cases fs) (auto simp: wf_frames_def)

lemma chain_split:
  assumes "distinct (map fst (fs @ (h, k, xs) # gs))"
  shows "chain_before h (nodes 0 (fs @ (h, k, xs) # gs)) = nodes 0 fs"
    "chain_from h (nodes 0 (fs @ (h, k, xs) # gs)) =
     (h, child_node (length (layout fs)) k) # nodes (length (layout fs) + placeholder k + length xs) gs"
proof -
  have "h \<notin> set (map fst (nodes 0 fs))" using assms by simp
  then have *: "\<forall>p \<in> set (nodes 0 fs). fst p \<noteq> h" by (auto simp del: map_fst_nodes)
  show "chain_before h (nodes 0 (fs @ (h, k, xs) # gs)) = nodes 0 fs"
    using * by (auto simp: chain_before_def nodes_append takeWhile_append2)
  show "chain_from h (nodes 0 (fs @ (h, k, xs) # gs)) =
     (h, child_node (length (layout fs)) k) # nodes (length (layout fs) + placeholder k + length xs) gs"
    using * by (auto simp: chain_from_def nodes_append dropWhile_append2)
qed

lemma CBB_flush_cases:
  assumes rep: "rep (fs @ (h, k, xs) # gs) c" and f: "CBB_flush a h c = (r, c')"
  shows "r \<noteq> None \<Longrightarrow> \<exists>ys. collapse gs = Some ys \<and> rep (fs @ [(h, k, xs @ ys)]) c' \<and> same_room c c'"
    and "r = None \<Longrightarrow> failed c'"
    and "collapse gs = Some ys \<Longrightarrow> roomy a (length (layout (fs @ [(h, k, xs @ ys)]))) c \<Longrightarrow> r \<noteq> None"
proof -
  from rep obtain b where b: "cbb_base c = Some b" "buf_ok b" "written b = layout (fs @ (h, k, xs) # gs)"
    and wf: "wf_frames (fs @ (h, k, xs) # gs)" and ch: "cbb_chain c = nodes 0 (fs @ (h, k, xs) # gs)"
    by (auto simp: rep_def)
  have d: "distinct (map fst (fs @ (h, k, xs) # gs))" using wf by (simp add: wf_frames_def)
  define pre where "pre = layout (fs @ [(h, k, xs)])"
  have w: "written b = pre @ layout gs" using b(3) by (simp add: pre_def layout_append)
  have lp: "length pre = length (layout fs) + placeholder k + length xs" by (simp add: pre_def layout_append)
  obtain r1 b1 cs1 where f1: "flush_children a (nodes (length pre) gs) b = (r1, b1, cs1)"
    by (cases "flush_children a (nodes (length pre) gs) b")
  have r: "r = r1" "c' = c\<lparr>cbb_base := Some b1,
      cbb_chain := nodes 0 fs @ (h, child_node (length (layout fs)) k) # cs1\<rparr>"
    using f f1 unfolding lp by (simp_all add: CBB_flush_def b(1) ch chain_split [OF d])
  note fc = flush_children_cases [OF b(2) w conjunct2 [OF wf_frames_prefix [OF wf]] f1]
  note fc1 = mp [OF conjunct1 [OF fc]] and fc2 = mp [OF conjunct1 [OF conjunct2 [OF fc]]]
    and fc3 = mp [OF mp [OF spec [OF conjunct2 [OF conjunct2 [OF fc]]]]]
  show "r = None \<Longrightarrow> failed c'" using fc2 by (simp add: r failed_def)
  have "length (layout (fs @ [(h, k, xs @ ys)])) = length pre + length ys"
    by (simp add: lp layout_append)
  then show "collapse gs = Some ys \<Longrightarrow> roomy a (length (layout (fs @ [(h, k, xs @ ys)]))) c \<Longrightarrow> r \<noteq> None"
    using fc3 by (simp add: r(1) roomy_def b(1))
  assume "r \<noteq> None"
  then obtain ys where ys: "collapse gs = Some ys" "written b1 = pre @ ys" "grown b b1" "cs1 = []"
    using fc1 r(1) by blast
  have w1: "written b1 = layout (fs @ [(h, k, xs @ ys)])" "buf_ok b1"
    using ys(2,3) by (simp_all add: pre_def layout_append grown_def)
  have ch1: "cbb_base c' = Some b1" "cbb_chain c' = nodes 0 (fs @ [(h, k, xs @ ys)])"
    by (simp_all add: r ys(4) nodes_append)
  have "rep (fs @ [(h, k, xs @ ys)]) c'"
    unfolding rep_def ch1 using w1 conjunct1 [OF wf_frames_prefix [OF wf]] by blast
  moreover have "same_room c c'" using ys(3) by (simp add: same_room_def roomy_def grown_def r b(1))
  ultimately show "\<exists>ys. collapse gs = Some ys \<and> rep (fs @ [(h, k, xs @ ys)]) c' \<and> same_room c c'"
    using ys(1) by blast
qed

lemma CBB_flush_last: "rep (fs @ [(h, k, xs)]) c \<Longrightarrow> CBB_flush a h c = (Some (), c)"
proof -
  assume rep: "rep (fs @ [(h, k, xs)]) c"
  then obtain b where b: "cbb_base c = Some b" "buf_ok b"
    and wf: "wf_frames (fs @ [(h, k, xs)])" and ch: "cbb_chain c = nodes 0 (fs @ [(h, k, xs)])"
    by (auto simp: rep_def)
  have d: "distinct (map fst (fs @ [(h, k, xs)]))" using wf by (simp add: wf_frames_def)
  show ?thesis using b chain_split [OF d] by (simp add: CBB_flush_def ch buf_ok_def nodes_append)
qed

end
