(* ===== verification/Cbb_Ops.thy ===== *)
theory Cbb_Ops
  imports Cbb_Refine
begin

text \<open>
  What the writing operations of the builder append, as instances of one contract: \<open>appends a h xs
  m\<close> says that \<open>m\<close>, run on a builder whose last frame is that of the \<open>CBB\<close> at \<open>h\<close>, appends \<open>xs\<close>
  to it, and fails only when the builder has no room for them.
\<close>

section \<open>The contract\<close>

definition appended ::
  "allocator \<Rightarrow> frame list \<Rightarrow> nat \<Rightarrow> frame_kind \<Rightarrow> bytes \<Rightarrow> cbb \<Rightarrow> 'r option \<times> cbb \<Rightarrow> bool" where
  "appended a fs h k zs c p \<longleftrightarrow>
     (case p of
        (Some _, c') \<Rightarrow> rep (fs @ [(h, k, zs)]) c' \<and> same_room c c'
      | (None, c') \<Rightarrow> \<not> roomy a (length (layout (fs @ [(h, k, zs)]))) c)"

definition appends :: "allocator \<Rightarrow> nat \<Rightarrow> bytes \<Rightarrow> (cbb \<Rightarrow> 'r option \<times> cbb) \<Rightarrow> bool" where
  "appends a h xs m \<longleftrightarrow>
     (\<forall>fs k ys c. rep (fs @ [(h, k, ys)]) c \<longrightarrow> appended a fs h k (ys @ xs) c (m c))"

lemma appends_Some:
  "appends a h xs m \<Longrightarrow> rep (fs @ [(h, k, ys)]) c \<Longrightarrow> m c = (Some u, c') \<Longrightarrow>
   rep (fs @ [(h, k, ys @ xs)]) c' \<and> same_room c c'"
  by (fastforce simp: appends_def appended_def)

lemma appends_None:
  "appends a h xs m \<Longrightarrow> rep (fs @ [(h, k, ys)]) c \<Longrightarrow> m c = (None, c') \<Longrightarrow>
   \<not> roomy a (length (layout (fs @ [(h, k, ys @ xs)]))) c"
  by (fastforce simp: appends_def appended_def)

lemma roomy_frame_mono:
  "roomy a (length (layout (fs @ [(h, k, xs)]))) c \<Longrightarrow> length ys \<le> length xs \<Longrightarrow>
   roomy a (length (layout (fs @ [(h, k, ys)]))) c"
  by (rule roomy_mono) (auto simp: layout_append)

lemma appends_return: "appends a h [] (\<lambda>c. (Some r, c))"
  by (simp add: appends_def appended_def)

lemma appends_bind:
  assumes m: "appends a h xs m" and f: "\<And>r. appends a h ys (f r)"
  shows "appends a h (xs @ ys) (\<lambda>c. pbind (m c) f)"
  unfolding appends_def
proof (intro allI impI)
  fix fs k zs c assume rep: "rep (fs @ [(h, k, zs)]) c"
  obtain r1 c1 where m1: "m c = (r1, c1)" by (cases "m c")
  show "appended a fs h k (zs @ xs @ ys) c (pbind (m c) f)"
  proof (cases r1)
    case None
    have "\<not> roomy a (length (layout (fs @ [(h, k, zs @ xs @ ys)]))) c"
      using appends_None [OF m rep] m1 None roomy_frame_mono [of a fs h k "zs @ xs @ ys" c "zs @ xs"] by auto
    then show ?thesis using m1 None by (simp add: appended_def)
  next
    case (Some u)
    then have r1: "rep (fs @ [(h, k, zs @ xs)]) c1" "same_room c c1"
      using appends_Some [OF m rep] m1 by auto
    from r1(1) have "appended a fs h k ((zs @ xs) @ ys) c1 (f u c1)"
      using f [of u] unfolding appends_def by blast
    then show ?thesis
      using m1 Some r1(2) by (auto simp: appended_def same_room_def split: option.splits prod.splits)
  qed
qed

section \<open>Bytes and integers\<close>

lemma rep_extend:
  assumes "rep (fs @ [(h, k, ys)]) c" "cbb_base c = Some b" "written b' = written b @ xs" "grown b b'"
  shows "rep (fs @ [(h, k, ys @ xs)]) (c\<lparr>cbb_base := Some b'\<rparr>)"
    and "same_room c (c\<lparr>cbb_base := Some b'\<rparr>)"
proof -
  have "wf_frames (fs @ [(h, k, ys @ xs)])" using assms(1) wf_frames_append by (simp add: rep_def)
  then show "rep (fs @ [(h, k, ys @ xs)]) (c\<lparr>cbb_base := Some b'\<rparr>)"
    using assms by (simp add: rep_def nodes_append layout_append grown_def)
  show "same_room c (c\<lparr>cbb_base := Some b'\<rparr>)"
    using assms(2,4) by (simp add: same_room_def roomy_def grown_def)
qed

lemma appends_base:
  assumes "\<And>b r b'. buf_ok b \<Longrightarrow> f b = (Some r, b') \<Longrightarrow> written b' = written b @ xs \<and> grown b b'"
    and "\<And>b b'. buf_ok b \<Longrightarrow> f b = (None, b') \<Longrightarrow> \<not> room a b (cb_len b + length xs)"
  shows "appends a h xs (on_base f)"
  unfolding appends_def
proof (intro allI impI)
  fix fs k ys c assume rep: "rep (fs @ [(h, k, ys)]) c"
  then obtain b where b: "cbb_base c = Some b" "buf_ok b" "written b = layout (fs @ [(h, k, ys)])"
    by (auto simp: rep_def)
  have len: "length (layout (fs @ [(h, k, ys @ xs)])) = cb_len b + length xs"
    using arg_cong [OF b(3), of length] by (simp add: layout_append)
  show "appended a fs h k (ys @ xs) c (on_base f c)"
  proof (cases "f b")
    case (Pair r b')
    then show ?thesis
      using assms(1) [OF b(2)] assms(2) [OF b(2)] rep_extend [OF rep b(1)]
      by (cases r) (auto simp: appended_def on_base_def b(1) len roomy_def)
  qed
qed

lemma appends_flush: "appends a h xs m \<Longrightarrow> appends a h xs (\<lambda>c. pbind (CBB_flush a h c) (\<lambda>_. m))"
  by (simp add: appends_def CBB_flush_last)

lemma buffer_add_bytes:
  assumes ok: "buf_ok b" and n: "length xs < 2 ^ 64" and fill: "\<And>d b1. cbb_buffer_add a (length xs) b = (Some d, b1) \<Longrightarrow>
      \<exists>b'. f d b1 = (Some (), b') \<and> same_shape b1 b' \<and> (\<forall>zs. written b1 = written b @ zs \<longrightarrow> length zs = length xs \<longrightarrow> written b' = written b @ xs)"
  shows "pbind (cbb_buffer_add a (length xs) b) f = (Some r, b') \<Longrightarrow> written b' = written b @ xs \<and> grown b b'"
    and "pbind (cbb_buffer_add a (length xs) b) f = (None, b') \<Longrightarrow> \<not> room a b (cb_len b + length xs)"
proof -
  assume "pbind (cbb_buffer_add a (length xs) b) f = (Some r, b')"
  then obtain d b1 where add: "cbb_buffer_add a (length xs) b = (Some d, b1)" and f: "f d b1 = (Some r, b')"
    by (auto simp: pbind_eq_Some)
  note cbb_buffer_add_grown [OF ok n add]
  moreover have "same_shape b1 b'" "\<forall>zs. written b1 = written b @ zs \<longrightarrow> length zs = length xs \<longrightarrow> written b' = written b @ xs"
    using fill [OF add] f by auto
  ultimately show "written b' = written b @ xs \<and> grown b b'"
    using grown_trans grown_shape by (metis grown_def)
next
  assume "pbind (cbb_buffer_add a (length xs) b) f = (None, b')"
  then have "\<exists>b1. cbb_buffer_add a (length xs) b = (None, b1)"
    using fill by (fastforce simp: pbind_eq_None)
  then show "\<not> room a b (cb_len b + length xs)" using cbb_buffer_add_room [OF ok] by fastforce
qed

lemma on_base_bind:
  "pbind (on_base f c) (\<lambda>x. on_base (g x)) = on_base (\<lambda>b. pbind (f b) g) c"
  by (auto simp: on_base_def pbind_def split: option.splits prod.splits)

lemma CBB_add_bytes_appends:
  assumes "length data < 2 ^ 64"
  shows "appends a h data (CBB_add_bytes a h data)"
proof -
  define f where "f = (\<lambda>b. pbind (cbb_buffer_add a (length data) b) (\<lambda>dest b. (Some (), buf_copy dest data b)))"
  have fill: "\<exists>b'. (Some (), buf_copy d data b1) = (Some (), b') \<and> same_shape b1 b' \<and>
      (\<forall>zs. written b1 = written b @ zs \<longrightarrow> length zs = length data \<longrightarrow> written b' = written b @ data)"
    if "buf_ok b" "cbb_buffer_add a (length data) b = (Some d, b1)" for b d b1
  proof -
    have "d = length (written b)" using cbb_buffer_add_grown [OF that(1) assms that(2)] by simp
    then show ?thesis using written_buf_copy [of b1 "written b" _ "[]" data d] by auto
  qed
  have "appends a h data (on_base f)"
  proof (rule appends_base)
    show "written b' = written b @ data \<and> grown b b'" if "buf_ok b" "f b = (Some r, b')" for b r b'
      by (rule buffer_add_bytes(1) [OF that(1) assms _ that(2) [unfolded f_def]]) (rule fill [OF that(1)])
    show "\<not> room a b (cb_len b + length data)" if "buf_ok b" "f b = (None, b')" for b b'
      by (rule buffer_add_bytes(2) [OF that(1) assms _ that(2) [unfolded f_def]]) (rule fill [OF that(1)])
  qed
  moreover have "CBB_add_bytes a h data = (\<lambda>c. pbind (CBB_flush a h c) (\<lambda>_. on_base f))"
    by (simp add: CBB_add_bytes_def on_base_bind f_def fun_eq_iff)
  ultimately show ?thesis by (simp add: appends_flush)
qed

lemma CBB_add_u_appends:
  assumes "unat v < 256 ^ n" "0 < n" "n \<le> 8"
  shows "appends a h (be_bytes n (unat v)) (CBB_add_u a h v n)"
proof -
  define f where "f = (\<lambda>buf b. let (v', b) = store_be buf n (unat v) b
        in if v' \<noteq> 0 then (None, cbb_buffer_err b) else (Some (), b))"
  have len: "length (be_bytes n (unat v)) < 2 ^ 64" using assms(3) by simp
  have fill: "\<exists>b'. f d b1 = (Some (), b') \<and> same_shape b1 b' \<and>
      (\<forall>zs. written b1 = written b @ zs \<longrightarrow> length zs = length (be_bytes n (unat v)) \<longrightarrow>
        written b' = written b @ be_bytes n (unat v))"
    if "buf_ok b" "cbb_buffer_add a (length (be_bytes n (unat v))) b = (Some d, b1)" for b d b1
  proof -
    obtain v' b' where st: "store_be d n (unat v) b1 = (v', b')" by (cases "store_be d n (unat v) b1")
    from cbb_buffer_add_grown [OF that(1) len that(2)] obtain zs where
      d: "d = length (written b)" and w: "written b1 = written b @ zs @ []" "length zs = n" by auto
    from store_be_eq [OF w d st] have "v' = 0" "same_shape b1 b'" "written b' = written b @ be_bytes n (unat v)"
      using assms(1) by (simp_all add: div_eq_0_iff)
    then show ?thesis using st by (simp add: f_def)
  qed
  have "appends a h (be_bytes n (unat v)) (on_base (cbb_buffer_add_u a v n))"
  proof (rule appends_base)
    have *: "cbb_buffer_add_u a v n b = pbind (cbb_buffer_add a (length (be_bytes n (unat v))) b) f" for b
      using assms(2) by (simp add: cbb_buffer_add_u_def f_def)
    show "written b' = written b @ be_bytes n (unat v) \<and> grown b b'"
      if "buf_ok b" "cbb_buffer_add_u a v n b = (Some r, b')" for b r b'
      by (rule buffer_add_bytes(1) [OF that(1) len _ that(2) [unfolded *]]) (rule fill [OF that(1)])
    show "\<not> room a b (cb_len b + length (be_bytes n (unat v)))"
      if "buf_ok b" "cbb_buffer_add_u a v n b = (None, b')" for b b'
      by (rule buffer_add_bytes(2) [OF that(1) len _ that(2) [unfolded *]]) (rule fill [OF that(1)])
  qed
  moreover have "CBB_add_u a h v n = (\<lambda>c. pbind (CBB_flush a h c) (\<lambda>_. on_base (cbb_buffer_add_u a v n)))"
    by (simp add: CBB_add_u_def fun_eq_iff)
  ultimately show ?thesis by (simp add: appends_flush)
qed

lemma CBB_add_u8_appends: "appends a h [b] (CBB_add_u8 a h b)"
proof -
  have "CBB_add_u8 a h b = CBB_add_u a h (ucast b) 1" by (simp add: CBB_add_u8_def fun_eq_iff)
  moreover have "be_bytes 1 (unat (ucast b :: u64)) = [b]" by (simp add: unat_ucast_wider)
  ultimately show ?thesis using CBB_add_u_appends [of "ucast b" 1 a h] by (simp add: unat_ucast_wider)
qed

text \<open>The \<open>CBB\<close> at \<open>h\<close> as something to put bytes into.\<close>

interpretation cbb_sink: byte_sink "CBB_add_u8 a h"
  "\<lambda>xs c. rep (fs @ [(h, k, ys @ xs)]) c \<and> same_room c0 c"
  "\<lambda>n c. roomy a (length (layout (fs @ [(h, k, ys)])) + n) c" for a h fs k ys c0
proof
  show "(rep (fs @ [(h, k, ys @ xs @ [b])]) s' \<and> same_room c0 s') \<and>
      (\<forall>n. roomy a (length (layout (fs @ [(h, k, ys)])) + n) s' \<longleftrightarrow>
           roomy a (length (layout (fs @ [(h, k, ys)])) + n) s)"
    if "rep (fs @ [(h, k, ys @ xs)]) s \<and> same_room c0 s" "CBB_add_u8 a h b s = (Some (), s')" for xs s b s'
    using appends_Some [OF CBB_add_u8_appends _ that(2), of fs k "ys @ xs"] that(1)
    by (simp add: same_room_def)
  show "\<not> roomy a (length (layout (fs @ [(h, k, ys)])) + (length xs + 1)) s"
    if "rep (fs @ [(h, k, ys @ xs)]) s \<and> same_room c0 s" "CBB_add_u8 a h b s = (None, s')" for xs s b s'
    using appends_None [OF CBB_add_u8_appends _ that(2), of fs k "ys @ xs"] that(1)
    by (simp add: layout_append add_ac)
qed (auto elim: roomy_mono)

lemma put_all_appends: "appends a h bs (put_all (CBB_add_u8 a h) bs)"
  unfolding appends_def
proof (intro allI impI)
  fix fs k ys c assume rep: "rep (fs @ [(h, k, ys)]) c"
  show "appended a fs h k (ys @ bs) c (put_all (CBB_add_u8 a h) bs c)"
    using cbb_sink.put_all_Some [where xs = "[]" and bs = bs, of fs h k ys c c a]
      cbb_sink.put_all_None [where xs = "[]" and bs = bs, of fs h k ys c c a] rep
    by (cases "put_all (CBB_add_u8 a h) bs c")
      (auto simp: appended_def layout_append add_ac split: option.split)
qed

end
