(* ===== verification/Der_Values.thy ===== *)
theory Der_Values
  imports Der
begin

text \<open>
  What the typed readers of cbs.c accept, in terms of the reference encoding: element access by
  tag, and INTEGER contents as two's complement numbers in their shortest form.
\<close>

section \<open>Elements by tag\<close>

lemma CBS_skip_der:
  assumes "out = der_element tag c" "hl = length (der_header tag (length c))"
  shows "CBS_skip hl out = (Some (), c)"
  using assms by (simp add: CBS_skip_eq_Some der_element_def)

theorem CBS_get_asn1_iff:
  "CBS_get_asn1 tag s = (Some c, rest) \<longleftrightarrow> length c < 2 ^ 32 \<and> s = der_element tag c @ rest"
proof
  assume "CBS_get_asn1 tag s = (Some c, rest)"
  then obtain out tag' hl s' where
    el: "CBS_get_any_asn1_element s = (Some (out, tag', hl), s')" and
    r: "(if tag' \<noteq> tag then (None, s')
      else if True
        then case CBS_skip hl out of (None, _) \<Rightarrow> (None, s') | (Some _, out) \<Rightarrow> (Some out, s')
        else (Some out, s')) = (Some c, rest)"
    by (auto simp: CBS_get_asn1_def cbs_get_asn1_def pbind_eq_Some)
  from el obtain d where d: "length d < 2 ^ 32" "out = der_element tag' d"
      "hl = length (der_header tag' (length d))" "s = out @ s'"
    by (auto simp: CBS_get_any_asn1_element_iff)
  have "CBS_skip hl out = (Some (), d)" by (rule CBS_skip_der [OF d(2,3)])
  then show "length c < 2 ^ 32 \<and> s = der_element tag c @ rest"
    using r d by (simp split: if_splits)
next
  assume s: "length c < 2 ^ 32 \<and> s = der_element tag c @ rest"
  then have "CBS_get_any_asn1_element s =
      (Some (der_element tag c, tag, length (der_header tag (length c))), rest)"
    by (auto simp: CBS_get_any_asn1_element_iff)
  moreover note CBS_skip_der [OF refl refl, of tag c]
  ultimately show "CBS_get_asn1 tag s = (Some c, rest)"
    by (simp add: CBS_get_asn1_def cbs_get_asn1_def)
qed

lemma CBS_get_asn1_der [simp]:
  "length c < 2 ^ 32 \<Longrightarrow> CBS_get_asn1 tag (der_element tag c @ rest) = (Some c, rest)"
  by (simp add: CBS_get_asn1_iff)

lemma CBS_get_any_asn1_iff:
  "CBS_get_any_asn1 s = (Some (c, tag), rest) \<longleftrightarrow> length c < 2 ^ 32 \<and> s = der_element tag c @ rest"
proof
  assume "CBS_get_any_asn1 s = (Some (c, tag), rest)"
  then obtain out tag' hl s' where
    el: "CBS_get_any_asn1_element s = (Some (out, tag', hl), s')" and
    r: "(case CBS_skip hl out of (None, _) \<Rightarrow> (None, s') | (Some _, out) \<Rightarrow> (Some (out, tag'), s'))
      = (Some (c, tag), rest)"
    by (auto simp: CBS_get_any_asn1_def pbind_eq_Some)
  from el obtain d where d: "length d < 2 ^ 32" "out = der_element tag' d"
      "hl = length (der_header tag' (length d))" "s = out @ s'"
    by (auto simp: CBS_get_any_asn1_element_iff)
  have "CBS_skip hl out = (Some (), d)" by (rule CBS_skip_der [OF d(2,3)])
  then show "length c < 2 ^ 32 \<and> s = der_element tag c @ rest"
    using r d by simp
next
  assume s: "length c < 2 ^ 32 \<and> s = der_element tag c @ rest"
  then have "CBS_get_any_asn1_element s =
      (Some (der_element tag c, tag, length (der_header tag (length c))), rest)"
    by (auto simp: CBS_get_any_asn1_element_iff)
  moreover note CBS_skip_der [OF refl refl, of tag c]
  ultimately show "CBS_get_any_asn1 s = (Some (c, tag), rest)" by (simp add: CBS_get_any_asn1_def)
qed

text \<open>No two encodings agree on a prefix: tag, contents and what follows are determined.\<close>

lemma der_element_inject:
  assumes "der_element tag c @ r = der_element tag' c' @ r'"
    and "length c < 2 ^ 32" "length c' < 2 ^ 32"
  shows "tag = tag' \<and> c = c' \<and> r = r'"
proof -
  have "CBS_get_any_asn1 (der_element tag c @ r) = (Some (c, tag), r)"
    "CBS_get_any_asn1 (der_element tag c @ r) = (Some (c', tag'), r')"
    using assms by (simp_all add: CBS_get_any_asn1_iff)
  then show ?thesis by simp
qed

lemma CBS_peek_asn1_tag_iff: "CBS_peek_asn1_tag tag s \<longleftrightarrow> (\<exists>r. s = der_tag tag @ r)"
proof -
  have "CBS_peek_asn1_tag tag s \<longleftrightarrow> (\<exists>r. parse_asn1_tag s = (Some tag, r))"
    by (cases s) (auto simp: CBS_peek_asn1_tag_def CBS_len_def split: prod.split option.split)
  then show ?thesis by (simp only: parse_asn1_tag_iff)
qed

section \<open>INTEGER contents\<close>

text \<open>The value of a two's complement big-endian string.\<close>

definition int_val :: "bytes \<Rightarrow> int" where
  "int_val c =
     (if c \<noteq> [] \<and> 128 \<le> unat (hd c) then int (be_val c) - 256 ^ length c else int (be_val c))"

text \<open>Shortest form: at least one byte, and the first nine bits are not all equal.\<close>

definition minimal_int :: "bytes \<Rightarrow> bool" where
  "minimal_int c =
     (case c of
        [] \<Rightarrow> False
      | [_] \<Rightarrow> True
      | a # b # _ \<Rightarrow> \<not> (unat a = 0 \<and> unat b < 128) \<and> \<not> (unat a = 255 \<and> 128 \<le> unat b))"

lemma CBS_is_valid_asn1_integer_eq:
  "CBS_is_valid_asn1_integer c = (if minimal_int c then Some (128 \<le> unat (hd c)) else None)"
proof (cases c)
  case (Cons a d)
  have "a = 0 \<longleftrightarrow> unat a = 0" "a = 0xff \<longleftrightarrow> unat a = 255" by (simp_all add: word_unat_eq_iff)
  then show ?thesis
    using Cons by (cases d) (simp_all add: CBS_is_valid_asn1_integer_def minimal_int_def and_80_eq_0 Let_def not_less)
qed (simp add: CBS_is_valid_asn1_integer_def minimal_int_def)

lemma CBS_is_unsigned_asn1_integer_iff:
  "CBS_is_unsigned_asn1_integer c \<longleftrightarrow> minimal_int c \<and> unat (hd c) < 128"
  by (auto simp: CBS_is_unsigned_asn1_integer_def CBS_is_valid_asn1_integer_eq split: if_splits)

lemma int_val_nonneg_iff:
  "0 \<le> int_val c \<longleftrightarrow> c = [] \<or> unat (hd c) < 128"
proof -
  have "int (be_val c) < 256 ^ length c" using be_val_lt [of c] by (simp flip: of_nat_less_iff)
  then show ?thesis by (auto simp: int_val_def)
qed

lemma asn1_uint64_loop_eq:
  "asn1_uint64_loop out data =
     (let n = unat out * 256 ^ length data + be_val data
      in if n < 2 ^ 64 then Some (of_nat n) else None)"
proof (induction data arbitrary: out)
  case (Cons b data)
  have d: "drop_bit 56 out \<noteq> 0 \<longleftrightarrow> 2 ^ 56 \<le> unat out"
    by (simp only: unat_drop_bit div_eq_0_iff flip: unat_eq_zero) (simp add: not_less)
  show ?case
  proof (cases "2 ^ 56 \<le> unat out")
    case True
    then have "2 ^ 56 * 256 * 1 \<le> unat out * 256 * 256 ^ length data" by (intro mult_mono) simp_all
    then show ?thesis using True d by (simp add: Let_def mult.assoc)
  next
    case False
    then have r: "unat (push_bit 8 out) = unat out * 256" by (simp add: unat_push_bit)
    then have "unat (push_bit 8 out OR ucast b) = unat out * 256 + unat b"
      by (subst unat_or_add [of _ 8]) (simp_all add: word_nat)
    then show ?thesis using False d Cons by (simp add: Let_def algebra_simps)
  qed
qed (simp add: Let_def)

theorem CBS_get_asn1_uint64_iff:
  "CBS_get_asn1_uint64 s = (Some v, rest) \<longleftrightarrow>
   (\<exists>c. length c < 2 ^ 32 \<and> s = der_element CBS_ASN1_INTEGER c @ rest \<and>
        minimal_int c \<and> int_val c = int (unat v))"
proof -
  have loop: "asn1_uint64_loop 0 c = Some v \<longleftrightarrow> be_val c = unat v" for c
    unfolding asn1_uint64_loop_eq Let_def
    by (auto simp: unat_of_nat_small word_unat_eq_iff)
  have "int_val c = int (unat v) \<longleftrightarrow> unat (hd c) < 128 \<and> be_val c = unat v" if "c \<noteq> []" for c
  proof (cases "unat (hd c) < 128")
    case False
    then have "int_val c < 0" using that int_val_nonneg_iff [of c] by (simp add: not_le)
    then show ?thesis using False by auto
  qed (use that in \<open>simp only: int_val_def not_less [symmetric] of_nat_eq_iff simp_thms if_False\<close>)
  moreover have "c \<noteq> []" if "minimal_int c" for c using that by (auto simp: minimal_int_def)
  ultimately show ?thesis
    by (auto simp: CBS_get_asn1_uint64_def pbind_eq_Some CBS_get_asn1_iff loop CBS_data_def
        CBS_is_unsigned_asn1_integer_iff split: if_splits)
qed

section \<open>Signed 64-bit integers\<close>

lemma union_fill:
  "k \<le> length data \<Longrightarrow> k \<le> length u \<Longrightarrow>
   fold (\<lambda>i u. u[i := data ! (length data - i - 1)]) [0..<k] u = take k (rev data) @ drop k u"
proof (induction k)
  case (Suc k)
  then have "drop k u = u ! k # drop (Suc k) u" by (simp add: Cons_nth_drop_Suc)
  then show ?case using Suc by (simp add: take_Suc_conv_app_nth rev_nth list_update_append)
qed simp

lemma be_val_replicate_0: "be_val (replicate m 0 @ c) = be_val c"
  by (induction m) simp_all

lemma be_val_replicate_ff: "be_val (replicate m 0xff @ c) + 256 ^ length c = 256 ^ (m + length c) + be_val c"
proof (induction m)
  case (Suc m)
  have "be_val (replicate (Suc m) 0xff @ c) + 256 ^ length c
      = 255 * 256 ^ (m + length c) + (be_val (replicate m 0xff @ c) + 256 ^ length c)" by simp
  also have "\<dots> = 256 ^ (Suc m + length c) + be_val c" unfolding Suc by simp
  finally show ?case .
qed simp

lemma sign_extended:
  assumes "c \<noteq> []" "length c \<le> 8"
  shows "u64_of_le (rev c @ replicate (8 - length c) (if 128 \<le> unat (hd c) then 0xff else 0))
    = of_int (int_val c)"
proof (cases "128 \<le> unat (hd c)")
  case True
  define m where "m = 8 - length c"
  have "int (be_val (replicate m 0xff @ c)) + 256 ^ length c = 256 ^ 8 + int (be_val c)"
    using arg_cong [OF be_val_replicate_ff [of m c], of int] assms(2) unfolding m_def by simp
  then have "int (be_val (replicate m 0xff @ c)) = int_val c + 2 ^ 64"
    using True assms by (simp add: int_val_def)
  then have "of_int (int (be_val (replicate m 0xff @ c))) = (of_int (int_val c) :: u64)"
    by (simp only: of_int_add) simp
  then show ?thesis using True by (simp add: u64_of_le_def flip: m_def)
next
  case False
  then show ?thesis by (simp add: u64_of_le_def be_val_replicate_0 int_val_def)
qed

text \<open>The range of a two's complement string by its length, and of a shortest one.\<close>

lemma int_val_Cons:
  "int_val (a # d) = (if 128 \<le> unat a then int (unat a) - 256 else int (unat a)) * 256 ^ length d
     + int (be_val d)"
  by (simp add: int_val_def algebra_simps)

lemma int_val_range:
  assumes "c \<noteq> []"
  shows "- (128 * 256 ^ (length c - 1)) \<le> int_val c" "int_val c < 128 * 256 ^ (length c - 1)"
proof -
  obtain a d where c: "c = a # d" using assms by (cases c) auto
  have d: "int (be_val d) < 256 ^ length d" using be_val_lt [of d] by (simp flip: of_nat_less_iff)
  define x where "x = unat a"
  define h where "h = (if 128 \<le> x then int x - 256 else int x)"
  have h: "-128 \<le> h" "h \<le> 127" using unat_u8_lt [of a] unfolding h_def x_def [symmetric] by auto
  have "-128 * 256 ^ length d \<le> h * 256 ^ length d" "h * 256 ^ length d \<le> 127 * 256 ^ length d"
    using h by (intro mult_right_mono; simp)+
  moreover have v: "int_val c = h * 256 ^ length d + int (be_val d)" and l: "length c - 1 = length d"
    unfolding c int_val_Cons x_def [symmetric] h_def [symmetric] by simp_all
  ultimately show "- (128 * 256 ^ (length c - 1)) \<le> int_val c" "int_val c < 128 * 256 ^ (length c - 1)"
    unfolding v l using d of_nat_0_le_iff [of "be_val d", where 'a = int] by linarith+
qed

lemma minimal_int_big:
  assumes "minimal_int c" "2 \<le> length c"
  shows "128 * 256 ^ (length c - 2) \<le> int_val c \<or> int_val c < - (128 * 256 ^ (length c - 2))"
proof -
  obtain a b d where c: "c = a # b # d" using assms(2) by (cases c; cases "tl c") auto
  have d: "0 \<le> int (be_val d)" "int (be_val d) < 256 ^ length d"
    using be_val_lt [of d] by (simp_all flip: of_nat_less_iff)
  define x y where "x = unat a" and "y = unat b"
  define h where "h = (if 128 \<le> x then int x - 256 else int x) * 256 + int y"
  have v: "int_val c = h * 256 ^ length d + int (be_val d)"
    unfolding c int_val_Cons h_def x_def y_def by (simp add: algebra_simps)
  have "128 \<le> h \<or> h \<le> -129"
    using assms(1) unat_u8_lt [of a] unat_u8_lt [of b]
    unfolding c minimal_int_def x_def [symmetric] y_def [symmetric] h_def list.case by auto
  then show ?thesis
  proof
    assume "128 \<le> h"
    then have "128 * 256 ^ length d \<le> h * 256 ^ length d" by (intro mult_right_mono) simp_all
    then have "128 * 256 ^ length d \<le> int_val c" unfolding v using d by linarith
    then show ?thesis by (simp add: c)
  next
    assume "h \<le> -129"
    then have "h * 256 ^ length d \<le> -129 * 256 ^ length d" by (intro mult_right_mono) simp_all
    then have "int_val c < - (128 * 256 ^ length d)" unfolding v using d by linarith
    then show ?thesis by (simp add: c)
  qed
qed

theorem CBS_get_asn1_int64_iff:
  "CBS_get_asn1_int64 s = (Some v, rest) \<longleftrightarrow>
   (\<exists>c. length c < 2 ^ 32 \<and> s = der_element CBS_ASN1_INTEGER c @ rest \<and>
        minimal_int c \<and> int_val c = sint v)"
proof -
  have key: "(if 8 < length c then None
      else Some (u64_of_le (fold (\<lambda>i u. u[i := c ! (length c - i - 1)]) [0..<length c]
        (replicate 8 (if 128 \<le> unat (hd c) then 0xff else 0))))) = Some v \<longleftrightarrow> int_val c = sint v"
    if c: "minimal_int c" for c
  proof (cases "8 < length c")
    case True
    have "(128 :: int) * 256 ^ 7 \<le> 128 * 256 ^ (length c - 2)"
      using True by (intro mult_left_mono power_increasing) auto
    then have "2 ^ 63 \<le> int_val c \<or> int_val c < - (2 ^ 63)"
      using minimal_int_big [OF c] True by auto
    moreover have "- (2 ^ 63) \<le> sint v" "sint v < 2 ^ 63"
      using sint_ge [of v] sint_lt [of v] by simp_all
    ultimately show ?thesis using True by auto
  next
    case False
    have ne: "c \<noteq> []" using c by (auto simp: minimal_int_def)
    have "(256 :: int) ^ (length c - 1) \<le> 256 ^ 7" using False by (intro power_increasing) auto
    then have r: "- (2 ^ 63) \<le> int_val c" "int_val c < 2 ^ 63"
      using int_val_range [OF ne] by simp_all
    have "of_int (int_val c) = v \<longleftrightarrow> int_val c = sint v"
      using sint_u64_of_int [OF r] by auto
    moreover have "fold (\<lambda>i u. u[i := c ! (length c - i - 1)]) [0..<length c] (replicate 8 f)
        = rev c @ replicate (8 - length c) f" for f
      using False by (subst union_fill) simp_all
    ultimately show ?thesis
      using sign_extended [OF ne False [unfolded not_less]] False
      by (simp only: if_False option.inject)
  qed
  have body: "(case CBS_is_valid_asn1_integer c of
       None \<Rightarrow> (None, r)
     | Some is_negative \<Rightarrow>
         let data = CBS_data c; len = CBS_len c in
         if len > 8 then (None, r)
         else
           let u = replicate 8 (if is_negative then 0xff else 0);
               u = fold (\<lambda>i u. u[i := data ! (len - i - 1)]) [0..<len] u
           in (Some (u64_of_le u), r)) = (Some v, rest) \<longleftrightarrow>
     minimal_int c \<and> int_val c = sint v \<and> r = rest" for c r
  proof (cases "minimal_int c")
    case True
    have if_pair: "(if b then (None, r) else (Some x, r)) = (Some v, rest) \<longleftrightarrow>
        (if b then None else Some x) = Some v \<and> r = rest" for b x by auto
    show ?thesis
      using True by (simp only: CBS_is_valid_asn1_integer_eq CBS_data_def CBS_len_def Let_def
          if_True option.case if_pair key) simp
  qed (simp add: CBS_is_valid_asn1_integer_eq)
  show ?thesis
    unfolding CBS_get_asn1_int64_def pbind_eq_Some body CBS_get_asn1_iff by blast
qed

section \<open>Properties\<close>

text \<open>C3: The strict reader \<open>CBS_get_any_asn1_element\<close> accepts exactly the DER encodings: it succeeds
  if and only if the input starts with the reference encoding of a tag and contents of at most
  $2^{32}-1$ bytes, and then it returns that element, its tag, the length of its header and what
  follows it.\<close>

theorem CBS_get_any_asn1_element_der:
  "CBS_get_any_asn1_element s = (Some (out, tag, header_len), rest) \<longleftrightarrow>
   (\<exists>c. length c < 2 ^ 32 \<and> out = der_element tag c \<and>
        header_len = length (der_header tag (length c)) \<and> s = out @ rest)"
  by (rule CBS_get_any_asn1_element_iff)

text \<open>C5: \<open>CBS_get_asn1_int64\<close> accepts exactly the DER INTEGERs in the range of an \<open>int64_t\<close>: the
  contents are the shortest two's complement form of the number it returns.\<close>

theorem CBS_get_asn1_int64_der:
  "CBS_get_asn1_int64 s = (Some v, rest) \<longleftrightarrow>
   (\<exists>c. s = der_element CBS_ASN1_INTEGER c @ rest \<and> length c < 2 ^ 32 \<and>
        minimal_int c \<and> int_val c = sint v)"
  unfolding CBS_get_asn1_int64_iff by blast

text \<open>\<open>CBS_get_asn1_uint64\<close> accepts exactly the DER INTEGERs in the range of a \<open>uint64_t\<close>; in
  particular negative and non-minimal forms are refused.\<close>

lemma CBS_get_asn1_uint64_der:
  "CBS_get_asn1_uint64 s = (Some v, rest) \<longleftrightarrow>
   (\<exists>c. s = der_element CBS_ASN1_INTEGER c @ rest \<and> length c < 2 ^ 32 \<and>
        minimal_int c \<and> int_val c = int (unat v))"
  unfolding CBS_get_asn1_uint64_iff by blast

end
