(* ===== verification/Cbb_Asn1.thy ===== *)
theory Cbb_Asn1
  imports Cbb_Ops Der_Values
begin

text \<open>
  The ASN.1 operations of the builder write the reference encodings of Der and Der_Values: base 128
  numbers, tags, elements of any nesting, INTEGERs in their shortest form, OCTET STRINGs and
  BOOLEANs.
\<close>

section \<open>Base 128\<close>

lemma base128_len_loop_eq: "base128_len_loop v l = l + length (base128_hi (unat v))"
proof (induction v l rule: base128_len_loop.induct)
  case (1 v l)
  show ?case
  proof (cases "v = 0")
    case True
    then show ?thesis by (simp add: base128_len_loop.simps)
  next
    case False
    then have pos: "v > 0" "unat v \<noteq> 0" by (simp_all add: word_gt_0 unat_eq_zero)
    then have "base128_len_loop v l = l + 1 + length (base128_hi (unat v div 128))"
      using 1 by (subst base128_len_loop.simps) (simp add: unat_drop_bit)
    moreover have "base128_hi (unat v) = base128_hi (unat v div 128) @ [of_nat (unat v mod 128 + 128)]"
      using pos(2) by (subst base128_hi.simps) simp
    ultimately show ?thesis by simp
  qed
qed

text \<open>The digits below position \<open>n\<close>, most significant first, the last one without the mark.\<close>

definition base128_byte :: "u64 \<Rightarrow> nat \<Rightarrow> u8" where
  "base128_byte v i = of_nat (unat v div 128 ^ i mod 128 + (if i \<noteq> 0 then 128 else 0))"

lemma base128_byte_eq:
  "(let byte = ucast (drop_bit (7 * i) v) AND 0x7f in if i \<noteq> 0 then byte OR 0x80 else byte) = base128_byte v i"
proof -
  define x :: u8 where "x = ucast (drop_bit (7 * i) v) AND 0x7f"
  have x: "unat x = unat v div 128 ^ i mod 128"
    by (simp add: x_def word_nat power_mult mod_mod_cancel)
  have "unat (x OR 0x80) = unat x + 128"
    using unat_or_add [of x 7 "0x80 :: u8"] x by (simp add: or.commute)
  moreover have "unat v div 128 ^ i mod 128 < 128" by simp
  ultimately have "(if i \<noteq> 0 then x OR 0x80 else x) = base128_byte v i"
    using x by (simp add: word_unat_eq_iff base128_byte_def unat_of_nat del: of_nat_add)
  then show ?thesis unfolding x_def Let_def .
qed

lemma add_base128_loop_eq:
  "add_base128_loop a h v n c = put_all (CBB_add_u8 a h) (map (base128_byte v) (rev [0..<n])) c"
proof (induction n arbitrary: c)
  case (Suc n)
  have "add_base128_loop a h v n = put_all (CBB_add_u8 a h) (map (base128_byte v) (rev [0..<n]))"
    by (rule ext) (rule Suc)
  then show ?case using base128_byte_eq [of n v] by (simp add: Let_def)
qed simp

lemma base128_hi_digits:
  "base128_hi w = map (\<lambda>i. of_nat (w div 128 ^ i mod 128 + 128)) (rev [0..<length (base128_hi w)])"
proof (induction w rule: base128_hi.induct)
  case (1 w)
  show ?case
  proof (cases "w = 0")
    case False
    define m where "m = length (base128_hi (w div 128))"
    have eq: "base128_hi w = base128_hi (w div 128) @ [of_nat (w mod 128 + 128)]"
      using False by (subst base128_hi.simps) simp
    have up: "rev [0..<Suc m] = map Suc (rev [0..<m]) @ [0]"
      by (simp only: upt_conv_Cons [of 0 "Suc m"] zero_less_Suc map_Suc_upt [symmetric] rev.simps rev_map)
    have IH: "base128_hi (w div 128) = map (\<lambda>i. of_nat (w div 128 div 128 ^ i mod 128 + 128)) (rev [0..<m])"
      unfolding m_def by (rule 1 [OF False])
    have "length (base128_hi w) = Suc m" by (simp add: eq m_def)
    then show ?thesis
      unfolding eq by (simp only: up IH map_append map_map) (simp add: div_mult2_eq comp_def del: of_nat_add)
  qed simp
qed

lemma add_base128_integer_eq: "add_base128_integer a h v = put_all (CBB_add_u8 a h) (base128 (unat v))"
proof
  fix c
  define n where "n = length (base128_hi (unat v))"
  define m where "m = length (base128_hi (unat v div 128))"
  have n: "(if n = 0 then 1 else n) = Suc m"
  proof (cases "unat v = 0")
    case False
    then have "base128_hi (unat v) = base128_hi (unat v div 128) @ [of_nat (unat v mod 128 + 128)]"
      by (subst base128_hi.simps) simp
    then show ?thesis by (simp add: n_def m_def)
  qed (simp add: n_def m_def)
  have up: "rev [0..<Suc m] = map Suc (rev [0..<m]) @ [0]"
    by (simp only: upt_conv_Cons [of 0 "Suc m"] zero_less_Suc map_Suc_upt [symmetric] rev.simps rev_map)
  have hi: "base128_hi (unat v div 128) =
      map (\<lambda>i. of_nat (unat v div 128 div 128 ^ i mod 128 + 128)) (rev [0..<m])"
    unfolding m_def by (rule base128_hi_digits)
  have "map (base128_byte v) (rev [0..<Suc m]) = base128 (unat v)"
    unfolding base128_def hi up
    by (simp add: base128_byte_def div_mult2_eq comp_def del: of_nat_add)
  then show "add_base128_integer a h v c = put_all (CBB_add_u8 a h) (base128 (unat v)) c"
    by (simp only: add_base128_integer_def Let_def base128_len_loop_eq n_def [symmetric] add_0 n
        add_base128_loop_eq)
qed

lemma add_base128_integer_appends: "appends a h (base128 (unat v)) (add_base128_integer a h v)"
  unfolding add_base128_integer_eq by (rule put_all_appends)

section \<open>Elements\<close>

definition add_tag :: "allocator \<Rightarrow> nat \<Rightarrow> u32 \<Rightarrow> cbb \<Rightarrow> unit option \<times> cbb" where
  "add_tag a h tag =
     (let tag_bits = ucast (drop_bit CBS_ASN1_TAG_SHIFT tag) AND 0xe0 :: u8;
          tag_number = tag AND CBS_ASN1_TAG_NUMBER_MASK
      in (\<lambda>c. if tag_number \<ge> 0x1f
          then pbind (CBB_add_u8 a h (tag_bits OR 0x1f) c) (\<lambda>_ c. add_base128_integer a h (ucast tag_number) c)
          else CBB_add_u8 a h (ucast (ucast tag_bits OR tag_number)) c))"

lemma add_tag_appends: "appends a h (der_tag tag) (add_tag a h tag)"
proof -
  define tag_bits :: u8 where "tag_bits = ucast (drop_bit CBS_ASN1_TAG_SHIFT tag) AND 0xe0"
  define tag_number where "tag_number = tag AND CBS_ASN1_TAG_NUMBER_MASK"
  define cls where "cls = unat tag div 2 ^ 29"
  have cls: "cls < 8" unfolding cls_def by (rule less_mult_imp_div_less) simp
  have num: "unat tag_number = unat tag mod 2 ^ 29"
    unfolding tag_number_def CBS_ASN1_TAG_NUMBER_MASK_def
    using unat_and_bits [of "0x1fffffff :: u32" 0 29 tag] by (simp add: mask_eq_exp_minus_1)
  have bits: "unat tag_bits = cls * 32"
  proof -
    have "unat tag_bits = unat (ucast (drop_bit 24 tag) :: u8) div 32 mod 8 * 32"
      unfolding tag_bits_def CBS_ASN1_TAG_SHIFT_def
      using unat_and_bits [of "0xe0 :: u8" 5 3] by (simp add: mask_eq_exp_minus_1)
    also have "unat (ucast (drop_bit 24 tag) :: u8) = unat tag div 2 ^ 24"
    proof -
      have "unat tag div 2 ^ 24 < 256" by (rule less_mult_imp_div_less) simp
      then show ?thesis by (simp add: word_nat)
    qed
    also have "unat tag div 2 ^ 24 div 32 = cls" by (simp add: cls_def div_mult2_eq [symmetric])
    finally show ?thesis using cls by simp
  qed
  show ?thesis
  proof (cases "unat tag_number < 31")
    case True
    have "unat (ucast tag_bits OR tag_number) = cls * 32 + unat tag_number"
      using unat_or_add [of tag_number 5 "ucast tag_bits :: u32"] True bits by (simp add: word_nat)
    then have "ucast (ucast tag_bits OR tag_number) = (of_nat (cls * 32 + unat tag mod 2 ^ 29) :: u8)"
      by (simp add: word_unat_eq_iff word_nat unat_of_nat num del: of_nat_add)
    then have "der_tag tag = [ucast (ucast tag_bits OR tag_number)]"
      using True num by (simp add: der_tag_def Let_def cls_def)
    moreover have "add_tag a h tag = CBB_add_u8 a h (ucast (ucast tag_bits OR tag_number))"
      using True unfolding add_tag_def Let_def tag_bits_def [symmetric] tag_number_def [symmetric]
      by (simp add: word_le_nat_alt fun_eq_iff)
    ultimately show ?thesis using CBB_add_u8_appends by simp
  next
    case False
    have "unat (tag_bits OR 0x1f) = cls * 32 + 31"
      using unat_or_add [of "0x1f :: u8" 5 tag_bits] bits by simp
    then have "tag_bits OR 0x1f = of_nat (cls * 32 + 31)"
      using cls by (simp add: word_unat_eq_iff unat_of_nat del: of_nat_add)
    then have "der_tag tag = [tag_bits OR 0x1f] @ base128 (unat (ucast tag_number :: u64))"
      using False num by (simp add: der_tag_def Let_def cls_def word_nat del: of_nat_add)
    moreover have "add_tag a h tag = (\<lambda>c. pbind (CBB_add_u8 a h (tag_bits OR 0x1f) c)
        (\<lambda>_. add_base128_integer a h (ucast tag_number)))"
      using False unfolding add_tag_def Let_def tag_bits_def [symmetric] tag_number_def [symmetric]
      by (simp add: word_le_nat_alt fun_eq_iff)
    ultimately show ?thesis
      using appends_bind [OF CBB_add_u8_appends add_base128_integer_appends] by simp
  qed
qed

lemma attach_rep:
  assumes rep: "rep (fs @ [(h, k, ys @ replicate (placeholder k') 0)]) c" and k': "child_kind k'"
    and new: "child \<notin> fst ` set fs" "child \<noteq> h"
  shows "rep (fs @ [(h, k, ys), (child, k', [])])
      (attach_child h child (child_node (length (layout (fs @ [(h, k, ys)]))) k') c)"
proof -
  from rep obtain b where b: "cbb_base c = Some b" "buf_ok b"
    "written b = layout (fs @ [(h, k, ys @ replicate (placeholder k') 0)])"
    and wf: "wf_frames (fs @ [(h, k, ys @ replicate (placeholder k') 0)])"
    and ch: "cbb_chain c = nodes 0 (fs @ [(h, k, ys @ replicate (placeholder k') 0)])"
    by (auto simp: rep_def)
  have d: "distinct (map fst (fs @ [(h, k, ys @ replicate (placeholder k') 0)]))" using wf by (simp add: wf_frames_def)
  have "wf_frames (fs @ [(h, k, ys), (child, k', [])])"
    using wf k' new wf_frames_append [of "fs @ [(h, k, ys)]" child k' "[]"] wf_frames_append [of fs h k ys]
      wf_frames_append [of fs h k "ys @ replicate (placeholder k') 0"] by (auto split: if_splits)
  moreover have "layout (fs @ [(h, k, ys), (child, k', [])]) = written b"
    by (simp add: b(3) layout_append)
  moreover have "cbb_chain (attach_child h child (child_node (length (layout (fs @ [(h, k, ys)]))) k') c) =
      nodes 0 (fs @ [(h, k, ys), (child, k', [])])"
    using chain_split [OF d] by (simp add: attach_child_def ch nodes_append layout_append add.assoc)
  moreover have "cbb_base (attach_child h child n c) = Some b" for n
    by (simp add: attach_child_def b(1))
  ultimately show ?thesis using b(2) by (simp add: rep_def)
qed

lemma same_room_attach [simp]: "same_room c (attach_child h child n c)"
  by (simp add: same_room_def roomy_def attach_child_def)

lemma base_len_rep: "rep fs c \<Longrightarrow> base_len c = length (layout fs)"
  by (auto simp: rep_def base_len_def simp flip: length_written)

lemma CBB_add_asn1_cases:
  assumes rep: "rep (fs @ [(h, k, ys)]) c" and new: "child \<notin> fst ` set fs" "child \<noteq> h"
    and f: "CBB_add_asn1 a h child tag c = (r, c')"
  shows "r \<noteq> None \<Longrightarrow> rep (fs @ [(h, k, ys @ der_tag tag), (child, Asn1, [])]) c' \<and> same_room c c'"
    and "r = None \<Longrightarrow> \<not> roomy a (length (layout (fs @ [(h, k, ys @ der_tag tag @ [0])]))) c"
proof -
  obtain r1 c1 where t: "add_tag a h tag c = (r1, c1)" by (cases "add_tag a h tag c")
  obtain r2 c2 where z: "CBB_add_u8 a h 0 c1 = (r2, c2)" by (cases "CBB_add_u8 a h 0 c1")
  define n where "n = \<lparr>cn_offset = base_len c1, cn_pending_len_len = 1, cn_pending_is_asn1 = True, cn_is_child = True\<rparr>"
  have f': "(r, c') = pbind (add_tag a h tag c) (\<lambda>_ c. let offset = base_len c in
      pbind (CBB_add_u8 a h 0 c) (\<lambda>_ c. (Some (), attach_child h child
        \<lparr>cn_offset = offset, cn_pending_len_len = 1, cn_pending_is_asn1 = True, cn_is_child = True\<rparr> c)))"
    using f CBB_flush_last [OF rep] by (simp add: CBB_add_asn1_def add_tag_def Let_def)
  show "r = None \<Longrightarrow> \<not> roomy a (length (layout (fs @ [(h, k, ys @ der_tag tag @ [0])]))) c"
  proof (cases r1)
    case None
    then show ?thesis using appends_None [OF add_tag_appends rep] t
        roomy_frame_mono [of a fs h k "ys @ der_tag tag @ [0]" c "ys @ der_tag tag"] by auto
  next
    case (Some u)
    assume "r = None"
    then have "r2 = None" using f' t z Some by (cases r2) (auto simp: Let_def)
    have c1: "rep (fs @ [(h, k, ys @ der_tag tag)]) c1" "same_room c c1"
      using appends_Some [OF add_tag_appends rep] t Some by auto
    show ?thesis using appends_None [OF CBB_add_u8_appends c1(1)] z \<open>r2 = None\<close> c1(2)
      by (simp add: same_room_def)
  qed
  assume "r \<noteq> None"
  then obtain u u' where Some: "r1 = Some u" "r2 = Some u'" and c': "c' = attach_child h child n c2"
    using f' t z by (cases r1; cases r2) (auto simp: Let_def n_def)
  have c1: "rep (fs @ [(h, k, ys @ der_tag tag)]) c1" "same_room c c1"
    using appends_Some [OF add_tag_appends rep] t Some by auto
  have c2: "rep (fs @ [(h, k, (ys @ der_tag tag) @ replicate (placeholder Asn1) 0)]) c2" "same_room c1 c2"
    using appends_Some [OF CBB_add_u8_appends c1(1)] z Some by auto
  have "n = child_node (length (layout (fs @ [(h, k, ys @ der_tag tag)]))) Asn1"
    by (simp add: n_def base_len_rep [OF c1(1)])
  then show "rep (fs @ [(h, k, ys @ der_tag tag), (child, Asn1, [])]) c' \<and> same_room c c'"
    using attach_rep [OF c2(1) _ new] same_room_trans [OF c1(2) same_room_trans [OF c2(2)]]
    by (simp add: c' child_kind_def)
qed

text \<open>An element whose contents \<open>m\<close> appends to the child.\<close>

lemma appended_element:
  assumes rep: "rep (fs @ [(h, k, ys)]) c" and new: "child \<notin> fst ` set fs" "child \<noteq> h"
    and m: "appends a child xs m" and len: "length xs \<le> 0xfffffffe"
  shows "appended a fs h k (ys @ der_element tag xs) c
    (pbind (CBB_add_asn1 a h child tag c) (\<lambda>_ c. pbind (m c) (\<lambda>_ c. CBB_flush a h c)))"
proof -
  obtain r1 c1 where 1: "CBB_add_asn1 a h child tag c = (r1, c1)" by (cases "CBB_add_asn1 a h child tag c")
  obtain r2 c2 where 2: "m c1 = (r2, c2)" by (cases "m c1")
  obtain r3 c3 where 3: "CBB_flush a h c2 = (r3, c3)" by (cases "CBB_flush a h c2")
  have lel: "1 \<le> length (der_length n)" for n by (simp add: der_length_def)
  note cases1 = CBB_add_asn1_cases [OF rep new 1]
  have el: "length (der_element tag xs) = length (der_tag tag) + length (der_length (length xs)) + length xs"
    by (simp add: der_element_def der_header_def)
  show ?thesis
  proof (cases r1)
    case None
    then have "\<not> roomy a (length (layout (fs @ [(h, k, ys @ der_element tag xs)]))) c"
      using cases1(2) roomy_frame_mono [of a fs h k "ys @ der_element tag xs" c "ys @ der_tag tag @ [0]"]
        lel [of "length xs"] by (auto simp: el)
    then show ?thesis using 1 None by (simp add: appended_def)
  next
    case (Some u1)
    then have c1: "rep ((fs @ [(h, k, ys @ der_tag tag)]) @ [(child, Asn1, [])]) c1" "same_room c c1"
      using cases1(1) by auto
    show ?thesis
    proof (cases r2)
      case None
      have "\<not> roomy a (length (layout (fs @ [(h, k, ys @ der_tag tag), (child, Asn1, xs)]))) c"
        using appends_None [OF m c1(1)] 2 None c1(2) by (auto simp: same_room_def)
      moreover have "length (layout (fs @ [(h, k, ys @ der_tag tag), (child, Asn1, xs)]))
          \<le> length (layout (fs @ [(h, k, ys @ der_element tag xs)]))"
        using lel [of "length xs"] by (simp add: layout_append el)
      ultimately show ?thesis using roomy_mono 1 2 Some None by (auto simp: appended_def)
    next
      case (Some u2)
      then have c2: "rep (fs @ (h, k, ys @ der_tag tag) # [(child, Asn1, xs)]) c2" "same_room c1 c2"
        using appends_Some [OF m c1(1)] 2 by auto
      have col: "collapse [(child, Asn1, xs)] = Some (der_length (length xs) @ xs)" using len by simp
      note cases3 = CBB_flush_cases [OF c2(1) 3]
      have room: "same_room c c2" using same_room_trans [OF c1(2) c2(2)] .
      have el': "(ys @ der_tag tag) @ der_length (length xs) @ xs = ys @ der_element tag xs"
        by (simp add: der_element_def der_header_def)
      show ?thesis
      proof (cases r3)
        case None
        then show ?thesis using cases3(3) [OF col] 1 2 3 \<open>r1 = Some u1\<close> Some room
          unfolding el' by (auto simp: appended_def same_room_def)
      next
        case (Some u3)
        then have "rep (fs @ [(h, k, ys @ der_element tag xs)]) c3" "same_room c c3"
          using cases3(1) col el' same_room_trans [OF room] by auto
        then show ?thesis using 1 2 3 \<open>r1 = Some u1\<close> \<open>r2 = Some u2\<close> Some by (simp add: appended_def)
      qed
    qed
  qed
qed

lemma local_cbb_new: "rep fs c \<Longrightarrow> local_cbb c \<notin> fst ` set fs"
proof
  assume "rep fs c" and "local_cbb c \<in> fst ` set fs"
  moreover have "map fst (cbb_chain c) = map fst fs" using \<open>rep fs c\<close> by (simp add: rep_def)
  ultimately have "local_cbb c \<in> set (map fst (cbb_chain c))" by simp
  then have "local_cbb c \<le> sum_list (map fst (cbb_chain c))" by (rule member_le_sum_list) simp
  then show False by (simp add: local_cbb_def)
qed

lemma appends_local_element:
  assumes "\<And>child. appends a child xs (m child)" "length xs \<le> 0xfffffffe"
  shows "appends a h (der_element tag xs) (\<lambda>c. let child = local_cbb c in
    pbind (CBB_add_asn1 a h child tag c) (\<lambda>_ c. pbind (m child c) (\<lambda>_ c. CBB_flush a h c)))"
  unfolding appends_def Let_def
proof (intro allI impI)
  fix fs k ys c assume rep: "rep (fs @ [(h, k, ys)]) c"
  show "appended a fs h k (ys @ der_element tag xs) c
      (pbind (CBB_add_asn1 a h (local_cbb c) tag c) (\<lambda>_ c'. pbind (m (local_cbb c) c') (\<lambda>_ c. CBB_flush a h c)))"
    using local_cbb_new [OF rep] by (intro appended_element [OF rep _ _ assms]) auto
qed

section \<open>Values\<close>

theorem CBB_add_asn1_octet_string_appends:
  "length data \<le> 0xfffffffe \<Longrightarrow>
   appends a h (der_element CBS_ASN1_OCTETSTRING data) (CBB_add_asn1_octet_string a h data)"
  unfolding CBB_add_asn1_octet_string_def by (rule appends_local_element [OF CBB_add_bytes_appends]) simp_all

theorem CBB_add_asn1_bool_appends:
  "appends a h (der_element CBS_ASN1_BOOLEAN [if value \<noteq> 0 then 0xff else 0]) (CBB_add_asn1_bool a h value)"
  unfolding CBB_add_asn1_bool_def by (rule appends_local_element [OF CBB_add_u8_appends]) simp

end
