(* ===== verification/Cbb_Int.thy ===== *)
theory Cbb_Int
  imports Cbb_Asn1
begin

text \<open>
  INTEGERs: what \<open>CBB_add_asn1_uint64\<close> and \<open>CBB_add_asn1_int64\<close> write is the shortest two's
  complement form of the number, so the readers of cbs.c give it back.
\<close>

section \<open>Unsigned\<close>

lemma be_bytes_nth: "be_bytes n v = map (\<lambda>i. of_nat (v div 256 ^ (n - 1 - i))) [0..<n]"
proof (induction n arbitrary: v)
  case (Suc n)
  have "v div 256 div 256 ^ (n - 1 - i) = v div 256 ^ (n - i)" if "i < n" for i
    using that by (simp add: div_mult2_eq [symmetric] Suc_diff_Suc flip: power_Suc)
  then show ?case by (simp add: Suc)
qed simp

lemma uint64_byte: "ucast (drop_bit (8 * k) (v :: u64) AND 0xff) = (of_nat (unat v div 256 ^ k) :: u8)"
proof -
  have "unat (ucast (drop_bit (8 * k) v AND 0xff) :: u8) = unat v div 256 ^ k mod 256"
    using unat_and_bits [of "0xff :: u64" 0 8 "drop_bit (8 * k) v"]
    by (simp add: word_nat power_mult mask_eq_exp_minus_1)
  then show ?thesis by (simp add: word_unat_eq_iff unat_of_nat)
qed

definition uint_content :: "bytes \<Rightarrow> bytes" where
  "uint_content bs =
     (case dropWhile (\<lambda>b. b = 0) bs of
        [] \<Rightarrow> [0]
      | b # r \<Rightarrow> (if b AND 0x80 \<noteq> 0 then [0] else []) @ b # r)"

lemma asn1_uint64_bytes_started:
  "asn1_uint64_bytes a child v True is c =
   pbind (put_all (CBB_add_u8 a child) (map (\<lambda>i. of_nat (unat v div 256 ^ (7 - i))) is) c) (\<lambda>_ c. (Some True, c))"
  by (induction "is" arbitrary: c) (simp_all add: uint64_byte pbind_assoc Let_def cong: pbind_cong)

lemma asn1_uint64_bytes_eq:
  "asn1_uint64_bytes a child v False is c =
   (case dropWhile (\<lambda>b. b = 0) (map (\<lambda>i. of_nat (unat v div 256 ^ (7 - i))) is) of
      [] \<Rightarrow> (Some False, c)
    | b # r \<Rightarrow> pbind (put_all (CBB_add_u8 a child) ((if b AND 0x80 \<noteq> 0 then [0] else []) @ b # r) c)
        (\<lambda>_ c. (Some True, c)))"
proof (induction "is" arbitrary: c)
  case (Cons i "is")
  show ?case
  proof (cases "of_nat (unat v div 256 ^ (7 - i)) = (0 :: u8)")
    case True
    then show ?thesis using Cons by (simp add: uint64_byte Let_def)
  next
    case False
    then show ?thesis
      by (simp add: uint64_byte Let_def asn1_uint64_bytes_started pbind_assoc cong: pbind_cong)
  qed
qed simp

lemma uint64_content:
  "pbind (asn1_uint64_bytes a child v False [0..<8] c)
     (\<lambda>started c. if \<not> started then CBB_add_u8 a child 0 c else (Some (), c)) =
   put_all (CBB_add_u8 a child) (uint_content (be_bytes 8 (unat v))) c"
proof -
  define bs where "bs = be_bytes 8 (unat v)"
  have bs: "map (\<lambda>i. of_nat (unat v div 256 ^ (7 - i))) [0..<8] = bs"
    using be_bytes_nth [of 8 "unat v"] by (simp add: bs_def del: upt_Suc)
  show ?thesis
  proof (cases "dropWhile (\<lambda>b. b = 0) bs")
    case Nil
    show ?thesis unfolding asn1_uint64_bytes_eq bs bs_def [symmetric] uint_content_def Nil by simp
  next
    case (Cons b r)
    have u: "pbind m (\<lambda>_ c. (Some (), c)) = m" for m :: "unit option \<times> cbb"
      by (auto simp: pbind_def split: prod.split option.split)
    show ?thesis unfolding asn1_uint64_bytes_eq bs bs_def [symmetric] uint_content_def Cons list.case
      by (simp add: pbind_assoc u del: put_all.simps)
  qed
qed

lemma be_val_dropWhile: "be_val (dropWhile (\<lambda>b. b = 0) bs) = be_val bs"
  by (induction bs) auto

lemma uint_content_ok:
  "minimal_int (uint_content bs)" "int_val (uint_content bs) = int (be_val bs)"
proof -
  have *: "minimal_int (uint_content bs) \<and> int_val (uint_content bs) = int (be_val bs)"
  proof (cases "dropWhile (\<lambda>b. b = 0) bs")
    case Nil
    have "be_val bs = 0" using be_val_dropWhile [of bs] unfolding Nil by simp
    then show ?thesis unfolding uint_content_def Nil by (simp add: minimal_int_def int_val_def)
  next
    case (Cons b r)
    then have "b \<noteq> 0" by (simp add: dropWhile_eq_Cons_conv)
    then have b: "unat b \<noteq> 0" by (simp only: unat_eq_zero simp_thms)
    have v: "be_val (b # r) = be_val bs" using be_val_dropWhile [of bs] unfolding Cons .
    show ?thesis
    proof (cases "unat b < 128")
      case True
      then have "uint_content bs = b # r" unfolding uint_content_def Cons by (simp add: and_80_eq_0)
      moreover have "minimal_int (b # r)" using True b by (cases r) (simp_all add: minimal_int_def)
      ultimately show ?thesis using True v by (simp only: int_val_def list.sel) simp
    next
      case False
      then have "uint_content bs = 0 # b # r" unfolding uint_content_def Cons by (simp add: and_80_eq_0)
      then show ?thesis using False v by (simp add: int_val_def minimal_int_def)
    qed
  qed
  then show "minimal_int (uint_content bs)" "int_val (uint_content bs) = int (be_val bs)" by simp_all
qed

lemma length_uint_content: "length (uint_content bs) \<le> Suc (length bs)"
  using length_dropWhile_le [of "\<lambda>b. b = 0" bs] by (auto simp: uint_content_def split: list.split)

theorem CBB_add_asn1_uint64_appends:
  "appends a h (der_element CBS_ASN1_INTEGER (uint_content (be_bytes 8 (unat v)))) (CBB_add_asn1_uint64 a h v)"
proof -
  have eq: "CBB_add_asn1_uint64 a h v = (\<lambda>c. let child = local_cbb c in
      pbind (CBB_add_asn1 a h child CBS_ASN1_INTEGER c) (\<lambda>_ c.
        pbind (put_all (CBB_add_u8 a child) (uint_content (be_bytes 8 (unat v))) c) (\<lambda>_ c. CBB_flush a h c)))"
    by (simp add: CBB_add_asn1_uint64_def pbind_assoc fun_eq_iff flip: uint64_content)
  show ?thesis unfolding eq
    using length_uint_content [of "be_bytes 8 (unat v)"]
    by (intro appends_local_element put_all_appends) simp
qed

section \<open>Signed\<close>

text \<open>Dropping sign-extension bytes, on the big-endian form.\<close>

fun strip_ff :: "bytes \<Rightarrow> bytes" where
  "strip_ff (x # y # r) = (if x = 0xff \<and> y AND 0x80 \<noteq> 0 then strip_ff (y # r) else x # y # r)"
| "strip_ff bs = bs"

lemma int64_start_le: "int64_start u n \<le> n"
  by (induction u n rule: int64_start.induct) auto

lemma int64_start_eq: "n < length u \<Longrightarrow> rev (take (Suc (int64_start u n)) u) = strip_ff (rev (take (Suc n) u))"
proof (induction u n rule: int64_start.induct)
  case (1 u)
  then show ?case by (simp add: take_Suc_conv_app_nth)
next
  case (2 u m)
  then have "rev (take (Suc (Suc m)) u) = u ! Suc m # u ! m # rev (take m u)"
    "rev (take (Suc m) u) = u ! m # rev (take m u)"
    by (simp_all add: take_Suc_conv_app_nth)
  then show ?case using 2 by simp
qed

lemma strip_ff_ok:
  "bs \<noteq> [] \<Longrightarrow> 128 \<le> unat (hd bs) \<Longrightarrow>
   minimal_int (strip_ff bs) \<and> int_val (strip_ff bs) = int_val bs \<and> length (strip_ff bs) \<le> length bs"
proof (induction bs rule: strip_ff.induct)
  case (1 x y r)
  show ?case
  proof (cases "x = 0xff \<and> y AND 0x80 \<noteq> 0")
    case True
    then have y: "128 \<le> unat y" by (simp add: and_80_eq_0)
    have "unat x = 255" using True by simp
    then have "int_val (x # y # r) = int_val (y # r)"
      using y by (simp add: int_val_def algebra_simps)
    then show ?thesis using 1 True y by auto
  next
    case False
    have "x = 0xff \<longleftrightarrow> unat x = 255" by (simp add: word_unat_eq_iff)
    then have "\<not> (unat x = 255 \<and> 128 \<le> unat y)" using False and_80_eq_0 [of y] by auto
    then show ?thesis using False 1(3) by (auto simp: minimal_int_def)
  qed
qed (auto simp: minimal_int_def)

lemma asn1_int64_bytes_eq:
  "n \<le> length u \<Longrightarrow> asn1_int64_bytes a child u n c = put_all (CBB_add_u8 a child) (rev (take n u)) c"
proof (induction n arbitrary: c)
  case (Suc n)
  have "asn1_int64_bytes a child u n = put_all (CBB_add_u8 a child) (rev (take n u))"
    using Suc by (intro ext) simp
  then show ?case using Suc.prems by (simp add: take_Suc_conv_app_nth)
qed simp

definition int_content :: "u64 \<Rightarrow> bytes" where
  "int_content v = (if sint v \<ge> 0 then uint_content (be_bytes 8 (unat v)) else strip_ff (be_bytes 8 (unat v)))"

lemma int_val_be_bytes: "int_val (be_bytes 8 (unat v)) = sint (v :: u64)"
proof -
  define c where "c = be_bytes 8 (unat v)"
  have c: "length c = 8" by (simp add: c_def)
  then have ne: "c \<noteq> []" by auto
  have "u64_of_le (rev c) = of_int (int_val c)" using sign_extended [OF ne] c by simp
  moreover have "u64_of_le (rev c) = v" by (simp add: u64_of_le_def c_def be_val_be_bytes)
  moreover have "- (2 ^ 63) \<le> int_val c" "int_val c < 2 ^ 63" using int_val_range [OF ne] c by simp_all
  ultimately show ?thesis using sint_u64_of_int [of "int_val c"] by (simp add: c_def)
qed

lemma int_content_ok:
  "minimal_int (int_content v)" "int_val (int_content v) = sint v" "length (int_content v) \<le> 9"
proof -
  define c where "c = be_bytes 8 (unat v)"
  have c: "length c = 8" by (simp add: c_def)
  then have ne: "c \<noteq> []" by auto
  have v: "int_val c = sint v" unfolding c_def by (rule int_val_be_bytes)
  have "int_val (uint_content c) = sint v" if "0 \<le> sint v"
  proof -
    have "unat (hd c) < 128" using that v int_val_nonneg_iff [of c] ne by simp
    then show ?thesis using v uint_content_ok(2) [of c] by (simp add: int_val_def)
  qed
  moreover have "128 \<le> unat (hd c)" if "\<not> 0 \<le> sint v" using that v int_val_nonneg_iff [of c] ne by auto
  ultimately have "minimal_int (int_content v) \<and> int_val (int_content v) = sint v \<and> length (int_content v) \<le> 9"
    using uint_content_ok [of c] strip_ff_ok [OF ne] length_uint_content [of c] c v
    unfolding int_content_def c_def [symmetric] by auto
  then show "minimal_int (int_content v)" "int_val (int_content v) = sint v" "length (int_content v) \<le> 9"
    by simp_all
qed

theorem CBB_add_asn1_int64_appends:
  "appends a h (der_element CBS_ASN1_INTEGER (int_content v)) (CBB_add_asn1_int64 a h v)"
proof (cases "sint v \<ge> 0")
  case True
  then have "CBB_add_asn1_int64 a h v = CBB_add_asn1_uint64 a h v"
    by (simp add: CBB_add_asn1_int64_def fun_eq_iff)
  then show ?thesis using CBB_add_asn1_uint64_appends True by (simp add: int_content_def)
next
  case False
  define u where "u = le_of_u64 v"
  have u: "length u = 8" "rev u = be_bytes 8 (unat v)" by (simp_all add: u_def le_of_u64_def)
  have "rev (take (Suc (int64_start u 7)) u) = int_content v"
    using int64_start_eq [of 7 u] u False by (simp add: int_content_def)
  moreover have "Suc (int64_start u 7) \<le> length u" using int64_start_le [of u 7] u by simp
  ultimately have b: "asn1_int64_bytes a child u (Suc (int64_start u 7)) c = put_all (CBB_add_u8 a child) (int_content v) c"
    for child c using asn1_int64_bytes_eq by (simp del: asn1_int64_bytes.simps)
  have eq: "CBB_add_asn1_int64 a h v = (\<lambda>c. let child = local_cbb c in
      pbind (CBB_add_asn1 a h child CBS_ASN1_INTEGER c) (\<lambda>_ c.
        pbind (put_all (CBB_add_u8 a child) (int_content v) c) (\<lambda>_ c. CBB_flush a h c)))"
    using False by (simp add: CBB_add_asn1_int64_def fun_eq_iff Let_def b flip: u_def del: asn1_int64_bytes.simps)
  show ?thesis unfolding eq
    using int_content_ok(3) [of v] by (intro appends_local_element put_all_appends) simp
qed

section \<open>Reading back\<close>

lemma CBS_get_asn1_uint64_uint_content:
  "CBS_get_asn1_uint64 (der_element CBS_ASN1_INTEGER (uint_content (be_bytes 8 (unat v))) @ rest) = (Some v, rest)"
proof -
  have "be_val (be_bytes 8 (unat v)) = unat v" by (simp add: be_val_be_bytes)
  then show ?thesis
    unfolding CBS_get_asn1_uint64_iff
    using uint_content_ok [of "be_bytes 8 (unat v)"] length_uint_content [of "be_bytes 8 (unat v)"]
    by (intro exI [of _ "uint_content (be_bytes 8 (unat v))"]) simp
qed

lemma CBS_get_asn1_int64_int_content:
  "CBS_get_asn1_int64 (der_element CBS_ASN1_INTEGER (int_content v) @ rest) = (Some v, rest)"
  unfolding CBS_get_asn1_int64_iff using int_content_ok [of v] by (intro exI [of _ "int_content v"]) simp

end
