(* ===== verification/Cbb_Api.thy ===== *)
theory Cbb_Api
  imports Cbb_Int
begin

text \<open>
  A builder from \<open>CBB_init\<close> or \<open>CBB_init_fixed\<close> to \<open>CBB_finish\<close>: what it hands out, when it fails,
  that an error is final, and that documents of any nesting are written as their encodings.
\<close>

section \<open>Length-prefixed children\<close>

lemma pbind_on_base_Some:
  "pbind (on_base (\<lambda>b. (Some (), g b)) c) f =
   (case cbb_base c of None \<Rightarrow> (None, c) | Some b \<Rightarrow> f () (c\<lparr>cbb_base := Some (g b)\<rparr>))"
  by (simp add: on_base_def split: option.split)

lemma add_zeros_prefix:
  assumes rep: "rep (fs @ [(h, k, ys)]) c" and n: "n < 2 ^ 64"
  shows "appended a fs h k (ys @ replicate n 0) c
    (pbind (on_base (cbb_buffer_add a n) c) (\<lambda>d. on_base (\<lambda>b. (Some (), buf_copy d (replicate n 0) b))))"
proof -
  have "CBB_add_bytes a h (replicate n 0) c =
      pbind (on_base (cbb_buffer_add a n) c) (\<lambda>d. on_base (\<lambda>b. (Some (), buf_copy d (replicate n 0) b)))"
    by (simp add: CBB_add_bytes_def CBB_flush_last [OF rep])
  moreover have "appends a h (replicate n 0) (CBB_add_bytes a h (replicate n 0))"
    by (rule CBB_add_bytes_appends) (use n in simp)
  then have "appended a fs h k (ys @ replicate n 0) c (CBB_add_bytes a h (replicate n 0) c)"
    using rep unfolding appends_def by blast
  ultimately show ?thesis by simp
qed

lemma cbb_add_length_prefixed_cases:
  assumes rep: "rep (fs @ [(h, k, ys)]) c" and new: "child \<notin> fst ` set fs" "child \<noteq> h" and n: "0 < n" "n < 2 ^ 64"
    and f: "cbb_add_length_prefixed a h child n c = (r, c')"
  shows "r \<noteq> None \<Longrightarrow> rep (fs @ [(h, k, ys), (child, Prefixed n, [])]) c' \<and> same_room c c'"
    and "r = None \<Longrightarrow> \<not> roomy a (length (layout (fs @ [(h, k, ys)])) + n) c"
proof -
  define node where "node = child_node (length (layout (fs @ [(h, k, ys)]))) (Prefixed n)"
  define m where "m = pbind (on_base (cbb_buffer_add a n) c) (\<lambda>d. on_base (\<lambda>b. (Some (), buf_copy d (replicate n 0) b)))"
  have f': "(r, c') = pbind m (\<lambda>_ c. (Some (), attach_child h child node c))"
    using f by (simp add: cbb_add_length_prefixed_def CBB_flush_last [OF rep] base_len_rep [OF rep]
        Let_def m_def node_def pbind_assoc)
  have app: "appended a fs h k (ys @ replicate n 0) c m"
    unfolding m_def by (rule add_zeros_prefix [OF rep n(2)])
  obtain r1 c1 where m: "m = (r1, c1)" by (cases m)
  show "r = None \<Longrightarrow> \<not> roomy a (length (layout (fs @ [(h, k, ys)])) + n) c"
    using f' app m by (cases r1) (auto simp: appended_def layout_append add_ac)
  assume "r \<noteq> None"
  then obtain u where "r1 = Some u" "c' = attach_child h child node c1" using f' m by (cases r1) auto
  moreover have "rep (fs @ [(h, k, ys @ replicate (placeholder (Prefixed n)) 0)]) c1" "same_room c c1"
    using app m \<open>r1 = Some u\<close> by (auto simp: appended_def)
  ultimately show "rep (fs @ [(h, k, ys), (child, Prefixed n, [])]) c' \<and> same_room c c'"
    using attach_rep [of fs h k ys "Prefixed n" c1 child] new n(1) same_room_trans
    by (auto simp: node_def child_kind_def)
qed

lemma appended_prefixed:
  assumes rep: "rep (fs @ [(h, k, ys)]) c" and new: "child \<notin> fst ` set fs" "child \<noteq> h"
    and m: "appends a child xs m" and n: "0 < n" "n < 2 ^ 64" "length xs < 256 ^ n"
  shows "appended a fs h k (ys @ be_bytes n (length xs) @ xs) c
    (pbind (cbb_add_length_prefixed a h child n c) (\<lambda>_ c. pbind (m c) (\<lambda>_ c. CBB_flush a h c)))"
proof -
  obtain r1 c1 where 1: "cbb_add_length_prefixed a h child n c = (r1, c1)"
    by (cases "cbb_add_length_prefixed a h child n c")
  obtain r2 c2 where 2: "m c1 = (r2, c2)" by (cases "m c1")
  obtain r3 c3 where 3: "CBB_flush a h c2 = (r3, c3)" by (cases "CBB_flush a h c2")
  note cases1 = cbb_add_length_prefixed_cases [OF rep new n(1,2) 1]
  have len: "length (layout (fs @ [(h, k, ys @ be_bytes n (length xs) @ xs)])) =
      length (layout (fs @ [(h, k, ys)])) + n + length xs"
    by (simp add: layout_append)
  show ?thesis
  proof (cases r1)
    case None
    then have "\<not> roomy a (length (layout (fs @ [(h, k, ys)])) + n + length xs) c"
      using cases1(2) roomy_mono [OF _ le_add1] by blast
    then show ?thesis using 1 None by (simp add: appended_def len)
  next
    case (Some u1)
    then have c1: "rep ((fs @ [(h, k, ys)]) @ [(child, Prefixed n, [])]) c1" "same_room c c1"
      using cases1(1) by auto
    show ?thesis
    proof (cases r2)
      case None
      have "\<not> roomy a (length (layout (fs @ [(h, k, ys), (child, Prefixed n, xs)]))) c"
        using appends_None [OF m c1(1)] 2 None c1(2) by (auto simp: same_room_def)
      then show ?thesis using 1 2 Some None by (simp add: appended_def len layout_append add_ac)
    next
      case (Some u2)
      then have c2: "rep (fs @ (h, k, ys) # [(child, Prefixed n, xs)]) c2" "same_room c1 c2"
        using appends_Some [OF m c1(1)] 2 by auto
      have col: "collapse [(child, Prefixed n, xs)] = Some (be_bytes n (length xs) @ xs)" using n by simp
      note cases3 = CBB_flush_cases [OF c2(1) 3]
      have room: "same_room c c2" using same_room_trans [OF c1(2) c2(2)] .
      show ?thesis
      proof (cases r3)
        case None
        then show ?thesis using cases3(3) [OF col] 1 2 3 \<open>r1 = Some u1\<close> Some room
          by (auto simp: appended_def same_room_def)
      next
        case (Some u3)
        then have "rep (fs @ [(h, k, ys @ be_bytes n (length xs) @ xs)]) c3" "same_room c c3"
          using cases3(1) col same_room_trans [OF room] by auto
        then show ?thesis using 1 2 3 \<open>r1 = Some u1\<close> \<open>r2 = Some u2\<close> Some by (simp add: appended_def)
      qed
    qed
  qed
qed

section \<open>From start to finish\<close>

lemma plentiful_small: "plentiful a \<Longrightarrow> \<exists>f. OPENSSL_malloc a 32 = Some f"
  by (rule plentiful_malloc) simp_all

lemma rep_init:
  "cap < 2 ^ 64 \<Longrightarrow> rep [(h, Root, [])] (cbb_init h buf cap)"
  by (simp add: rep_def wf_frames_def cbb_init_def buf_ok_def written_def)

lemma CBB_init_plentiful:
  assumes "plentiful a" "cap < 2 ^ 63"
  shows "\<exists>c. CBB_init a h cap = (Some (), c) \<and> rep [(h, Root, [])] c \<and> (\<forall>n < 2 ^ 62. roomy a n c)"
proof -
  obtain f where "OPENSSL_malloc a cap = Some f" using plentiful_malloc assms by blast
  moreover obtain g where "OPENSSL_malloc a 32 = Some g" using plentiful_small [OF assms(1)] by blast
  ultimately have "CBB_init a h cap = (Some (), cbb_init h f cap)" by (simp add: CBB_init_def Let_def)
  moreover have "rep [(h, Root, [])] (cbb_init h f cap)" using assms(2) by (intro rep_init) simp
  moreover have "roomy a n (cbb_init h f cap)" if "n < 2 ^ 62" for n
    using assms(1) that by (simp add: roomy_def room_def cbb_init_def)
  ultimately show ?thesis by blast
qed

lemma CBB_finish_cases:
  assumes rep: "rep ((h, Root, xs) # gs) c" and f: "CBB_finish a h True True c = (r, c')"
  shows "r = Some out \<Longrightarrow> \<exists>ys. collapse gs = Some ys \<and> out = xs @ ys \<and> cbb_base c' = None"
    and "collapse gs = Some ys \<Longrightarrow> roomy a (length (xs @ ys)) c \<Longrightarrow> r \<noteq> None"
proof -
  have rep': "rep ([] @ (h, Root, xs) # gs) c" using rep by simp
  have nc: "\<not> (case chain_from h (cbb_chain c) of [] \<Rightarrow> False | (_, n) # _ \<Rightarrow> cn_is_child n)"
    using rep by (simp add: rep_def chain_from_def)
  obtain r1 c1 where 1: "CBB_flush a h c = (r1, c1)" by (cases "CBB_flush a h c")
  have f': "(r, c') = pbind (r1, c1) (\<lambda>_ c. case cbb_base c of None \<Rightarrow> (None, c)
      | Some b \<Rightarrow> (Some (written b), CBB_cleanup c))"
    using f nc by (cases r1; cases "cbb_base c1") (simp_all add: CBB_finish_def 1)
  note fl = CBB_flush_cases [OF rep' 1]
  have finished: "\<exists>ys. collapse gs = Some ys \<and> r = Some (xs @ ys) \<and> cbb_base c' = None" if r1: "r1 = Some u" for u
  proof -
    obtain ys where ys: "collapse gs = Some ys" "rep [(h, Root, xs @ ys)] c1" using fl(1) r1 by auto
    from ys(2) obtain b where "cbb_base c1 = Some b" "written b = xs @ ys" by (auto simp: rep_def)
    then show ?thesis using f' r1 ys(1) by (simp add: CBB_cleanup_def)
  qed
  show "r = Some out \<Longrightarrow> \<exists>ys. collapse gs = Some ys \<and> out = xs @ ys \<and> cbb_base c' = None"
    using finished f' by (cases r1) auto
  show "collapse gs = Some ys \<Longrightarrow> roomy a (length (xs @ ys)) c \<Longrightarrow> r \<noteq> None"
    using finished fl(3) by (cases r1) auto
qed

lemma CBB_finish_last: "rep [(h, Root, xs)] c \<Longrightarrow> \<exists>c'. CBB_finish a h True True c = (Some xs, c')"
proof -
  assume rep: "rep [(h, Root, xs)] c"
  then have "CBB_flush a h c = (Some (), c)" using CBB_flush_last [of "[]"] by simp
  moreover obtain b where "cbb_base c = Some b" "written b = xs" using rep by (auto simp: rep_def)
  moreover have "\<not> (case chain_from h (cbb_chain c) of [] \<Rightarrow> False | (_, n) # _ \<Rightarrow> cn_is_child n)"
    using rep by (simp add: rep_def chain_from_def)
  ultimately show ?thesis by (simp add: CBB_finish_def)
qed

text \<open>A session with a growing builder.\<close>

lemma session:
  assumes "plentiful a" "cap < 2 ^ 63" "length xs < 2 ^ 62" "appends a h xs m"
  shows "\<exists>c1 c2 c3. CBB_init a h cap = (Some (), c1) \<and> m c1 = (Some (), c2) \<and>
    CBB_finish a h True True c2 = (Some xs, c3)"
proof -
  obtain c1 where c1: "CBB_init a h cap = (Some (), c1)" "rep ([] @ [(h, Root, [])]) c1"
    "roomy a (length xs) c1" using CBB_init_plentiful [OF assms(1,2)] assms(3) by auto
  obtain c2 where "m c1 = (Some (), c2)"
    using appends_None [OF assms(4) c1(2)] c1(3) by (cases "m c1"; cases "fst (m c1)") auto
  moreover have "rep [(h, Root, xs)] c2"
    using appends_Some [OF assms(4) c1(2) \<open>m c1 = (Some (), c2)\<close>] by simp
  ultimately show ?thesis using c1(1) CBB_finish_last by blast
qed

section \<open>Errors are final\<close>

lemma CBB_flush_failed: "failed c \<Longrightarrow> CBB_flush a h c = (None, c)"
proof -
  assume failed: "failed c"
  have chain: "chain_from h (cbb_chain c) = me # cs \<Longrightarrow>
      chain_before h (cbb_chain c) @ me # cs = cbb_chain c" for me cs
    using takeWhile_dropWhile_id [of "\<lambda>p. fst p \<noteq> h" "cbb_chain c"]
    by (simp add: chain_from_def chain_before_def)
  have ch: "flush_children a cs b = (None, b, cs)" if "cb_error b" for cs b
    using that by (cases cs) auto
  show ?thesis
    using failed chain
    by (auto simp: CBB_flush_def failed_def ch split: option.splits list.splits)
qed

lemma failed_ops:
  assumes "failed c"
  shows "CBB_add_bytes a h data c = (None, c)" "CBB_add_space a h n c = (None, c)"
    "CBB_add_zeros a h n c = (None, c)" "CBB_reserve a h n c = (None, c)"
    "CBB_add_u a h v n c = (None, c)" "cbb_add_length_prefixed a h child n c = (None, c)"
    "CBB_add_asn1 a h child tag c = (None, c)" "CBB_finish a h d l c = (None, c)"
    "CBB_add_asn1_uint64 a h v c = (None, c)" "CBB_add_asn1_int64 a h v c = (None, c)"
    "CBB_add_asn1_octet_string a h data c = (None, c)" "CBB_add_asn1_bool a h i c = (None, c)"
proof -
  note f = CBB_flush_failed [OF assms]
  show "CBB_add_bytes a h data c = (None, c)" by (simp add: CBB_add_bytes_def f)
  show "CBB_add_space a h n c = (None, c)" by (simp add: CBB_add_space_def f)
  then show "CBB_add_zeros a h n c = (None, c)" by (simp add: CBB_add_zeros_def)
  show "CBB_reserve a h n c = (None, c)" by (simp add: CBB_reserve_def f)
  show "CBB_add_u a h v n c = (None, c)" by (simp add: CBB_add_u_def f)
  show "cbb_add_length_prefixed a h child n c = (None, c)" by (simp add: cbb_add_length_prefixed_def f)
  have asn1: "CBB_add_asn1 a h child tag c = (None, c)" for child tag by (simp add: CBB_add_asn1_def f)
  then show "CBB_add_asn1 a h child tag c = (None, c)" .
  show "CBB_finish a h d l c = (None, c)" by (simp add: CBB_finish_def f)
  show u: "CBB_add_asn1_uint64 a h v c = (None, c)" by (simp add: CBB_add_asn1_uint64_def asn1 Let_def)
  show "CBB_add_asn1_int64 a h v c = (None, c)" by (simp add: CBB_add_asn1_int64_def asn1 Let_def u)
  show "CBB_add_asn1_octet_string a h data c = (None, c)"
    by (simp add: CBB_add_asn1_octet_string_def asn1 Let_def)
  show "CBB_add_asn1_bool a h i c = (None, c)" by (simp add: CBB_add_asn1_bool_def asn1 Let_def)
qed

section \<open>Buffers of the caller's\<close>

text \<open>Strings added one after another, until one fails; and those of them that fit into \<open>room\<close> bytes.\<close>

fun add_all :: "allocator \<Rightarrow> nat \<Rightarrow> bytes list \<Rightarrow> cbb \<Rightarrow> unit option \<times> cbb" where
  "add_all a h [] c = (Some (), c)"
| "add_all a h (d # ds) c = pbind (CBB_add_bytes a h d c) (\<lambda>_ c. add_all a h ds c)"

fun fitting :: "nat \<Rightarrow> bytes list \<Rightarrow> bytes list" where
  "fitting n [] = []"
| "fitting n (d # ds) = (if length d \<le> n then d # fitting (n - length d) ds else [])"

lemma fitting_all: "length (concat ds) \<le> n \<Longrightarrow> fitting n ds = ds"
  by (induction ds arbitrary: n) auto

text \<open>A top-level \<open>CBB\<close> at \<open>h\<close> that holds \<open>xs\<close> in a buffer of \<open>len\<close> bytes whose surroundings are as in
  \<open>buf\<close>.\<close>

definition on_fixed :: "nat \<Rightarrow> (nat \<Rightarrow> u8) \<Rightarrow> nat \<Rightarrow> bytes \<Rightarrow> cbb \<Rightarrow> bool" where
  "on_fixed h buf len xs c \<longleftrightarrow> rep [(h, Root, xs)] c \<and>
     (\<exists>b. cbb_base c = Some b \<and> cb_cap b = len \<and> \<not> cb_can_resize b \<and> (\<forall>i \<ge> len. cb_buf b i = buf i))"

lemma CBB_init_fixed_state:
  "plentiful a \<Longrightarrow> len < 2 ^ 64 \<Longrightarrow> \<exists>c. CBB_init_fixed a h buf len = (Some (), c) \<and> on_fixed h buf len [] c"
  using plentiful_small [of a]
  by (auto simp: CBB_init_fixed_def Let_def on_fixed_def rep_def wf_frames_def cbb_init_def buf_ok_def written_def)

lemma cbb_buffer_add_fixed:
  assumes "buf_ok b" "\<not> cb_can_resize b" "n < 2 ^ 64"
  shows "cbb_buffer_add a n b =
    (if cb_len b + n \<le> cb_cap b then (Some (cb_len b), b\<lparr>cb_len := cb_len b + n\<rparr>) else (None, cbb_buffer_err b))"
proof -
  have b: "cb_len b \<le> cb_cap b" "cb_cap b < 2 ^ 64" using assms(1) by (simp_all add: buf_ok_def)
  show ?thesis
  proof (cases "cb_len b + n < 2 ^ 64")
    case True
    then show ?thesis using assms(2) by (simp add: cbb_buffer_add_def cbb_buffer_reserve_def Let_def)
  next
    case False
    then have "size_wrap (cb_len b + n) < cb_len b" using b assms(3) by (subst size_wrap_add) simp_all
    then show ?thesis using False b by (simp add: cbb_buffer_add_def cbb_buffer_reserve_def Let_def)
  qed
qed

lemma CBB_add_bytes_fixed:
  assumes "on_fixed h buf len xs c" "length d < 2 ^ 64"
  shows "length xs + length d \<le> len \<Longrightarrow>
      \<exists>c'. CBB_add_bytes a h d c = (Some (), c') \<and> on_fixed h buf len (xs @ d) c'"
    and "len < length xs + length d \<Longrightarrow>
      \<exists>c' b. CBB_add_bytes a h d c = (None, c') \<and> cbb_base c' = Some b \<and> written b = xs \<and> cb_cap b = len \<and>
        \<not> cb_can_resize b \<and> (\<forall>i \<ge> len. cb_buf b i = buf i) \<and> cb_error b"
proof -
  from assms(1) obtain b where b: "rep ([] @ [(h, Root, xs)]) c" "cbb_base c = Some b" "buf_ok b" "written b = xs"
    "cb_cap b = len" "\<not> cb_can_resize b" "\<forall>i \<ge> len. cb_buf b i = buf i"
    by (auto simp: on_fixed_def rep_def)
  have len: "cb_len b = length xs" using b(4) by auto
  have add: "CBB_add_bytes a h d c =
      pbind (on_base (cbb_buffer_add a (length d)) c) (\<lambda>dest. on_base (\<lambda>b. (Some (), buf_copy dest d b)))"
    by (simp add: CBB_add_bytes_def CBB_flush_last [OF b(1)])
  note f = cbb_buffer_add_fixed [OF b(3,6) assms(2), unfolded len b(5)]
  {
    assume "length xs + length d \<le> len"
    then have ok: "CBB_add_bytes a h d c =
        (Some (), c\<lparr>cbb_base := Some (buf_copy (length xs) d (b\<lparr>cb_len := length xs + length d\<rparr>))\<rparr>)"
      using b(2) f by (simp add: add on_base_def)
    have "rep ([] @ [(h, Root, xs @ d)]) (snd (CBB_add_bytes a h d c))"
      using appends_Some [OF CBB_add_bytes_appends [OF assms(2)] b(1) ok] ok by simp
    then have "on_fixed h buf len (xs @ d) (snd (CBB_add_bytes a h d c))"
      using b(5,6,7) \<open>length xs + length d \<le> len\<close> by (auto simp: ok on_fixed_def buf_copy_def)
    with ok show "\<exists>c'. CBB_add_bytes a h d c = (Some (), c') \<and> on_fixed h buf len (xs @ d) c'" by auto
  }
  assume "len < length xs + length d"
  then have "CBB_add_bytes a h d c = (None, c\<lparr>cbb_base := Some (cbb_buffer_err b)\<rparr>)"
    using b(2) f by (simp add: add on_base_def)
  then show "\<exists>c' b. CBB_add_bytes a h d c = (None, c') \<and> cbb_base c' = Some b \<and> written b = xs \<and> cb_cap b = len \<and>
      \<not> cb_can_resize b \<and> (\<forall>i \<ge> len. cb_buf b i = buf i) \<and> cb_error b"
    using b(4,5,6,7) by (simp add: cbb_buffer_err_def written_def)
qed

lemma on_fixed_length: "on_fixed h buf len xs c \<Longrightarrow> length xs \<le> len"
  by (auto simp: on_fixed_def rep_def buf_ok_def dest: arg_cong [of _ _ length])

lemma add_all_fixed_fits:
  "on_fixed h buf len xs c \<Longrightarrow> \<forall>d \<in> set ds. length d < 2 ^ 64 \<Longrightarrow> length xs + length (concat ds) \<le> len \<Longrightarrow>
   \<exists>c'. add_all a h ds c = (Some (), c') \<and> on_fixed h buf len (xs @ concat ds) c'"
proof (induction ds arbitrary: xs c)
  case (Cons d ds)
  obtain c' where c': "CBB_add_bytes a h d c = (Some (), c')" "on_fixed h buf len (xs @ d) c'"
    using CBB_add_bytes_fixed(1) [OF Cons.prems(1), of d a] Cons.prems(2,3) by auto
  with Cons.IH [OF c'(2)] Cons.prems(2,3) show ?case by simp
qed simp

lemma add_all_fixed_fails:
  "on_fixed h buf len xs c \<Longrightarrow> \<forall>d \<in> set ds. length d < 2 ^ 64 \<Longrightarrow> len < length xs + length (concat ds) \<Longrightarrow>
   \<exists>c' b. add_all a h ds c = (None, c') \<and> cbb_base c' = Some b \<and>
     written b = xs @ concat (fitting (len - length xs) ds) \<and> cb_cap b = len \<and>
     \<not> cb_can_resize b \<and> (\<forall>i \<ge> len. cb_buf b i = buf i) \<and> cb_error b"
proof (induction ds arbitrary: xs c)
  case Nil
  then show ?case using on_fixed_length by fastforce
next
  case (Cons d ds)
  have d: "length d < 2 ^ 64" using Cons.prems(2) by simp
  show ?case
  proof (cases "length xs + length d \<le> len")
    case True
    then obtain c' where c': "CBB_add_bytes a h d c = (Some (), c')" "on_fixed h buf len (xs @ d) c'"
      using CBB_add_bytes_fixed(1) [OF Cons.prems(1) d, of a] by auto
    obtain c2 b where "add_all a h ds c' = (None, c2)" "cbb_base c2 = Some b"
      "written b = (xs @ d) @ concat (fitting (len - length (xs @ d)) ds)" "cb_cap b = len"
      "\<not> cb_can_resize b" "\<forall>i \<ge> len. cb_buf b i = buf i" "cb_error b"
      using Cons.IH [OF c'(2)] Cons.prems(2,3) by auto
    moreover have "fitting (len - length xs) (d # ds) = d # fitting (len - length (xs @ d)) ds"
      using True by simp
    ultimately show ?thesis using c'(1) by simp
  next
    case False
    then have "len < length xs + length d" by simp
    from CBB_add_bytes_fixed(2) [OF Cons.prems(1) d this, of a] obtain c2 b where
      c2: "CBB_add_bytes a h d c = (None, c2)" "cbb_base c2 = Some b"
      "written b = xs" "cb_cap b = len" "\<not> cb_can_resize b" "\<forall>i \<ge> len. cb_buf b i = buf i" "cb_error b" by blast
    moreover have "fitting (len - length xs) (d # ds) = []"
      using False on_fixed_length [OF Cons.prems(1)] by simp
    ultimately show ?thesis by simp
  qed
qed

section \<open>Properties\<close>

text \<open>C2: \<open>CBB_flush\<close> closes the frames below a \<open>CBB\<close>, whatever their number, their kinds and the sizes
  of their contents: if it succeeds, every pending length prefix, moved contents included, is what
  the reference encoding of the closed frames says, and nothing before them changes.\<close>

theorem CBB_flush_closes_children:
  assumes "rep (fs @ (h, k, xs) # gs) c" and "CBB_flush a h c = (Some (), c')"
  shows "\<exists>ys. collapse gs = Some ys \<and> rep (fs @ [(h, k, xs @ ys)]) c'"
  using CBB_flush_cases(1) [OF assms] by blast

definition demo_frames :: "frame list" where
  "demo_frames = [(0, Root, [7]), (1, Asn1, [1, 2]), (2, Prefixed 2, [3])]"

definition demo_cbb :: cbb where
  "demo_cbb =
     \<lparr>cbb_base = Some \<lparr>cb_buf = (\<lambda>i. [7, 0, 1, 2, 0, 0, 3] ! i), cb_len = 7, cb_cap = 7,
        cb_can_resize = True, cb_error = False\<rparr>,
      cbb_chain = nodes 0 demo_frames\<rparr>"

lemma demo_written: "map (\<lambda>i. [7, 0, 1, 2, 0, 0, 3 :: u8] ! i) [0..<7] = [7, 0, 1, 2, 0, 0, 3]"
  by code_simp

lemma demo_layout: "layout demo_frames = [7, 0, 1, 2, 0, 0, 3]"
  unfolding demo_frames_def by code_simp

lemma demo_rep: "rep demo_frames demo_cbb"
  using demo_written demo_layout
  by (simp add: rep_def demo_cbb_def buf_ok_def written_def) (simp add: wf_frames_def child_kind_def demo_frames_def)

lemma demo_prefix: "be_bytes 2 (Suc 0) = [0, 1]"
  by code_simp

lemma demo_collapse: "collapse [(1, Asn1, [1, 2]), (2, Prefixed 2, [3])] = Some [5, 1, 2, 0, 1, 3]"
  "collapse [(2, Prefixed 2, [3])] = Some [0, 1, 3]"
  by (simp_all add: der_length_def demo_prefix)

lemma demo_roomy: "n < 2 ^ 62 \<Longrightarrow> roomy plenty n demo_cbb"
  using plentiful_plenty by (simp add: roomy_def room_def demo_cbb_def)

lemma demo_flush: "\<exists>c'. CBB_flush plenty 0 demo_cbb = (Some (), c')"
proof -
  obtain r c' where f: "CBB_flush plenty 0 demo_cbb = (r, c')" by (cases "CBB_flush plenty 0 demo_cbb")
  have rep: "rep ([] @ (0, Root, [7]) # [(1, Asn1, [1, 2]), (2, Prefixed 2, [3])]) demo_cbb"
    using demo_rep by (simp add: demo_frames_def)
  have "r \<noteq> None" by (rule CBB_flush_cases(3) [OF rep f demo_collapse(1) demo_roomy]) simp
  then show ?thesis using f by (cases r) simp_all
qed

theorem CBB_flush_closes_children_witness:
  "\<exists>c'. CBB_flush plenty 0 demo_cbb = (Some (), c') \<and> rep [(0, Root, [7, 5, 1, 2, 0, 1, 3])] c'"
proof -
  obtain c' where f: "CBB_flush plenty 0 demo_cbb = (Some (), c')" using demo_flush by blast
  have "rep ([] @ (0, Root, [7]) # [(1, Asn1, [1, 2]), (2, Prefixed 2, [3])]) demo_cbb"
    using demo_rep by (simp add: demo_frames_def)
  from CBB_flush_closes_children [OF this f, unfolded demo_collapse] show ?thesis
    using f by simp
qed

text \<open>C6: With room for the result, \<open>CBB_flush\<close> does succeed on every stack of frames whose contents
  fit their length prefixes.\<close>

theorem CBB_flush_succeeds:
  assumes "rep (fs @ (h, k, xs) # gs) c" and "collapse gs = Some ys"
    and "roomy a (length (layout (fs @ [(h, k, xs @ ys)]))) c"
  shows "\<exists>c'. CBB_flush a h c = (Some (), c')"
  using CBB_flush_cases(3) [OF assms(1) _ assms(2,3)] by (cases "CBB_flush a h c") auto

theorem CBB_flush_succeeds_witness:
  "\<exists>c'. CBB_flush plenty 1 demo_cbb = (Some (), c')"
proof (rule CBB_flush_succeeds)
  show "rep ([(0, Root, [7])] @ (1, Asn1, [1, 2]) # [(2, Prefixed 2, [3])]) demo_cbb"
    using demo_rep by (simp add: demo_frames_def)
  show "collapse [(2, Prefixed 2, [3])] = Some [0, 1, 3]" by (rule demo_collapse)
  show "roomy plenty (length (layout ([(0, Root, [7])] @ [(1, Asn1, [1, 2] @ [0, 1, 3])]))) demo_cbb"
    by (rule demo_roomy) simp
qed

text \<open>C8: A builder on a fixed buffer of the caller's takes strings of bytes one after another as long as
  they fit: the whole sequence is written exactly when its total length fits. The first string that
  does not fit fails and records the error, with what was written before it kept, whatever the
  allocator. The buffer never grows and no byte behind its end is touched; a sequence written whole is
  what \<open>CBB_finish\<close> hands out.\<close>

theorem CBB_fixed_writes_iff_fits:
  assumes "plentiful a" "len < 2 ^ 64" "\<forall>d \<in> set ds. length d < 2 ^ 64"
  shows "\<exists>c1 r c2 b. CBB_init_fixed a h buf len = (Some (), c1) \<and> add_all a' h ds c1 = (r, c2) \<and>
    cbb_base c2 = Some b \<and> written b = concat (fitting len ds) \<and> cb_cap b = len \<and> \<not> cb_can_resize b \<and>
    (\<forall>i \<ge> len. cb_buf b i = buf i) \<and> cb_error b = (len < length (concat ds)) \<and>
    (if length (concat ds) \<le> len
     then r = Some () \<and> (\<exists>c3. CBB_finish a' h True True c2 = (Some (concat ds), c3))
     else r = None)"
proof -
  obtain c1 where c1: "CBB_init_fixed a h buf len = (Some (), c1)" "on_fixed h buf len [] c1"
    using CBB_init_fixed_state [OF assms(1,2)] by blast
  show ?thesis
  proof (cases "length (concat ds) \<le> len")
    case True
    with add_all_fixed_fits [OF c1(2) assms(3), of a'] obtain c2 where c2: "add_all a' h ds c1 = (Some (), c2)" "on_fixed h buf len (concat ds) c2"
      by auto
    obtain b where "cbb_base c2 = Some b" "buf_ok b" "written b = concat ds" "cb_cap b = len"
      "\<not> cb_can_resize b" "\<forall>i \<ge> len. cb_buf b i = buf i"
      using c2(2) by (auto simp: on_fixed_def rep_def)
    moreover have "\<exists>c3. CBB_finish a' h True True c2 = (Some (concat ds), c3)"
      using c2(2) by (intro CBB_finish_last) (auto simp: on_fixed_def)
    ultimately show ?thesis using c1(1) c2(1) True by (auto simp: fitting_all buf_ok_def)
  next
    case False
    with add_all_fixed_fails [OF c1(2) assms(3), of a'] show ?thesis using c1(1) by fastforce
  qed
qed

theorem CBB_fixed_writes_iff_fits_witness:
  "\<exists>c1 r c2 b. CBB_init_fixed plenty 0 (\<lambda>_. 0) 3 = (Some (), c1) \<and>
    add_all plenty 0 [[1, 2], [3, 4], [5]] c1 = (r, c2) \<and> cbb_base c2 = Some b \<and>
    written b = [1, 2] \<and> cb_cap b = 3 \<and> cb_error b \<and> r = None"
  using CBB_fixed_writes_iff_fits [OF plentiful_plenty, of 3 "[[1, 2], [3, 4], [5]]" 0 "\<lambda>_. 0" plenty]
  by fastforce

text \<open>C4: A number written with \<open>CBB_add_asn1_int64\<close> and read with \<open>CBS_get_asn1_int64\<close> is the number
  written, for every \<open>int64_t\<close> and with anything after it.\<close>

theorem asn1_int64_roundtrip:
  assumes "plentiful a" "cap < 2 ^ 63"
  shows "\<exists>c1 c2 c3 out. CBB_init a h cap = (Some (), c1) \<and> CBB_add_asn1_int64 a h v c1 = (Some (), c2) \<and>
    CBB_finish a h True True c2 = (Some out, c3) \<and>
    CBS_get_asn1_int64 (out @ rest) = (Some v, rest)"
proof -
  have "length (der_element CBS_ASN1_INTEGER (int_content v)) < 2 ^ 62"
    using int_content_ok(3) [of v] length_der_tag [of CBS_ASN1_INTEGER]
    by (simp add: der_element_def der_header_def der_length_short)
  from session [OF assms this CBB_add_asn1_int64_appends, of h] CBS_get_asn1_int64_int_content [of v rest]
  show ?thesis by fastforce
qed

theorem asn1_int64_roundtrip_witness:
  "\<exists>c1 c2 c3 out. CBB_init plenty 0 4 = (Some (), c1) \<and> CBB_add_asn1_int64 plenty 0 (- 129) c1 = (Some (), c2) \<and>
    CBB_finish plenty 0 True True c2 = (Some out, c3) \<and> CBS_get_asn1_int64 (out @ [1]) = (Some (- 129), [1])"
  by (rule asn1_int64_roundtrip [OF plentiful_plenty]) simp

text \<open>C7: A length-prefixed child of 1, 2 or 3 length bytes is read back whole by the reader of the
  same width.\<close>

definition add_vector :: "allocator \<Rightarrow> nat \<Rightarrow> nat \<Rightarrow> bytes \<Rightarrow> cbb \<Rightarrow> unit option \<times> cbb" where
  "add_vector a h n data c =
     (let child = local_cbb c in
      pbind (cbb_add_length_prefixed a h child n c) (\<lambda>_ c.
        pbind (CBB_add_bytes a child data c) (\<lambda>_ c. CBB_flush a h c)))"

lemma add_vector_appends:
  assumes "0 < n" "n \<le> 7" "length data < 256 ^ n"
  shows "appends a h (be_bytes n (length data) @ data) (add_vector a h n data)"
  unfolding appends_def add_vector_def Let_def
proof (intro allI impI)
  fix fs k ys c assume rep: "rep (fs @ [(h, k, ys)]) c"
  have "(256 :: nat) ^ n \<le> 256 ^ 7" using assms(2) by (intro power_increasing) simp_all
  then have "length data < 2 ^ 64" using assms(3) by simp
  from CBB_add_bytes_appends [OF this]
  show "appended a fs h k (ys @ be_bytes n (length data) @ data) c
      (pbind (cbb_add_length_prefixed a h (local_cbb c) n c)
        (\<lambda>_ c'. pbind (CBB_add_bytes a (local_cbb c) data c') (\<lambda>_ c. CBB_flush a h c)))"
    using local_cbb_new [OF rep] assms by (intro appended_prefixed [OF rep]) auto
qed

theorem length_prefixed_roundtrip:
  assumes "plentiful a" "cap < 2 ^ 63" "0 < n" "n \<le> 3" "length data < 256 ^ n"
  shows "\<exists>c1 c2 c3 out. CBB_init a h cap = (Some (), c1) \<and> add_vector a h n data c1 = (Some (), c2) \<and>
    CBB_finish a h True True c2 = (Some out, c3) \<and>
    cbs_get_length_prefixed n (out @ rest) = (Some data, rest)"
proof -
  define out where "out = be_bytes n (length data) @ data"
  have "(256 :: nat) ^ n \<le> 256 ^ 3" using assms(4) by (intro power_increasing) simp_all
  then have len: "length data < 2 ^ 24" "length out < 2 ^ 62" using assms(4,5) by (simp_all add: out_def)
  have "appends a h out (add_vector a h n data)"
    unfolding out_def using assms by (intro add_vector_appends) simp_all
  from session [OF assms(1,2) len(2) this] have
    "\<exists>c1 c2 c3. CBB_init a h cap = (Some (), c1) \<and> add_vector a h n data c1 = (Some (), c2) \<and>
      CBB_finish a h True True c2 = (Some out, c3)" by auto
  moreover have "cbs_get_length_prefixed n (out @ rest) = (Some data, rest)"
  proof -
    have "cbs_get_u n (be_bytes n (length data) @ data @ rest) = (Some (of_nat (length data)), data @ rest)"
      using cbs_get_u_append [of "be_bytes n (length data)" n] assms(4,5)
      by (simp add: be_val_be_bytes)
    then show ?thesis using len(1)
      by (simp add: cbs_get_length_prefixed_def out_def CBS_get_bytes_eq_Some unat_of_nat)
  qed
  ultimately show ?thesis by blast
qed

theorem length_prefixed_roundtrip_witness:
  "\<exists>c1 c2 c3 out. CBB_init plenty 0 0 = (Some (), c1) \<and> add_vector plenty 0 2 [5, 6, 7] c1 = (Some (), c2) \<and>
    CBB_finish plenty 0 True True c2 = (Some out, c3) \<and>
    cbs_get_length_prefixed 2 (out @ [9]) = (Some [5, 6, 7], [9])"
  by (rule length_prefixed_roundtrip [OF plentiful_plenty]) simp_all

end
