(* ===== verification/Der_Tree.thy ===== *)
theory Der_Tree
  imports Cbb_Api
begin

text \<open>
  Documents: trees of elements, written through nested children of a builder and read by descending
  into every element whose tag has the constructed bit. The writer and the reader are clients of
  the two interfaces, in the way the users of the library are.
\<close>

datatype der_tree = Prim u32 bytes | Constr u32 "der_tree list"

fun encode :: "der_tree \<Rightarrow> bytes" where
  "encode (Prim tag d) = der_element tag d"
| "encode (Constr tag ts) = der_element tag (concat (map encode ts))"

fun write_tree :: "allocator \<Rightarrow> nat \<Rightarrow> der_tree \<Rightarrow> cbb \<Rightarrow> unit option \<times> cbb"
  and write_trees :: "allocator \<Rightarrow> nat \<Rightarrow> der_tree list \<Rightarrow> cbb \<Rightarrow> unit option \<times> cbb" where
  "write_tree a h (Prim tag d) c =
     (let child = local_cbb c in
      pbind (CBB_add_asn1 a h child tag c) (\<lambda>_ c.
        pbind (CBB_add_bytes a child d c) (\<lambda>_ c. CBB_flush a h c)))"
| "write_tree a h (Constr tag ts) c =
     (let child = local_cbb c in
      pbind (CBB_add_asn1 a h child tag c) (\<lambda>_ c.
        pbind (write_trees a child ts c) (\<lambda>_ c. CBB_flush a h c)))"
| "write_trees a h [] c = (Some (), c)"
| "write_trees a h (t # ts) c = pbind (write_tree a h t c) (\<lambda>_ c. write_trees a h ts c)"

lemma length_der_element: "length d \<le> length (der_element tag d)"
  by (simp add: der_element_def)

lemma length_der_element_less: "length d < length (der_element tag d)"
  by (simp add: der_element_def der_header_def der_length_def)

lemma appends_cong: "(\<And>c. m c = m' c) \<Longrightarrow> appends a h xs m' \<Longrightarrow> appends a h xs m"
  by (simp add: appends_def)

lemma write_tree_appends:
  "length (encode t) \<le> 0xfffffffe \<Longrightarrow> appends a h (encode t) (write_tree a h t)"
proof (induction t arbitrary: h)
  case (Prim tag d)
  then have d: "length d \<le> 0xfffffffe" using length_der_element [of d tag] by simp
  have "appends a child d (CBB_add_bytes a child d)" for child
    by (rule CBB_add_bytes_appends) (use d in simp)
  from appends_local_element [OF this d] show ?case unfolding encode.simps
    by (rule appends_cong [rotated]) simp
next
  case (Constr tag ts)
  then have len: "length (concat (map encode ts)) \<le> 0xfffffffe"
    using length_der_element [of "concat (map encode ts)" tag] by simp
  have "appends a child (concat (map encode us)) (write_trees a child us)"
    if "set us \<subseteq> set ts" "length (concat (map encode us)) \<le> 0xfffffffe" for us child
    using that
  proof (induction us)
    case Nil
    show ?case using appends_return by (simp add: fun_eq_iff appends_def appended_def)
  next
    case (Cons u us)
    have "appends a child (encode u) (write_tree a child u)"
      using Cons.prems by (intro Constr.IH) auto
    moreover have "appends a child (concat (map encode us)) (write_trees a child us)"
      using Cons by simp
    ultimately have "appends a child (encode u @ concat (map encode us))
        (\<lambda>c. pbind (write_tree a child u c) (\<lambda>_. write_trees a child us))"
      by (rule appends_bind)
    then show ?case unfolding list.map concat.simps by (rule appends_cong [rotated]) simp
  qed
  from appends_local_element [OF this [OF subset_refl len] len] show ?case unfolding encode.simps
    by (rule appends_cong [rotated]) simp
qed

section \<open>Reading\<close>

function read_trees :: "cbs \<Rightarrow> der_tree list option" where
  "read_trees s =
     (if CBS_len s = 0 then Some []
      else case CBS_get_any_asn1 s of
        (None, _) \<Rightarrow> None
      | (Some (contents, tag), s) \<Rightarrow>
          (case (if tag AND CBS_ASN1_CONSTRUCTED \<noteq> 0 then map_option (Constr tag) (read_trees contents)
                 else Some (Prim tag contents)) of
             None \<Rightarrow> None
           | Some t \<Rightarrow> map_option (Cons t) (read_trees s)))"
  by pat_completeness auto
termination
proof (relation "measure length", unfold in_measure)
  fix s r s' p c tag
  assume g: "(r, s') = CBS_get_any_asn1 s" "r = Some p" "(c, tag) = p"
  from g have "s = der_element tag c @ s'"
    using CBS_get_any_asn1_iff [of s c tag s'] by simp
  moreover note length_der_element_less [of c tag]
  moreover have "length s = length (der_element tag c) + length s'" using calculation(1) by simp
  ultimately show "length c < length s" "length s' < length s" by linarith+
qed simp

declare read_trees.simps [simp del]

fun well_formed :: "der_tree \<Rightarrow> bool" where
  "well_formed (Prim tag d) \<longleftrightarrow> tag AND CBS_ASN1_CONSTRUCTED = 0 \<and> length d < 2 ^ 32"
| "well_formed (Constr tag ts) \<longleftrightarrow> tag AND CBS_ASN1_CONSTRUCTED \<noteq> 0 \<and>
     length (concat (map encode ts)) < 2 ^ 32 \<and> list_all well_formed ts"

text \<open>The tag and the contents octets of a tree.\<close>

fun tree_tag :: "der_tree \<Rightarrow> u32" where
  "tree_tag (Prim tag d) = tag"
| "tree_tag (Constr tag ts) = tag"

fun tree_contents :: "der_tree \<Rightarrow> bytes" where
  "tree_contents (Prim tag d) = d"
| "tree_contents (Constr tag ts) = concat (map encode ts)"

lemma encode_eq: "encode t = der_element (tree_tag t) (tree_contents t)"
  by (cases t) simp_all

lemma well_formed_length: "well_formed t \<Longrightarrow> length (tree_contents t) < 2 ^ 32"
  by (cases t) simp_all

lemma encode_not_Nil [simp]: "encode t \<noteq> []"
  using length_der_element_less [of "tree_contents t" "tree_tag t"] by (auto simp: encode_eq)

theorem read_trees_iff:
  "read_trees s = Some ts \<longleftrightarrow> s = concat (map encode ts) \<and> list_all well_formed ts"
proof (induction s arbitrary: ts rule: read_trees.induct)
  case (1 s)
  show ?case
  proof (cases "s = []")
    case True
    then show ?thesis by (cases ts) (simp_all add: read_trees.simps CBS_len_def)
  next
    case False
    obtain r s' where g: "CBS_get_any_asn1 s = (r, s')" by (cases "CBS_get_any_asn1 s")
    show ?thesis
    proof (cases r)
      case None
      have "s \<noteq> concat (map encode ts)" if "list_all well_formed ts"
      proof (cases ts)
        case (Cons t ts')
        then have "length (tree_contents t) < 2 ^ 32" using that well_formed_length by simp
        then have "CBS_get_any_asn1 (concat (map encode ts)) =
            (Some (tree_contents t, tree_tag t), concat (map encode ts'))"
          unfolding CBS_get_any_asn1_iff Cons by (simp add: encode_eq)
        then show ?thesis using g None by auto
      qed (use False in simp)
      moreover have "read_trees s = None"
        using False g None by (simp add: read_trees.simps [of s] CBS_len_def)
      ultimately show ?thesis by auto
    next
      case (Some p)
      obtain d tag where p: "p = (d, tag)" by (cases p)
      have s: "s = der_element tag d @ s'" "length d < 2 ^ 32"
        using g unfolding Some p CBS_get_any_asn1_iff by simp_all
      have ne: "CBS_len s \<noteq> 0" using False by (simp add: CBS_len_def)
      define rt where "rt = (if tag AND CBS_ASN1_CONSTRUCTED \<noteq> 0 then map_option (Constr tag) (read_trees d) else Some (Prim tag d))"
      have IH2: "read_trees s' = Some us \<longleftrightarrow> s' = concat (map encode us) \<and> list_all well_formed us"
        if "rt = Some t" for us t
        using "1.IH"(2) [OF ne g [symmetric] Some p [symmetric], folded rt_def, OF that] by blast
      have IH1: "tag AND CBS_ASN1_CONSTRUCTED \<noteq> 0 \<Longrightarrow>
          read_trees d = Some us \<longleftrightarrow> d = concat (map encode us) \<and> list_all well_formed us" for us
        using "1.IH"(1) [OF ne g [symmetric] Some p [symmetric]] by blast
      have rd: "read_trees s = (case rt of None \<Rightarrow> None | Some t \<Rightarrow> map_option (Cons t) (read_trees s'))"
        using ne g Some p by (simp add: read_trees.simps [of s] rt_def)
      have rt: "rt = Some t \<longleftrightarrow> tree_tag t = tag \<and> tree_contents t = d \<and> well_formed t" for t
        unfolding rt_def using IH1 s(2) by (cases t) auto
      have split: "encode t @ concat (map encode us) = der_element tag d @ s' \<longleftrightarrow>
          tree_tag t = tag \<and> tree_contents t = d \<and> concat (map encode us) = s'" if "well_formed t" for t us
        using der_element_inject [OF _ well_formed_length [OF that] s(2), of "tree_tag t" "concat (map encode us)" tag s']
        by (auto simp: encode_eq)
      show ?thesis
      proof (cases ts)
        case Nil
        then show ?thesis using False rd by (auto split: option.splits)
      next
        case (Cons t us)
        have "read_trees s = Some ts \<longleftrightarrow> rt = Some t \<and> read_trees s' = Some us"
          unfolding rd Cons by (auto split: option.splits)
        moreover have "rt = Some t \<and> read_trees s' = Some us \<longleftrightarrow>
            rt = Some t \<and> s' = concat (map encode us) \<and> list_all well_formed us"
          using IH2 [of t us] by blast
        moreover have "encode t @ concat (map encode us) = s \<longleftrightarrow>
            tree_tag t = tag \<and> tree_contents t = d \<and> concat (map encode us) = s'" if "well_formed t"
          unfolding s(1) by (rule split [OF that])
        ultimately show ?thesis unfolding Cons rt list.map concat.simps list.pred_inject by blast
      qed
    qed
  qed
qed

section \<open>Properties\<close>

text \<open>C1: A DER document of any nesting, written through nested children of a builder, is handed out by
  \<open>CBB_finish\<close> as its encoding, and descending into that encoding with \<open>CBS_get_any_asn1\<close> gives
  the document back.\<close>

theorem der_document_roundtrip:
  assumes "plentiful a" "cap < 2 ^ 63" "well_formed t" "length (encode t) \<le> 0xfffffffe"
  shows "\<exists>c1 c2 c3 out. CBB_init a h cap = (Some (), c1) \<and> write_tree a h t c1 = (Some (), c2) \<and>
    CBB_finish a h True True c2 = (Some out, c3) \<and> out = encode t \<and> read_trees out = Some [t]"
proof -
  have "length (encode t) < 2 ^ 62" using assms(4) by simp
  from session [OF assms(1,2) this write_tree_appends [OF assms(4)], of h]
  show ?thesis using assms(3) by (simp add: read_trees_iff)
qed

definition demo_tree :: der_tree where
  "demo_tree = Constr 0x20000010 [Prim 2 [5], Constr 0x20000011 [Prim 4 [1, 2, 3]], Prim 0x80000000 []]"

lemma demo_tree_ok: "well_formed demo_tree" "length (encode demo_tree) \<le> 0xfffffffe"
  by (simp_all add: demo_tree_def CBS_ASN1_CONSTRUCTED_def der_element_def der_header_def der_tag_def
      der_length_def)

theorem der_document_roundtrip_witness:
  "\<exists>c1 c2 c3 out. CBB_init plenty 0 1 = (Some (), c1) \<and> write_tree plenty 0 demo_tree c1 = (Some (), c2) \<and>
    CBB_finish plenty 0 True True c2 = (Some out, c3) \<and> out = encode demo_tree \<and> read_trees out = Some [demo_tree]"
  by (rule der_document_roundtrip [OF plentiful_plenty _ demo_tree_ok]) simp

end
