(* ===== verification/Codec.thy ===== *)
theory Codec
  imports Prelude
begin

text \<open>
  The interface between a parser loop and the reader of one item. A pair of an encoder and a reader
  is a codec when the reader accepts exactly the encodings of valid values and leaves what follows;
  a loop that reads items until nothing is left then accepts exactly the concatenations.
\<close>

text \<open>\<open>while (len != 0) { if (!dec(...)) return 0; ... }\<close>, with one unit of fuel per item.\<close>

fun decode_all :: "(bytes \<Rightarrow> 'a option \<times> bytes) \<Rightarrow> nat \<Rightarrow> bytes \<Rightarrow> 'a list option" where
  "decode_all dec n [] = Some []"
| "decode_all dec 0 (b # s) = None"
| "decode_all dec (Suc n) (b # s) =
     (case dec (b # s) of
        (None, _) \<Rightarrow> None
      | (Some x, r) \<Rightarrow> map_option (Cons x) (decode_all dec n r))"

locale codec =
  fixes enc :: "'a \<Rightarrow> bytes" and dec :: "bytes \<Rightarrow> 'a option \<times> bytes" and valid :: "'a \<Rightarrow> bool"
  assumes dec_iff: "dec s = (Some x, r) \<longleftrightarrow> valid x \<and> s = enc x @ r"
    and enc_not_Nil: "valid x \<Longrightarrow> enc x \<noteq> []"
begin

lemma dec_enc: "valid x \<Longrightarrow> dec (enc x @ r) = (Some x, r)"
  by (simp add: dec_iff)

lemma enc_inject:
  assumes "valid x" "valid y" "enc x @ r = enc y @ r'"
  shows "x = y" "r = r'"
proof -
  have "(Some x, r) = dec (enc x @ r)" by (simp only: dec_enc [OF assms(1)])
  also have "\<dots> = (Some y, r')" unfolding assms(3) by (rule dec_enc [OF assms(2)])
  finally show "x = y" "r = r'" by simp_all
qed

lemma dec_shorter: "dec s = (Some x, r) \<Longrightarrow> length r < length s"
  using enc_not_Nil by (auto simp: dec_iff)

lemma decode_all_iff:
  "length s \<le> n \<Longrightarrow> decode_all dec n s = Some xs \<longleftrightarrow> s = concat (map enc xs) \<and> list_all valid xs"
proof (induction n arbitrary: s xs)
  case 0
  then show ?case using enc_not_Nil by (cases xs) auto
next
  case (Suc n)
  show ?case
  proof (cases s)
    case Nil
    then show ?thesis using enc_not_Nil by (cases xs) auto
  next
    case (Cons b s')
    obtain m r where d: "dec s = (m, r)" by (cases "dec s")
    have step: "decode_all dec (Suc n) s = (case m of None \<Rightarrow> None | Some x \<Rightarrow> map_option (Cons x) (decode_all dec n r))"
      using d Cons by simp
    show ?thesis
    proof (cases m)
      case None
      have "\<not> (s = concat (map enc xs) \<and> list_all valid xs)"
      proof
        assume *: "s = concat (map enc xs) \<and> list_all valid xs"
        then obtain y ys where "xs = y # ys" using Cons by (cases xs) auto
        then show False using * dec_enc [of y "concat (map enc ys)"] d None by auto
      qed
      then show ?thesis using step None by auto
    next
      case (Some x)
      then have x: "valid x" "s = enc x @ r" using d dec_iff by auto
      have "length r \<le> n" using dec_shorter d Some Suc.prems by fastforce
      note IH = Suc.IH [OF this]
      have split: "enc x @ r = enc y @ concat (map enc ys) \<longleftrightarrow> y = x \<and> r = concat (map enc ys)"
        if "valid y" for y ys
        using enc_inject [OF x(1) that, of r "concat (map enc ys)"] by auto
      show ?thesis
      proof (cases xs)
        case Nil
        then show ?thesis using step Some x enc_not_Nil by auto
      next
        case (Cons y ys)
        have "decode_all dec (Suc n) s = Some xs \<longleftrightarrow> x = y \<and> decode_all dec n r = Some ys"
          using step Some Cons by auto
        then show ?thesis using IH [of ys] split [of y ys] x Cons by auto
      qed
    qed
  qed
qed

lemma concat_enc_inject:
  assumes "list_all valid xs" "list_all valid ys" "concat (map enc xs) = concat (map enc ys)"
  shows "xs = ys"
  using decode_all_iff [OF le_refl, of "concat (map enc xs)"] assms by (metis option.inject)

end

end
