(* ===== verification/Oid.thy ===== *)
theory Oid
  imports Cbb_Api Codec
begin

text \<open>
  OBJECT IDENTIFIERs as text: \<open>CBS_asn1_oid_to_text\<close> of cbs.c and \<open>CBB_add_asn1_oid_from_text\<close> of
  cbb.c. \<open>BIO_snprintf\<close> with the format \<open>PRIu64\<close> is the C library's: it writes the number in
  decimal.
\<close>

section \<open>The code\<close>

fun decimal_hi :: "nat \<Rightarrow> bytes" where
  "decimal_hi v = (if v = 0 then [] else decimal_hi (v div 10) @ [of_nat (v mod 10 + 48)])"

declare decimal_hi.simps [simp del]

definition decimal :: "nat \<Rightarrow> bytes" where
  "decimal v = decimal_hi (v div 10) @ [of_nat (v mod 10 + 48)]"

definition add_decimal :: "allocator \<Rightarrow> nat \<Rightarrow> u64 \<Rightarrow> cbb \<Rightarrow> unit option \<times> cbb" where
  "add_decimal a out v c = CBB_add_bytes a out (decimal (unat v)) c"

lemma base128_not_Nil [simp]: "base128 v \<noteq> []"
  by (simp add: base128_def)

lemma parse_base128_shorter: "parse_base128_integer s = (Some v, r) \<Longrightarrow> length r < length s"
  by (auto simp: parse_base128_integer_iff)

function oid_text_loop :: "allocator \<Rightarrow> nat \<Rightarrow> cbs \<Rightarrow> cbb \<Rightarrow> unit option \<times> cbb" where
  "oid_text_loop a h copy c =
     (if CBS_len copy = 0 then (Some (), c)
      else case parse_base128_integer copy of
        (None, _) \<Rightarrow> (None, c)
      | (Some v, copy) \<Rightarrow>
          pbind (CBB_add_u8 a h 0x2e c) (\<lambda>_ c.
            pbind (add_decimal a h v c) (\<lambda>_ c. oid_text_loop a h copy c)))"
  by pat_completeness auto
termination
  by (relation "measure (\<lambda>(a, h, copy, c). length copy)") (auto dest: parse_base128_shorter [OF sym])

declare oid_text_loop.simps [simp del]

text \<open>The first component of the encoding is the first two of the text.\<close>

definition add_first :: "allocator \<Rightarrow> nat \<Rightarrow> u64 \<Rightarrow> cbb \<Rightarrow> unit option \<times> cbb" where
  "add_first a h v =
     (\<lambda>cbb. if v \<ge> 80
       then pbind (CBB_add_bytes a h [0x32, 0x2e] cbb) (\<lambda>_. add_decimal a h (v - 80))
       else pbind (add_decimal a h (v div 40) cbb) (\<lambda>_ cbb.
              pbind (CBB_add_u8 a h 0x2e cbb) (\<lambda>_. add_decimal a h (v mod 40))))"

text \<open>The result is the NUL-terminated text; the builder is local to the call.\<close>

definition CBS_asn1_oid_to_text :: "allocator \<Rightarrow> cbs \<Rightarrow> bytes option" where
  "CBS_asn1_oid_to_text a cbs =
     (let h = 0 in
      fst (pbind (CBB_init a h 32) (\<lambda>_ cbb.
        case parse_base128_integer cbs of
          (None, _) \<Rightarrow> (None, CBB_cleanup cbb)
        | (Some v, copy) \<Rightarrow>
            pbind (add_first a h v cbb) (\<lambda>_ cbb.
                pbind (oid_text_loop a h copy cbb) (\<lambda>_ cbb.
                  pbind (CBB_add_u8 a h 0 cbb) (\<lambda>_ cbb. CBB_finish a h True True cbb))))))"

fun parse_dotted_loop :: "u64 \<Rightarrow> bool \<Rightarrow> cbs \<Rightarrow> u64 option \<times> cbs" where
  "parse_dotted_loop out seen_digit [] = (if seen_digit then Some out else None, [])"
| "parse_dotted_loop out seen_digit (u # cbs) =
     (if u = 0x2e \<and> CBS_len cbs > 0 then (if seen_digit then Some out else None, cbs)
      else if u < 0x30 \<or> u > 0x39 \<or> (seen_digit \<and> out = 0) \<or> out > 0xffffffffffffffff div 10 \<or>
              out * 10 > 0xffffffffffffffff - ucast (u - 0x30)
           then (None, cbs)
           else parse_dotted_loop (out * 10 + ucast (u - 0x30)) True cbs)"

definition parse_dotted_decimal :: "cbs \<Rightarrow> u64 option \<times> cbs" where
  "parse_dotted_decimal cbs = parse_dotted_loop 0 False cbs"

lemma parse_dotted_loop_shorter:
  "parse_dotted_loop out seen s = (Some v, r) \<Longrightarrow> length r \<le> length s \<and> (seen \<or> length r < length s)"
  by (induction out seen s rule: parse_dotted_loop.induct) (force split: if_split_asm)+

lemma parse_dotted_shorter: "parse_dotted_decimal s = (Some v, r) \<Longrightarrow> length r < length s"
  using parse_dotted_loop_shorter by (force simp: parse_dotted_decimal_def)

function oid_from_text_loop :: "allocator \<Rightarrow> nat \<Rightarrow> cbs \<Rightarrow> cbb \<Rightarrow> unit option \<times> cbb" where
  "oid_from_text_loop a h cbs c =
     (if CBS_len cbs > 0 then
        (case parse_dotted_decimal cbs of
           (None, _) \<Rightarrow> (None, c)
         | (Some v, cbs) \<Rightarrow>
             pbind (add_base128_integer a h v c) (\<lambda>_ c. oid_from_text_loop a h cbs c))
      else (Some (), c))"
  by pat_completeness auto
termination
  by (relation "measure (\<lambda>(a, h, cbs, c). length cbs)") (auto dest: parse_dotted_shorter [OF sym])

declare oid_from_text_loop.simps [simp del]

definition CBB_add_asn1_oid_from_text :: "allocator \<Rightarrow> nat \<Rightarrow> bytes \<Rightarrow> cbb \<Rightarrow> unit option \<times> cbb" where
  "CBB_add_asn1_oid_from_text alloc h text c =
     pbind (CBB_flush alloc h c) (\<lambda>_ c.
       case parse_dotted_decimal (CBS_init text (length text)) of
         (None, _) \<Rightarrow> (None, c)
       | (Some a, cbs) \<Rightarrow>
           (case parse_dotted_decimal cbs of
              (None, _) \<Rightarrow> (None, c)
            | (Some b, cbs) \<Rightarrow>
                if a > 2 \<or> (a < 2 \<and> b > 39) \<or> b > 0xffffffffffffffff - 80 then (None, c)
                else pbind (add_base128_integer alloc h (40 * a + b) c) (\<lambda>_ c.
                  oid_from_text_loop alloc h cbs c)))"

section \<open>Decimal numbers\<close>

lemma decimal_hi_0 [simp]: "decimal_hi 0 = []"
  by (simp add: decimal_hi.simps)

lemma decimal_hi_step:
  "k < 10 \<Longrightarrow> v \<noteq> 0 \<or> k \<noteq> 0 \<Longrightarrow> decimal_hi (v * 10 + k) = decimal_hi v @ [of_nat (k + 48)]"
  by (subst decimal_hi.simps) auto

lemma decimal_hi_nonzero: "v \<noteq> 0 \<Longrightarrow> decimal v = decimal_hi v"
  by (subst decimal_hi.simps) (simp add: decimal_def)

lemma decimal_not_Nil [simp]: "decimal v \<noteq> []"
  by (simp add: decimal_def)

definition digit :: "u8 \<Rightarrow> bool" where
  "digit u \<longleftrightarrow> 48 \<le> unat u \<and> unat u \<le> 57"

text \<open>The number a run of digits continues.\<close>

fun digits_value :: "nat \<Rightarrow> bytes \<Rightarrow> nat" where
  "digits_value out [] = out"
| "digits_value out (u # ds) = digits_value (out * 10 + (unat u - 48)) ds"

lemma digits_value_ge: "out \<le> digits_value out ds"
  by (induction out ds rule: digits_value.induct) (auto intro: order.trans [rotated])

lemma digit_of_nat: "digit u \<Longrightarrow> of_nat (unat u - 48 + 48) = u"
  by (simp add: digit_def)

lemma decimal_hi_digits:
  "list_all digit ds \<Longrightarrow> out \<noteq> 0 \<Longrightarrow> decimal_hi (digits_value out ds) = decimal_hi out @ ds"
proof (induction out ds rule: digits_value.induct)
  case (2 out u ds)
  have "unat u - 48 < 10" using 2(2) by (auto simp: digit_def)
  then have "decimal_hi (out * 10 + (unat u - 48)) = decimal_hi out @ [u]"
    using 2 decimal_hi_step [of "unat u - 48" out] digit_of_nat [of u] by (simp add: digit_def)
  then show ?case using 2 by simp
qed simp

lemma digits_value_0: "list_all digit (u # ds) \<Longrightarrow> unat u \<noteq> 48 \<Longrightarrow> decimal (digits_value 0 (u # ds)) = u # ds"
proof -
  assume *: "list_all digit (u # ds)" "unat u \<noteq> 48"
  then have k: "unat u - 48 \<noteq> 0" "unat u - 48 < 10" by (auto simp: digit_def)
  have "decimal_hi (unat u - 48) = [u]"
    using decimal_hi_step [OF k(2), of 0] k(1) digit_of_nat [of u] * by simp
  moreover have "digits_value (unat u - 48) ds \<noteq> 0"
    using digits_value_ge [of "unat u - 48" ds] k(1) by linarith
  ultimately show ?thesis using decimal_hi_digits [of ds "unat u - 48"] * k(1)
    by (simp add: decimal_hi_nonzero)
qed

lemma decimal_0: "decimal 0 = [0x30]"
  by (simp add: decimal_def)

lemma list_all_digit_hi: "list_all digit (decimal_hi v)"
proof (induction v rule: decimal_hi.induct)
  case (1 v)
  have "digit (of_nat (v mod 10 + 48))" by (simp add: digit_def unat_of_nat_small del: of_nat_add)
  then show ?case using 1 by (subst decimal_hi.simps) simp
qed

lemma list_all_digit_decimal: "list_all digit (decimal v)"
  using list_all_digit_hi [of v] by (cases "v = 0") (simp_all add: decimal_hi_nonzero decimal_0 digit_def)

text \<open>No leading zeros, and the value is recovered.\<close>

lemma digits_value_append: "digits_value out (xs @ ys) = digits_value (digits_value out xs) ys"
  by (induction out xs rule: digits_value.induct) simp_all

lemma digits_value_hi: "digits_value 0 (decimal_hi v) = v"
proof (induction v rule: decimal_hi.induct)
  case (1 v)
  show ?case
  proof (cases "v = 0")
    case False
    have "unat (of_nat (v mod 10 + 48) :: u8) = v mod 10 + 48" by (intro unat_of_nat_small) linarith
    then show ?thesis using 1 False
      by (subst decimal_hi.simps) (simp add: digits_value_append del: of_nat_add)
  qed simp
qed

lemma digits_value_decimal: "digits_value 0 (decimal v) = v"
  by (cases "v = 0") (simp_all add: decimal_hi_nonzero digits_value_hi decimal_0)

lemma decimal_inject: "decimal v = decimal w \<Longrightarrow> v = w"
  using digits_value_decimal by metis

lemma hd_decimal_hi: "v \<noteq> 0 \<Longrightarrow> unat (hd (decimal_hi v)) \<noteq> 48"
proof (induction v rule: decimal_hi.induct)
  case (1 v)
  have u: "unat (of_nat (v mod 10 + 48) :: u8) = v mod 10 + 48" by (intro unat_of_nat_small) linarith
  show ?case
  proof (cases "v < 10")
    case True
    then show ?thesis using 1(2) u by (subst decimal_hi.simps) (simp del: of_nat_add)
  next
    case False
    then have "v div 10 \<noteq> 0" by (simp add: div_eq_0_iff)
    moreover from this have "decimal_hi (v div 10) \<noteq> []" by (subst decimal_hi.simps) simp
    ultimately show ?thesis using 1 by (subst decimal_hi.simps) simp
  qed
qed

section \<open>The component parser\<close>

text \<open>What follows a component: nothing, or a dot and something.\<close>

definition dot_rest :: "cbs \<Rightarrow> bytes" where
  "dot_rest r = (if r = [] then [] else 0x2e # r)"

lemma dot_rest_simps [simp]: "dot_rest [] = []" "r \<noteq> [] \<Longrightarrow> dot_rest r = 0x2e # r"
  by (simp_all add: dot_rest_def)

lemma dotted_overflow:
  fixes out :: u64 and u :: u8
  assumes "digit u"
  shows "(out > 0xffffffffffffffff div 10 \<or> out * 10 > 0xffffffffffffffff - ucast (u - 0x30)) \<longleftrightarrow>
      \<not> unat out * 10 + (unat u - 48) < 2 ^ 64"
    and "unat out * 10 + (unat u - 48) < 2 ^ 64 \<Longrightarrow>
      unat (out * 10 + ucast (u - 0x30)) = unat out * 10 + (unat u - 48)"
proof -
  have k: "unat (ucast (u - 0x30) :: u64) = unat u - 48"
    using assms by (simp add: word_nat digit_def unat_sub word_le_nat_alt)
  have d: "unat u - 48 < 10" using assms by (auto simp: digit_def)
  have big: "unat (0xffffffffffffffff div 10 :: u64) = 1844674407370955161"
    by (simp add: unat_div)
  have max: "unat (0xffffffffffffffff - ucast (u - 0x30) :: u64) = 18446744073709551615 - (unat u - 48)"
  proof -
    have "(ucast (u - 0x30) :: u64) \<le> 0xffffffffffffffff" by (simp add: word_le_nat_alt k) (use d in linarith)
    then show ?thesis by (simp add: unat_sub k)
  qed
  show "(out > 0xffffffffffffffff div 10 \<or> out * 10 > 0xffffffffffffffff - ucast (u - 0x30)) \<longleftrightarrow>
      \<not> unat out * 10 + (unat u - 48) < 2 ^ 64"
  proof (cases "unat out \<le> 1844674407370955161")
    case True
    then have "unat (out * 10) = unat out * 10" by (simp add: unat_word_ariths)
    then show ?thesis using True d by (simp add: word_less_nat_alt big max) linarith
  next
    case False
    then show ?thesis by (simp add: word_less_nat_alt big)
  qed
  assume "unat out * 10 + (unat u - 48) < 2 ^ 64"
  then show "unat (out * 10 + ucast (u - 0x30)) = unat out * 10 + (unat u - 48)"
    by (simp add: unat_word_ariths k)
qed

lemma not_digit_iff: "u < 0x30 \<or> u > 0x39 \<longleftrightarrow> \<not> digit u"
  by (auto simp: word_less_nat_alt digit_def)

lemma parse_dotted_loop_iff:
  assumes "out \<noteq> 0"
  shows "parse_dotted_loop out True s = (Some v, r) \<longleftrightarrow>
    (\<exists>ds. list_all digit ds \<and> s = ds @ dot_rest r \<and> digits_value (unat out) ds = unat v)"
  using assms
proof (induction s arbitrary: out)
  case Nil
  show ?case by (auto simp: dot_rest_def word_unat_eq_iff)
next
  case (Cons u s)
  have nd: "\<not> digit 0x2e" by (simp add: digit_def)
  have dv: "unat out \<le> digits_value (unat out) ds" for ds by (rule digits_value_ge)
  show ?case
  proof (cases "u = 0x2e \<and> s \<noteq> []")
    case True
    have "u # s = ds @ dot_rest r \<and> list_all digit ds \<longleftrightarrow> ds = [] \<and> r = s" for ds
      using True nd by (cases ds) (auto simp: dot_rest_def)
    then have "(\<exists>ds. list_all digit ds \<and> u # s = ds @ dot_rest r \<and> digits_value (unat out) ds = unat v)
        \<longleftrightarrow> r = s \<and> unat out = unat v"
      by (metis digits_value.simps(1))
    moreover have "parse_dotted_loop out True (u # s) = (Some out, s)" using True by (simp add: CBS_len_def)
    ultimately show ?thesis by (auto simp: word_unat_eq_iff)
  next
    case False
    show ?thesis
    proof (cases "digit u \<and> unat out * 10 + (unat u - 48) < 2 ^ 64")
      case True
      define out' where "out' = out * 10 + ucast (u - 0x30)"
      have o: "unat out' = unat out * 10 + (unat u - 48)"
        unfolding out'_def using True dotted_overflow(2) by blast
      have "out' \<noteq> 0" using Cons.prems o by (simp add: word_unat_eq_iff)
      note IH = Cons.IH [OF this]
      have ov: "\<not> (out > 0xffffffffffffffff div 10 \<or> out * 10 > 0xffffffffffffffff - ucast (u - 0x30))"
        using True dotted_overflow(1) [of u out] by blast
      have step: "parse_dotted_loop out True (u # s) = parse_dotted_loop out' True s"
        using True False ov Cons.prems not_digit_iff [of u]
        by (simp only: parse_dotted_loop.simps out'_def CBS_len_def length_greater_0_conv) auto
      have "(\<exists>ds. list_all digit ds \<and> u # s = ds @ dot_rest r \<and> digits_value (unat out) ds = unat v) \<longleftrightarrow>
        (\<exists>ds. list_all digit (u # ds) \<and> u # s = (u # ds) @ dot_rest r \<and> digits_value (unat out) (u # ds) = unat v)"
      proof (intro iffI; elim exE)
        fix ds assume *: "list_all digit ds \<and> u # s = ds @ dot_rest r \<and> digits_value (unat out) ds = unat v"
        then obtain ds' where "ds = u # ds'"
          using True False nd by (cases ds) (auto simp: dot_rest_def split: if_splits)
        with * show "\<exists>ds. list_all digit (u # ds) \<and> u # s = (u # ds) @ dot_rest r \<and> digits_value (unat out) (u # ds) = unat v"
          by blast
      qed blast
      then show ?thesis using True unfolding step IH o by simp
    next
      case F2: False
      have none: "fst (parse_dotted_loop out True (u # s)) = None"
        using False F2 dotted_overflow(1) [of u out] not_digit_iff [of u]
        by (simp only: parse_dotted_loop.simps CBS_len_def length_greater_0_conv) auto
      have "\<not> (list_all digit ds \<and> u # s = ds @ dot_rest r \<and> digits_value (unat out) ds = unat v)" for ds
      proof
        assume *: "list_all digit ds \<and> u # s = ds @ dot_rest r \<and> digits_value (unat out) ds = unat v"
        show False
        proof (cases ds)
          case Nil
          then show False using * False by (auto simp: dot_rest_def split: if_splits)
        next
          case (Cons d ds')
          then have "d = u" "digit u" "digits_value (unat out * 10 + (unat u - 48)) ds' = unat v" using * by auto
          then have "unat out * 10 + (unat u - 48) \<le> unat v" using digits_value_ge by metis
          then show False using F2 \<open>digit u\<close> unat_u64_lt [of v] by simp
        qed
      qed
      then show ?thesis using none by (metis fst_conv option.distinct(1))
    qed
  qed
qed

lemma decimal_Cons: "decimal v = u # ds \<Longrightarrow> if v = 0 then u = 0x30 \<and> ds = [] else unat u \<noteq> 48"
  using hd_decimal_hi [of v] by (auto simp: decimal_0 decimal_hi_nonzero)

lemma parse_dotted_loop_0:
  "parse_dotted_loop 0 True s = (Some v, r) \<longleftrightarrow> v = 0 \<and> s = dot_rest r"
  by (cases s) (auto simp: dot_rest_def CBS_len_def)

theorem parse_dotted_decimal_iff:
  "parse_dotted_decimal s = (Some v, r) \<longleftrightarrow> s = decimal (unat v) @ dot_rest r"
proof (cases s)
  case Nil
  then show ?thesis by (simp add: parse_dotted_decimal_def)
next
  case (Cons u s')
  show ?thesis
  proof (cases "digit u")
    case False
    have "\<not> digit 0x2e" by (simp add: digit_def)
    have "fst (parse_dotted_decimal s) = None"
      using False not_digit_iff [of u] by (auto simp: parse_dotted_decimal_def Cons)
    moreover have "s \<noteq> decimal (unat v) @ dot_rest r"
      using False list_all_digit_decimal [of "unat v"] by (cases "decimal (unat v)") (auto simp: Cons)
    ultimately show ?thesis by (metis fst_conv option.distinct(1))
  next
    case True
    then have u: "u \<noteq> 0x2e" "\<not> (u < 0x30 \<or> u > 0x39)" using not_digit_iff [of u] by (auto simp: digit_def)
    define k :: u64 where "k = ucast (u - 0x30)"
    have k: "unat k = unat u - 48"
      using True by (simp add: k_def word_nat digit_def unat_sub word_le_nat_alt)
    have ov: "\<not> ((0 :: u64) > 0xffffffffffffffff div 10 \<or> 0 * 10 > 0xffffffffffffffff - ucast (u - 0x30))"
    proof -
      have "unat u - 48 < 10" using True by (auto simp: digit_def)
      then show ?thesis using dotted_overflow(1) [OF True, of 0] by simp
    qed
    have step: "parse_dotted_decimal s = parse_dotted_loop k True s'"
      using u ov by (simp only: parse_dotted_decimal_def Cons parse_dotted_loop.simps k_def) auto
    show ?thesis
    proof (cases "unat u = 48")
      case True
      then have "k = 0" "u = 0x30" using k by (simp_all add: word_unat_eq_iff)
      moreover have "u # s' = decimal (unat v) @ dot_rest r \<longleftrightarrow> v = 0 \<and> s' = dot_rest r"
      proof -
        obtain w ds where ds: "decimal (unat v) = w # ds" by (cases "decimal (unat v)") auto
        note c = decimal_Cons [OF ds]
        show ?thesis
        proof (cases "unat v = 0")
          case True
          then show ?thesis using c ds \<open>u = 0x30\<close> by (simp add: word_unat_eq_iff)
        next
          case False
          then have "u \<noteq> w" using c True by auto
          then show ?thesis using False ds by auto
        qed
      qed
      ultimately show ?thesis unfolding step using parse_dotted_loop_0 [of s' v r] by (simp add: Cons)
    next
      case False
      then have "k \<noteq> 0" using k True by (auto simp: word_unat_eq_iff digit_def)
      from parse_dotted_loop_iff [OF this] have
        "parse_dotted_decimal s = (Some v, r) \<longleftrightarrow>
          (\<exists>ds. list_all digit ds \<and> s' = ds @ dot_rest r \<and> digits_value 0 (u # ds) = unat v)"
        unfolding step k by simp
      also have "\<dots> \<longleftrightarrow> s = decimal (unat v) @ dot_rest r"
      proof
        assume "\<exists>ds. list_all digit ds \<and> s' = ds @ dot_rest r \<and> digits_value 0 (u # ds) = unat v"
        then obtain ds where "list_all digit ds" "s' = ds @ dot_rest r" "digits_value 0 (u # ds) = unat v" by blast
        then show "s = decimal (unat v) @ dot_rest r"
          using digits_value_0 [of u ds] True False by (simp add: Cons)
      next
        assume s: "s = decimal (unat v) @ dot_rest r"
        then obtain ds where ds: "decimal (unat v) = u # ds" by (cases "decimal (unat v)") (auto simp: Cons)
        then show "\<exists>ds. list_all digit ds \<and> s' = ds @ dot_rest r \<and> digits_value 0 (u # ds) = unat v"
          using s list_all_digit_decimal [of "unat v"] digits_value_decimal [of "unat v"] by (auto simp: Cons)
      qed
      finally show ?thesis .
    qed
  qed
qed

section \<open>OBJECT IDENTIFIERs\<close>

fun dotted :: "nat list \<Rightarrow> bytes" where
  "dotted [] = []"
| "dotted (x # xs) = decimal x @ dot_rest (dotted xs)"

fun oid_ok :: "nat list \<Rightarrow> bool" where
  "oid_ok (x # y # zs) \<longleftrightarrow>
     x \<le> 2 \<and> (x < 2 \<longrightarrow> y \<le> 39) \<and> 40 * x + y < 2 ^ 64 \<and> list_all (\<lambda>z. z < 2 ^ 64) zs"
| "oid_ok _ \<longleftrightarrow> False"

fun oid_der :: "nat list \<Rightarrow> bytes" where
  "oid_der (x # y # zs) = base128 (40 * x + y) @ concat (map base128 zs)"
| "oid_der _ = []"

lemma dotted_eq_Nil [simp]: "dotted xs = [] \<longleftrightarrow> xs = []"
  by (cases xs) simp_all

lemma parse_dotted_dotted:
  "x < 2 ^ 64 \<Longrightarrow> parse_dotted_decimal (dotted (x # xs)) = (Some (of_nat x), dotted xs)"
  using unat_of_nat_small(4) [of x] by (simp add: parse_dotted_decimal_iff)

lemma oid_from_text_loop_dotted:
  "list_all (\<lambda>z. z < 2 ^ 64) zs \<Longrightarrow>
   appends a h (concat (map base128 zs)) (oid_from_text_loop a h (dotted zs))"
proof (induction zs)
  case Nil
  show ?case by (simp add: oid_from_text_loop.simps CBS_len_def appends_def appended_def)
next
  case (Cons z zs)
  have z: "z < 2 ^ 64" using Cons.prems by simp
  have b: "appends a h (base128 z) (add_base128_integer a h (of_nat z))"
    using add_base128_integer_appends [of a h "of_nat z"] unat_of_nat_small(4) [OF z] by simp
  have "oid_from_text_loop a h (dotted (z # zs)) c =
      pbind (add_base128_integer a h (of_nat z) c) (\<lambda>_. oid_from_text_loop a h (dotted zs))" for c
    using parse_dotted_dotted [OF z, of zs]
    by (subst oid_from_text_loop.simps) (simp add: CBS_len_def)
  then have eq: "oid_from_text_loop a h (dotted (z # zs)) =
      (\<lambda>c. pbind (add_base128_integer a h (of_nat z) c) (\<lambda>_. oid_from_text_loop a h (dotted zs)))" by (rule ext)
  show ?case unfolding eq list.map concat.simps using b Cons by (intro appends_bind) simp_all
qed

lemma oid_from_text_loop_Some:
  "fst (oid_from_text_loop a h s c) \<noteq> None \<Longrightarrow> \<exists>zs. list_all (\<lambda>z. z < 2 ^ 64) zs \<and> s = dotted zs"
proof (induction a h s c rule: oid_from_text_loop.induct)
  case (1 a h s c)
  show ?case
  proof (cases "s = []")
    case True
    then show ?thesis by (intro exI [of _ "[]"]) simp
  next
    case False
    obtain v r where p: "parse_dotted_decimal s = (Some v, r)"
      using 1(2) False by (subst (asm) oid_from_text_loop.simps)
        (auto simp: CBS_len_def split: prod.splits option.splits)
    obtain u c' where c': "add_base128_integer a h v c = (Some u, c')"
      using 1(2) False p by (subst (asm) oid_from_text_loop.simps)
        (auto simp: CBS_len_def pbind_def split: prod.splits option.splits)
    have "fst (oid_from_text_loop a h r c') \<noteq> None"
      using 1(2) False p c' by (subst (asm) oid_from_text_loop.simps) (simp add: CBS_len_def)
    then obtain zs where "list_all (\<lambda>z. z < 2 ^ 64) zs" "r = dotted zs"
      using "1.IH" [OF _ p [symmetric] refl c'] False by (auto simp: CBS_len_def)
    then show ?thesis using p unat_u64_lt [of v]
      by (intro exI [of _ "unat v # zs"]) (simp add: parse_dotted_decimal_iff)
  qed
qed

lemma oid_first:
  fixes a b :: u64
  shows "\<not> (a > 2 \<or> (a < 2 \<and> b > 39) \<or> b > 0xffffffffffffffff - 80) \<longleftrightarrow>
      unat a \<le> 2 \<and> (unat a < 2 \<longrightarrow> unat b \<le> 39) \<and> 40 * unat a + unat b < 2 ^ 64"
    and "\<not> (a > 2 \<or> (a < 2 \<and> b > 39) \<or> b > 0xffffffffffffffff - 80) \<Longrightarrow>
      unat (40 * a + b) = 40 * unat a + unat b"
proof -
  have max: "unat (0xffffffffffffffff - 80 :: u64) = 18446744073709551535" by simp
  show iff: "\<not> (a > 2 \<or> (a < 2 \<and> b > 39) \<or> b > 0xffffffffffffffff - 80) \<longleftrightarrow>
      unat a \<le> 2 \<and> (unat a < 2 \<longrightarrow> unat b \<le> 39) \<and> 40 * unat a + unat b < 2 ^ 64"
    unfolding word_less_nat_alt max by auto
  assume "\<not> (a > 2 \<or> (a < 2 \<and> b > 39) \<or> b > 0xffffffffffffffff - 80)"
  then have "40 * unat a + unat b < 2 ^ 64" using iff by blast
  then show "unat (40 * a + b) = 40 * unat a + unat b" by (simp add: unat_word_ariths)
qed

lemma oid_from_text_dotted:
  assumes "oid_ok xs"
  shows "appends a h (oid_der xs) (CBB_add_asn1_oid_from_text a h (dotted xs))"
proof -
  obtain x y zs where xs: "xs = x # y # zs" using assms by (cases xs rule: oid_ok.cases) auto
  have b: "x \<le> 2" "x < 2 \<longrightarrow> y \<le> 39" "40 * x + y < 2 ^ 64" "list_all (\<lambda>z. z < 2 ^ 64) zs"
    using assms xs by simp_all
  then have x: "x < 2 ^ 64" "y < 2 ^ 64" by simp_all
  define wx :: u64 where "wx = of_nat x"
  define wy :: u64 where "wy = of_nat y"
  have u: "unat wx = x" "unat wy = y" unfolding wx_def wy_def using x by (simp_all add: unat_of_nat_small)
  have ok: "\<not> (wx > 2 \<or> (wx < 2 \<and> wy > 39) \<or> wy > 0xffffffffffffffff - 80)"
    unfolding oid_first(1) u using b by simp
  have p1: "parse_dotted_decimal (CBS_init (dotted xs) (length (dotted xs))) = (Some wx, dotted (y # zs))"
    using parse_dotted_dotted [OF x(1), of "y # zs"] by (simp add: CBS_init_def xs wx_def del: dotted.simps)
  have p2: "parse_dotted_decimal (dotted (y # zs)) = (Some wy, dotted zs)"
    using parse_dotted_dotted [OF x(2), of zs] by (simp add: wy_def del: dotted.simps)
  have eq: "CBB_add_asn1_oid_from_text a h (dotted xs) =
      (\<lambda>c. pbind (CBB_flush a h c) (\<lambda>_ c.
        pbind (add_base128_integer a h (40 * wx + wy) c) (\<lambda>_. oid_from_text_loop a h (dotted zs))))"
    by (rule ext) (simp only: CBB_add_asn1_oid_from_text_def p1 p2 prod.case option.case ok if_False)
  have "appends a h (base128 (40 * x + y)) (add_base128_integer a h (40 * wx + wy))"
    using add_base128_integer_appends [of a h "40 * wx + wy"] oid_first(2) [OF ok] u by simp
  from appends_bind [OF this oid_from_text_loop_dotted [OF b(4)]]
  have "appends a h (oid_der xs) (\<lambda>c. pbind (add_base128_integer a h (40 * wx + wy) c) (\<lambda>_. oid_from_text_loop a h (dotted zs)))"
    by (simp add: xs)
  then show ?thesis unfolding eq by (rule appends_flush)
qed

lemma fst_pbind: "fst (pbind m f) \<noteq> None \<Longrightarrow> \<exists>x s. m = (Some x, s) \<and> fst (f x s) \<noteq> None"
  by (auto simp: pbind_def split: prod.splits option.splits)

lemma oid_from_text_Some:
  assumes "fst (CBB_add_asn1_oid_from_text al h text c) \<noteq> None"
  shows "\<exists>xs. oid_ok xs \<and> text = dotted xs"
proof -
  obtain c1 where c1: "fst (case parse_dotted_decimal text of
         (None, _) \<Rightarrow> (None, c1)
       | (Some a, cbs) \<Rightarrow>
           (case parse_dotted_decimal cbs of
              (None, _) \<Rightarrow> (None, c1)
            | (Some b, cbs) \<Rightarrow>
                if a > 2 \<or> (a < 2 \<and> b > 39) \<or> b > 0xffffffffffffffff - 80 then (None, c1)
                else pbind (add_base128_integer al h (40 * a + b) c1) (\<lambda>_ c.
                  oid_from_text_loop al h cbs c))) \<noteq> None"
    using fst_pbind [OF assms [unfolded CBB_add_asn1_oid_from_text_def]] by (auto simp: CBS_init_def)
  obtain a r where a: "parse_dotted_decimal text = (Some a, r)"
    using c1 by (cases "parse_dotted_decimal text"; cases "fst (parse_dotted_decimal text)") auto
  obtain b s where b: "parse_dotted_decimal r = (Some b, s)"
    using c1 a by (cases "parse_dotted_decimal r"; cases "fst (parse_dotted_decimal r)") auto
  have ok: "\<not> (a > 2 \<or> (a < 2 \<and> b > 39) \<or> b > 0xffffffffffffffff - 80)"
    using c1 a b by (auto split: if_split_asm)
  then have "fst (pbind (add_base128_integer al h (40 * a + b) c1) (\<lambda>_ c. oid_from_text_loop al h s c)) \<noteq> None"
    using c1 a b by auto
  from fst_pbind [OF this] oid_from_text_loop_Some obtain zs where
    zs: "list_all (\<lambda>z. z < 2 ^ 64) zs" "s = dotted zs" by blast
  have "text = dotted (unat a # unat b # zs)"
    using a b zs(2) by (simp add: parse_dotted_decimal_iff)
  moreover have "oid_ok (unat a # unat b # zs)" using ok zs(1) unfolding oid_first(1) by simp
  ultimately show ?thesis by blast
qed

section \<open>To text\<close>

text \<open>The loop over the components is one of the generic loops: base 128 is a codec.\<close>

interpretation base128: codec "\<lambda>v :: u64. base128 (unat v)" parse_base128_integer "\<lambda>_. True"
  by unfold_locales (simp_all add: parse_base128_integer_iff)

lemma length_decimal_hi: "v < 10 ^ k \<Longrightarrow> length (decimal_hi v) \<le> k"
proof (induction k arbitrary: v)
  case (Suc k)
  then have "v div 10 < 10 ^ k" by (simp add: less_mult_imp_div_less mult.commute)
  with Suc.IH have "length (decimal_hi (v div 10)) \<le> k" by simp
  then show ?case by (cases "v = 0") (simp_all add: decimal_hi.simps [of v])
qed simp

lemma length_decimal: "v < 2 ^ 64 \<Longrightarrow> length (decimal v) \<le> 20"
  using length_decimal_hi [of v 20] by (cases "v = 0") (simp_all add: decimal_0 decimal_hi_nonzero)

lemma add_decimal_appends: "appends a h (decimal (unat v)) (add_decimal a h v)"
proof -
  have "length (decimal (unat v)) \<le> 20" using unat_u64_lt [of v] by (intro length_decimal) simp
  then have "appends a h (decimal (unat v)) (CBB_add_bytes a h (decimal (unat v)))"
    by (intro CBB_add_bytes_appends) simp
  then show ?thesis by (simp add: add_decimal_def fun_eq_iff [symmetric] appends_def)
qed

text \<open>The text of the components after the first two.\<close>

definition dots :: "u64 list \<Rightarrow> bytes" where
  "dots vs = concat (map (\<lambda>v. 0x2e # decimal (unat v)) vs)"

lemma dots_dotted: "dots vs = dot_rest (dotted (map unat vs))"
  by (induction vs) (simp_all add: dots_def)

lemma oid_text_loop_Some:
  "fst (oid_text_loop a h s c) \<noteq> None \<Longrightarrow> \<exists>vs. s = concat (map (\<lambda>v :: u64. base128 (unat v)) vs)"
proof (induction a h s c rule: oid_text_loop.induct)
  case (1 a h s c)
  show ?case
  proof (cases "s = []")
    case True
    then show ?thesis by (intro exI [of _ "[]"]) simp
  next
    case False
    obtain v r where p: "parse_base128_integer s = (Some v, r)"
      using 1(2) False by (subst (asm) oid_text_loop.simps)
        (auto simp: CBS_len_def split: prod.splits option.splits)
    have "fst (pbind (CBB_add_u8 a h 0x2e c) (\<lambda>_ c. pbind (add_decimal a h v c) (\<lambda>_ c. oid_text_loop a h r c))) \<noteq> None"
      using 1(2) False p by (subst (asm) oid_text_loop.simps) (simp add: CBS_len_def)
    from fst_pbind [OF this] obtain u c1 where
      c1: "CBB_add_u8 a h 0x2e c = (Some u, c1)"
        "fst (pbind (add_decimal a h v c1) (\<lambda>_ c. oid_text_loop a h r c)) \<noteq> None" by blast
    from fst_pbind [OF c1(2)] obtain w c2 where
      c2: "add_decimal a h v c1 = (Some w, c2)" "fst (oid_text_loop a h r c2) \<noteq> None" by blast
    obtain vs where "r = concat (map (\<lambda>v :: u64. base128 (unat v)) vs)"
      using "1.IH" [OF _ p [symmetric] refl c1(1) c2] False by (auto simp: CBS_len_def)
    then show ?thesis using p by (intro exI [of _ "v # vs"]) (simp add: parse_base128_integer_iff)
  qed
qed

lemma oid_text_loop_appends:
  "appends a h (dots vs) (oid_text_loop a h (concat (map (\<lambda>v :: u64. base128 (unat v)) vs)))"
proof (induction vs)
  case Nil
  show ?case by (simp add: oid_text_loop.simps CBS_len_def appends_def appended_def dots_def)
next
  case (Cons v vs)
  define rest where "rest = concat (map (\<lambda>v :: u64. base128 (unat v)) vs)"
  have "oid_text_loop a h (base128 (unat v) @ rest) c =
      pbind (CBB_add_u8 a h 0x2e c) (\<lambda>_ c. pbind (add_decimal a h v c) (\<lambda>_. oid_text_loop a h rest))" for c
    by (subst oid_text_loop.simps) (simp add: CBS_len_def base128.dec_enc)
  then have eq: "oid_text_loop a h (base128 (unat v) @ rest) = (\<lambda>c.
      pbind (CBB_add_u8 a h 0x2e c) (\<lambda>_ c. pbind (add_decimal a h v c) (\<lambda>_. oid_text_loop a h rest)))" by (rule ext)
  have IH: "appends a h (dots vs) (oid_text_loop a h rest)" using Cons by (simp add: rest_def)
  have "appends a h ([0x2e] @ decimal (unat v) @ dots vs) (oid_text_loop a h (base128 (unat v) @ rest))"
    unfolding eq by (intro appends_bind CBB_add_u8_appends add_decimal_appends IH)
  then show ?case by (simp add: rest_def dots_def)
qed

definition oid_split :: "nat \<Rightarrow> nat \<times> nat" where
  "oid_split n = (if n \<ge> 80 then (2, n - 80) else (n div 40, n mod 40))"

lemma add_first_appends:
  "appends a h (case oid_split (unat v) of (x, y) \<Rightarrow> decimal x @ 0x2e # decimal y) (add_first a h v)"
proof (cases "v \<ge> 80")
  case True
  then have v: "unat v \<ge> 80" "unat (v - 80) = unat v - 80" by (simp_all add: word_le_nat_alt unat_sub)
  have two: "decimal 2 = [0x32]" by (simp add: decimal_def)
  have "appends a h [0x32, 0x2e] (CBB_add_bytes a h [0x32, 0x2e])" by (rule CBB_add_bytes_appends) simp
  from appends_bind [OF this add_decimal_appends, of "v - 80"] show ?thesis
    using True v two by (simp add: oid_split_def add_first_def)
next
  case False
  then have v: "\<not> unat v \<ge> 80" by (simp add: word_le_nat_alt)
  have "unat (v div 40) = unat v div 40" "unat (v mod 40) = unat v mod 40" by (simp_all add: unat_div unat_mod)
  then have "appends a h (decimal (unat v div 40) @ [0x2e] @ decimal (unat v mod 40)) (add_first a h v)"
    using False appends_bind [OF add_decimal_appends appends_bind [OF CBB_add_u8_appends add_decimal_appends],
        of a h "v div 40" "0x2e" "v mod 40"]
    by (simp add: add_first_def)
  then show ?thesis using v by (simp add: oid_split_def)
qed

lemma CBS_asn1_oid_to_text_eq:
  "CBS_asn1_oid_to_text a s =
     fst (pbind (CBB_init a 0 32) (\<lambda>_ cbb.
        case parse_base128_integer s of
          (None, _) \<Rightarrow> (None, CBB_cleanup cbb)
        | (Some v, copy) \<Rightarrow>
            pbind (pbind (add_first a 0 v cbb) (\<lambda>_ cbb. pbind (oid_text_loop a 0 copy cbb) (\<lambda>_. CBB_add_u8 a 0 0)))
              (\<lambda>_. CBB_finish a 0 True True)))"
  unfolding CBS_asn1_oid_to_text_def Let_def pbind_assoc ..

definition oid_components :: "u64 \<Rightarrow> u64 list \<Rightarrow> nat list" where
  "oid_components v vs = (case oid_split (unat v) of (x, y) \<Rightarrow> x # y # map unat vs)"

lemma oid_components_ok:
  "oid_ok (oid_components v vs)"
  "oid_der (oid_components v vs) = base128 (unat v) @ concat (map (\<lambda>v :: u64. base128 (unat v)) vs)"
  "dotted (oid_components v vs) = (case oid_split (unat v) of (x, y) \<Rightarrow> decimal x @ 0x2e # decimal y) @ dots vs"
proof -
  obtain x y where xy: "oid_split (unat v) = (x, y)" by (cases "oid_split (unat v)")
  then have sum: "40 * x + y = unat v" and b: "x \<le> 2" "x < 2 \<longrightarrow> y \<le> 39"
    by (auto simp: oid_split_def div_le_dividend split: if_splits intro: less_mult_imp_div_less)
  show "oid_ok (oid_components v vs)"
    using sum b unat_u64_lt [of v] by (simp add: oid_components_def xy list_all_iff)
  show "oid_der (oid_components v vs) = base128 (unat v) @ concat (map (\<lambda>v :: u64. base128 (unat v)) vs)"
    by (simp add: oid_components_def xy sum comp_def)
  show "dotted (oid_components v vs) = (case oid_split (unat v) of (x, y) \<Rightarrow> decimal x @ 0x2e # decimal y) @ dots vs"
    by (simp add: oid_components_def xy dots_dotted)
qed

lemma oid_components_of_ok:
  assumes "oid_ok xs"
  obtains v vs where "xs = oid_components v vs"
proof -
  obtain x y zs where xs: "xs = x # y # zs" using assms by (cases xs rule: oid_ok.cases) auto
  have b: "x \<le> 2" "x < 2 \<longrightarrow> y \<le> 39" "40 * x + y < 2 ^ 64" "list_all (\<lambda>z. z < 2 ^ 64) zs"
    using assms xs by simp_all
  have "oid_split (40 * x + y) = (x, y)"
  proof (cases "x = 2")
    case False
    then have "x < 2" "y < 40" using b by simp_all
    then show ?thesis by (auto simp: oid_split_def)
  qed (simp add: oid_split_def)
  moreover have "unat (of_nat (40 * x + y) :: u64) = 40 * x + y" using b(3) by (rule unat_of_nat_small)
  moreover have "map unat (map of_nat zs :: u64 list) = zs"
    using b(4) by (induction zs) (simp_all add: unat_of_nat_small)
  ultimately show thesis
    by (intro that [of "of_nat (40 * x + y)" "map of_nat zs"]) (simp add: oid_components_def xs)
qed

lemma length_dots: "length (dots vs) \<le> 21 * length vs"
proof (induction vs)
  case (Cons v vs)
  have "length (decimal (unat v)) \<le> 20" using unat_u64_lt [of v] by (intro length_decimal) simp
  then show ?case using Cons by (simp add: dots_def)
qed (simp add: dots_def)

lemma length_first: "length (case oid_split (unat (v :: u64)) of (x, y) \<Rightarrow> decimal x @ 0x2e # decimal y) \<le> 41"
proof -
  obtain x y where xy: "oid_split (unat v) = (x, y)" by (cases "oid_split (unat v)")
  have "unat v < 2 ^ 64" using unat_u64_lt [of v] by simp
  then have "x < 2 ^ 64" "y < 2 ^ 64" using xy
    by (auto simp: oid_split_def split: if_splits
        intro: le_less_trans [OF div_le_dividend] le_less_trans [OF mod_less_eq_dividend] le_less_trans [OF diff_le_self])
  from length_decimal [OF this(1)] length_decimal [OF this(2)] show ?thesis using xy by simp
qed

lemma length_concat_base128: "length vs \<le> length (concat (map (\<lambda>v :: u64. base128 (unat v)) vs))"
proof (induction vs)
  case (Cons v vs)
  then show ?case by (cases "base128 (unat v)") simp_all
qed simp

lemma oid_to_text_ok:
  assumes "plentiful a" "length vs < 2 ^ 56"
  shows "CBS_asn1_oid_to_text a (oid_der (oid_components v vs)) = Some (dotted (oid_components v vs) @ [0])"
proof -
  define m where "m = (\<lambda>cbb. pbind (add_first a 0 v cbb) (\<lambda>_ cbb.
      pbind (oid_text_loop a 0 (concat (map (\<lambda>v :: u64. base128 (unat v)) vs)) cbb) (\<lambda>_. CBB_add_u8 a 0 0)))"
  have "appends a 0 ((case oid_split (unat v) of (x, y) \<Rightarrow> decimal x @ 0x2e # decimal y) @ dots vs @ [0]) m"
    unfolding m_def by (intro appends_bind add_first_appends oid_text_loop_appends CBB_add_u8_appends)
  then have m: "appends a 0 (dotted (oid_components v vs) @ [0]) m" by (simp add: oid_components_ok)
  have "length (dotted (oid_components v vs) @ [0]) < 2 ^ 62"
    using length_dots [of vs] length_first [of v] assms(2) by (simp add: oid_components_ok)
  from session [where cap = 32 and h = 0, OF assms(1) _ this m] obtain c1 c2 c3 where
    s: "CBB_init a 0 32 = (Some (), c1)" "m c1 = (Some (), c2)"
      "CBB_finish a 0 True True c2 = (Some (dotted (oid_components v vs) @ [0]), c3)" by auto
  have "pbind (m c1) (\<lambda>_. CBB_finish a 0 True True) = (Some (dotted (oid_components v vs) @ [0]), c3)"
    using s by simp
  then show ?thesis
    by (simp add: CBS_asn1_oid_to_text_eq s(1) oid_components_ok(2) base128.dec_enc m_def)
qed

lemma oid_to_text_Some:
  assumes "CBS_asn1_oid_to_text a s \<noteq> None"
  shows "\<exists>v vs. s = oid_der (oid_components v vs)"
proof -
  from fst_pbind [OF assms [unfolded CBS_asn1_oid_to_text_eq]] obtain c1 where
    c1: "fst (case parse_base128_integer s of
          (None, _) \<Rightarrow> (None, CBB_cleanup c1)
        | (Some v, copy) \<Rightarrow>
            pbind (pbind (add_first a 0 v c1) (\<lambda>_ cbb. pbind (oid_text_loop a 0 copy cbb) (\<lambda>_. CBB_add_u8 a 0 0)))
              (\<lambda>_. CBB_finish a 0 True True)) \<noteq> None" by blast
  obtain v r where p: "parse_base128_integer s = (Some v, r)"
    using c1 by (cases "parse_base128_integer s"; cases "fst (parse_base128_integer s)") auto
  have "fst (pbind (pbind (add_first a 0 v c1) (\<lambda>_ cbb. pbind (oid_text_loop a 0 r cbb) (\<lambda>_. CBB_add_u8 a 0 0)))
      (\<lambda>_. CBB_finish a 0 True True)) \<noteq> None" using c1 p by simp
  from fst_pbind [OF this] have
    "fst (pbind (add_first a 0 v c1) (\<lambda>_ cbb. pbind (oid_text_loop a 0 r cbb) (\<lambda>_. CBB_add_u8 a 0 0))) \<noteq> None" by fastforce
  from fst_pbind [OF this] obtain c2 where
    "fst (pbind (oid_text_loop a 0 r c2) (\<lambda>_. CBB_add_u8 a 0 0)) \<noteq> None" by blast
  from fst_pbind [OF this] have "fst (oid_text_loop a 0 r c2) \<noteq> None" by fastforce
  from oid_text_loop_Some [OF this] show ?thesis
    using p unfolding oid_components_ok(2) by (auto simp: parse_base128_integer_iff)
qed

section \<open>Properties\<close>

text \<open>C10: \<open>CBB_add_asn1_oid_from_text\<close> accepts exactly the dotted texts of OBJECT IDENTIFIERs: at least
  two components, the first at most 2, the second at most 39 below a first of 0 or 1, no leading
  zeros, every component within 64 bits; and what it writes is the DER contents of that identifier.\<close>

theorem oid_from_text_correct:
  assumes "plentiful a" "cap < 2 ^ 63" "length (oid_der xs) < 2 ^ 62"
  shows "(oid_ok xs \<longrightarrow> (\<exists>c1 c2 c3. CBB_init a h cap = (Some (), c1) \<and>
      CBB_add_asn1_oid_from_text a h (dotted xs) c1 = (Some (), c2) \<and>
      CBB_finish a h True True c2 = (Some (oid_der xs), c3))) \<and>
    ((\<nexists>ys. oid_ok ys \<and> str = dotted ys) \<longrightarrow> fst (CBB_add_asn1_oid_from_text a h str c) = None)"
  using session [OF assms oid_from_text_dotted] oid_from_text_Some [of a h str c] by blast

theorem oid_from_text_correct_witness:
  "\<exists>c1 c2 c3. CBB_init plenty 0 0 = (Some (), c1) \<and>
      CBB_add_asn1_oid_from_text plenty 0 (dotted [1, 2, 840, 113554]) c1 = (Some (), c2) \<and>
      CBB_finish plenty 0 True True c2 = (Some (oid_der [1, 2, 840, 113554]), c3)"
proof -
  have "length (base128_hi v) \<le> 9" if "v < 2 ^ 57" for v
    by (rule length_base128_hi) (use that in simp)
  note len = this
  have "length (oid_der [1, 2, 840, 113554]) < 2 ^ 62"
    using len [of 0] len [of 6] len [of 887] by (simp add: base128_def)
  from oid_from_text_correct [OF plentiful_plenty _ this, of 0 0 "[]" "CBB_zero"] show ?thesis by simp
qed

text \<open>C11: \<open>CBS_asn1_oid_to_text\<close> accepts exactly the DER contents of OBJECT IDENTIFIERs and returns
  their dotted text, with its NUL, so it inverts \<open>CBB_add_asn1_oid_from_text\<close>.\<close>

theorem oid_to_text_correct:
  assumes "plentiful a" "length s < 2 ^ 56"
  shows "CBS_asn1_oid_to_text a s = Some t \<longleftrightarrow> (\<exists>xs. oid_ok xs \<and> s = oid_der xs \<and> t = dotted xs @ [0])"
proof -
  have len: "length vs < 2 ^ 56" if "s = oid_der (oid_components v vs)" for v vs
    using that length_concat_base128 [of vs] assms(2) by (simp add: oid_components_ok)
  show ?thesis
  proof
    assume t: "CBS_asn1_oid_to_text a s = Some t"
    then obtain v vs where "s = oid_der (oid_components v vs)" using oid_to_text_Some [of a s] by auto
    then show "\<exists>xs. oid_ok xs \<and> s = oid_der xs \<and> t = dotted xs @ [0]"
      using t len oid_to_text_ok [OF assms(1)] oid_components_ok(1) by fastforce
  next
    assume "\<exists>xs. oid_ok xs \<and> s = oid_der xs \<and> t = dotted xs @ [0]"
    then obtain xs where xs: "oid_ok xs" "s = oid_der xs" "t = dotted xs @ [0]" by blast
    obtain v vs where v: "xs = oid_components v vs" by (rule oid_components_of_ok [OF xs(1)])
    then show "CBS_asn1_oid_to_text a s = Some t" using xs len oid_to_text_ok [OF assms(1)] by simp
  qed
qed

theorem oid_to_text_correct_witness:
  "CBS_asn1_oid_to_text plenty [0x2a, 3] = Some [0x31, 0x2e, 0x32, 0x2e, 0x33, 0]"
  unfolding oid_to_text_correct [OF plentiful_plenty, of "[0x2a, 3]", simplified]
  by (intro exI [of _ "[1, 2, 3]"]) (simp add: base128_def decimal_def)

end
