(* ===== verification/Comparator.thy ===== *)
theory Comparator
  imports Prelude "HOL-Library.Multiset"
begin

text \<open>
  Comparison functions in the manner of C: negative, zero or positive. \<open>comparator\<close> is what the
  callers of \<open>qsort\<close> and of a binary search rely on, a total preorder; \<open>qsort_ok\<close> is what the C
  standard promises of \<open>qsort\<close> for one comparison function, a parameter of the components that sort.
\<close>

definition sorted_by :: "('a \<Rightarrow> 'a \<Rightarrow> int) \<Rightarrow> 'a list \<Rightarrow> bool" where
  "sorted_by cmp xs \<longleftrightarrow> sorted_wrt (\<lambda>x y. cmp x y \<le> 0) xs"

text \<open>The first index below \<open>n\<close> that satisfies \<open>P\<close>.\<close>

definition first_index :: "(nat \<Rightarrow> bool) \<Rightarrow> nat \<Rightarrow> nat option" where
  "first_index P n = find P [0..<n]"

lemma first_index_Some:
  "first_index P n = Some i \<longleftrightarrow> i < n \<and> P i \<and> (\<forall>j < i. \<not> P j)"
  by (auto simp: first_index_def find_Some_iff)

lemma first_index_None: "first_index P n = None \<longleftrightarrow> (\<forall>j < n. \<not> P j)"
  by (auto simp: first_index_def find_None_iff)

section \<open>The interface\<close>

locale comparator =
  fixes cmp :: "'a \<Rightarrow> 'a \<Rightarrow> int"
  assumes flip: "cmp x y < 0 \<longleftrightarrow> cmp y x > 0"
    and trans: "cmp x y \<le> 0 \<Longrightarrow> cmp y z \<le> 0 \<Longrightarrow> cmp x z \<le> 0"
begin

lemma refl [simp]: "cmp x x = 0"
  using flip [of x x] by linarith

lemma le_or_ge: "cmp x y \<le> 0 \<or> cmp y x \<le> 0"
  using flip [of y x] by linarith

lemma zero_sym: "cmp x y = 0 \<longleftrightarrow> cmp y x = 0"
  using flip [of x y] flip [of y x] by linarith

lemma less_trans_le: "cmp x y < 0 \<Longrightarrow> cmp y z \<le> 0 \<Longrightarrow> cmp x z < 0"
  using trans [of x y z] trans [of y z x] flip [of x y] flip [of x z] flip [of z x] by linarith

text \<open>Against the elements of a sorted list, the answers of a comparison only go down.\<close>

lemma sorted_signs:
  assumes s: "sorted_by cmp xs" and ij: "i \<le> j" "j < length xs"
  shows "cmp p (xs ! j) > 0 \<Longrightarrow> cmp p (xs ! i) > 0" and "cmp p (xs ! i) < 0 \<Longrightarrow> cmp p (xs ! j) < 0"
proof -
  have le: "cmp (xs ! i) (xs ! j) \<le> 0"
    using s ij by (cases "i = j") (auto simp: sorted_by_def sorted_wrt_iff_nth_less)
  show "cmp p (xs ! j) > 0 \<Longrightarrow> cmp p (xs ! i) > 0"
    using le trans [of p "xs ! i" "xs ! j"] by linarith
  show "cmp p (xs ! i) < 0 \<Longrightarrow> cmp p (xs ! j) < 0" using le by (rule less_trans_le [rotated])
qed

end

text \<open>Insertion sort, a \<open>qsort\<close> that can be run.\<close>

fun insert_by :: "('a \<Rightarrow> 'a \<Rightarrow> int) \<Rightarrow> 'a \<Rightarrow> 'a list \<Rightarrow> 'a list" where
  "insert_by cmp x [] = [x]"
| "insert_by cmp x (y # ys) = (if cmp x y \<le> 0 then x # y # ys else y # insert_by cmp x ys)"

fun sort_by :: "('a \<Rightarrow> 'a \<Rightarrow> int) \<Rightarrow> 'a list \<Rightarrow> 'a list" where
  "sort_by cmp [] = []"
| "sort_by cmp (x # xs) = insert_by cmp x (sort_by cmp xs)"

lemma set_insert_by [simp]: "set (insert_by cmp x ys) = insert x (set ys)"
  by (induction ys) auto

lemma mset_insert_by [simp]: "mset (insert_by cmp x ys) = add_mset x (mset ys)"
  by (induction ys) auto

lemma mset_sort_by [simp]: "mset (sort_by cmp xs) = mset xs"
  by (induction xs) auto

definition qsort_ok :: "('a \<Rightarrow> 'a \<Rightarrow> int) \<Rightarrow> ('a list \<Rightarrow> 'a list) \<Rightarrow> bool" where
  "qsort_ok cmp srt \<longleftrightarrow> (\<forall>xs. mset (srt xs) = mset xs \<and> (comparator cmp \<longrightarrow> sorted_by cmp (srt xs)))"

context comparator
begin

lemma sorted_insert_by: "sorted_by cmp ys \<Longrightarrow> sorted_by cmp (insert_by cmp x ys)"
proof (induction ys)
  case (Cons y ys)
  then show ?case
    using le_or_ge [of x y] trans [of x y] by (auto simp: sorted_by_def)
qed (simp add: sorted_by_def)

lemma sorted_sort_by: "sorted_by cmp (sort_by cmp xs)"
  by (induction xs) (simp_all add: sorted_insert_by, simp add: sorted_by_def)

text \<open>For a comparison that tells all elements apart, the sorted permutation is unique.\<close>

lemma sorted_unique:
  assumes "\<And>x y. cmp x y = 0 \<Longrightarrow> x = y"
  shows "sorted_by cmp xs \<Longrightarrow> sorted_by cmp ys \<Longrightarrow> mset xs = mset ys \<Longrightarrow> xs = ys"
proof (induction xs arbitrary: ys)
  case Nil
  then show ?case by simp
next
  case (Cons x xs)
  then obtain y ys' where ys: "ys = y # ys'" by (cases ys) auto
  have "set (x # xs) = set ys" using Cons.prems(3) by (rule mset_eq_setD)
  then have "x \<in> set ys" "y \<in> set (x # xs)" by (auto simp: ys)
  then have "cmp y x \<le> 0" "cmp x y \<le> 0" using Cons.prems(1,2) by (auto simp: ys sorted_by_def)
  then have "cmp x y = 0" using flip [of x y] flip [of y x] by linarith
  then have "x = y" by (rule assms)
  then show ?case using Cons.IH [of ys'] Cons.prems by (simp add: ys sorted_by_def)
qed

end

lemma qsort_ok_sort_by: "qsort_ok cmp (sort_by cmp)"
  by (simp add: qsort_ok_def comparator.sorted_sort_by)

lemma qsort_ok_mset: "qsort_ok cmp srt \<Longrightarrow> mset (srt xs) = mset xs"
  by (simp add: qsort_ok_def)

lemma qsort_ok_sorted: "qsort_ok cmp srt \<Longrightarrow> comparator cmp \<Longrightarrow> sorted_by cmp (srt xs)"
  by (simp add: qsort_ok_def)

lemma sorted_by_sublist:
  "sorted_by cmp (xs @ x # ys) \<Longrightarrow> sorted_by cmp (xs @ ys)"
  by (simp add: sorted_by_def sorted_wrt_append)

end
