(* ===== verification/Set_Of.thy ===== *)
theory Set_Of
  imports Der_Tree Comparator
begin

text \<open>
  Two users of the builder: \<open>CBB_flush_asn1_set_of\<close> (\<open>crypto/bytestring/cbb.c\<close>), which reorders the
  elements of a SET OF into DER's order, and \<open>CBB_finish_i2d\<close> (\<open>crypto/bytestring/asn1_compat.c\<close>), which
  hands a finished buffer to callers of the old interface. The comparison of two elements is a
  comparator, so whatever permutation \<open>qsort\<close> picks, the result is the same.
\<close>

section \<open>The code\<close>

definition compare_set_of_element :: "cbs \<Rightarrow> cbs \<Rightarrow> int" where
  "compare_set_of_element a b =
     (let a_len = CBS_len a; b_len = CBS_len b;
          min_len = (if a_len < b_len then a_len else b_len);
          ret = memcmp (take min_len (CBS_data a)) (take min_len (CBS_data b)) in
      if ret \<noteq> 0 then ret else if a_len = b_len then 0 else if a_len < b_len then -1 else 1)"

lemma der_element_not_Nil [simp]: "der_element tag d \<noteq> []"
  using length_der_element_less [of d tag] by auto

lemma get_element_shorter: "CBS_get_any_asn1_element s = (Some v, r) \<Longrightarrow> length r < length s"
  by (cases v) (auto simp: CBS_get_any_asn1_element_iff)

function count_elements :: "cbs \<Rightarrow> nat option" where
  "count_elements cbs =
     (if CBS_len cbs \<noteq> 0 then
        (case CBS_get_any_asn1_element cbs of
           (None, _) \<Rightarrow> None
         | (Some _, cbs) \<Rightarrow> map_option Suc (count_elements cbs))
      else Some 0)"
  by pat_completeness auto
termination
  by (relation "measure length") (auto dest: get_element_shorter [OF sym])

declare count_elements.simps [simp del]

fun read_children :: "nat \<Rightarrow> cbs \<Rightarrow> cbs list option" where
  "read_children 0 cbs = Some []"
| "read_children (Suc n) cbs =
     (case CBS_get_any_asn1_element cbs of
        (None, _) \<Rightarrow> None
      | (Some (child, _), cbs) \<Rightarrow> map_option (Cons child) (read_children n cbs))"

fun add_children :: "allocator \<Rightarrow> nat \<Rightarrow> cbs list \<Rightarrow> cbb \<Rightarrow> unit option \<times> cbb" where
  "add_children a h [] c = (Some (), c)"
| "add_children a h (x # xs) c = pbind (CBB_add_bytes a h x c) (\<lambda>_. add_children a h xs)"

text \<open>\<open>cbb->base->len = cbb->offset + cbb->pending_len_len\<close>.\<close>

definition rewind_cbb :: "nat \<Rightarrow> cbb \<Rightarrow> cbb" where
  "rewind_cbb h c =
     (case chain_from h (cbb_chain c) of
        [] \<Rightarrow> c
      | (_, n) # _ \<Rightarrow>
          c\<lparr>cbb_base := map_option (\<lambda>b. b\<lparr>cb_len := cn_offset n + cn_pending_len_len n\<rparr>) (cbb_base c)\<rparr>)"

definition CBB_flush_asn1_set_of ::
  "((cbs \<Rightarrow> cbs \<Rightarrow> int) \<Rightarrow> cbs list \<Rightarrow> cbs list) \<Rightarrow> allocator \<Rightarrow> nat \<Rightarrow> cbb \<Rightarrow> unit option \<times> cbb" where
  "CBB_flush_asn1_set_of qsort a h c =
     pbind (CBB_flush a h c) (\<lambda>_ c.
       case count_elements (CBS_init (CBB_data h c) (CBB_len h c)) of
         None \<Rightarrow> (None, c)
       | Some num_children \<Rightarrow>
           if num_children < 2 then (Some (), c)
           else if num_children > SIZE_MAX div 16 then (None, c)
           else
             (case (OPENSSL_memdup a (take (CBB_len h c) (CBB_data h c)), OPENSSL_malloc a (num_children * 16)) of
                (Some buf, Some _) \<Rightarrow>
                  (case read_children num_children (CBS_init buf (CBB_len h c)) of
                     None \<Rightarrow> (None, c)
                   | Some children \<Rightarrow> add_children a h (qsort compare_set_of_element children) (rewind_cbb h c))
              | _ \<Rightarrow> (None, c)))"

text \<open>
  \<open>outp\<close> is \<open>None\<close> for a NULL \<open>outp\<close>, \<open>Some None\<close> when \<open>*outp\<close> is NULL, and otherwise the buffer \<open>*outp\<close>
  points into with the position there. The result is the return value, -1 for errors, and what becomes of
  \<open>*outp\<close>: a new buffer, or the old one with the bytes copied and the position advanced.
\<close>

datatype i2d_out = No_out | New_buffer bytes | Advanced bytes nat

definition CBB_finish_i2d ::
  "allocator \<Rightarrow> nat \<Rightarrow> cbb \<Rightarrow> (bytes \<times> nat) option option \<Rightarrow> int \<times> i2d_out \<times> cbb" where
  "CBB_finish_i2d a h c outp =
     (case CBB_finish a h True True c of
        (None, c) \<Rightarrow> (-1, No_out, CBB_cleanup c)
      | (Some der, c) \<Rightarrow>
          if length der > INT_MAX then (-1, No_out, c)
          else
            (int (length der),
             (case outp of
                None \<Rightarrow> No_out
              | Some None \<Rightarrow> New_buffer der
              | Some (Some (buf, pos)) \<Rightarrow>
                  Advanced (take pos buf @ der @ drop (pos + length der) buf) (pos + length der)),
             c))"

section \<open>The order of SET OF\<close>

fun lex_cmp :: "bytes \<Rightarrow> bytes \<Rightarrow> int" where
  "lex_cmp [] [] = 0"
| "lex_cmp [] (y # ys) = -1"
| "lex_cmp (x # xs) [] = 1"
| "lex_cmp (x # xs) (y # ys) = (if x < y then -1 else if y < x then 1 else lex_cmp xs ys)"

lemma compare_set_of_element_eq: "compare_set_of_element a b = lex_cmp a b"
  by (induction a b rule: lex_cmp.induct) (auto simp: compare_set_of_element_def Let_def CBS_len_def CBS_data_def)

lemma lex_cmp_flip: "lex_cmp b a = - lex_cmp a b"
  by (induction a b rule: lex_cmp.induct) auto

lemma lex_cmp_0: "lex_cmp a b = 0 \<longleftrightarrow> a = b"
  by (induction a b rule: lex_cmp.induct) auto

lemma lex_cmp_trans: "lex_cmp a b \<le> 0 \<Longrightarrow> lex_cmp b c \<le> 0 \<Longrightarrow> lex_cmp a c \<le> 0"
proof (induction a b arbitrary: c rule: lex_cmp.induct)
  case (4 x xs y ys)
  then show ?case by (cases c) (auto split: if_split_asm)
qed (case_tac c; simp)+

interpretation set_of: comparator compare_set_of_element
proof
  fix x y z
  show "compare_set_of_element x y < 0 \<longleftrightarrow> compare_set_of_element y x > 0"
    unfolding compare_set_of_element_eq using lex_cmp_flip [of x y] by linarith
  show "compare_set_of_element x y \<le> 0 \<Longrightarrow> compare_set_of_element y z \<le> 0 \<Longrightarrow> compare_set_of_element x z \<le> 0"
    unfolding compare_set_of_element_eq by (rule lex_cmp_trans)
qed

lemma lex_cmp_lexordp: "lex_cmp a b \<le> 0 \<longleftrightarrow> lexordp_eq a b"
  by (induction a b rule: lex_cmp.induct) auto

lemma sorted_set_of: "sorted_wrt lexordp_eq (sort_by compare_set_of_element es)"
  using set_of.sorted_sort_by [of es] by (simp add: sorted_by_def compare_set_of_element_eq lex_cmp_lexordp)

lemma qsort_set_of:
  assumes "qsort_ok compare_set_of_element (qs compare_set_of_element)"
  shows "qs compare_set_of_element xs = sort_by compare_set_of_element xs"
proof (rule set_of.sorted_unique)
  show "compare_set_of_element x y = 0 \<Longrightarrow> x = y" for x y by (simp add: compare_set_of_element_eq lex_cmp_0)
qed (simp_all add: qsort_ok_sorted [OF assms set_of.comparator_axioms] set_of.sorted_sort_by qsort_ok_mset [OF assms])

section \<open>Elements\<close>

definition der_elements :: "bytes list \<Rightarrow> bool" where
  "der_elements es \<longleftrightarrow> list_all (\<lambda>e. \<exists>tag d. length d < 2 ^ 32 \<and> e = der_element tag d) es"

lemma der_elements_simps [simp]:
  "der_elements []"
  "der_elements (e # es) \<longleftrightarrow> (\<exists>tag d. length d < 2 ^ 32 \<and> e = der_element tag d) \<and> der_elements es"
  by (simp_all add: der_elements_def)

lemma get_element:
  assumes "length d < 2 ^ 32"
  shows "\<exists>v. CBS_get_any_asn1_element (der_element tag d @ r) = (Some (der_element tag d, v), r)"
  using CBS_get_any_asn1_element_iff [of "der_element tag d @ r" "der_element tag d" tag "length (der_header tag (length d))" r]
    assms by auto

lemma get_elementE:
  assumes "CBS_get_any_asn1_element s = (Some v, r)"
  obtains e where "der_elements [e]" "s = e @ r" "e = fst v"
  using assms by (cases v) (auto simp: CBS_get_any_asn1_element_iff)

lemma count_elements_concat: "der_elements es \<Longrightarrow> count_elements (concat es) = Some (length es)"
proof (induction es)
  case (Cons e es)
  then obtain tag d where e: "length d < 2 ^ 32" "e = der_element tag d" by auto
  then obtain v where "CBS_get_any_asn1_element (e @ concat es) = (Some (e, v), concat es)"
    using get_element by blast
  then show ?case using Cons e by (subst count_elements.simps) (simp add: CBS_len_def)
qed (simp add: count_elements.simps CBS_len_def)

lemma count_elements_Some:
  "count_elements s = Some n \<Longrightarrow> \<exists>es. der_elements es \<and> s = concat es \<and> length es = n"
proof (induction s arbitrary: n rule: count_elements.induct)
  case (1 s)
  show ?case
  proof (cases "s = []")
    case True
    then show ?thesis using "1.prems" by (intro exI [of _ "[]"]) (simp add: count_elements.simps CBS_len_def)
  next
    case False
    then obtain v r m where g: "CBS_get_any_asn1_element s = (Some v, r)" and m: "count_elements r = Some m" "n = Suc m"
      using "1.prems" by (subst (asm) count_elements.simps) (auto simp: CBS_len_def split: prod.splits option.splits)
    obtain es where es: "der_elements es" "r = concat es" "length es = m"
      using "1.IH" [OF _ g [symmetric] refl m(1)] False by (auto simp: CBS_len_def)
    obtain e where "der_elements [e]" "s = e @ r" using g by (rule get_elementE)
    then show ?thesis using es m by (intro exI [of _ "e # es"]) simp
  qed
qed

lemma read_children_concat: "der_elements es \<Longrightarrow> read_children (length es) (concat es) = Some es"
proof (induction es)
  case (Cons e es)
  then obtain tag d where e: "length d < 2 ^ 32" "e = der_element tag d" by auto
  then obtain v where "CBS_get_any_asn1_element (e @ concat es) = (Some (e, v), concat es)"
    using get_element by blast
  then show ?case using Cons by simp
qed simp

lemma length_concat_elements: "der_elements es \<Longrightarrow> length es \<le> length (concat es)"
proof (induction es)
  case (Cons e es)
  then have "e \<noteq> []" by auto
  then show ?case using Cons by (cases e) auto
qed simp

section \<open>The rewritten contents\<close>

lemma rewind_rep:
  assumes "rep (fs @ [(h, k, ys)]) c"
  shows "rep (fs @ [(h, k, [])]) (rewind_cbb h c)" and "same_room c (rewind_cbb h c)"
proof -
  from assms obtain b where b: "cbb_base c = Some b" "buf_ok b" "written b = layout (fs @ [(h, k, ys)])"
    and wf: "wf_frames (fs @ [(h, k, ys)])" and ch: "cbb_chain c = nodes 0 (fs @ [(h, k, ys)])"
    by (auto simp: rep_def)
  have d: "distinct (map fst (fs @ [(h, k, ys)]))" using wf by (simp add: wf_frames_def)
  define n where "n = length (layout fs) + placeholder k"
  define b' where "b' = b\<lparr>cb_len := n\<rparr>"
  have c': "rewind_cbb h c = c\<lparr>cbb_base := Some b'\<rparr>"
    using chain_split(2) [OF d] by (simp add: rewind_cbb_def ch b(1) b'_def n_def)
  have len: "cb_len b = n + length ys" using arg_cong [OF b(3), of length] by (simp add: layout_append n_def)
  have "written b' = take n (written b)" using len by (simp add: written_def b'_def take_map)
  then have w: "written b' = layout (fs @ [(h, k, [])])" using b(3) by (simp add: layout_append n_def)
  have ok: "buf_ok b'" using b(2) len by (simp add: buf_ok_def b'_def)
  have "wf_frames (fs @ [(h, k, [])])" using wf wf_frames_append by simp
  then show "rep (fs @ [(h, k, [])]) (rewind_cbb h c)"
    using w ok ch by (simp add: rep_def c' nodes_append)
  show "same_room c (rewind_cbb h c)"
    by (simp add: c' same_room_def roomy_def b(1) b'_def room_def)
qed

lemma add_children_appends:
  "(\<forall>x \<in> set xs. length x < 2 ^ 64) \<Longrightarrow> appends a h (concat xs) (add_children a h xs)"
proof (induction xs)
  case Nil
  then show ?case using appends_return by (simp add: fun_eq_iff)
next
  case (Cons x xs)
  then show ?case
    using appends_bind [OF CBB_add_bytes_appends, of x a h "concat xs" "\<lambda>_. add_children a h xs"]
    by (simp add: fun_eq_iff)
qed

lemma frame_data:
  assumes "rep (fs @ [(h, k, ys)]) c"
  shows "CBB_data h c = ys" and "CBB_len h c = length ys"
proof -
  from assms obtain b where b: "cbb_base c = Some b" "written b = layout (fs @ [(h, k, ys)])"
    and wf: "wf_frames (fs @ [(h, k, ys)])" and ch: "cbb_chain c = nodes 0 (fs @ [(h, k, ys)])"
    by (auto simp: rep_def)
  have d: "distinct (map fst (fs @ [(h, k, ys)]))" using wf by (simp add: wf_frames_def)
  have "cb_len b = length (layout fs) + placeholder k + length ys"
    using arg_cong [OF b(2), of length] by (simp add: layout_append)
  then show "CBB_data h c = ys" "CBB_len h c = length ys"
    using b(2) chain_split(2) [OF d] by (simp_all add: CBB_data_def CBB_len_def b(1) ch layout_append)
qed

lemma rep_roomy:
  assumes "rep fs c" "plentiful a" "length (layout fs) < 2 ^ 62"
  shows "roomy a (length (layout fs)) c"
proof -
  from assms(1) obtain b where b: "cbb_base c = Some b" "buf_ok b" "written b = layout fs"
    by (auto simp: rep_def)
  moreover have "cb_len b = length (layout fs)" using arg_cong [OF b(3), of length] by simp
  ultimately show ?thesis using assms(2,3)
    by (simp add: roomy_def room_def buf_ok_def)
qed

lemma length_concat_mset: "mset xs = mset ys \<Longrightarrow> length (concat xs) = length (concat ys)"
  by (metis length_concat mset_map sum_mset_sum_list)

lemma short_sort_by: "length (es :: 'a list) < 2 \<Longrightarrow> sort_by cmp es = es"
  by (cases es; cases "tl es") auto

lemma flush_set_of_elements:
  assumes rep: "rep (fs @ [(h, k, concat es)]) c" and a: "plentiful a"
    and len: "length (layout (fs @ [(h, k, concat es)])) < 2 ^ 58"
    and es: "der_elements es" and qs: "qsort_ok compare_set_of_element (qs compare_set_of_element)"
  shows "\<exists>c'. CBB_flush_asn1_set_of qs a h c = (Some (), c') \<and>
    rep (fs @ [(h, k, concat (sort_by compare_set_of_element es))]) c'"
proof (cases "length es < 2")
  case True
  then show ?thesis
    using rep by (simp add: CBB_flush_asn1_set_of_def CBB_flush_last [OF rep] frame_data [OF rep] CBS_init_def
        count_elements_concat [OF es] short_sort_by)
next
  case False
  let ?es = "sort_by compare_set_of_element es"
  have cl: "length (concat es) < 2 ^ 58" using len by (simp add: layout_append)
  have n: "length es < 2 ^ 58" using cl length_concat_elements [OF es] by linarith
  then have n16: "length es * 16 < 2 ^ 63" by simp
  then obtain f where f: "OPENSSL_malloc a (length es * 16) = Some f" using plentiful_malloc [OF a] by blast
  have "concat es \<noteq> []" using False length_concat_elements [OF es] by (cases "concat es") auto
  moreover obtain g where "OPENSSL_malloc a (length (concat es)) = Some g" using plentiful_malloc [OF a] cl by fastforce
  ultimately have dup: "OPENSSL_memdup a (concat es) = Some (concat es)" by (simp add: OPENSSL_memdup_def)
  have ov: "\<not> length es > SIZE_MAX div 16" using n16 by simp
  have ms: "mset ?es = mset es" by simp
  have eq: "CBB_flush_asn1_set_of qs a h c = add_children a h ?es (rewind_cbb h c)"
    using False ov by (simp add: CBB_flush_asn1_set_of_def CBB_flush_last [OF rep] frame_data [OF rep] CBS_init_def
        count_elements_concat [OF es] read_children_concat [OF es] f dup qsort_set_of [where qs = qs, OF qs])
  have "length x \<le> length (concat es)" if "x \<in> set es" for x
    using that by (induction es) auto
  then have "\<forall>x \<in> set ?es. length x < 2 ^ 64"
    using cl mset_eq_setD [OF ms] by (fastforce intro: le_less_trans)
  note ap = add_children_appends [OF this, of a h]
  obtain r c' where m: "add_children a h ?es (rewind_cbb h c) = (r, c')" by (cases "add_children a h ?es (rewind_cbb h c)")
  have "roomy a (length (layout (fs @ [(h, k, concat es)]))) c" using len by (intro rep_roomy [OF rep a]) simp
  then have room: "roomy a (length (layout (fs @ [(h, k, [] @ concat ?es)]))) (rewind_cbb h c)"
    using rewind_rep(2) [OF rep] length_concat_mset [OF ms] by (simp add: same_room_def layout_append)
  have "r \<noteq> None" using appends_None [OF ap rewind_rep(1) [OF rep], of c'] m room by (cases r) simp_all
  then have "r = Some ()" by (cases r) simp_all
  moreover have "rep (fs @ [(h, k, concat ?es)]) c'"
    using appends_Some [OF ap rewind_rep(1) [OF rep]] m calculation by simp
  ultimately show ?thesis using eq m by simp
qed

lemma flush_set_of_other:
  assumes rep: "rep (fs @ [(h, k, ys)]) c" and no: "\<And>es. der_elements es \<Longrightarrow> ys \<noteq> concat es"
  shows "CBB_flush_asn1_set_of qs a h c = (None, c)"
proof -
  have "count_elements ys = None" using no count_elements_Some [of ys] by (cases "count_elements ys") auto
  then show ?thesis
    by (simp add: CBB_flush_asn1_set_of_def CBB_flush_last [OF rep] frame_data [OF rep] CBS_init_def)
qed

section \<open>The old interface\<close>

lemma finish_i2d_last:
  assumes "rep [(h, Root, xs)] c"
  shows "\<exists>c'. CBB_finish_i2d a h c outp =
    (if length xs > INT_MAX then (-1, No_out, c')
     else (int (length xs), (case outp of None \<Rightarrow> No_out | Some None \<Rightarrow> New_buffer xs
       | Some (Some (buf, pos)) \<Rightarrow> Advanced (take pos buf @ xs @ drop (pos + length xs) buf) (pos + length xs)), c'))"
  using CBB_finish_last [OF assms, of a] by (auto simp: CBB_finish_i2d_def)

lemma session_rep:
  assumes "plentiful a" "cap < 2 ^ 63" "length xs < 2 ^ 62" "appends a h xs m"
  shows "\<exists>c1 c2. CBB_init a h cap = (Some (), c1) \<and> m c1 = (Some (), c2) \<and> rep [(h, Root, xs)] c2"
proof -
  obtain c1 where c1: "CBB_init a h cap = (Some (), c1)" "rep ([] @ [(h, Root, [])]) c1"
    "roomy a (length xs) c1" using CBB_init_plentiful [OF assms(1,2)] assms(3) by auto
  obtain c2 where "m c1 = (Some (), c2)"
    using appends_None [OF assms(4) c1(2)] c1(3) by (cases "m c1"; cases "fst (m c1)") auto
  moreover have "rep [(h, Root, xs)] c2"
    using appends_Some [OF assms(4) c1(2) \<open>m c1 = (Some (), c2)\<close>] by simp
  ultimately show ?thesis using c1(1) by blast
qed

section \<open>Properties\<close>

text \<open>C16: \<open>CBB_flush_asn1_set_of\<close> succeeds exactly on contents that are a sequence of DER elements. It then
  leaves the same elements, as often as they were there, in the ascending lexicographic order of their
  encodings, whichever way \<open>qsort\<close> gets there, and otherwise changes nothing. The frames outside the SET OF
  are never touched.\<close>

theorem flush_set_of_sorts:
  assumes "rep (fs @ [(h, k, ys)]) c" and "plentiful a" and "length (layout (fs @ [(h, k, ys)])) < 2 ^ 58"
    and "qsort_ok compare_set_of_element (qs compare_set_of_element)"
  shows "(\<forall>es. der_elements es \<and> ys = concat es \<longrightarrow>
      (\<exists>c' zs. CBB_flush_asn1_set_of qs a h c = (Some (), c') \<and> rep (fs @ [(h, k, concat zs)]) c' \<and>
        mset zs = mset es \<and> sorted_wrt lexordp_eq zs)) \<and>
    ((\<nexists>es. der_elements es \<and> ys = concat es) \<longrightarrow> CBB_flush_asn1_set_of qs a h c = (None, c))"
proof -
  have "\<exists>c' zs. CBB_flush_asn1_set_of qs a h c = (Some (), c') \<and> rep (fs @ [(h, k, concat zs)]) c' \<and>
      mset zs = mset es \<and> sorted_wrt lexordp_eq zs" if "der_elements es" "ys = concat es" for es
    using flush_set_of_elements [where qs = qs and a = a] sorted_set_of [of es] mset_sort_by [of _ es] assms
    unfolding that(2) using that(1) by blast
  then show ?thesis using flush_set_of_other [OF assms(1)] by blast
qed

text \<open>The SET OF INTEGERs 3, -1 and 3, and what it becomes.\<close>

definition demo_set :: "bytes list" where
  "demo_set = [[2, 1, 3], [2, 1, 0xff], [2, 1, 3]]"

lemma demo_set_ok: "der_elements demo_set"
proof -
  have e: "[2, 1, b] = der_element 2 [b]" for b
    by (simp add: der_element_def der_header_def der_tag_def der_length_def)
  show ?thesis
    unfolding demo_set_def e by (simp del: One_nat_def) (intro conjI exI [of _ 2]; force)
qed

lemma demo_set_sorted:
  assumes "mset zs = mset demo_set" "sorted_wrt lexordp_eq zs"
  shows "zs = [[2, 1, 3], [2, 1, 3], [2, 1, 0xff]]"
proof (rule set_of.sorted_unique)
  show "compare_set_of_element x y = 0 \<Longrightarrow> x = y" for x y by (simp add: compare_set_of_element_eq lex_cmp_0)
  show "sorted_by compare_set_of_element zs"
    using assms(2) by (simp add: sorted_by_def compare_set_of_element_eq lex_cmp_lexordp)
qed (use assms(1) in \<open>simp_all add: sorted_by_def compare_set_of_element_eq demo_set_def\<close>)

theorem flush_set_of_sorts_witness:
  "\<exists>c c'. rep [(0, Root, concat demo_set)] c \<and> CBB_flush_asn1_set_of (\<lambda>cmp. sort_by cmp) plenty 0 c = (Some (), c') \<and>
    rep [(0, Root, [2, 1, 3, 2, 1, 3, 2, 1, 0xff])] c'"
proof -
  have "appends plenty 0 (concat demo_set) (CBB_add_bytes plenty 0 (concat demo_set))"
    by (rule CBB_add_bytes_appends) (simp add: demo_set_def)
  from session_rep [OF plentiful_plenty _ _ this, of 1]
  obtain c where c: "rep ([] @ [(0, Root, concat demo_set)]) c" by (auto simp: demo_set_def)
  have "length (layout ([] @ [(0, Root, concat demo_set)])) < 2 ^ 58" by (simp add: demo_set_def)
  from conjunct1 [OF flush_set_of_sorts [where qs = "\<lambda>cmp. sort_by cmp", OF c plentiful_plenty this qsort_ok_sort_by]]
  obtain c' zs where "CBB_flush_asn1_set_of (\<lambda>cmp. sort_by cmp) plenty 0 c = (Some (), c')"
    "rep [(0, Root, concat zs)] c'" "mset zs = mset demo_set" "sorted_wrt lexordp_eq zs"
    using demo_set_ok by fastforce
  then show ?thesis using c demo_set_sorted [of zs] by (intro exI [of _ c] exI [of _ c']) auto
qed

text \<open>C17: A document written by a builder reaches the callers of the old \<open>i2d\<close> interface whole: a new buffer
  holds its encoding, and a buffer of the caller's gets it at the caller's position, which moves past
  it, with everything before and after kept. What does not fit an \<open>int\<close> is an error.\<close>

theorem i2d_document:
  assumes "plentiful a" "cap < 2 ^ 63" "well_formed t" "length (encode t) \<le> 0xfffffffe"
  shows "\<exists>c1 c2. CBB_init a h cap = (Some (), c1) \<and> write_tree a h t c1 = (Some (), c2) \<and>
    (\<forall>outp ret out c3. CBB_finish_i2d a h c2 outp = (ret, out, c3) \<longrightarrow>
      (if length (encode t) > INT_MAX then ret = -1 \<and> out = No_out
       else ret = int (length (encode t)) \<and>
         (outp = Some None \<longrightarrow> (\<exists>der. out = New_buffer der \<and> read_trees der = Some [t])) \<and>
         (\<forall>pre old post. outp = Some (Some (pre @ old @ post, length pre)) \<and> length old = nat ret \<longrightarrow>
           (\<exists>der. out = Advanced (pre @ der @ post) (length pre + length der) \<and> read_trees der = Some [t]))))"
proof -
  have "length (encode t) < 2 ^ 62" using assms(4) by simp
  from session_rep [OF assms(1,2) this write_tree_appends [OF assms(4)], of h]
  obtain c1 c2 where c: "CBB_init a h cap = (Some (), c1)" "write_tree a h t c1 = (Some (), c2)"
    "rep [(h, Root, encode t)] c2" by blast
  have "read_trees (encode t) = Some [t]" using assms(3) by (simp add: read_trees_iff)
  then have "CBB_finish_i2d a h c2 outp = (ret, out, c3) \<Longrightarrow>
      if length (encode t) > INT_MAX then ret = -1 \<and> out = No_out
      else ret = int (length (encode t)) \<and>
         (outp = Some None \<longrightarrow> (\<exists>der. out = New_buffer der \<and> read_trees der = Some [t])) \<and>
         (\<forall>pre old post. outp = Some (Some (pre @ old @ post, length pre)) \<and> length old = nat ret \<longrightarrow>
           (\<exists>der. out = Advanced (pre @ der @ post) (length pre + length der) \<and> read_trees der = Some [t]))"
    for outp ret out c3 using finish_i2d_last [OF c(3), of a outp] by auto
  then show ?thesis using c(1,2) by blast
qed

theorem i2d_document_witness:
  "\<exists>c1 c2. CBB_init plenty 0 1 = (Some (), c1) \<and> write_tree plenty 0 demo_tree c1 = (Some (), c2) \<and>
    fst (CBB_finish_i2d plenty 0 c2 (Some None)) = int (length (encode demo_tree))"
proof -
  have "length (encode demo_tree) \<le> INT_MAX"
    by (simp add: demo_tree_def der_element_def der_header_def der_tag_def der_length_def)
  then show ?thesis
    using i2d_document [OF plentiful_plenty _ demo_tree_ok, of 1 0]
    by (metis (no_types, lifting) linorder_not_less one_less_numeral_iff one_less_power prod.collapse semiring_norm(76) zero_less_numeral)
qed

end
