(* ===== verification/Unicode.thy ===== *)
theory Unicode
  imports Cbb_Api Codec
begin

text \<open>
  crypto/bytestring/unicode.c: code points in UTF-8, Latin-1, UCS-2 and UTF-32, read from a
  \<open>CBS\<close> and written to a \<open>CBB\<close>. Each reader and its encoding is a codec.
\<close>

section \<open>The code\<close>

definition is_valid_code_point :: "u32 \<Rightarrow> bool" where
  "is_valid_code_point v =
     (if v > 0x10ffff \<or> v AND 0xfffe = 0xfffe \<or> (v \<ge> 0xfdd0 \<and> v \<le> 0xfdef) \<or>
         (v \<ge> 0xd800 \<and> v \<le> 0xdfff)
      then False else True)"

definition BOTTOM_BITS :: "nat \<Rightarrow> u8" where
  "BOTTOM_BITS n = push_bit n 1 - 1"

definition TOP_BITS :: "nat \<Rightarrow> u8" where
  "TOP_BITS n = NOT (BOTTOM_BITS (8 - n))"

fun utf8_loop :: "nat \<Rightarrow> u32 \<Rightarrow> cbs \<Rightarrow> u32 option \<times> cbs" where
  "utf8_loop 0 v cbs = (Some v, cbs)"
| "utf8_loop (Suc len) v cbs =
     pbind (CBS_get_u8 cbs) (\<lambda>c cbs.
       if c AND TOP_BITS 2 \<noteq> TOP_BITS 1 then (None, cbs)
       else utf8_loop len (push_bit 6 v OR ucast (c AND BOTTOM_BITS 6)) cbs)"

definition cbs_get_utf8 :: "cbs \<Rightarrow> u32 option \<times> cbs" where
  "cbs_get_utf8 cbs =
     pbind (CBS_get_u8 cbs) (\<lambda>c cbs.
       if c \<le> 0x7f then (Some (ucast c), cbs)
       else
         case (if c AND TOP_BITS 3 = TOP_BITS 2 then Some (c AND BOTTOM_BITS 5, 1, 0x80)
               else if c AND TOP_BITS 4 = TOP_BITS 3 then Some (c AND BOTTOM_BITS 4, 2, 0x800)
               else if c AND TOP_BITS 5 = TOP_BITS 4 then Some (c AND BOTTOM_BITS 3, 3, 0x10000)
               else None) of
           None \<Rightarrow> (None, cbs)
         | Some (v, len, lower_bound) \<Rightarrow>
             pbind (utf8_loop len (ucast v) cbs) (\<lambda>v cbs.
               if \<not> is_valid_code_point v \<or> v < lower_bound then (None, cbs) else (Some v, cbs)))"

definition cbs_get_latin1 :: "cbs \<Rightarrow> u32 option \<times> cbs" where
  "cbs_get_latin1 cbs = pbind (CBS_get_u8 cbs) (\<lambda>c cbs. (Some (ucast c), cbs))"

definition cbs_get_ucs2_be :: "cbs \<Rightarrow> u32 option \<times> cbs" where
  "cbs_get_ucs2_be cbs =
     pbind (CBS_get_u16 cbs) (\<lambda>c cbs.
       if \<not> is_valid_code_point (ucast c) then (None, cbs) else (Some (ucast c), cbs))"

definition cbs_get_utf32_be :: "cbs \<Rightarrow> u32 option \<times> cbs" where
  "cbs_get_utf32_be cbs =
     pbind (CBS_get_u32 cbs) (\<lambda>v cbs. if is_valid_code_point v then (Some v, cbs) else (None, cbs))"

definition cbb_get_utf8_len :: "u32 \<Rightarrow> nat" where
  "cbb_get_utf8_len u = (if u \<le> 0x7f then 1 else if u \<le> 0x7ff then 2 else if u \<le> 0xffff then 3 else 4)"

definition cbb_add_utf8 :: "allocator \<Rightarrow> nat \<Rightarrow> u32 \<Rightarrow> cbb \<Rightarrow> unit option \<times> cbb" where
  "cbb_add_utf8 a h u c =
     (let top = (\<lambda>n x. CBB_add_u8 a h (ucast (ucast (TOP_BITS n) OR x :: u32)));
          low = (\<lambda>x. CBB_add_u8 a h (ucast (ucast (TOP_BITS 1) OR (x AND ucast (BOTTOM_BITS 6)) :: u32)))
      in if \<not> is_valid_code_point u then (None, c)
         else if u \<le> 0x7f then CBB_add_u8 a h (ucast u) c
         else if u \<le> 0x7ff then pbind (top 2 (drop_bit 6 u) c) (\<lambda>_. low u)
         else if u \<le> 0xffff then
           pbind (top 3 (drop_bit 12 u) c) (\<lambda>_ c. pbind (low (drop_bit 6 u) c) (\<lambda>_. low u))
         else if u \<le> 0x10ffff then
           pbind (top 4 (drop_bit 18 u) c) (\<lambda>_ c.
             pbind (low (drop_bit 12 u) c) (\<lambda>_ c. pbind (low (drop_bit 6 u) c) (\<lambda>_. low u)))
         else (None, c))"

definition cbb_add_latin1 :: "allocator \<Rightarrow> nat \<Rightarrow> u32 \<Rightarrow> cbb \<Rightarrow> unit option \<times> cbb" where
  "cbb_add_latin1 a h u c = (if u \<le> 0xff then CBB_add_u8 a h (ucast u) c else (None, c))"

definition cbb_add_ucs2_be :: "allocator \<Rightarrow> nat \<Rightarrow> u32 \<Rightarrow> cbb \<Rightarrow> unit option \<times> cbb" where
  "cbb_add_ucs2_be a h u c =
     (if u \<le> 0xffff \<and> is_valid_code_point u then CBB_add_u16 a h (ucast u) c else (None, c))"

definition cbb_add_utf32_be :: "allocator \<Rightarrow> nat \<Rightarrow> u32 \<Rightarrow> cbb \<Rightarrow> unit option \<times> cbb" where
  "cbb_add_utf32_be a h u c = (if is_valid_code_point u then CBB_add_u32 a h u c else (None, c))"

section \<open>Code points\<close>

definition code_point :: "nat \<Rightarrow> bool" where
  "code_point n \<longleftrightarrow> n \<le> 0x10ffff \<and> n mod 0x10000 < 0xfffe \<and>
     \<not> (0xfdd0 \<le> n \<and> n \<le> 0xfdef) \<and> \<not> (0xd800 \<le> n \<and> n \<le> 0xdfff)"

lemma is_valid_code_point_iff: "is_valid_code_point v \<longleftrightarrow> code_point (unat v)"
proof -
  have "unat (v AND 0xfffe) = unat v div 2 mod 2 ^ 15 * 2"
    using unat_and_bits [of "0xfffe :: u32" 1 15 v] by (simp add: mask_eq_exp_minus_1)
  then have "v AND 0xfffe = 0xfffe \<longleftrightarrow> unat v div 2 mod 32768 = 32767"
    by (simp add: word_unat_eq_iff)
  also have "\<dots> \<longleftrightarrow> \<not> unat v mod 65536 < 65534"
  proof -
    define n where "n = unat v"
    have "n div 2 mod 32768 = n mod 65536 div 2"
      using mod_mult2_eq [of n 2 32768] by simp
    moreover have "n mod 65536 < 65536" by simp
    ultimately show ?thesis unfolding n_def [symmetric] by linarith
  qed
  finally show ?thesis
    by (auto simp: is_valid_code_point_def code_point_def word_le_nat_alt word_less_nat_alt)
qed

section \<open>UTF-8\<close>

text \<open>The encoding, on numbers.\<close>

definition utf8 :: "nat \<Rightarrow> bytes" where
  "utf8 n =
     (if n < 0x80 then [of_nat n]
      else if n < 0x800 then [of_nat (0xc0 + n div 64), of_nat (0x80 + n mod 64)]
      else if n < 0x10000 then
        [of_nat (0xe0 + n div 4096), of_nat (0x80 + n div 64 mod 64), of_nat (0x80 + n mod 64)]
      else
        [of_nat (0xf0 + n div 262144), of_nat (0x80 + n div 4096 mod 64),
         of_nat (0x80 + n div 64 mod 64), of_nat (0x80 + n mod 64)])"

lemma bits_values:
  "BOTTOM_BITS 3 = 0x07" "BOTTOM_BITS 4 = 0x0f" "BOTTOM_BITS 5 = 0x1f" "BOTTOM_BITS 6 = 0x3f"
  "TOP_BITS 1 = 0x80" "TOP_BITS 2 = 0xc0" "TOP_BITS 3 = 0xe0" "TOP_BITS 4 = 0xf0" "TOP_BITS 5 = 0xf8"
  by (simp_all add: BOTTOM_BITS_def TOP_BITS_def)

lemma lead_bytes:
  "(c :: u8) AND 0xe0 = 0xc0 \<longleftrightarrow> unat c div 32 = 6"
  "c AND 0xf0 = 0xe0 \<longleftrightarrow> unat c div 16 = 14"
  "c AND 0xf8 = 0xf0 \<longleftrightarrow> unat c div 8 = 30"
  "c AND 0xc0 = 0x80 \<longleftrightarrow> unat c div 64 = 2"
proof -
  have "unat c div 32 < 8" "unat c div 16 < 16" "unat c div 8 < 32" "unat c div 64 < 4"
    by (rule less_mult_imp_div_less, simp)+
  then have "unat (c AND 0xe0) = unat c div 32 * 32" "unat (c AND 0xf0) = unat c div 16 * 16"
    "unat (c AND 0xf8) = unat c div 8 * 8" "unat (c AND 0xc0) = unat c div 64 * 64"
    using unat_and_bits [of "0xe0 :: u8" 5 3 c] unat_and_bits [of "0xf0 :: u8" 4 4 c]
      unat_and_bits [of "0xf8 :: u8" 3 5 c] unat_and_bits [of "0xc0 :: u8" 6 2 c]
    by (simp_all add: mask_eq_exp_minus_1)
  then show "c AND 0xe0 = 0xc0 \<longleftrightarrow> unat c div 32 = 6" "c AND 0xf0 = 0xe0 \<longleftrightarrow> unat c div 16 = 14"
    "c AND 0xf8 = 0xf0 \<longleftrightarrow> unat c div 8 = 30" "c AND 0xc0 = 0x80 \<longleftrightarrow> unat c div 64 = 2"
    by (simp_all add: word_unat_eq_iff)
qed

lemma low_bits:
  "unat ((c :: u8) AND 0x07) = unat c mod 8" "unat (c AND 0x0f) = unat c mod 16"
  "unat (c AND 0x3f) = unat c mod 64"
  using unat_and_bits [of "0x07 :: u8" 0 3 c] unat_and_bits [of "0x0f :: u8" 0 4 c]
    unat_and_bits [of "0x3f :: u8" 0 6 c] by (simp_all add: mask_eq_exp_minus_1)

text \<open>Continuation bytes.\<close>

definition continues :: "u8 \<Rightarrow> bool" where
  "continues c \<longleftrightarrow> unat c div 64 = 2"

fun continue :: "nat \<Rightarrow> bytes \<Rightarrow> nat" where
  "continue v [] = v"
| "continue v (c # cs) = continue (v * 64 + unat c mod 64) cs"

lemma ex_length_Suc: "(\<exists>cs. length cs = Suc n \<and> P cs) \<longleftrightarrow> (\<exists>c cs. length cs = n \<and> P (c # cs))"
  by (metis length_Suc_conv)

lemma utf8_loop_iff:
  "unat v < 2 ^ (32 - 6 * len) \<Longrightarrow> len \<le> 3 \<Longrightarrow>
   utf8_loop len v s = (Some w, r) \<longleftrightarrow>
   (\<exists>cs. length cs = len \<and> list_all continues cs \<and> s = cs @ r \<and> unat w = continue (unat v) cs)"
proof (induction len v s rule: utf8_loop.induct)
  case (1 v s)
  then show ?case by (auto simp: word_unat_eq_iff)
next
  case (2 len v s)
  show ?case
  proof (cases s)
    case (Cons c s')
    define v' where "v' = push_bit 6 v OR ucast (c AND BOTTOM_BITS 6)"
    define k where "k = 32 - 6 * Suc len"
    have "32 - 6 * len = k + 6" using 2(3) by (simp add: k_def)
    then have e: "(2 :: nat) ^ (32 - 6 * Suc len) * 64 = 2 ^ (32 - 6 * len)"
      by (simp only: k_def [symmetric] power_add) simp
    have "unat v * 64 < 2 ^ (32 - 6 * len)" using 2(2) e by linarith
    also have "\<dots> \<le> 2 ^ 32" by (intro power_increasing) simp_all
    finally have small: "unat v * 64 < 2 ^ 32" .
    have v': "unat v' = unat v * 64 + unat c mod 64"
      unfolding v'_def using small
      by (subst unat_or_add [of _ 6]) (simp_all add: word_nat bits_values low_bits)
    have "unat v' < 2 ^ (32 - 6 * len)"
    proof -
      have "(unat v + 1) * 64 \<le> 2 ^ (32 - 6 * Suc len) * 64" using 2(2) by (intro mult_right_mono) simp_all
      then have "unat v * 64 + 64 \<le> 2 ^ (32 - 6 * len)" unfolding e by simp
      moreover have "unat c mod 64 < 64" by simp
      ultimately show ?thesis unfolding v' by linarith
    qed
    note bnd = this
    have cond: "c AND TOP_BITS 2 \<noteq> TOP_BITS 1 \<longleftrightarrow> \<not> continues c"
      by (simp only: bits_values lead_bytes continues_def)
    have IH: "utf8_loop len v' s' = (Some w, r) \<longleftrightarrow>
        (\<exists>cs. length cs = len \<and> list_all continues cs \<and> s' = cs @ r \<and> unat w = continue (unat v') cs)"
      if "continues c"
    proof -
      have "\<not> c AND TOP_BITS 2 \<noteq> TOP_BITS 1" using that cond by blast
      moreover have "CBS_get_u8 s = (Some c, s')" by (simp add: Cons)
      ultimately show ?thesis using "2.IH" [of c s', folded v'_def] bnd 2(3) by simp
    qed
    have step: "utf8_loop (Suc len) v s = (if continues c then utf8_loop len v' s' else (None, s'))"
      unfolding Cons utf8_loop.simps CBS_get_u8_simps pbind_simps cond v'_def by simp
    have "(\<exists>cs. length cs = Suc len \<and> list_all continues cs \<and> s = cs @ r \<and> unat w = continue (unat v) cs) \<longleftrightarrow>
        continues c \<and> (\<exists>cs. length cs = len \<and> list_all continues cs \<and> s' = cs @ r \<and> unat w = continue (unat v') cs)"
      unfolding Cons v' ex_length_Suc by auto
    then show ?thesis unfolding step using IH by auto
  qed (auto simp: CBS_get_u8_def cbs_get_def CBS_len_def length_Suc_conv)
qed

lemma div_mod_join:
  fixes x y k :: nat
  assumes "y < k" "n = x * k + y"
  shows "n div k = x" "n mod k = y"
  using assms by simp_all

lemma div_mod_64:
  fixes x y :: nat
  assumes "y < 64" "n = x * 64 + y"
  shows "n div 64 = x" "n mod 64 = y"
  using assms by simp_all

lemma continues_low: "continues c \<Longrightarrow> c = of_nat (0x80 + unat c mod 64)"
  using div_mult_mod_eq [of "unat c" 64] by (simp add: continues_def word_unat_eq_iff unat_of_nat del: of_nat_add)

lemma lead_low:
  "unat c div 32 = 6 \<Longrightarrow> c = of_nat (0xc0 + unat c mod 32)"
  "unat c div 16 = 14 \<Longrightarrow> c = of_nat (0xe0 + unat c mod 16)"
  "unat c div 8 = 30 \<Longrightarrow> (c :: u8) = of_nat (0xf0 + unat c mod 8)"
  using div_mult_mod_eq [of "unat c" 32] div_mult_mod_eq [of "unat c" 16] div_mult_mod_eq [of "unat c" 8]
  by (simp_all add: word_unat_eq_iff unat_of_nat del: of_nat_add)

lemma utf8_build:
  "y < 64 \<Longrightarrow> x < 32 \<Longrightarrow> 0x80 \<le> x * 64 + y \<Longrightarrow> utf8 (x * 64 + y) = [of_nat (0xc0 + x), of_nat (0x80 + y)]"
  "z < 64 \<Longrightarrow> y < 64 \<Longrightarrow> x < 16 \<Longrightarrow> 0x800 \<le> (x * 64 + y) * 64 + z \<Longrightarrow>
   utf8 ((x * 64 + y) * 64 + z) = [of_nat (0xe0 + x), of_nat (0x80 + y), of_nat (0x80 + z)]"
  "w < 64 \<Longrightarrow> z < 64 \<Longrightarrow> y < 64 \<Longrightarrow> 0x10000 \<le> ((x * 64 + y) * 64 + z) * 64 + w \<Longrightarrow>
   utf8 (((x * 64 + y) * 64 + z) * 64 + w) =
     [of_nat (0xf0 + x), of_nat (0x80 + y), of_nat (0x80 + z), of_nat (0x80 + w)]"
proof -
  assume b: "y < 64" "x < 32" "0x80 \<le> x * 64 + y"
  then have "x * 64 + y < 0x800" by linarith
  then show "utf8 (x * 64 + y) = [of_nat (0xc0 + x), of_nat (0x80 + y)]"
    using b by (simp add: utf8_def del: of_nat_add)
next
  assume b: "z < 64" "y < 64" "x < 16" "0x800 \<le> (x * 64 + y) * 64 + z"
  define m where "m = x * 64 + y"
  have m: "m div 64 = x" "m mod 64 = y" using div_mod_64 [OF b(2) m_def] .
  have n: "(m * 64 + z) div 64 = m" "(m * 64 + z) mod 64 = z" using div_mod_64 [OF b(1) refl] by simp_all
  have "(m * 64 + z) div 4096 = (m * 64 + z) div 64 div 64" by (simp add: div_mult2_eq [symmetric])
  moreover have "m * 64 + z < 0x10000" using b by (simp add: m_def)
  ultimately show "utf8 ((x * 64 + y) * 64 + z) = [of_nat (0xe0 + x), of_nat (0x80 + y), of_nat (0x80 + z)]"
    using b(4) unfolding m_def [symmetric] utf8_def n m by (simp del: of_nat_add add: m)
next
  assume b: "w < 64" "z < 64" "y < 64" "0x10000 \<le> ((x * 64 + y) * 64 + z) * 64 + w"
  define m where "m = x * 64 + y"
  define k where "k = m * 64 + z"
  have m: "m div 64 = x" "m mod 64 = y" using div_mod_64 [OF b(3) m_def] .
  have k: "k div 64 = m" "k mod 64 = z" using div_mod_64 [OF b(2) k_def] .
  have n: "(k * 64 + w) div 64 = k" "(k * 64 + w) mod 64 = w" using div_mod_64 [OF b(1) refl] by simp_all
  have "(k * 64 + w) div 4096 = (k * 64 + w) div 64 div 64"
    "(k * 64 + w) div 262144 = (k * 64 + w) div 64 div 64 div 64" by (simp_all add: div_mult2_eq [symmetric])
  then have e: "(k * 64 + w) div 4096 = m" "(k * 64 + w) div 262144 = x" by (simp_all only: n k m)
  show "utf8 (((x * 64 + y) * 64 + z) * 64 + w) =
     [of_nat (0xf0 + x), of_nat (0x80 + y), of_nat (0x80 + z), of_nat (0x80 + w)]"
    using b(4) unfolding m_def [symmetric] k_def [symmetric] utf8_def n e k m by (simp del: of_nat_add)
qed

text \<open>The encoding read back: its first byte and the bytes that continue it.\<close>

definition utf8_lead :: "u8 \<Rightarrow> (nat \<times> nat \<times> nat) option" where
  "utf8_lead c =
     (if unat c < 128 then Some (unat c, 0, 0)
      else if unat c div 32 = 6 then Some (unat c mod 32, 1, 0x80)
      else if unat c div 16 = 14 then Some (unat c mod 16, 2, 0x800)
      else if unat c div 8 = 30 then Some (unat c mod 8, 3, 0x10000)
      else None)"

lemma cbs_get_utf8_iff_lead:
  "cbs_get_utf8 (c # s) = (Some w, r) \<longleftrightarrow>
   (case utf8_lead c of
      None \<Rightarrow> False
    | Some (v, len, lower_bound) \<Rightarrow>
        (\<exists>cs. length cs = len \<and> list_all continues cs \<and> s = cs @ r \<and> unat w = continue v cs) \<and>
        code_point (unat w) \<and> lower_bound \<le> unat w)"
proof (cases "unat c < 128")
  case True
  then have "code_point (unat c)" by (simp add: code_point_def)
  moreover have "c \<le> 0x7f" using True by (simp add: word_le_nat_alt)
  ultimately show ?thesis using True
    by (auto simp: cbs_get_utf8_def utf8_lead_def word_unat_eq_iff unat_ucast_wider)
next
  case False
  then have nle: "\<not> c \<le> 0x7f" by (simp add: word_le_nat_alt)
  have check: "pbind (utf8_loop len (ucast v) s) (\<lambda>v s. if \<not> is_valid_code_point v \<or> v < of_nat lb then (None, s) else (Some v, s)) = (Some w, r) \<longleftrightarrow>
      (\<exists>cs. length cs = len \<and> list_all continues cs \<and> s = cs @ r \<and> unat w = continue (unat v) cs) \<and>
      code_point (unat w) \<and> lb \<le> unat w"
    if "unat (v :: u8) < 2 ^ (32 - 6 * len)" "len \<le> 3" "lb < 2 ^ 32" for v len lb
  proof -
    have "unat (ucast v :: u32) < 2 ^ (32 - 6 * len)" using that(1) by (simp add: unat_ucast_wider)
    note l = utf8_loop_iff [OF this that(2), of s w r]
    have "w < of_nat lb \<longleftrightarrow> unat w < lb" using that(3) by (simp add: word_less_nat_alt unat_of_nat_small)
    then show ?thesis using l
      by (auto simp: pbind_eq_Some is_valid_code_point_iff unat_ucast_wider split: if_split_asm)
  qed
  have b: "unat (c AND 0x1f) = unat c mod 32" by (simp only: u8_and_1f)
  have lt: "unat c mod 32 < 2 ^ 26" "unat c mod 16 < 2 ^ 20" "unat c mod 8 < 2 ^ 14"
    by (rule less_trans, rule mod_less_divisor, simp, simp)+
  show ?thesis
    using nle False check [where v = "c AND 0x1f" and len = 1 and lb = "0x80"]
      check [where v = "c AND 0x0f" and len = 2 and lb = "0x800"]
      check [where v = "c AND 0x07" and len = 3 and lb = "0x10000"] lt
    unfolding cbs_get_utf8_def utf8_lead_def CBS_get_u8_simps pbind_simps bits_values lead_bytes b low_bits
    by simp
qed

lemma utf8_sound:
  assumes "utf8_lead c = Some (v, len, lb)" "length cs = len" "list_all continues cs" "lb \<le> continue v cs"
  shows "c # cs = utf8 (continue v cs)"
proof -
  have "(unat c :: nat) mod 32 < 32" "(unat c :: nat) mod 16 < 16" by simp_all
  moreover have low: "unat b mod 64 < 64" for b :: u8 by simp
  consider "unat c < 128" | "unat c div 32 = 6" "v = unat c mod 32" "len = 1" "lb = 0x80"
    | "unat c div 16 = 14" "v = unat c mod 16" "len = 2" "lb = 0x800"
    | "unat c div 8 = 30" "v = unat c mod 8" "len = 3" "lb = 0x10000"
    using assms(1) by (auto simp: utf8_lead_def split: if_split_asm)
  then show ?thesis
  proof cases
    case 1
    then have "v = unat c" "cs = []" using assms(1,2) by (simp_all add: utf8_lead_def)
    then show ?thesis using 1 by (simp add: utf8_def)
  next
    case 2
    then obtain c1 where cs: "cs = [c1]" using assms(2) by (auto simp: length_Suc_conv)
    have "utf8 (unat c mod 32 * 64 + unat c1 mod 64) = [of_nat (0xc0 + unat c mod 32), of_nat (0x80 + unat c1 mod 64)]"
      using assms(4) 2 cs by (intro utf8_build low) simp_all
    then show ?thesis using continues_low [of c1] lead_low(1) [OF 2(1)] assms(3) cs 2(2) by simp
  next
    case 3
    then obtain c1 c2 where cs: "cs = [c1, c2]" using assms(2) by (auto simp: length_Suc_conv numeral_2_eq_2)
    have "utf8 ((unat c mod 16 * 64 + unat c1 mod 64) * 64 + unat c2 mod 64) =
        [of_nat (0xe0 + unat c mod 16), of_nat (0x80 + unat c1 mod 64), of_nat (0x80 + unat c2 mod 64)]"
      using assms(4) 3 cs by (intro utf8_build low) simp_all
    then show ?thesis
      using continues_low [of c1] continues_low [of c2] lead_low(2) [OF 3(1)] assms(3) cs 3(2)
      by (simp only: continue.simps list.pred_inject simp_thms)
  next
    case 4
    then obtain c1 c2 c3 where cs: "cs = [c1, c2, c3]" using assms(2) by (auto simp: length_Suc_conv numeral_3_eq_3)
    have "utf8 (((unat c mod 8 * 64 + unat c1 mod 64) * 64 + unat c2 mod 64) * 64 + unat c3 mod 64) =
        [of_nat (0xf0 + unat c mod 8), of_nat (0x80 + unat c1 mod 64), of_nat (0x80 + unat c2 mod 64), of_nat (0x80 + unat c3 mod 64)]"
      using assms(4) 4 cs by (intro utf8_build low) simp_all
    then show ?thesis
      using continues_low [of c1] continues_low [of c2] continues_low [of c3] lead_low(3) [OF 4(1)] assms(3) cs 4(2)
      by (simp only: continue.simps list.pred_inject simp_thms)
  qed
qed

lemma utf8_complete:
  assumes "n \<le> 0x10ffff"
  obtains c cs v len lb where "utf8 n = c # cs" "utf8_lead c = Some (v, len, lb)" "length cs = len"
    "list_all continues cs" "continue v cs = n" "lb \<le> n"
proof -
  have u: "unat (of_nat (k + m) :: u8) = k + m" if "k + m < 256" for k m
    using that by (intro unat_of_nat_small)
  have cont: "continues (of_nat (0x80 + m mod 64))" "unat (of_nat (0x80 + m mod 64) :: u8) mod 64 = m mod 64" for m
  proof -
    have "(128 + m mod 64) div 64 = 2" "(128 + m mod 64) mod 64 = m mod 64"
      using div_mod_64 [of "m mod 64" "128 + m mod 64" 2] by simp_all
    moreover have "unat (of_nat (0x80 + m mod 64) :: u8) = 128 + m mod 64"
    proof (rule u)
      have "m mod 64 < 64" by simp
      then show "0x80 + m mod 64 < 256" by linarith
    qed
    ultimately show "continues (of_nat (0x80 + m mod 64))" "unat (of_nat (0x80 + m mod 64) :: u8) mod 64 = m mod 64"
      by (simp_all only: continues_def)
  qed
  have n2: "n div 4096 = n div 64 div 64" "n div 262144 = n div 64 div 64 div 64"
    by (simp_all add: div_mult2_eq [symmetric])
  have join: "n div 64 div 64 div 64 * 64 + n div 64 div 64 mod 64 = n div 64 div 64"
    "n div 64 div 64 * 64 + n div 64 mod 64 = n div 64" "n div 64 * 64 + n mod 64 = n" by simp_all
  consider "n < 0x80" | "0x80 \<le> n" "n < 0x800" | "0x800 \<le> n" "n < 0x10000" | "0x10000 \<le> n" by linarith
  then show thesis
  proof cases
    case 1
    then show thesis by (intro that [of "of_nat n" "[]" n 0 0]) (simp_all add: utf8_def utf8_lead_def unat_of_nat)
  next
    case 2
    define x where "x = n div 64"
    have x: "x < 32" using 2 by (simp add: x_def less_mult_imp_div_less)
    have c: "unat (of_nat (0xc0 + x) :: u8) = 192 + x" using x by (intro u) simp
    have "(192 + x) div 32 = 6" "(192 + x) mod 32 = x" using div_mod_join [of x 32 "192 + x" 6] x by simp_all
    then show thesis using 2 c cont [of n] join
      by (intro that [of "of_nat (0xc0 + x)" "[of_nat (0x80 + n mod 64)]" x 1 "0x80"])
        (simp_all add: utf8_def utf8_lead_def x_def del: of_nat_add)
  next
    case 3
    define x where "x = n div 64 div 64"
    have "n div 4096 < 16" using 3 by (intro less_mult_imp_div_less) simp
    then have x: "x < 16" by (simp add: x_def n2)
    have c: "unat (of_nat (0xe0 + x) :: u8) = 224 + x" using x by (intro u) simp
    have "(224 + x) div 16 = 14" "(224 + x) mod 16 = x" "(224 + x) div 32 = 7"
      using div_mod_join [of x 16 "224 + x" 14] div_mod_join [of x 32 "224 + x" 7] x by simp_all
    then have l: "utf8_lead (of_nat (0xe0 + x)) = Some (x, 2, 0x800)" by (simp only: utf8_lead_def c) simp
    have e: "utf8 n = of_nat (0xe0 + x) # [of_nat (0x80 + n div 64 mod 64), of_nat (0x80 + n mod 64)]"
      using 3 by (simp only: utf8_def n2 x_def [symmetric]) simp
    have k: "continue x [of_nat (0x80 + n div 64 mod 64), of_nat (0x80 + n mod 64)] = n"
      by (simp only: continue.simps cont x_def join)
    show thesis by (rule that [OF e l _ _ k 3(1)]) (simp_all add: cont(1) del: of_nat_add)
  next
    case 4
    define x where "x = n div 64 div 64 div 64"
    have "n div 262144 < 8" using assms by (intro less_mult_imp_div_less) simp
    then have x: "x < 8" by (simp add: x_def n2)
    have c: "unat (of_nat (0xf0 + x) :: u8) = 240 + x" using x by (intro u) simp
    have "(240 + x) div 8 = 30" "(240 + x) mod 8 = x" "(240 + x) div 32 = 7" "(240 + x) div 16 = 15"
      using div_mod_join [of x 8 "240 + x" 30] div_mod_join [of "16 + x" 32 "240 + x" 7]
        div_mod_join [of x 16 "240 + x" 15] x by simp_all
    then have l: "utf8_lead (of_nat (0xf0 + x)) = Some (x, 3, 0x10000)" by (simp only: utf8_lead_def c) simp
    have e: "utf8 n = of_nat (0xf0 + x) #
        [of_nat (0x80 + n div 64 div 64 mod 64), of_nat (0x80 + n div 64 mod 64), of_nat (0x80 + n mod 64)]"
      using 4 by (simp only: utf8_def n2 x_def [symmetric]) simp
    have k: "continue x
        [of_nat (0x80 + n div 64 div 64 mod 64), of_nat (0x80 + n div 64 mod 64), of_nat (0x80 + n mod 64)] = n"
      by (simp only: continue.simps cont x_def join)
    show thesis by (rule that [OF e l _ _ k 4]) (simp_all add: cont(1) del: of_nat_add)
  qed
qed

lemma code_point_bound: "code_point n \<Longrightarrow> n \<le> 0x10ffff"
  by (simp add: code_point_def)

theorem cbs_get_utf8_iff:
  "cbs_get_utf8 s = (Some w, r) \<longleftrightarrow> code_point (unat w) \<and> s = utf8 (unat w) @ r"
proof
  assume "cbs_get_utf8 s = (Some w, r)"
  moreover from this obtain c s' where s: "s = c # s'"
    by (cases s) (auto simp: cbs_get_utf8_def CBS_get_u8_def cbs_get_def CBS_len_def)
  ultimately obtain v len lb cs where l: "utf8_lead c = Some (v, len, lb)" "length cs = len"
    "list_all continues cs" "s' = cs @ r" "unat w = continue v cs" "code_point (unat w)" "lb \<le> unat w"
    unfolding s cbs_get_utf8_iff_lead by (auto split: option.splits)
  then have "c # cs = utf8 (unat w)" using utf8_sound by metis
  then show "code_point (unat w) \<and> s = utf8 (unat w) @ r" using l s by (metis append_Cons)
next
  assume *: "code_point (unat w) \<and> s = utf8 (unat w) @ r"
  from * have "unat w \<le> 0x10ffff" by (simp add: code_point_bound)
  then obtain c cs v len lb where "utf8 (unat w) = c # cs" "utf8_lead c = Some (v, len, lb)" "length cs = len"
    "list_all continues cs" "continue v cs = unat w" "lb \<le> unat w" by (rule utf8_complete)
  then show "cbs_get_utf8 s = (Some w, r)" using * by (auto simp: cbs_get_utf8_iff_lead)
qed

section \<open>The readers as codecs\<close>

lemma utf8_not_Nil: "utf8 n \<noteq> []"
  by (simp add: utf8_def)

interpretation utf8: codec "\<lambda>w :: u32. utf8 (unat w)" cbs_get_utf8 "\<lambda>w. code_point (unat w)"
  by unfold_locales (simp_all add: cbs_get_utf8_iff utf8_not_Nil)

lemma get_u_cast_iff:
  fixes w :: "'a::len word"
  assumes n: "n \<le> 8" "256 ^ n = (2 :: nat) ^ LENGTH('a)"
  shows "pbind (cbs_get_u n s) (\<lambda>v s. (Some (ucast v :: 'a word), s)) = (Some w, r) \<longleftrightarrow> s = be_bytes n (unat w) @ r"
proof
  assume "pbind (cbs_get_u n s) (\<lambda>v s. (Some (ucast v :: 'a word), s)) = (Some w, r)"
  then obtain v where v: "cbs_get_u n s = (Some v, r)" "ucast v = w" by (auto simp: pbind_eq_Some)
  then obtain d where d: "s = d @ r" "length d = n" "unat v = be_val d" using cbs_get_u_eq_Some [OF n(1)] by blast
  have "unat w = unat v mod 2 ^ LENGTH('a)" unfolding v(2) [symmetric] by (rule unat_ucast)
  also have "\<dots> = be_val d" using be_val_lt [of d] d(2,3) n(2) by simp
  finally show "s = be_bytes n (unat w) @ r" using d be_bytes_be_val [of d] by simp
next
  assume s: "s = be_bytes n (unat w) @ r"
  have w: "unat w < 256 ^ n" unfolding n(2) by (rule unsigned_less)
  also have "\<dots> \<le> 256 ^ 8" using n(1) by (intro power_increasing) simp_all
  finally have "unat (of_nat (unat w) :: u64) = unat w" by (intro unat_of_nat_small) simp
  then have "ucast (of_nat (unat w) :: u64) = w"
    using w n(2) by (simp only: word_unat_eq_iff unat_ucast) simp
  moreover have "cbs_get_u n s = (Some (of_nat (unat w)), r)"
    using cbs_get_u_append [OF length_be_bytes n(1), of "unat w" r] w s by (simp add: be_val_be_bytes)
  ultimately show "pbind (cbs_get_u n s) (\<lambda>v s. (Some (ucast v :: 'a word), s)) = (Some w, r)" by simp
qed

lemma CBS_get_u16_iff: "CBS_get_u16 s = (Some w, r) \<longleftrightarrow> s = be_bytes 2 (unat w) @ r"
  unfolding CBS_get_u16_def by (rule get_u_cast_iff) simp_all

lemma CBS_get_u32_iff: "CBS_get_u32 s = (Some w, r) \<longleftrightarrow> s = be_bytes 4 (unat w) @ r"
  unfolding CBS_get_u32_def by (rule get_u_cast_iff) simp_all

lemma unat_ucast_u16: "unat (w :: u32) < 0x10000 \<Longrightarrow> unat (ucast w :: u16) = unat w"
  by (simp add: word_nat)

lemma ucast_u16_iff: "ucast (c :: u16) = (w :: u32) \<longleftrightarrow> unat w < 0x10000 \<and> c = ucast w"
proof
  assume "ucast c = w"
  then have "unat w = unat c" by (auto simp: unat_ucast_wider)
  then show "unat w < 0x10000 \<and> c = ucast w"
    using unsigned_less [of c, where 'a = nat] by (simp add: word_unat_eq_iff word_nat)
next
  assume "unat w < 0x10000 \<and> c = ucast w"
  then show "ucast c = w" by (simp add: word_unat_eq_iff word_nat)
qed

interpretation ucs2: codec "\<lambda>w :: u32. be_bytes 2 (unat w)" cbs_get_ucs2_be "\<lambda>w. code_point (unat w) \<and> unat w < 0x10000"
proof
  fix s r and w :: u32
  have "cbs_get_ucs2_be s = (Some w, r) \<longleftrightarrow>
      (\<exists>c. CBS_get_u16 s = (Some c, r) \<and> is_valid_code_point w \<and> ucast c = w)"
    by (auto simp: cbs_get_ucs2_be_def pbind_eq_Some split: if_split_asm)
  also have "\<dots> \<longleftrightarrow> (\<exists>c :: u16. s = be_bytes 2 (unat c) @ r \<and> is_valid_code_point w \<and> unat w < 0x10000 \<and> c = ucast w)"
    unfolding CBS_get_u16_iff ucast_u16_iff by blast
  also have "\<dots> \<longleftrightarrow> (code_point (unat w) \<and> unat w < 0x10000) \<and> s = be_bytes 2 (unat w) @ r"
    using unat_ucast_u16 [of w] by (auto simp: is_valid_code_point_iff)
  finally show "cbs_get_ucs2_be s = (Some w, r) \<longleftrightarrow>
      (code_point (unat w) \<and> unat w < 0x10000) \<and> s = be_bytes 2 (unat w) @ r" .
  show "be_bytes 2 (unat w) \<noteq> []" using length_be_bytes [of 2 "unat w"] by force
qed

interpretation utf32: codec "\<lambda>w :: u32. be_bytes 4 (unat w)" cbs_get_utf32_be "\<lambda>w. code_point (unat w)"
proof
  fix s r and w :: u32
  show "cbs_get_utf32_be s = (Some w, r) \<longleftrightarrow> code_point (unat w) \<and> s = be_bytes 4 (unat w) @ r"
    by (auto simp: cbs_get_utf32_be_def pbind_eq_Some CBS_get_u32_iff is_valid_code_point_iff split: if_split_asm)
  show "be_bytes 4 (unat w) \<noteq> []" using length_be_bytes [of 4 "unat w"] by force
qed

interpretation latin1: codec "\<lambda>w :: u32. [ucast w]" cbs_get_latin1 "\<lambda>w. unat w < 0x100"
proof
  fix s r and w :: u32
  have "ucast c = w \<longleftrightarrow> unat w < 0x100 \<and> c = ucast w" for c :: u8
  proof
    assume "ucast c = w"
    then have "unat w = unat c" by (auto simp: unat_ucast_wider)
    then show "unat w < 0x100 \<and> c = ucast w" by (simp add: word_unat_eq_iff word_nat)
  next
    assume "unat w < 0x100 \<and> c = ucast w"
    then show "ucast c = w" by (simp add: word_unat_eq_iff word_nat)
  qed
  then show "cbs_get_latin1 s = (Some w, r) \<longleftrightarrow> unat w < 0x100 \<and> s = [ucast w] @ r"
    by (auto simp: cbs_get_latin1_def pbind_eq_Some CBS_get_u8_eq_Some)
qed simp

section \<open>The writers\<close>

lemma low_byte:
  "ucast (ucast (TOP_BITS 1) OR (x AND ucast (BOTTOM_BITS 6)) :: u32) = (of_nat (0x80 + unat x mod 64) :: u8)"
proof -
  have x: "unat (x AND 0x3f) = unat x mod 64"
    using unat_and_bits [of "0x3f :: u32" 0 6 x] by (simp add: mask_eq_exp_minus_1)
  then have "unat (0x80 OR (x AND 0x3f)) = 0x80 + unat x mod 64"
    by (subst unat_or_add [of _ 6]) simp_all
  moreover have "ucast (TOP_BITS 1) OR (x AND ucast (BOTTOM_BITS 6)) = (0x80 OR (x AND 0x3f) :: u32)"
    by (simp only: bits_values) simp
  ultimately show ?thesis by (simp only: word_unat_eq_iff unat_ucast unat_of_nat)
qed

lemma top_byte:
  assumes "unat (x :: u32) < 2 ^ k" "2 ^ k dvd unat t" "unat t + 2 ^ k \<le> 256"
  shows "ucast (ucast (t :: u8) OR x) = (of_nat (unat t + unat x) :: u8)"
proof -
  have "unat (ucast t OR x) = unat t + unat x"
    using assms(1,2) by (subst unat_or_add [of _ k]) (simp_all add: unat_ucast_wider)
  then show ?thesis by (simp add: word_unat_eq_iff unat_ucast unat_of_nat del: of_nat_add)
qed

lemma put_all_two: "put_all put (x # y # bs) = (\<lambda>s. pbind (put x s) (\<lambda>_. put_all put (y # bs)))"
  by (rule ext) simp

lemma cbb_add_utf8_eq:
  "cbb_add_utf8 a h u c =
     (if code_point (unat u) then put_all (CBB_add_u8 a h) (utf8 (unat u)) c else (None, c))"
proof (cases "code_point (unat u)")
  case True
  define n where "n = unat u"
  have n: "n \<le> 0x10ffff" using True by (simp add: n_def code_point_bound)
  have v: "is_valid_code_point u" using True by (simp add: is_valid_code_point_iff)
  have cmp: "u \<le> 0x7f \<longleftrightarrow> n < 0x80" "u \<le> 0x7ff \<longleftrightarrow> n < 0x800" "u \<le> 0xffff \<longleftrightarrow> n < 0x10000" "u \<le> 0x10ffff"
    using n by (auto simp: word_le_nat_alt n_def)
  have d: "unat (drop_bit 6 u) = n div 64" "unat (drop_bit 12 u) = n div 4096" "unat (drop_bit 18 u) = n div 262144"
    by (simp_all add: unat_drop_bit n_def)
  have t: "unat (TOP_BITS 2) = 0xc0" "unat (TOP_BITS 3) = 0xe0" "unat (TOP_BITS 4) = 0xf0"
    by (simp_all only: bits_values) simp_all
  have one: "ucast u = (of_nat n :: u8)" by (simp add: n_def)
  have t2: "n < 0x800 \<Longrightarrow> ucast (ucast (TOP_BITS 2) OR drop_bit 6 u) = (of_nat (0xc0 + n div 64) :: u8)"
    using top_byte [of "drop_bit 6 u" 5 "TOP_BITS 2"] by (simp add: t d less_mult_imp_div_less)
  have t3: "n < 0x10000 \<Longrightarrow> ucast (ucast (TOP_BITS 3) OR drop_bit 12 u) = (of_nat (0xe0 + n div 4096) :: u8)"
    using top_byte [of "drop_bit 12 u" 4 "TOP_BITS 3"] by (simp add: t d less_mult_imp_div_less)
  have t4: "ucast (ucast (TOP_BITS 4) OR drop_bit 18 u) = (of_nat (0xf0 + n div 262144) :: u8)"
    using top_byte [of "drop_bit 18 u" 3 "TOP_BITS 4"] n by (simp add: t d less_mult_imp_div_less)
  have cp: "(is_valid_code_point u) = True" "code_point n = True" using v True by (simp_all add: n_def)
  note rules = cbb_add_utf8_def Let_def low_byte d cmp n_def [symmetric] cp one
  consider "n < 0x80" | "0x80 \<le> n" "n < 0x800" | "0x800 \<le> n" "n < 0x10000" | "0x10000 \<le> n" by linarith
  then show ?thesis
  proof cases
    case 1
    then show ?thesis unfolding rules by (simp add: utf8_def)
  next
    case 2
    then show ?thesis unfolding rules by (simp add: utf8_def t2 put_all_two del: of_nat_add put_all.simps)
  next
    case 3
    then show ?thesis unfolding rules by (simp add: utf8_def t3 put_all_two del: of_nat_add put_all.simps)
  next
    case 4
    then show ?thesis unfolding rules by (simp add: utf8_def t4 cmp(4) put_all_two del: of_nat_add put_all.simps)
  qed
qed (simp add: cbb_add_utf8_def is_valid_code_point_iff)

lemma cbb_add_utf8_appends: "code_point (unat u) \<Longrightarrow> appends a h (utf8 (unat u)) (cbb_add_utf8 a h u)"
  using put_all_appends [of a h "utf8 (unat u)"] by (simp add: appends_def cbb_add_utf8_eq)

lemma cbb_get_utf8_len_eq: "cbb_get_utf8_len = (\<lambda>u. length (utf8 (unat u)))"
  by (auto simp: cbb_get_utf8_len_def utf8_def word_le_nat_alt fun_eq_iff)

section \<open>Properties\<close>

text \<open>Writing a text, one code point at a time.\<close>

fun add_utf8_text :: "allocator \<Rightarrow> nat \<Rightarrow> u32 list \<Rightarrow> cbb \<Rightarrow> unit option \<times> cbb" where
  "add_utf8_text a h [] c = (Some (), c)"
| "add_utf8_text a h (u # us) c = pbind (cbb_add_utf8 a h u c) (\<lambda>_ c. add_utf8_text a h us c)"

lemma add_utf8_text_appends:
  "list_all (\<lambda>u. code_point (unat u)) us \<Longrightarrow>
   appends a h (concat (map (\<lambda>u. utf8 (unat u)) us)) (add_utf8_text a h us)"
proof (induction us)
  case Nil
  show ?case by (simp add: appends_def appended_def)
next
  case (Cons u us)
  then have "appends a h (utf8 (unat u) @ concat (map (\<lambda>u. utf8 (unat u)) us))
      (\<lambda>c. pbind (cbb_add_utf8 a h u c) (\<lambda>_. add_utf8_text a h us))"
    by (intro appends_bind cbb_add_utf8_appends) simp_all
  then show ?case by (simp add: appends_def)
qed

lemma length_utf8: "length (utf8 n) \<le> 4"
  by (simp add: utf8_def)

text \<open>C12: \<open>cbs_get_utf8\<close> accepts exactly the shortest UTF-8 forms of the code points that Unicode
  assigns to characters: no overlong form, no surrogate, no non-character, nothing above 0x10ffff
  and no truncated or stray continuation byte.\<close>

theorem cbs_get_utf8_exact:
  "cbs_get_utf8 s = (Some w, r) \<longleftrightarrow> code_point (unat w) \<and> s = utf8 (unat w) @ r"
  by (rule cbs_get_utf8_iff)

text \<open>C13: A text written with \<open>cbb_add_utf8\<close> is read back by a loop over \<open>cbs_get_utf8\<close>, and
  \<open>cbb_get_utf8_len\<close> announces the number of bytes of each of its code points.\<close>

theorem utf8_text_roundtrip:
  assumes "plentiful a" "cap < 2 ^ 63" "list_all (\<lambda>u. code_point (unat u)) us" "length us < 2 ^ 60"
  shows "\<exists>c1 c2 c3 out. CBB_init a h cap = (Some (), c1) \<and> add_utf8_text a h us c1 = (Some (), c2) \<and>
    CBB_finish a h True True c2 = (Some out, c3) \<and>
    decode_all cbs_get_utf8 (length out) out = Some us \<and> length out = sum_list (map cbb_get_utf8_len us)"
proof -
  define out where "out = concat (map (\<lambda>u. utf8 (unat u)) us)"
  have "length out \<le> 4 * length us"
    unfolding out_def
  proof (induction us)
    case (Cons u us)
    then show ?case using length_utf8 [of "unat u"] by simp
  qed simp
  then have len: "length out < 2 ^ 62" using assms(4) by simp
  have "decode_all cbs_get_utf8 (length out) out = Some us"
    unfolding utf8.decode_all_iff [OF le_refl] using assms(3) by (simp add: out_def)
  moreover have "length out = sum_list (map cbb_get_utf8_len us)"
    by (simp add: out_def length_concat comp_def cbb_get_utf8_len_eq)
  ultimately show ?thesis
    using session [OF assms(1,2) len add_utf8_text_appends [OF assms(3), folded out_def], of h] by blast
qed

theorem utf8_text_roundtrip_witness:
  "\<exists>c1 c2 c3 out. CBB_init plenty 0 3 = (Some (), c1) \<and> add_utf8_text plenty 0 [0x41, 0x20ac, 0x1f600] c1 = (Some (), c2) \<and>
    CBB_finish plenty 0 True True c2 = (Some out, c3) \<and>
    decode_all cbs_get_utf8 (length out) out = Some [0x41, 0x20ac, 0x1f600] \<and>
    length out = sum_list (map cbb_get_utf8_len [0x41, 0x20ac, 0x1f600])"
  by (rule utf8_text_roundtrip [OF plentiful_plenty]) (simp_all add: code_point_def)

end
