(* ===== verification/Cbb_Errors.thy ===== *)
theory Cbb_Errors
  imports Oid Set_Of Unicode
begin

text \<open>
  Every call that writes to a builder that is in use, as one type of operations, and what an error the
  builder has recorded means for any sequence of them. \<open>CBB_init\<close>, \<open>CBB_zero\<close> and \<open>CBB_cleanup\<close>, which
  begin and end the life of a builder, are not among them.
\<close>

section \<open>The calls on a builder\<close>

datatype cbb_call =
  Flush nat
| Finish nat bool bool
| Finish_i2d nat "(bytes \<times> nat) option option"
| Length_prefixed nat nat nat
| Add_asn1 nat nat u32
| Add_bytes nat bytes
| Add_space nat nat
| Add_zeros nat nat
| Reserve nat nat
| Did_write nat nat
| Discard_child nat
| Add_u8 nat u8
| Add_u16 nat u16
| Add_u16le nat u16
| Add_u24 nat u32
| Add_u32 nat u32
| Add_u32le nat u32
| Add_u64 nat u64
| Add_u64le nat u64
| Asn1_uint64 nat u64
| Asn1_int64 nat u64
| Asn1_octet_string nat bytes
| Asn1_bool nat int
| Oid_from_text nat bytes
| Flush_set_of nat
| Add_latin1 nat u32
| Add_ucs2_be nat u32
| Add_utf8 nat u32
| Add_utf32_be nat u32

text \<open>Whether a call returned 1, with the builder after it; \<open>CBB_discard_child\<close> returns nothing.\<close>

definition returns_1 :: "'r option \<times> cbb \<Rightarrow> bool \<times> cbb" where
  "returns_1 p = (fst p \<noteq> None, snd p)"

fun call_cbb ::
  "((cbs \<Rightarrow> cbs \<Rightarrow> int) \<Rightarrow> cbs list \<Rightarrow> cbs list) \<Rightarrow> allocator \<Rightarrow> cbb_call \<Rightarrow> cbb \<Rightarrow> bool \<times> cbb" where
  "call_cbb qsort a (Flush h) c = returns_1 (CBB_flush a h c)"
| "call_cbb qsort a (Finish h d l) c = returns_1 (CBB_finish a h d l c)"
| "call_cbb qsort a (Finish_i2d h outp) c = (case CBB_finish_i2d a h c outp of (r, _, c) \<Rightarrow> (r \<ge> 0, c))"
| "call_cbb qsort a (Length_prefixed h child n) c = returns_1 (cbb_add_length_prefixed a h child n c)"
| "call_cbb qsort a (Add_asn1 h child tag) c = returns_1 (CBB_add_asn1 a h child tag c)"
| "call_cbb qsort a (Add_bytes h data) c = returns_1 (CBB_add_bytes a h data c)"
| "call_cbb qsort a (Add_space h n) c = returns_1 (CBB_add_space a h n c)"
| "call_cbb qsort a (Add_zeros h n) c = returns_1 (CBB_add_zeros a h n c)"
| "call_cbb qsort a (Reserve h n) c = returns_1 (CBB_reserve a h n c)"
| "call_cbb qsort a (Did_write h n) c = returns_1 (CBB_did_write h n c)"
| "call_cbb qsort a (Discard_child h) c = (True, CBB_discard_child h c)"
| "call_cbb qsort a (Add_u8 h x) c = returns_1 (CBB_add_u8 a h x c)"
| "call_cbb qsort a (Add_u16 h x) c = returns_1 (CBB_add_u16 a h x c)"
| "call_cbb qsort a (Add_u16le h x) c = returns_1 (CBB_add_u16le a h x c)"
| "call_cbb qsort a (Add_u24 h y) c = returns_1 (CBB_add_u24 a h y c)"
| "call_cbb qsort a (Add_u32 h y) c = returns_1 (CBB_add_u32 a h y c)"
| "call_cbb qsort a (Add_u32le h y) c = returns_1 (CBB_add_u32le a h y c)"
| "call_cbb qsort a (Add_u64 h z) c = returns_1 (CBB_add_u64 a h z c)"
| "call_cbb qsort a (Add_u64le h z) c = returns_1 (CBB_add_u64le a h z c)"
| "call_cbb qsort a (Asn1_uint64 h z) c = returns_1 (CBB_add_asn1_uint64 a h z c)"
| "call_cbb qsort a (Asn1_int64 h z) c = returns_1 (CBB_add_asn1_int64 a h z c)"
| "call_cbb qsort a (Asn1_octet_string h data) c = returns_1 (CBB_add_asn1_octet_string a h data c)"
| "call_cbb qsort a (Asn1_bool h i) c = returns_1 (CBB_add_asn1_bool a h i c)"
| "call_cbb qsort a (Oid_from_text h data) c = returns_1 (CBB_add_asn1_oid_from_text a h data c)"
| "call_cbb qsort a (Flush_set_of h) c = returns_1 (CBB_flush_asn1_set_of qsort a h c)"
| "call_cbb qsort a (Add_latin1 h u) c = returns_1 (cbb_add_latin1 a h u c)"
| "call_cbb qsort a (Add_ucs2_be h u) c = returns_1 (cbb_add_ucs2_be a h u c)"
| "call_cbb qsort a (Add_utf8 h u) c = returns_1 (cbb_add_utf8 a h u c)"
| "call_cbb qsort a (Add_utf32_be h u) c = returns_1 (cbb_add_utf32_be a h u c)"

text \<open>A sequence of calls, each with the allocator of its moment; the results in order.\<close>

fun call_all ::
  "((cbs \<Rightarrow> cbs \<Rightarrow> int) \<Rightarrow> cbs list \<Rightarrow> cbs list) \<Rightarrow> (allocator \<times> cbb_call) list \<Rightarrow> cbb \<Rightarrow> bool list \<times> cbb" where
  "call_all qsort [] c = ([], c)"
| "call_all qsort ((a, op) # ops) c =
     (let (r, c) = call_cbb qsort a op c; (rs, c) = call_all qsort ops c in (r # rs, c))"

text \<open>The calls that look at the error flag, and the one that also gives the builder up.\<close>

fun looks :: "cbb_call \<Rightarrow> bool" where
  "looks (Did_write h n) = False"
| "looks (Discard_child h) = False"
| "looks _ = True"

fun gives_up :: "cbb_call \<Rightarrow> bool" where
  "gives_up (Finish_i2d h outp) = True"
| "gives_up _ = False"

section \<open>A recorded error\<close>

definition in_error :: "cbb \<Rightarrow> bool" where
  "in_error c \<longleftrightarrow> (\<exists>b. cbb_base c = Some b \<and> cb_error b)"

lemma in_error_failed: "in_error c \<Longrightarrow> failed c"
  by (auto simp: in_error_def failed_def)

lemma failed_add_u:
  assumes "failed c"
  shows "CBB_add_u8 a h x c = (None, c)" "CBB_add_u16 a h y c = (None, c)" "CBB_add_u16le a h y c = (None, c)"
    "CBB_add_u24 a h z c = (None, c)" "CBB_add_u32 a h z c = (None, c)" "CBB_add_u32le a h z c = (None, c)"
    "CBB_add_u64 a h w c = (None, c)" "CBB_add_u64le a h w c = (None, c)"
  by (simp_all add: failed_ops(5) [OF assms] CBB_add_u8_def CBB_add_u16_def CBB_add_u16le_def CBB_add_u24_def
      CBB_add_u32_def CBB_add_u32le_def CBB_add_u64_def CBB_add_u64le_def)

lemma call_kinds:
  obtains (looks) "looks op" "\<not> gives_up op" | (did_write) h n where "op = Did_write h n"
    | (discard) h where "op = Discard_child h" | (i2d) h outp where "op = Finish_i2d h outp"
  by (cases op) simp_all

lemma failed_call:
  assumes "failed c" "looks op" "\<not> gives_up op"
  shows "call_cbb qsort a op c = (False, c)"
  using assms(2,3)
  by (cases op) (simp_all add: returns_1_def failed_ops [OF assms(1)] failed_add_u [OF assms(1)]
      CBB_flush_failed [OF assms(1)] CBB_add_asn1_oid_from_text_def CBB_flush_asn1_set_of_def
      cbb_add_latin1_def cbb_add_ucs2_be_def cbb_add_utf8_def cbb_add_utf32_be_def Let_def)

lemma failed_finish_i2d: "failed c \<Longrightarrow> CBB_finish_i2d a h c outp = (-1, No_out, CBB_cleanup c)"
  by (simp add: CBB_finish_i2d_def failed_ops)

lemma failed_result: "failed c \<Longrightarrow> looks op \<Longrightarrow> \<not> fst (call_cbb qsort a op c)"
  by (cases op rule: call_kinds) (simp_all add: failed_call failed_finish_i2d)

lemma on_base_in_error:
  "in_error c \<Longrightarrow> (\<And>b. cb_error b \<Longrightarrow> cb_error (snd (f b))) \<Longrightarrow> in_error (snd (on_base f c))"
  by (auto simp: in_error_def on_base_def split: option.splits prod.splits) (metis snd_conv)

lemma did_write_in_error: "in_error c \<Longrightarrow> in_error (snd (CBB_did_write h n c))"
  unfolding CBB_did_write_def by (rule on_base_in_error) (simp_all add: Let_def)

lemma discard_child_in_error: "in_error c \<Longrightarrow> in_error (CBB_discard_child h c)"
  by (auto simp: in_error_def CBB_discard_child_def split: list.split)

lemma in_error_call: "in_error c \<Longrightarrow> \<not> gives_up op \<Longrightarrow> in_error (snd (call_cbb qsort a op c))"
  by (cases op rule: call_kinds)
    (simp_all add: failed_call in_error_failed returns_1_def did_write_in_error discard_child_in_error)

lemma failed_did_write: "failed c \<Longrightarrow> failed (snd (CBB_did_write h n c))"
  by (auto simp: failed_def CBB_did_write_def on_base_def Let_def split: option.splits)

lemma failed_discard_child: "failed c \<Longrightarrow> failed (CBB_discard_child h c)"
  by (cases "cbb_base c") (auto simp: failed_def CBB_discard_child_def split: list.split)

lemma failed_cleanup: "failed (CBB_cleanup c)"
  by (simp add: failed_def CBB_cleanup_def)

lemma failed_stays: "failed c \<Longrightarrow> failed (snd (call_cbb qsort a op c))"
  by (cases op rule: call_kinds)
    (simp_all add: failed_call returns_1_def failed_did_write failed_discard_child failed_finish_i2d failed_cleanup)

lemma call_all_failed:
  "failed c \<Longrightarrow> list_all2 (\<lambda>(a, op) r. looks op \<longrightarrow> \<not> r) ops (fst (call_all qsort ops c))"
proof (induction ops arbitrary: c)
  case (Cons p ops)
  obtain a op where p: "p = (a, op)" by (cases p)
  obtain r c1 where c1: "call_cbb qsort a op c = (r, c1)" by (cases "call_cbb qsort a op c")
  have "failed c1" "looks op \<longrightarrow> \<not> r"
    using failed_stays [OF Cons.prems, of qsort a op] failed_result [OF Cons.prems, of op qsort a] c1 by auto
  with Cons.IH [of c1] show ?case by (simp add: p c1 Let_def case_prod_beta)
qed simp

lemma call_all_in_error:
  "in_error c \<Longrightarrow> \<forall>(a, op) \<in> set ops. \<not> gives_up op \<Longrightarrow> in_error (snd (call_all qsort ops c))"
proof (induction ops arbitrary: c)
  case (Cons p ops)
  obtain a op where p: "p = (a, op)" by (cases p)
  obtain r c1 where c1: "call_cbb qsort a op c = (r, c1)" by (cases "call_cbb qsort a op c")
  have "in_error c1" using in_error_call [OF Cons.prems(1), of op qsort a] Cons.prems(2) by (simp add: p c1)
  with Cons.IH [of c1] Cons.prems(2) show ?case by (simp add: p c1 Let_def case_prod_beta)
qed simp

section \<open>Property\<close>

text \<open>C9: Once a builder has recorded an error, every call that writes to any \<open>CBB\<close> of it fails, at any
  later point of any sequence of calls and with any allocator; only \<open>CBB_did_write\<close> and
  \<open>CBB_discard_child\<close>, which do not look at the flag, can still change the length. A single call other
  than these two and \<open>CBB_finish_i2d\<close>, which gives the builder up, leaves it exactly as it is, and the
  error stays recorded until the builder is given up.\<close>

theorem CBB_error_is_final:
  assumes "cbb_base c = Some b" "cb_error b"
  shows "list_all2 (\<lambda>(a, op) r. looks op \<longrightarrow> \<not> r) ops (fst (call_all qsort ops c)) \<and>
    (looks op \<and> \<not> gives_up op \<longrightarrow> call_cbb qsort a op c = (False, c)) \<and>
    ((\<forall>(a, op) \<in> set ops. \<not> gives_up op) \<longrightarrow>
      (\<exists>b'. cbb_base (snd (call_all qsort ops c)) = Some b' \<and> cb_error b'))"
proof -
  have "in_error c" using assms by (simp add: in_error_def)
  then show ?thesis
    using call_all_failed in_error_failed failed_call call_all_in_error unfolding in_error_def [symmetric] by blast
qed

definition demo_failed :: cbb where
  "demo_failed = demo_cbb\<lparr>cbb_base := map_option cbb_buffer_err (cbb_base demo_cbb)\<rparr>"

definition demo_calls :: "(allocator \<times> cbb_call) list" where
  "demo_calls = [(plenty, Add_u8 2 1), (plenty, Did_write 2 0), (plenty, Discard_child 1),
     (plenty, Asn1_int64 0 5), (plenty, Finish 0 True True)]"

theorem CBB_error_is_final_witness:
  "list_all2 (\<lambda>(a, op) r. looks op \<longrightarrow> \<not> r) demo_calls (fst (call_all (\<lambda>_ xs. xs) demo_calls demo_failed)) \<and>
    call_cbb (\<lambda>_ xs. xs) plenty (Add_bytes 0 [1]) demo_failed = (False, demo_failed) \<and>
    (\<exists>b. cbb_base (snd (call_all (\<lambda>_ xs. xs) demo_calls demo_failed)) = Some b \<and> cb_error b)"
proof -
  have b: "cbb_base demo_failed = Some (cbb_buffer_err (the (cbb_base demo_cbb)))"
    by (simp add: demo_failed_def demo_cbb_def)
  have "cb_error (cbb_buffer_err (the (cbb_base demo_cbb)))" by (simp add: cbb_buffer_err_def)
  moreover have "\<forall>(a, op) \<in> set demo_calls. \<not> gives_up op" by (simp add: demo_calls_def)
  moreover have "looks (Add_bytes 0 [1]) \<and> \<not> gives_up (Add_bytes 0 [1])" by simp
  ultimately show ?thesis using CBB_error_is_final [OF b] by blast
qed

end
