(* ===== verification/Ber.thy ===== *)
theory Ber
  imports Der_Tree
begin

text \<open>
  Converting BER to DER (\<open>crypto/bytestring/ber.c\<close>): the search for indefinite lengths and
  constructed strings, and the conversion that rewrites them. The specification is a tree of BER
  elements with the length form each of them uses, its bytes, and the DER tree it stands for.
\<close>

section \<open>The code\<close>

definition kMaxDepth :: nat where "kMaxDepth = 2048"

definition is_string_type :: "u32 \<Rightarrow> bool" where
  "is_string_type tag =
     ((tag AND NOT CBS_ASN1_CONSTRUCTED) \<in> set [4, 0xc, 0x12, 0x13, 0x14, 0x15, 0x16, 0x19, 0x1a, 0x1b, 0x1c, 0x1e])"

lemma element_split:
  assumes "cbs_get_any_asn1_element ber s = (Some (out, tag, hl, f), r)"
  shows "s = out @ r \<and> 2 \<le> hl \<and> hl \<le> length out"
proof -
  obtain tag' lb h where p: "parse_asn1_tag s = (Some tag', lb # h)"
    using assms cbs_get_any_asn1_element_fail [of s ber] by auto
  then have s: "s = der_tag tag' @ lb # h" by (simp add: parse_asn1_tag_iff)
  moreover have "1 \<le> length (der_tag tag')" by (simp add: der_tag_def Let_def)
  ultimately have hl: "2 \<le> length s - length h" "length s - length h \<le> length s" by simp_all
  have get: "s = out @ r \<and> 2 \<le> hl \<and> hl \<le> length out"
    if "pbind (CBS_get_bytes (n + k) s) (\<lambda>out cbs. (Some (out, tag', k, g), cbs)) = (Some (out, tag, hl, f), r)"
      "length s - length h \<le> k" for n k g
    using that hl by (auto simp: pbind_eq_Some CBS_get_bytes_eq_Some)
  note a = assms [unfolded cbs_get_any_asn1_element_unfold [OF p] Let_def]
  show ?thesis
    using a get [of "unat lb" "length s - length h"] get [of 0 "length s - length h"] get
    by (auto split: if_split_asm)
qed

text \<open>
  The loop of \<open>cbs_find_ber\<close>; \<open>ber_found\<close> is \<open>*ber_found\<close>, which every call of
  \<open>CBS_get_any_ber_asn1_element\<close> sets and which the loop leaves behind when the input ends.
\<close>

function find_ber_loop :: "nat \<Rightarrow> bool \<Rightarrow> cbs \<Rightarrow> bool option" where
  "find_ber_loop depth ber_found ins =
     (if depth > kMaxDepth then None
      else if CBS_len ins > 0 then
        (case CBS_get_any_ber_asn1_element ins of
           (None, _) \<Rightarrow> None
         | (Some (contents, tag, header_len, ber_found), ins) \<Rightarrow>
             if ber_found then Some True
             else if tag AND CBS_ASN1_CONSTRUCTED \<noteq> 0 then
               (if is_string_type tag then Some True
                else
                  (case CBS_skip header_len contents of
                     (None, _) \<Rightarrow> None
                   | (Some _, contents) \<Rightarrow>
                       (case find_ber_loop (depth + 1) False contents of
                          None \<Rightarrow> None
                        | Some ber_found \<Rightarrow> find_ber_loop depth ber_found ins)))
             else find_ber_loop depth ber_found ins)
      else Some ber_found)"
  by pat_completeness auto
termination
  by (relation "measure (\<lambda>(_, _, s). length s)")
    (auto simp: CBS_get_any_ber_asn1_element_def CBS_skip_eq_Some dest!: sym [of "(Some _, _)"] element_split)

declare find_ber_loop.simps [simp del]

definition cbs_find_ber :: "cbs \<Rightarrow> nat \<Rightarrow> bool option" where
  "cbs_find_ber orig_in depth = find_ber_loop depth False orig_in"

definition is_eoc :: "nat \<Rightarrow> cbs \<Rightarrow> bool" where
  "is_eoc header_len contents = (header_len = 2 \<and> CBS_len contents = 2 \<and> contents = [0, 0])"

lemma element_fails:
  assumes "cbs_get_any_asn1_element ber s = (None, r)"
  shows "r = s"
proof (cases "\<exists>tag lb h. parse_asn1_tag s = (Some tag, lb # h)")
  case True
  then obtain tag' lb h where p: "parse_asn1_tag s = (Some tag', lb # h)" by auto
  have get: "r = s"
    if "pbind (CBS_get_bytes (n + k) s) (\<lambda>out cbs. (Some (out, tag', k, g), cbs)) = (None, r)" for n k g
    using that by (auto simp: pbind_eq_None CBS_get_bytes_def cbs_get_def split: if_split_asm)
  show ?thesis
    using assms [unfolded cbs_get_any_asn1_element_unfold [OF p] Let_def]
      get [of "unat lb" "length s - length h"] get [of 0 "length s - length h"] get
    by (auto split: if_split_asm)
next
  case False
  then show ?thesis using assms cbs_get_any_asn1_element_fail [of s ber] by auto
qed

text \<open>
  One round of the loop of \<open>cbs_convert_ber\<close> and the rest of it. The depth is tested in every round,
  where it is the one of the call; \<open>out_contents\<close> is the builder itself inside a constructed string
  and a child on the stack otherwise.
\<close>

function cbs_convert_ber ::
  "allocator \<Rightarrow> nat \<Rightarrow> u32 \<Rightarrow> bool \<Rightarrow> nat \<Rightarrow> cbs \<Rightarrow> cbb \<Rightarrow> unit option \<times> cbs \<times> cbb" where
  "cbs_convert_ber a h string_tag looking_for_eoc depth ins out =
     (if depth > kMaxDepth then (None, ins, out)
      else if CBS_len ins > 0 then
        (case CBS_get_any_ber_asn1_element ins of
           (None, ins) \<Rightarrow> (None, ins, out)
         | (Some (contents, tag, header_len, _), ins) \<Rightarrow>
             if is_eoc header_len contents then (if looking_for_eoc then Some () else None, ins, out)
             else if string_tag \<noteq> 0 \<and> tag AND NOT CBS_ASN1_CONSTRUCTED \<noteq> string_tag then (None, ins, out)
             else
               let is_string = (string_tag = 0 \<and> tag AND CBS_ASN1_CONSTRUCTED \<noteq> 0 \<and> is_string_type tag);
                   out_tag = (if is_string then tag AND NOT CBS_ASN1_CONSTRUCTED else tag);
                   child_string_tag = (if is_string then out_tag else string_tag);
                   out_contents = (if string_tag \<noteq> 0 then h else local_cbb out) in
               (case (if string_tag \<noteq> 0 then (Some (), out) else CBB_add_asn1 a h out_contents out_tag out) of
                  (None, out) \<Rightarrow> (None, ins, out)
                | (Some _, out) \<Rightarrow>
                    (case
                       (if CBS_len contents = header_len \<and> header_len > 0 \<and> contents ! (header_len - 1) = 0x80 then
                          cbs_convert_ber a out_contents child_string_tag True (depth + 1) ins out
                        else
                          (case CBS_skip header_len contents of
                             (None, _) \<Rightarrow> (None, ins, out)
                           | (Some _, contents) \<Rightarrow>
                               if tag AND CBS_ASN1_CONSTRUCTED \<noteq> 0 then
                                 (case cbs_convert_ber a out_contents child_string_tag False (depth + 1) contents out of
                                    (r, _, out) \<Rightarrow> (r, ins, out))
                               else (case CBB_add_bytes a out_contents contents out of (r, out) \<Rightarrow> (r, ins, out))))
                     of
                       (None, ins, out) \<Rightarrow> (None, ins, out)
                     | (Some _, ins, out) \<Rightarrow>
                         (case CBB_flush a h out of
                            (None, out) \<Rightarrow> (None, ins, out)
                          | (Some _, out) \<Rightarrow> cbs_convert_ber a h string_tag looking_for_eoc depth ins out))))
      else (if looking_for_eoc then None else Some (), ins, out))"
  by pat_completeness auto

text \<open>One round, with the parts of it named.\<close>

definition ber_body ::
  "allocator \<Rightarrow> nat \<Rightarrow> u32 \<Rightarrow> u32 \<Rightarrow> nat \<Rightarrow> nat \<Rightarrow> cbs \<Rightarrow> cbs \<Rightarrow> cbb \<Rightarrow> unit option \<times> cbs \<times> cbb" where
  "ber_body a child cst tag depth hl contents ins out =
     (if CBS_len contents = hl \<and> hl > 0 \<and> contents ! (hl - 1) = 0x80 then
        cbs_convert_ber a child cst True (depth + 1) ins out
      else
        (case CBS_skip hl contents of
           (None, _) \<Rightarrow> (None, ins, out)
         | (Some _, contents) \<Rightarrow>
             if tag AND CBS_ASN1_CONSTRUCTED \<noteq> 0 then
               (case cbs_convert_ber a child cst False (depth + 1) contents out of
                  (r, _, out) \<Rightarrow> (r, ins, out))
             else (case CBB_add_bytes a child contents out of (r, out) \<Rightarrow> (r, ins, out))))"

definition out_tag_of :: "u32 \<Rightarrow> u32 \<Rightarrow> u32" where
  "out_tag_of st tag =
     (if st = 0 \<and> tag AND CBS_ASN1_CONSTRUCTED \<noteq> 0 \<and> is_string_type tag
      then tag AND NOT CBS_ASN1_CONSTRUCTED else tag)"

definition child_tag_of :: "u32 \<Rightarrow> u32 \<Rightarrow> u32" where
  "child_tag_of st tag =
     (if st = 0 \<and> tag AND CBS_ASN1_CONSTRUCTED \<noteq> 0 \<and> is_string_type tag
      then out_tag_of st tag else st)"

lemma cbs_convert_ber_round:
  assumes dom: "cbs_convert_ber_dom (a, h, st, eoc, depth, ins, out)"
    and go: "\<not> depth > kMaxDepth" "ins \<noteq> []"
    and e: "CBS_get_any_ber_asn1_element ins = (Some (contents, tag, hl, f), ins1)"
    and child: "child = (if st \<noteq> 0 then h else local_cbb out)"
    and o: "(if st \<noteq> 0 then (Some (), out) else CBB_add_asn1 a h child (out_tag_of st tag) out) = (ro, out1)"
    and b: "ber_body a child (child_tag_of st tag) tag depth hl contents ins1 out1 = (rb, ins2, out2)"
    and f: "CBB_flush a h out2 = (rf, out3)"
  shows "cbs_convert_ber a h st eoc depth ins out =
    (if is_eoc hl contents then (if eoc then Some () else None, ins1, out)
     else if st \<noteq> 0 \<and> tag AND NOT CBS_ASN1_CONSTRUCTED \<noteq> st then (None, ins1, out)
     else if ro = None then (None, ins1, out1)
     else if rb = None then (None, ins2, out2)
     else if rf = None then (None, ins2, out3)
     else cbs_convert_ber a h st eoc depth ins2 out3)"
proof (cases ro)
  case None
  have n: "(if st \<noteq> 0 then (Some (), out) else CBB_add_asn1 a h child (out_tag_of st tag) out) = (None, out1)"
    using o None by simp
  show ?thesis
    using go unfolding cbs_convert_ber.psimps [OF dom] e prod.case option.case Let_def
      out_tag_of_def [symmetric] child_tag_of_def [symmetric] child [symmetric] n None
    by (simp add: CBS_len_def)
next
  case (Some u)
  have s: "(if st \<noteq> 0 then (Some (), out) else CBB_add_asn1 a h child (out_tag_of st tag) out) = (Some u, out1)"
    using o Some by simp
  show ?thesis
    using go unfolding cbs_convert_ber.psimps [OF dom] e prod.case option.case Let_def
      out_tag_of_def [symmetric] child_tag_of_def [symmetric] child [symmetric] s Some
      ber_body_def [symmetric] b
    by (cases rb; cases rf) (simp_all add: CBS_len_def f)
qed

lemma cbs_convert_ber_stop:
  assumes dom: "cbs_convert_ber_dom (a, h, st, eoc, depth, ins, out)"
    and "depth > kMaxDepth \<or> ins = [] \<or> fst (CBS_get_any_ber_asn1_element ins) = None"
  shows "cbs_convert_ber a h st eoc depth ins out =
    (if depth \<le> kMaxDepth \<and> ins = [] \<and> \<not> eoc then Some () else None, ins, out)"
proof (cases "depth > kMaxDepth \<or> ins = []")
  case True
  then show ?thesis unfolding cbs_convert_ber.psimps [OF dom] by (auto simp: CBS_len_def)
next
  case False
  then obtain ins1 where "CBS_get_any_ber_asn1_element ins = (None, ins1)"
    using assms(2) by (cases "CBS_get_any_ber_asn1_element ins") auto
  then have "CBS_get_any_ber_asn1_element ins = (None, ins)"
    using element_fails by (simp add: CBS_get_any_ber_asn1_element_def)
  then show ?thesis using False unfolding cbs_convert_ber.psimps [OF dom] by (auto simp: CBS_len_def)
qed

lemma cbs_convert_ber_shorter:
  "cbs_convert_ber_dom (a, h, st, eoc, depth, ins, out) \<Longrightarrow>
   cbs_convert_ber a h st eoc depth ins out = (r, ins', out') \<Longrightarrow> length ins' \<le> length ins"
proof (induction a h st eoc depth ins out arbitrary: r ins' out' rule: cbs_convert_ber.pinduct)
  case (1 a h st eoc depth ins out)
  show ?case
  proof (cases "depth > kMaxDepth \<or> ins = [] \<or> fst (CBS_get_any_ber_asn1_element ins) = None")
    case True
    then show ?thesis using 1(5) cbs_convert_ber_stop [OF 1(1)] by (simp split: if_split_asm)
  next
    case False
    then obtain contents tag hl f ins1 where e: "CBS_get_any_ber_asn1_element ins = (Some (contents, tag, hl, f), ins1)"
      by (cases "CBS_get_any_ber_asn1_element ins") auto
    have i1: "length ins1 < length ins"
      using element_split [of True ins contents tag hl f ins1] e
      by (auto simp: CBS_get_any_ber_asn1_element_def)
    define child where "child = (if st \<noteq> 0 then h else local_cbb out)"
    obtain ro out1 where o: "(if st \<noteq> 0 then (Some (), out) else CBB_add_asn1 a h child (out_tag_of st tag) out) = (ro, out1)"
      by (cases "if st \<noteq> 0 then (Some (), out) else CBB_add_asn1 a h child (out_tag_of st tag) out")
    obtain rb ins2 out2 where b:
      "ber_body a child (child_tag_of st tag) tag depth hl contents ins1 out1 = (rb, ins2, out2)"
      by (cases "ber_body a child (child_tag_of st tag) tag depth hl contents ins1 out1") auto
    obtain rf out3 where f: "CBB_flush a h out2 = (rf, out3)" by (cases "CBB_flush a h out2")
    have go: "\<not> depth > kMaxDepth" "ins \<noteq> []" using False by auto
    note eq = cbs_convert_ber_round [OF 1(1) go e child_def o b f, of ]
    show ?thesis
    proof (cases "is_eoc hl contents \<or> (st \<noteq> 0 \<and> tag AND NOT CBS_ASN1_CONSTRUCTED \<noteq> st) \<or> ro = None")
      case True
      then show ?thesis using 1(5) i1 unfolding eq by (auto split: if_split_asm)
    next
      case go: False
      have o': "(ro, out1) = (if st \<noteq> 0 then (Some (), out) else CBB_add_asn1 a h (if st \<noteq> 0 then h else local_cbb out)
          (if st = 0 \<and> tag AND CBS_ASN1_CONSTRUCTED \<noteq> 0 \<and> is_string_type tag
           then tag AND NOT CBS_ASN1_CONSTRUCTED else tag) out)"
        using o [symmetric] unfolding out_tag_of_def child_def .
      have "ro = Some ()" using go by auto
      have len: "0 < CBS_len ins" using \<open>ins \<noteq> []\<close> by (simp add: CBS_len_def)
      have neoc: "\<not> is_eoc hl contents" "\<not> (st \<noteq> 0 \<and> tag AND NOT CBS_ASN1_CONSTRUCTED \<noteq> st)"
        using go by auto
      note ih1 = 1(2) [OF \<open>\<not> depth > kMaxDepth\<close> len e [symmetric] refl refl refl refl neoc refl refl refl refl o'
        \<open>ro = Some ()\<close>, folded out_tag_of_def, folded child_tag_of_def child_def]
      note ih3 = 1(4) [OF \<open>\<not> depth > kMaxDepth\<close> len e [symmetric] refl refl refl refl neoc refl refl refl refl o'
        \<open>ro = Some ()\<close>, folded out_tag_of_def, folded child_tag_of_def child_def,
        folded ber_body_def, OF b [symmetric] _ refl f [symmetric]]
      have in2: "length ins2 \<le> length ins1"
        using b ih1 unfolding ber_body_def by (fastforce split: if_split_asm option.split_asm prod.split_asm)
      show ?thesis
        using 1(5) i1 in2 ih3 unfolding eq by (cases rb; cases rf) (fastforce split: if_split_asm)+
    qed
  qed
qed

lemma convert_total: "cbs_convert_ber_dom x"
proof (rule "cbs_convert_ber.termination" [where R = "inv_image (less_than <*lex*> less_than)
    (\<lambda>(a, h, st, eoc, depth, ins, out). (kMaxDepth + 1 - depth, length ins))", THEN spec], goal_cases)
  case 1
  show ?case by (intro wf_inv_image wf_lex_prod wf_less_than)
next
  case 2
  then show ?case unfolding not_less by auto
next
  case 3
  then show ?case unfolding not_less by auto
next
  case (4 a h st eoc depth ins out e ins1 v contents v1 tag v2 hl ff str ot cst child ro out1 u1 rb s2 u2 ins2 out2 rf out3 u3)
  have "CBS_get_any_ber_asn1_element ins = (Some (contents, tag, hl, ff), ins1)"
    using 4(3-7) by simp
  then have i1: "length ins1 < length ins"
    using element_split [of True ins contents tag hl ff ins1] by (auto simp: CBS_get_any_ber_asn1_element_def)
  have s2: "rb = Some u2" "s2 = (ins2, out2)" using 4(17,18) by simp_all
  have "length ins2 \<le> length ins1"
  proof (cases "CBS_len contents = hl \<and> 0 < hl \<and> contents ! (hl - 1) = 0x80")
    case True
    then have "cbs_convert_ber a child cst True (depth + 1) ins1 out1 = (Some u2, ins2, out2)"
      using 4(16) s2 by simp
    then show ?thesis by (rule cbs_convert_ber_shorter [OF 4(22) [OF True]])
  next
    case False
    then show ?thesis using 4(16) s2 by (auto split: option.split_asm prod.split_asm if_split_asm)
  qed
  then show ?case using i1 by simp
qed

termination cbs_convert_ber
  by (rule allI, rule convert_total)

declare cbs_convert_ber.simps [simp del]

definition CBS_asn1_ber_to_der :: "allocator \<Rightarrow> cbs \<Rightarrow> (cbs \<times> bytes option) option \<times> cbs" where
  "CBS_asn1_ber_to_der a ins =
     (case cbs_find_ber ins 0 of
        None \<Rightarrow> (None, ins)
      | Some conversion_needed \<Rightarrow>
          if \<not> conversion_needed then
            (case CBS_get_any_asn1_element ins of
               (None, ins) \<Rightarrow> (None, ins)
             | (Some (out, _), ins) \<Rightarrow> (Some (out, None), ins))
          else
            (case CBB_init a 0 (CBS_len ins) of
               (None, _) \<Rightarrow> (None, ins)
             | (Some _, cbb) \<Rightarrow>
                 (case cbs_convert_ber a 0 0 False 0 ins cbb of
                    (None, ins, _) \<Rightarrow> (None, ins)
                  | (Some _, ins, cbb) \<Rightarrow>
                      (case CBB_finish a 0 True True cbb of
                         (None, _) \<Rightarrow> (None, ins)
                       | (Some out_storage, _) \<Rightarrow>
                           (Some (CBS_init out_storage (length out_storage), Some out_storage), ins)))))"

lemma CBS_get_asn1_shorter: "CBS_get_asn1 tag s = (Some v, r) \<Longrightarrow> length v < length s \<and> length r < length s"
  using length_der_element_less [of v tag] by (auto simp: CBS_get_asn1_iff)

function implicit_string_loop :: "allocator \<Rightarrow> nat \<Rightarrow> u32 \<Rightarrow> cbs \<Rightarrow> cbb \<Rightarrow> unit option \<times> cbb" where
  "implicit_string_loop a h inner_tag child result =
     (if CBS_len child > 0 then
        (case CBS_get_asn1 inner_tag child of
           (None, _) \<Rightarrow> (None, result)
         | (Some chunk, child) \<Rightarrow>
             pbind (CBB_add_bytes a h chunk result) (\<lambda>_. implicit_string_loop a h inner_tag child))
      else (Some (), result))"
  by pat_completeness auto
termination
  by (relation "measure (\<lambda>(_, _, _, s, _). length s)") (auto dest: CBS_get_asn1_shorter [OF sym])

declare implicit_string_loop.simps [simp del]

definition CBS_get_asn1_implicit_string ::
  "allocator \<Rightarrow> u32 \<Rightarrow> u32 \<Rightarrow> cbs \<Rightarrow> (cbs \<times> bytes option) option \<times> cbs" where
  "CBS_get_asn1_implicit_string a outer_tag inner_tag ins =
     (if CBS_peek_asn1_tag outer_tag ins then
        pbind (CBS_get_asn1 outer_tag ins) (\<lambda>out ins. (Some (out, None), ins))
      else
        (case CBB_init a 0 (CBS_len ins) of
           (None, _) \<Rightarrow> (None, ins)
         | (Some _, result) \<Rightarrow>
             pbind (CBS_get_asn1 (outer_tag OR CBS_ASN1_CONSTRUCTED) ins) (\<lambda>child ins.
               case pbind (implicit_string_loop a 0 inner_tag child result) (\<lambda>_ result. CBB_finish a 0 True True result) of
                 (None, _) \<Rightarrow> (None, ins)
               | (Some data, _) \<Rightarrow> (Some (CBS_init data (length data), Some data), ins))))"

section \<open>BER elements\<close>

text \<open>
  An element with the number of octets of its length after the first (0: the short form), and one of
  indefinite length. \<open>plain\<close> is what a string contributes to the string around it.
\<close>

datatype ber =
    Primitive u32 nat bytes
  | Definite u32 nat "ber list"
  | Indefinite u32 "ber list"

definition ber_length :: "nat \<Rightarrow> nat \<Rightarrow> bytes" where
  "ber_length k n = (if k = 0 then [of_nat n] else of_nat (128 + k) # be_bytes k n)"

definition ber_length_ok :: "nat \<Rightarrow> nat \<Rightarrow> bool" where
  "ber_length_ok k n \<longleftrightarrow> (if k = 0 then n < 128 else k \<le> 4 \<and> n < 256 ^ k)"

fun ber_bytes :: "ber \<Rightarrow> bytes" where
  "ber_bytes (Primitive tag k d) = der_tag tag @ ber_length k (length d) @ d"
| "ber_bytes (Definite tag k ts) =
     (let d = concat (map ber_bytes ts) in der_tag tag @ ber_length k (length d) @ d)"
| "ber_bytes (Indefinite tag ts) = der_tag tag @ 0x80 # concat (map ber_bytes ts) @ [0, 0]"

fun plain :: "ber \<Rightarrow> bytes" where
  "plain (Primitive tag k d) = d"
| "plain (Definite tag k ts) = concat (map plain ts)"
| "plain (Indefinite tag ts) = concat (map plain ts)"

fun der_of :: "ber \<Rightarrow> der_tree" where
  "der_of (Primitive tag k d) = Prim tag d"
| "der_of (Definite tag k ts) =
     (if is_string_type tag then Prim (tag AND NOT CBS_ASN1_CONSTRUCTED) (concat (map plain ts))
      else Constr tag (map der_of ts))"
| "der_of (Indefinite tag ts) =
     (if is_string_type tag then Prim (tag AND NOT CBS_ASN1_CONSTRUCTED) (concat (map plain ts))
      else Constr tag (map der_of ts))"

text \<open>
  The elements the conversion accepts: constructed exactly when the tag says so, no end-of-contents
  marker among the elements, string fragments of the type of the string.
\<close>

fun fragment_of :: "u32 \<Rightarrow> ber \<Rightarrow> bool" where
  "fragment_of st (Primitive tag k d) = (tag = st)"
| "fragment_of st (Definite tag k ts) = (tag AND NOT CBS_ASN1_CONSTRUCTED = st \<and> list_all (fragment_of st) ts)"
| "fragment_of st (Indefinite tag ts) = (tag AND NOT CBS_ASN1_CONSTRUCTED = st \<and> list_all (fragment_of st) ts)"

fun ber_wf :: "ber \<Rightarrow> bool" where
  "ber_wf (Primitive tag k d) \<longleftrightarrow>
     tag AND CBS_ASN1_CONSTRUCTED = 0 \<and> ber_length_ok k (length d) \<and> \<not> (tag = 0 \<and> k = 0 \<and> d = [])"
| "ber_wf (Definite tag k ts) \<longleftrightarrow>
     tag AND CBS_ASN1_CONSTRUCTED \<noteq> 0 \<and> ber_length_ok k (length (concat (map ber_bytes ts))) \<and> list_all ber_wf ts"
| "ber_wf (Indefinite tag ts) \<longleftrightarrow> tag AND CBS_ASN1_CONSTRUCTED \<noteq> 0 \<and> list_all ber_wf ts"

fun strings_ok :: "ber \<Rightarrow> bool" where
  "strings_ok (Primitive tag k d) = True"
| "strings_ok (Definite tag k ts) =
     (if is_string_type tag then list_all (fragment_of (tag AND NOT CBS_ASN1_CONSTRUCTED)) ts else list_all strings_ok ts)"
| "strings_ok (Indefinite tag ts) =
     (if is_string_type tag then list_all (fragment_of (tag AND NOT CBS_ASN1_CONSTRUCTED)) ts else list_all strings_ok ts)"

fun shallow :: "nat \<Rightarrow> ber \<Rightarrow> bool" where
  "shallow n (Primitive tag k d) = True"
| "shallow n (Definite tag k ts) = (0 < n \<and> list_all (shallow (n - 1)) ts)"
| "shallow n (Indefinite tag ts) = (0 < n \<and> list_all (shallow (n - 1)) ts)"

section \<open>Reading one element\<close>

lemma ber_length_not_Nil [simp]: "ber_length k n \<noteq> []"
  by (simp add: ber_length_def)

lemma ber_length_minimal:
  assumes k: "0 < k" "n < 256 ^ k"
  shows "ber_length k n \<noteq> der_length n \<longleftrightarrow> n < 128 \<or> n < 256 ^ (k - 1)"
proof (cases "n < 128")
  case True
  then have "length (der_length n) \<noteq> length (ber_length k n)"
    using k by (simp add: der_length_short ber_length_def)
  then show ?thesis using True by auto
next
  case False
  then have "0 < n" by linarith
  note b = byte_len_bounds [OF this]
  have "ber_length k n = der_length n \<longleftrightarrow> byte_len n = k"
  proof
    assume "ber_length k n = der_length n"
    then have "length (ber_length k n) = length (der_length n)" by simp
    then show "byte_len n = k" using k False by (simp add: ber_length_def der_length_long)
  next
    assume "byte_len n = k"
    then show "ber_length k n = der_length n" using k False by (simp add: ber_length_def der_length_long)
  qed
  also have "\<dots> \<longleftrightarrow> 256 ^ (k - 1) \<le> n"
    using b k byte_len_unique [of k n] by auto
  finally show ?thesis using False by (auto simp: not_le)
qed

lemma get_definite:
  assumes k: "ber_length_ok k (length d)"
  shows "\<exists>f. cbs_get_any_asn1_element True (der_tag tag @ ber_length k (length d) @ d @ rest) =
    (Some (der_tag tag @ ber_length k (length d) @ d, tag, length (der_tag tag) + length (ber_length k (length d)), f), rest)
    \<and> (f \<longleftrightarrow> ber_length k (length d) \<noteq> der_length (length d))"
proof (cases "k = 0")
  case True
  define s where "s = der_tag tag @ ber_length k (length d) @ d @ rest"
  have n: "length d < 128" using k True by (simp add: ber_length_ok_def)
  have s: "s = der_tag tag @ of_nat (length d) # (d @ rest)" using True by (simp add: s_def ber_length_def)
  then have "parse_asn1_tag s = (Some tag, of_nat (length d) # (d @ rest))" by (simp add: parse_asn1_tag_iff)
  moreover have "unat (of_nat (length d) :: u8) = length d" using n by (intro unat_of_nat_small) simp
  moreover have "length s - length (d @ rest) = length (der_tag tag) + 1" by (simp add: s)
  ultimately have "cbs_get_any_asn1_element True s = pbind (CBS_get_bytes (length d + (length (der_tag tag) + 1)) s)
      (\<lambda>out cbs. (Some (out, tag, length (der_tag tag) + 1, False), cbs))"
    using n by (simp add: cbs_get_any_asn1_element_unfold Let_def)
  moreover have "CBS_get_bytes (length d + (length (der_tag tag) + 1)) s =
      (Some (der_tag tag @ ber_length k (length d) @ d), rest)"
    using True by (auto simp: CBS_get_bytes_eq_Some s ber_length_def)
  moreover have "ber_length k (length d) = der_length (length d)"
    using True n by (simp add: ber_length_def der_length_short)
  moreover have "length (ber_length k (length d)) = 1" using True by (simp add: ber_length_def)
  ultimately show ?thesis unfolding s_def [symmetric] by (intro exI [of _ False]) simp
next
  case False
  define e where "e = be_bytes k (length d)"
  define s where "s = der_tag tag @ ber_length k (length d) @ d @ rest"
  have k: "0 < k" "k \<le> 4" "length d < 256 ^ k" using k False by (simp_all add: ber_length_ok_def)
  have e: "length e = k" "be_val e = length d" using k by (simp_all add: e_def be_val_be_bytes)
  have s: "s = der_tag tag @ of_nat (128 + k) # (e @ d @ rest)" using False by (simp add: s_def ber_length_def e_def)
  then have tag: "parse_asn1_tag s = (Some tag, of_nat (128 + k) # (e @ d @ rest))"
    by (simp only: parse_asn1_tag_iff)
  have lb: "unat (of_nat (128 + k) :: u8) = 128 + k" using k by (intro unat_of_nat_small) simp
  have hl: "length s - length (e @ d @ rest) = length (der_tag tag) + 1" by (simp add: s)
  have d32: "length d < 2 ^ 32"
  proof -
    have "(256 :: nat) ^ k \<le> 256 ^ 4" using k(2) by (rule power_increasing) simp
    then show ?thesis using k(3) by simp
  qed
  have "size_wrap (length d + (length (der_tag tag) + 1) + k) = length d + (length (der_tag tag) + 1) + k"
    unfolding size_wrap_def using d32 k length_der_tag [of tag] by (intro mod_less) simp
  then have "cbs_get_any_asn1_element True s =
      pbind (CBS_get_bytes (length d + (length (der_tag tag) + 1 + k)) s)
        (\<lambda>out cbs. (Some (out, tag, length (der_tag tag) + 1 + k, length d < 128 \<or> length d < 256 ^ (k - 1)), cbs))"
    unfolding cbs_get_any_asn1_element_unfold [OF tag] lb hl
    using k False e by (simp add: Let_def not_less)
  moreover have "CBS_get_bytes (length d + (length (der_tag tag) + 1 + k)) s =
      (Some (der_tag tag @ ber_length k (length d) @ d), rest)"
    using False e by (auto simp: CBS_get_bytes_eq_Some s ber_length_def e_def)
  moreover have "ber_length k (length d) \<noteq> der_length (length d) \<longleftrightarrow> length d < 128 \<or> length d < 256 ^ (k - 1)"
    by (rule ber_length_minimal [OF k(1,3)])
  moreover have "length (ber_length k (length d)) = 1 + k" using False by (simp add: ber_length_def)
  ultimately show ?thesis unfolding s_def [symmetric] by (intro exI conjI) (simp_all add: add.assoc)
qed

lemma get_indefinite:
  assumes "tag AND CBS_ASN1_CONSTRUCTED \<noteq> 0"
  shows "cbs_get_any_asn1_element True (der_tag tag @ 0x80 # rest) =
    (Some (der_tag tag @ [0x80], tag, length (der_tag tag) + 1, True), rest)"
proof -
  define s where "s = der_tag tag @ 0x80 # rest"
  have "parse_asn1_tag s = (Some tag, 0x80 # rest)" by (simp add: s_def parse_asn1_tag_iff)
  moreover have "length s - length rest = length (der_tag tag) + 1" by (simp add: s_def)
  ultimately have "cbs_get_any_asn1_element True s = pbind (CBS_get_bytes (length (der_tag tag) + 1) s)
      (\<lambda>out cbs. (Some (out, tag, length (der_tag tag) + 1, True), cbs))"
    using assms by (simp add: cbs_get_any_asn1_element_unfold Let_def)
  moreover have "CBS_get_bytes (length (der_tag tag) + 1) s = (Some (der_tag tag @ [0x80]), rest)"
    by (auto simp: CBS_get_bytes_eq_Some s_def)
  ultimately show ?thesis by (simp flip: s_def)
qed

section \<open>What the conversion writes\<close>

text \<open>The calls the conversion makes on the builder, driven by the tree instead of its bytes.\<close>

fun write_ber :: "allocator \<Rightarrow> nat \<Rightarrow> u32 \<Rightarrow> ber \<Rightarrow> cbb \<Rightarrow> unit option \<times> cbb"
  and write_bers :: "allocator \<Rightarrow> nat \<Rightarrow> u32 \<Rightarrow> ber list \<Rightarrow> cbb \<Rightarrow> unit option \<times> cbb" where
  "write_ber a h st (Primitive tag k d) c =
     (if st \<noteq> 0 then CBB_add_bytes a h d c
      else let child = local_cbb c in
        pbind (CBB_add_asn1 a h child tag c) (\<lambda>_. CBB_add_bytes a child d))"
| "write_ber a h st (Definite tag k ts) c =
     (if st \<noteq> 0 then write_bers a h (child_tag_of st tag) ts c
      else let child = local_cbb c in
        pbind (CBB_add_asn1 a h child (out_tag_of st tag) c) (\<lambda>_. write_bers a child (child_tag_of st tag) ts))"
| "write_ber a h st (Indefinite tag ts) c =
     (if st \<noteq> 0 then write_bers a h (child_tag_of st tag) ts c
      else let child = local_cbb c in
        pbind (CBB_add_asn1 a h child (out_tag_of st tag) c) (\<lambda>_. write_bers a child (child_tag_of st tag) ts))"
| "write_bers a h st [] c = (Some (), c)"
| "write_bers a h st (t # ts) c =
     pbind (write_ber a h st t c) (\<lambda>_ c. pbind (CBB_flush a h c) (\<lambda>_. write_bers a h st ts))"

definition out_bytes :: "u32 \<Rightarrow> ber \<Rightarrow> bytes" where
  "out_bytes st t = (if st \<noteq> 0 then plain t else encode (der_of t))"

lemma appends_assoc3:
  assumes "appends a h xs (\<lambda>c. let child = local_cbb c in
     pbind (CBB_add_asn1 a h child tag c) (\<lambda>_ c. pbind (m child c) (\<lambda>_ c. CBB_flush a h c)))"
    and "appends a h ys f"
  shows "appends a h (xs @ ys) (\<lambda>c. pbind (let child = local_cbb c in
     pbind (CBB_add_asn1 a h child tag c) (\<lambda>_. m child)) (\<lambda>_ c. pbind (CBB_flush a h c) (\<lambda>_. f)))"
  using appends_bind [OF assms(1), where f = "\<lambda>_. f", OF assms(2)] by (simp add: Let_def pbind_assoc)

lemma string_tag_not_0: "is_string_type tag \<Longrightarrow> tag AND NOT CBS_ASN1_CONSTRUCTED \<noteq> 0"
  by (auto simp: is_string_type_def)

lemma plain_eq: "st \<noteq> 0 \<Longrightarrow> concat (map (out_bytes st) ts) = concat (map plain ts)"
  by (simp add: out_bytes_def cong: map_cong)

lemma encode_eq_out: "concat (map (out_bytes 0) ts) = concat (map encode (map der_of ts))"
  by (simp add: out_bytes_def comp_def cong: map_cong)

lemma write_bers_appends:
  assumes "length (concat (map (out_bytes st) ts)) \<le> 0xfffffffe" "list_all ber_wf ts"
  shows "appends a h (concat (map (out_bytes st) ts)) (write_bers a h st ts)"
  using assms
proof (induction ts arbitrary: h st rule: measure_induct_rule [where f = "size_list size"])
  case (less ts)
  show ?case
  proof (cases ts)
    case Nil
    then show ?thesis using appends_return by (simp add: fun_eq_iff appends_def appended_def)
  next
    case (Cons t us)
    have us: "appends a h (concat (map (out_bytes st) us)) (write_bers a h st us)"
      using less.prems by (intro less.IH) (simp_all add: Cons)
    have children: "appends a child (concat (map (out_bytes st') vs)) (write_bers a child st' vs)"
      if "size_list size vs < size t" "length (concat (map (out_bytes st') vs)) \<le> 0xfffffffe"
        "list_all ber_wf vs" for child st' vs
      using that by (intro less.IH) (simp_all add: Cons)
    have len: "length (out_bytes st t) \<le> 0xfffffffe" and wf: "ber_wf t" using less.prems by (simp_all add: Cons)
    have "appends a h (out_bytes st t @ concat (map (out_bytes st) us)) (write_bers a h st (t # us))"
    proof (cases "st = 0")
      case True
      have elem: "appends a h (out_bytes st t @ concat (map (out_bytes st) us)) (write_bers a h st (t # us))"
        if w: "\<And>c. write_ber a h st t c = (let child = local_cbb c in
            pbind (CBB_add_asn1 a h child tag c) (\<lambda>_. m child))"
          and o: "out_bytes st t = der_element tag xs"
          and m: "\<And>child. length xs \<le> 0xfffffffe \<Longrightarrow> appends a child xs (m child)" for tag xs m
      proof -
        have "length xs \<le> 0xfffffffe" using len length_der_element [of xs tag] by (simp only: o)
        from appends_assoc3 [OF appends_local_element [OF m [OF this] this] us]
        show ?thesis unfolding o by (rule appends_cong [rotated]) (simp only: write_bers.simps w)
      qed
      have nest: "appends a h (out_bytes st t @ concat (map (out_bytes st) us)) (write_bers a h st (t # us))"
        if w: "\<And>c. write_ber a h st t c = (let child = local_cbb c in
            pbind (CBB_add_asn1 a h child (out_tag_of st tag) c) (\<lambda>_. write_bers a child (child_tag_of st tag) vs))"
          and d: "der_of t = (if is_string_type tag then Prim (tag AND NOT CBS_ASN1_CONSTRUCTED) (concat (map plain vs))
            else Constr tag (map der_of vs))"
          and c: "tag AND CBS_ASN1_CONSTRUCTED \<noteq> 0" and vs: "size_list size vs < size t" "list_all ber_wf vs" for tag vs
      proof (rule elem [OF w])
        show "out_bytes st t = der_element (out_tag_of st tag) (concat (map (out_bytes (child_tag_of st tag)) vs))"
          using True c string_tag_not_0 [of tag]
          by (auto simp: out_tag_of_def child_tag_of_def plain_eq encode_eq_out out_bytes_def [of 0 t] d)
      qed (rule children [OF vs(1) _ vs(2)])
      show ?thesis
      proof (cases t)
        case (Primitive tag k d)
        show ?thesis
          by (rule elem [of tag "\<lambda>child. CBB_add_bytes a child d" d])
            (auto simp: True Primitive out_bytes_def intro: CBB_add_bytes_appends)
      next
        case (Definite tag k vs)
        show ?thesis by (rule nest [of tag vs]) (use wf in \<open>simp_all add: True Definite\<close>)
      next
        case (Indefinite tag vs)
        show ?thesis by (rule nest [of tag vs]) (use wf in \<open>simp_all add: True Indefinite\<close>)
      qed
    next
      case False
      have "appends a h (out_bytes st t) (write_ber a h st t)"
      proof (cases t)
        case (Primitive tag k d)
        have "appends a h d (CBB_add_bytes a h d)"
          using len False by (intro CBB_add_bytes_appends) (simp add: Primitive out_bytes_def)
        then show ?thesis using False by (rule_tac appends_cong [rotated]) (simp_all add: Primitive out_bytes_def)
      next
        case (Definite tag k vs)
        have "appends a h (concat (map (out_bytes st) vs)) (write_bers a h st vs)"
          using len False wf by (intro children) (simp_all add: Definite out_bytes_def [of st "Definite tag k vs"] plain_eq [OF False])
        then show ?thesis using False
          by (rule_tac appends_cong [rotated]) (simp_all add: Definite plain_eq out_bytes_def [of st "Definite tag k vs"] child_tag_of_def)
      next
        case (Indefinite tag vs)
        have "appends a h (concat (map (out_bytes st) vs)) (write_bers a h st vs)"
          using len False wf by (intro children) (simp_all add: Indefinite out_bytes_def [of st "Indefinite tag vs"] plain_eq [OF False])
        then show ?thesis using False
          by (rule_tac appends_cong [rotated]) (simp_all add: Indefinite plain_eq out_bytes_def [of st "Indefinite tag vs"] child_tag_of_def)
      qed
      from appends_bind [OF this, where f = "\<lambda>_ c. pbind (CBB_flush a h c) (\<lambda>_. write_bers a h st us)", OF appends_flush [OF us]]
      show ?thesis by (rule appends_cong [rotated]) simp
    qed
    then show ?thesis unfolding Cons by (simp only: list.map concat.simps)
  qed
qed

section \<open>The conversion\<close>

text \<open>An element that is not of indefinite length: its header does not end in 0x80 when it is all there is.\<close>

lemma definite_last:
  assumes "ber_length_ok k (length d)"
  shows "\<not> (length (der_tag tag @ ber_length k (length d) @ d) = length (der_tag tag) + length (ber_length k (length d)) \<and>
    (der_tag tag @ ber_length k (length d) @ d) ! (length (der_tag tag) + length (ber_length k (length d)) - 1) = 0x80)"
proof (cases "d = []")
  case True
  have "last (ber_length k 0) = 0"
  proof (cases k)
    case 0
    then show ?thesis by (simp add: ber_length_def)
  next
    case (Suc n)
    then show ?thesis by (simp add: ber_length_def)
  qed
  moreover have "(der_tag tag @ ber_length k 0) ! (length (der_tag tag) + length (ber_length k 0) - 1) = last (ber_length k 0)"
    using last_conv_nth [of "der_tag tag @ ber_length k 0"] by simp
  ultimately show ?thesis using True by simp
qed simp

lemma not_eoc:
  assumes "der_tag tag @ ber_length k (length d) @ d = [0, 0]"
  shows "tag = 0 \<and> k = 0 \<and> d = []"
proof -
  have p: "parse_asn1_tag [0, 0] = (Some tag, ber_length k (length d) @ d)"
    unfolding parse_asn1_tag_iff using assms by simp
  moreover have "parse_asn1_tag [0, 0] = (Some 0, [0])"
    unfolding parse_asn1_tag_iff by (simp add: der_tag_def base128_def)
  ultimately have tag: "tag = 0" and r: "ber_length k (length d) @ d = [0]" by simp_all
  have "length (ber_length k (length d)) + length d = 1" using arg_cong [OF r, of length] by simp
  then show ?thesis using tag by (simp add: ber_length_def split: if_split_asm)
qed

lemma get_eoc: "CBS_get_any_ber_asn1_element (0 # 0 # rest) = (Some ([0, 0], 0, 2, False), rest)"
proof -
  have t: "der_tag 0 = [0]" by (simp add: der_tag_def)
  obtain f where "cbs_get_any_asn1_element True (der_tag 0 @ ber_length 0 (length []) @ [] @ rest) =
    (Some (der_tag 0 @ ber_length 0 (length []) @ [], 0, length (der_tag 0) + length (ber_length 0 (length [])), f), rest)"
    "f \<longleftrightarrow> ber_length 0 (length []) \<noteq> der_length (length [])"
    using get_definite [of 0 "[]" 0 rest] by (auto simp: ber_length_ok_def)
  then show ?thesis by (simp add: t CBS_get_any_ber_asn1_element_def ber_length_def der_length_short)
qed

lemmas cbs_convert_ber_rounds =
  cbs_convert_ber_round [OF convert_total]
  cbs_convert_ber_stop [OF convert_total]

text \<open>
  The bytes of one element, as the loop reads them: either a header of indefinite length or the whole
  element, with the test for the two.
\<close>

lemma read_ber:
  assumes wf: "ber_wf t"
  shows "(\<exists>tag vs. t = Indefinite tag vs \<and> tag AND CBS_ASN1_CONSTRUCTED \<noteq> 0 \<and> (\<forall>rest.
      CBS_get_any_ber_asn1_element (ber_bytes t @ rest) = (Some (der_tag tag @ [0x80], tag, length (der_tag tag) + 1, True),
        concat (map ber_bytes vs) @ [0, 0] @ rest))) \<or>
    (\<exists>tag hl d f. (t = Primitive tag (hl - Suc (length (der_tag tag))) d \<and> tag AND CBS_ASN1_CONSTRUCTED = 0 \<or>
        (\<exists>vs. t = Definite tag (hl - Suc (length (der_tag tag))) vs \<and> d = concat (map ber_bytes vs) \<and> tag AND CBS_ASN1_CONSTRUCTED \<noteq> 0)) \<and>
      (\<forall>rest. CBS_get_any_ber_asn1_element (ber_bytes t @ rest) = (Some (ber_bytes t, tag, hl, f), rest)) \<and>
      (f \<longleftrightarrow> ber_bytes t \<noteq> der_element tag d) \<and>
      ber_bytes t \<noteq> [0, 0] \<and> CBS_skip hl (ber_bytes t) = (Some (), d) \<and>
      \<not> (CBS_len (ber_bytes t) = hl \<and> 0 < hl \<and> ber_bytes t ! (hl - 1) = 0x80))"
proof -
  have definite: "(\<forall>rest. CBS_get_any_ber_asn1_element (s @ rest) = (Some (s, tag, hl, s \<noteq> der_element tag d), rest)) \<and>
      CBS_skip hl s = (Some (), d) \<and> \<not> (CBS_len s = hl \<and> 0 < hl \<and> s ! (hl - 1) = 0x80)"
    if "s = der_tag tag @ ber_length k (length d) @ d" "ber_length_ok k (length d)"
      "hl = length (der_tag tag) + length (ber_length k (length d))" for s hl tag k d
  proof (intro conjI allI)
    have eq: "ber_length k (length d) \<noteq> der_length (length d) \<longleftrightarrow> s \<noteq> der_element tag d"
      by (simp add: that(1) der_element_def der_header_def)
    show "CBS_get_any_ber_asn1_element (s @ rest) = (Some (s, tag, hl, s \<noteq> der_element tag d), rest)" for rest
      using get_definite [OF that(2), of tag rest] eq that(1,3) by (auto simp: CBS_get_any_ber_asn1_element_def)
    show "CBS_skip hl s = (Some (), d)" by (simp add: CBS_skip_eq_Some that(1,3))
    show "\<not> (CBS_len s = hl \<and> 0 < hl \<and> s ! (hl - 1) = 0x80)"
      using definite_last [OF that(2), of tag] unfolding that(1,3) CBS_len_def by blast
  qed
  have k: "length (ber_length k n) = Suc k" for k n by (simp add: ber_length_def)
  show ?thesis
  proof (cases t)
    case (Primitive tag k d)
    define hl where "hl = length (der_tag tag) + length (ber_length k (length d))"
    have "ber_bytes t \<noteq> [0, 0]" using not_eoc [of tag k d] wf by (auto simp: Primitive)
    then show ?thesis
      using definite [of "ber_bytes t" tag k d hl] wf
      by (intro disjI2 exI [of _ tag] exI [of _ hl] exI [of _ d] exI) (auto simp: Primitive hl_def k)
  next
    case (Definite tag k vs)
    define d where "d = concat (map ber_bytes vs)"
    define hl where "hl = length (der_tag tag) + length (ber_length k (length d))"
    have "ber_bytes t \<noteq> [0, 0]" using not_eoc [of tag k d] wf by (auto simp: Definite d_def Let_def)
    then show ?thesis
      using definite [of "ber_bytes t" tag k d hl] wf
      by (intro disjI2 exI [of _ tag] exI [of _ hl] exI [of _ d] exI) (auto simp: Definite hl_def d_def k Let_def)
  next
    case (Indefinite tag vs)
    show ?thesis
      using get_indefinite [of tag] wf
      by (intro disjI1 exI [of _ tag] exI [of _ vs]) (simp add: Indefinite CBS_get_any_ber_asn1_element_def)
  qed
qed

lemma and_not_id: "x AND m = 0 \<Longrightarrow> x AND NOT m = (x :: u32)"
  by (simp add: bit_eq_iff [where 'a = u32] bit_simps) blast

lemma and_not_and [simp]: "(x AND NOT m) AND m = (0 :: u32)"
  by (simp add: and.assoc)

lemma convert_write:
  assumes "list_all ber_wf ts" "list_all (shallow (kMaxDepth - depth)) ts" "depth \<le> kMaxDepth"
    and "if st = 0 then list_all strings_ok ts else list_all (fragment_of st) ts"
    and "st AND CBS_ASN1_CONSTRUCTED = 0"
  shows "\<exists>ins'. cbs_convert_ber a h st eoc depth (concat (map ber_bytes ts) @ (if eoc then [0, 0] @ rest else [])) c =
      (fst (write_bers a h st ts c), ins', snd (write_bers a h st ts c)) \<and>
    (fst (write_bers a h st ts c) \<noteq> None \<longrightarrow> ins' = (if eoc then rest else []))"
  using assms
proof (induction ts arbitrary: h st eoc depth rest c rule: measure_induct_rule [where f = "size_list size"])
  case (less ts)
  define tl where "tl = (if eoc then [0, 0] @ rest else [])"
  note depth = less.prems(3)
  show ?case
  proof (cases ts)
    case Nil
    show ?thesis
    proof (cases eoc)
      case True
      have go: "\<not> depth > kMaxDepth" "(0 :: u8) # 0 # rest \<noteq> []" using depth by simp_all
      obtain ro out1 where o: "(if st \<noteq> 0 then (Some (), c) else CBB_add_asn1 a h (if st \<noteq> 0 then h else local_cbb c) (out_tag_of st 0) c) = (ro, out1)"
        by (cases "if st \<noteq> 0 then (Some (), c) else CBB_add_asn1 a h (if st \<noteq> 0 then h else local_cbb c) (out_tag_of st 0) c")
      obtain rb ins2 out2 where b: "ber_body a (if st \<noteq> 0 then h else local_cbb c) (child_tag_of st 0) 0 depth 2 [0, 0] rest out1 = (rb, ins2, out2)"
        by (cases "ber_body a (if st \<noteq> 0 then h else local_cbb c) (child_tag_of st 0) 0 depth 2 [0, 0] rest out1") auto
      obtain rf out3 where f: "CBB_flush a h out2 = (rf, out3)" by (cases "CBB_flush a h out2")
      show ?thesis
        using cbs_convert_ber_rounds(1) [OF go get_eoc refl o b f, of eoc] True
        by (simp add: Nil is_eoc_def CBS_len_def)
    next
      case False
      then show ?thesis using cbs_convert_ber_rounds(2) [of depth "[]" a h st False c] depth by (simp add: Nil)
    qed
  next
    case (Cons t us)
    define R where "R = concat (map ber_bytes us) @ tl"
    have wf: "ber_wf t" and us: "list_all ber_wf us" "list_all (shallow (kMaxDepth - depth)) us"
      "if st = 0 then list_all strings_ok us else list_all (fragment_of st) us"
      using less.prems by (simp_all add: Cons split: if_split_asm)
    have IHus: "\<exists>ins'. cbs_convert_ber a h st eoc depth R c = (fst (write_bers a h st us c), ins', snd (write_bers a h st us c)) \<and>
        (fst (write_bers a h st us c) \<noteq> None \<longrightarrow> ins' = (if eoc then rest else []))" for c
      unfolding R_def tl_def using us depth less.prems(5) by (intro less.IH) (simp_all add: Cons)
    define child where "child = (if st \<noteq> 0 then h else local_cbb c)"
    have step: ?thesis
      if e: "CBS_get_any_ber_asn1_element (ber_bytes t @ R) = (Some (contents, tag, hl, f), ins1)"
        and go: "contents \<noteq> [0, 0]" "st \<noteq> 0 \<Longrightarrow> tag AND NOT CBS_ASN1_CONSTRUCTED = st"
        and body: "\<And>c. \<exists>i. ber_body a child (child_tag_of st tag) tag depth hl contents ins1 c =
          (fst (m c), i, snd (m c)) \<and> (fst (m c) \<noteq> None \<longrightarrow> i = R)"
        and w: "write_ber a h st t c = pbind (if st \<noteq> 0 then (Some (), c) else CBB_add_asn1 a h child (out_tag_of st tag) c) (\<lambda>_. m)"
      for contents tag hl f ins1 m
    proof -
      have d: "\<not> depth > kMaxDepth" using depth by simp
      have ne: "ber_bytes t @ R \<noteq> []" using e by (auto simp: CBS_get_any_ber_asn1_element_def dest: element_split)
      obtain ro out1 where o: "(if st \<noteq> 0 then (Some (), c) else CBB_add_asn1 a h child (out_tag_of st tag) c) = (ro, out1)"
        by (cases "if st \<noteq> 0 then (Some (), c) else CBB_add_asn1 a h child (out_tag_of st tag) c")
      obtain rb out2 where m: "m out1 = (rb, out2)" by (cases "m out1")
      obtain ins2 where b: "ber_body a child (child_tag_of st tag) tag depth hl contents ins1 out1 = (rb, ins2, out2)"
        and i2: "rb \<noteq> None \<longrightarrow> ins2 = R" using body [of out1] m by auto
      obtain rf out3 where f: "CBB_flush a h out2 = (rf, out3)" by (cases "CBB_flush a h out2")
      have "\<not> is_eoc hl contents" using go by (auto simp: is_eoc_def)
      then have eq: "cbs_convert_ber a h st eoc depth (ber_bytes t @ R) c =
          (if ro = None then (None, ins1, out1) else if rb = None then (None, ins2, out2)
           else if rf = None then (None, ins2, out3) else cbs_convert_ber a h st eoc depth ins2 out3)"
        using cbs_convert_ber_rounds(1) [OF d ne e child_def o b f, of eoc] go(2) by auto
      have wb: "write_bers a h st (t # us) c =
          (if ro = None then (None, out1) else if rb = None then (None, out2)
           else if rf = None then (None, out3) else write_bers a h st us out3)"
        unfolding write_bers.simps w o by (cases ro; cases rb; cases rf) (simp_all add: m f)
      have i: "concat (map ber_bytes (t # us)) @ (if eoc then [0, 0] @ rest else []) = ber_bytes t @ R"
        by (simp add: R_def tl_def)
      show ?thesis unfolding Cons i eq wb using IHus [of out3] i2
        by (cases ro; cases rb; cases rf) simp_all
    qed
    have childok: "(if child_tag_of st tag = 0 then list_all strings_ok vs else list_all (fragment_of (child_tag_of st tag)) vs) \<and>
        child_tag_of st tag AND CBS_ASN1_CONSTRUCTED = 0 \<and> (st \<noteq> 0 \<longrightarrow> tag AND NOT CBS_ASN1_CONSTRUCTED = st)"
      if "tag AND CBS_ASN1_CONSTRUCTED \<noteq> 0" "t = Definite tag k vs \<or> t = Indefinite tag vs" for tag k vs
      using less.prems(4,5) that string_tag_not_0 [of tag]
      by (auto simp: Cons child_tag_of_def out_tag_of_def split: if_split_asm)
    have IHvs: "\<exists>ins'. cbs_convert_ber a child (child_tag_of st tag) eoc' (depth + 1) (concat (map ber_bytes vs) @ (if eoc' then [0, 0] @ rest' else [])) c =
          (fst (write_bers a child (child_tag_of st tag) vs c), ins', snd (write_bers a child (child_tag_of st tag) vs c)) \<and>
        (fst (write_bers a child (child_tag_of st tag) vs c) \<noteq> None \<longrightarrow> ins' = (if eoc' then rest' else []))"
      if "tag AND CBS_ASN1_CONSTRUCTED \<noteq> 0" "t = Definite tag k vs \<or> t = Indefinite tag vs" for tag k vs c eoc' rest'
      using childok [OF that] that wf less.prems(2) by (intro less.IH) (auto simp: Cons)
    from read_ber [OF wf] show ?thesis
    proof (elim disjE exE conjE)
      fix tag vs
      assume t: "t = Indefinite tag vs" and con: "tag AND CBS_ASN1_CONSTRUCTED \<noteq> 0" and
        e: "\<forall>rest. CBS_get_any_ber_asn1_element (ber_bytes t @ rest) =
          (Some (der_tag tag @ [0x80], tag, length (der_tag tag) + 1, True), concat (map ber_bytes vs) @ [0, 0] @ rest)"
      show ?thesis
      proof (rule step [OF e [rule_format], of "write_bers a child (child_tag_of st tag) vs"])
        show "der_tag tag @ [0x80] \<noteq> [0, 0]" by (simp add: append_eq_Cons_conv)
        show "tag AND NOT CBS_ASN1_CONSTRUCTED = st" if "st \<noteq> 0" using childok [OF con] t that by blast
        show "write_ber a h st t c = pbind (if st \<noteq> 0 then (Some (), c) else CBB_add_asn1 a h child (out_tag_of st tag) c)
            (\<lambda>_. write_bers a child (child_tag_of st tag) vs)" by (simp add: t child_def Let_def)
        show "\<exists>i. ber_body a child (child_tag_of st tag) tag depth (length (der_tag tag) + 1) (der_tag tag @ [0x80])
              (concat (map ber_bytes vs) @ [0, 0] @ R) c =
            (fst (write_bers a child (child_tag_of st tag) vs c), i, snd (write_bers a child (child_tag_of st tag) vs c)) \<and>
            (fst (write_bers a child (child_tag_of st tag) vs c) \<noteq> None \<longrightarrow> i = R)" for c
          using IHvs [OF con, of undefined vs True R c] t by (simp add: ber_body_def CBS_len_def nth_append)
      qed
    next
      fix tag hl d f
      assume e: "\<forall>rest. CBS_get_any_ber_asn1_element (ber_bytes t @ rest) = (Some (ber_bytes t, tag, hl, f), rest)"
        and ne: "ber_bytes t \<noteq> [0, 0]" and sk: "CBS_skip hl (ber_bytes t) = (Some (), d)"
        and l: "\<not> (CBS_len (ber_bytes t) = hl \<and> 0 < hl \<and> ber_bytes t ! (hl - 1) = 0x80)"
      {
        assume t: "t = Primitive tag (hl - Suc (length (der_tag tag))) d" and con: "tag AND CBS_ASN1_CONSTRUCTED = 0"
        show ?thesis
        proof (rule step [OF e [rule_format] ne, of "CBB_add_bytes a child d"])
          show "tag AND NOT CBS_ASN1_CONSTRUCTED = st" if "st \<noteq> 0"
            using less.prems(4) that and_not_id [OF con] by (auto simp: Cons t)
          show "write_ber a h st t c = pbind (if st \<noteq> 0 then (Some (), c) else CBB_add_asn1 a h child (out_tag_of st tag) c)
              (\<lambda>_. CBB_add_bytes a child d)" by (simp add: t child_def out_tag_of_def con Let_def)
          show "\<exists>i. ber_body a child (child_tag_of st tag) tag depth hl (ber_bytes t) R c =
              (fst (CBB_add_bytes a child d c), i, snd (CBB_add_bytes a child d c)) \<and>
              (fst (CBB_add_bytes a child d c) \<noteq> None \<longrightarrow> i = R)" for c
            unfolding ber_body_def if_not_P [OF l] sk by (simp add: con case_prod_unfold)
        qed
      next
        fix vs
        assume t: "t = Definite tag (hl - Suc (length (der_tag tag))) vs" and d: "d = concat (map ber_bytes vs)"
          and con: "tag AND CBS_ASN1_CONSTRUCTED \<noteq> 0"
        show ?thesis
        proof (rule step [OF e [rule_format] ne, of "write_bers a child (child_tag_of st tag) vs"])
          show "tag AND NOT CBS_ASN1_CONSTRUCTED = st" if "st \<noteq> 0" using childok [OF con] t that by blast
          show "write_ber a h st t c = pbind (if st \<noteq> 0 then (Some (), c) else CBB_add_asn1 a h child (out_tag_of st tag) c)
              (\<lambda>_. write_bers a child (child_tag_of st tag) vs)" by (simp add: t child_def Let_def)
          show "\<exists>i. ber_body a child (child_tag_of st tag) tag depth hl (ber_bytes t) R c =
              (fst (write_bers a child (child_tag_of st tag) vs c), i, snd (write_bers a child (child_tag_of st tag) vs c)) \<and>
              (fst (write_bers a child (child_tag_of st tag) vs c) \<noteq> None \<longrightarrow> i = R)" for c
            unfolding ber_body_def if_not_P [OF l] sk
            using IHvs [OF con, of "hl - Suc (length (der_tag tag))" vs False "[]" c] t d con by auto
        qed
      }
    qed
  qed
qed

section \<open>The search\<close>

fun ber_form :: "ber \<Rightarrow> bool" where
  "ber_form (Primitive tag k d) \<longleftrightarrow> ber_bytes (Primitive tag k d) \<noteq> der_element tag d"
| "ber_form (Definite tag k ts) \<longleftrightarrow>
     ber_bytes (Definite tag k ts) \<noteq> der_element tag (concat (map ber_bytes ts)) \<or> is_string_type tag"
| "ber_form (Indefinite tag ts) \<longleftrightarrow> True"

fun children :: "ber \<Rightarrow> ber list" where
  "children (Primitive tag k d) = []"
| "children (Definite tag k ts) = ts"
| "children (Indefinite tag ts) = ts"

lemma size_children: "size_list size (children t) \<le> size t"
  by (cases t) simp_all

function reported :: "bool \<Rightarrow> ber list \<Rightarrow> bool" where
  "reported found [] = found"
| "reported found (t # ts) = (if ber_form t then True else reported (reported False (children t)) ts)"
  by pat_completeness auto
termination
  by (relation "measure (\<lambda>(_, ts). size_list size ts)") (auto simp: size_children less_Suc_eq_le intro: le_trans [OF size_children])

lemma find_ber_loop_eq:
  assumes "list_all ber_wf ts" "list_all (shallow (kMaxDepth - depth)) ts" "depth \<le> kMaxDepth"
  shows "find_ber_loop depth found (concat (map ber_bytes ts)) = Some (reported found ts)"
  using assms
proof (induction found ts arbitrary: depth rule: reported.induct)
  case (1 found)
  then show ?case by (simp add: find_ber_loop.simps [of _ _ "[]"] CBS_len_def)
next
  case (2 found t ts)
  note depth = 2(5)
  define R where "R = concat (map ber_bytes ts)"
  have wf: "ber_wf t" using 2(3) by simp
  have d: "\<not> depth > kMaxDepth" using depth by simp
  have s: "concat (map ber_bytes (t # ts)) = ber_bytes t @ R" by (simp add: R_def)
  have loop: "find_ber_loop depth found (ber_bytes t @ R) =
      (if f then Some True
       else if tag AND CBS_ASN1_CONSTRUCTED \<noteq> 0 then
         if is_string_type tag then Some True
         else case CBS_skip hl contents of (None, _) \<Rightarrow> None
           | (Some _, contents) \<Rightarrow>
             (case find_ber_loop (depth + 1) False contents of None \<Rightarrow> None
              | Some ber_found \<Rightarrow> find_ber_loop depth ber_found ins)
       else find_ber_loop depth f ins)"
    if "CBS_get_any_ber_asn1_element (ber_bytes t @ R) = (Some (contents, tag, hl, f), ins)"
    for contents tag hl f ins found
  proof -
    have "ber_bytes t @ R \<noteq> []" using that by (auto simp: CBS_get_any_ber_asn1_element_def dest: element_split)
    then show ?thesis using d that by (subst find_ber_loop.simps) (simp add: CBS_len_def)
  qed
  from read_ber [OF wf] show ?case unfolding s
  proof (elim disjE exE conjE)
    fix tag vs
    assume t: "t = Indefinite tag vs" and con: "tag AND CBS_ASN1_CONSTRUCTED \<noteq> 0" and
      e: "\<forall>rest. CBS_get_any_ber_asn1_element (ber_bytes t @ rest) =
        (Some (der_tag tag @ [0x80], tag, length (der_tag tag) + 1, True), concat (map ber_bytes vs) @ [0, 0] @ rest)"
    show "find_ber_loop depth found (ber_bytes t @ R) = Some (reported found (t # ts))"
      unfolding loop [OF e [rule_format]] by (simp add: t)
  next
    fix tag hl d f
    assume e: "\<forall>rest. CBS_get_any_ber_asn1_element (ber_bytes t @ rest) = (Some (ber_bytes t, tag, hl, f), rest)"
      and sk: "CBS_skip hl (ber_bytes t) = (Some (), d)" and f: "f \<longleftrightarrow> ber_bytes t \<noteq> der_element tag d"
    {
      assume t: "t = Primitive tag (hl - Suc (length (der_tag tag))) d" and con: "tag AND CBS_ASN1_CONSTRUCTED = 0"
      have bf: "ber_form t = f" unfolding f t by simp
      show "find_ber_loop depth found (ber_bytes t @ R) = Some (reported found (t # ts))"
      proof (cases f)
        case True
        then show ?thesis using bf unfolding loop [OF e [rule_format]] by simp
      next
        case False
        have "find_ber_loop depth False R = Some (reported False ts)"
          unfolding R_def using 2(2) [of depth] 2(3-5) False bf by (simp add: t)
        then show ?thesis using bf con False unfolding loop [OF e [rule_format]] by (simp add: t)
      qed
    next
      fix vs
      assume t: "t = Definite tag (hl - Suc (length (der_tag tag))) vs" and d: "d = concat (map ber_bytes vs)"
        and con: "tag AND CBS_ASN1_CONSTRUCTED \<noteq> 0"
      have bf: "ber_form t = (f \<or> is_string_type tag)" unfolding f t d by simp
      show "find_ber_loop depth found (ber_bytes t @ R) = Some (reported found (t # ts))"
      proof (cases "ber_form t")
        case True
        then show ?thesis using bf con unfolding loop [OF e [rule_format]] by auto
      next
        case False
        have "find_ber_loop (depth + 1) False d = Some (reported False vs)"
          unfolding d using 2(1) [OF False, of "depth + 1"] 2(3-5) by (simp add: t)
        moreover have "find_ber_loop depth (reported False vs) R = Some (reported (reported False vs) ts)"
          unfolding R_def using 2(2) [OF False, of depth] 2(3-5) by (simp add: t)
        ultimately show ?thesis using bf con False sk unfolding loop [OF e [rule_format]] by (simp add: t)
      qed
    }
  qed
qed

text \<open>Where there is something to convert, apart from the search: in an element, and in what can be seen of a
  list of elements.\<close>

fun holds_ber :: "ber \<Rightarrow> bool" where
  "holds_ber (Primitive tag k d) = ber_form (Primitive tag k d)"
| "holds_ber (Definite tag k ts) = (ber_form (Definite tag k ts) \<or> list_ex holds_ber ts)"
| "holds_ber (Indefinite tag ts) = True"

lemma size_last: "ts \<noteq> [] \<Longrightarrow> size (last ts) < size_list size ts"
  by (induction ts) (auto split: if_splits)

function in_sight :: "ber list \<Rightarrow> bool" where
  "in_sight ts =
     (if list_ex ber_form ts then True else if ts = [] then False else in_sight (children (last ts)))"
  by pat_completeness auto
termination
  by (relation "measure (size_list size)") (auto intro: le_less_trans [OF size_children size_last])

declare in_sight.simps [simp del]

lemma in_sight_Nil [simp]: "\<not> in_sight []"
  using in_sight.simps [of "[]"] by simp

lemma in_sight_single: "in_sight [t] \<longleftrightarrow> ber_form t \<or> in_sight (children t)"
  using in_sight.simps [of "[t]"] by simp

lemma in_sight_Cons: "in_sight (t # ts) \<longleftrightarrow> ber_form t \<or> in_sight (if ts = [] then children t else ts)"
proof (cases "ts = []")
  case False
  then show ?thesis using in_sight.simps [of "t # ts"] in_sight.simps [of ts] by auto
qed (simp add: in_sight_single)

lemma reported_in_sight: "reported found ts = (if ts = [] then found else in_sight ts)"
  by (induction found ts rule: reported.induct) (simp_all add: in_sight_Cons)

lemma reported_eq_in_sight: "reported False ts = in_sight ts"
  by (simp add: reported_in_sight)

lemma holds_ber_iff: "holds_ber t \<longleftrightarrow> ber_form t \<or> list_ex holds_ber (children t)"
  by (cases t) simp_all

lemma in_sight_holds: "in_sight ts \<Longrightarrow> list_ex holds_ber ts"
proof (induction ts rule: in_sight.induct)
  case (1 ts)
  show ?case
  proof (cases "list_ex ber_form ts")
    case True
    then obtain t where "t \<in> set ts" "ber_form t" by (auto simp: list_ex_iff)
    then show ?thesis using holds_ber_iff [of t] by (auto simp: list_ex_iff)
  next
    case False
    then have ts: "ts \<noteq> []" "in_sight (children (last ts))"
      using "1.prems" in_sight.simps [of ts] by (simp_all split: if_splits)
    with "1.IH" False have "holds_ber (last ts)" by (simp add: holds_ber_iff [of "last ts"])
    then show ?thesis using ts(1) by (auto simp: list_ex_iff)
  qed
qed

lemma no_ber_is_der:
  "\<not> list_ex holds_ber ts \<Longrightarrow> concat (map ber_bytes ts) = concat (map (encode \<circ> der_of) ts)"
proof -
  have one: "\<not> holds_ber t \<Longrightarrow> ber_bytes t = encode (der_of t)" for t
  proof (induction t)
    case (Definite tag k ts)
    have "map (\<lambda>t. encode (der_of t)) ts = map ber_bytes ts"
      using Definite by (simp add: list_ex_iff)
    then show ?case using Definite.prems by (simp add: comp_def del: map_eq_conv)
  qed simp_all
  assume "\<not> list_ex holds_ber ts"
  then have "map ber_bytes ts = map (encode \<circ> der_of) ts" using one by (simp add: list_ex_iff)
  then show ?thesis by (rule arg_cong)
qed

section \<open>The properties\<close>

lemma read_der_element:
  assumes "ber_wf t" "\<not> ber_form t"
  shows "\<exists>tag hl. CBS_get_any_asn1_element (ber_bytes t @ rest) = (Some (ber_bytes t, tag, hl), rest)"
proof -
  obtain tag d where d: "ber_bytes t = der_element tag d" "length d < 2 ^ 32"
  proof (cases t)
    case (Primitive tag k d)
    have "(256 :: nat) ^ k \<le> 256 ^ 4" if "k \<le> 4" using that by (rule power_increasing) simp
    then have "length d < 2 ^ 32" using assms(1) by (fastforce simp: Primitive ber_length_ok_def split: if_split_asm)
    then show ?thesis using assms(2) that by (simp add: Primitive)
  next
    case (Definite tag k vs)
    have "(256 :: nat) ^ k \<le> 256 ^ 4" if "k \<le> 4" using that by (rule power_increasing) simp
    then have "length (concat (map ber_bytes vs)) < 2 ^ 32"
      using assms(1) by (fastforce simp: Definite ber_length_ok_def split: if_split_asm)
    then show ?thesis using assms(2) that by (simp add: Definite)
  next
    case (Indefinite tag vs)
    then show ?thesis using assms(2) by simp
  qed
  then have "CBS_get_any_asn1_element (ber_bytes t @ rest) =
      (Some (ber_bytes t, tag, length (der_header tag (length d))), rest)"
    by (auto simp: CBS_get_any_asn1_element_iff)
  then show ?thesis by blast
qed

lemma implicit_string_loop_sound:
  "implicit_string_loop a h tag child c = (Some (), c') \<Longrightarrow>
   \<exists>chunks. child = concat (map (der_element tag) chunks) \<and> list_all (\<lambda>x. length x < 2 ^ 32) chunks"
proof (induction a h tag child c rule: implicit_string_loop.induct)
  case (1 a h tag child c)
  show ?case
  proof (cases "child = []")
    case True
    then show ?thesis by (intro exI [of _ "[]"]) simp
  next
    case False
    with 1(2) obtain x r c1 where x: "CBS_get_asn1 tag child = (Some x, r)" and
      b: "CBB_add_bytes a h x c = (Some (), c1)" and l: "implicit_string_loop a h tag r c1 = (Some (), c')"
      by (subst (asm) implicit_string_loop.simps)
        (auto simp: CBS_len_def pbind_eq_Some split: option.split_asm prod.split_asm)
    from False have "CBS_len child > 0" by (simp add: CBS_len_def)
    from 1(1) [OF this x [symmetric] refl b l]
    obtain chunks where "r = concat (map (der_element tag) chunks)" "list_all (\<lambda>x. length x < 2 ^ 32) chunks" by blast
    then show ?thesis using x by (intro exI [of _ "x # chunks"]) (simp add: CBS_get_asn1_iff)
  qed
qed

lemma implicit_string_loop_appends:
  "list_all (\<lambda>x. length x < 2 ^ 32) chunks \<Longrightarrow>
   appends a h (concat chunks) (implicit_string_loop a h tag (concat (map (der_element tag) chunks)))"
proof (induction chunks)
  case Nil
  have "implicit_string_loop a h tag [] = (\<lambda>c. (Some (), c))"
    by (rule ext) (simp add: implicit_string_loop.simps CBS_len_def)
  then show ?case using appends_return by simp
next
  case (Cons x chunks)
  define r where "r = concat (map (der_element tag) chunks)"
  have "CBS_get_asn1 tag (der_element tag x @ r) = (Some x, r)" using Cons.prems by (simp add: CBS_get_asn1_iff)
  moreover have "CBS_len (der_element tag x @ r) > 0"
    using length_der_element_less [of x tag] by (cases "der_element tag x") (auto simp: CBS_len_def)
  ultimately have "implicit_string_loop a h tag (der_element tag x @ r) c =
      pbind (CBB_add_bytes a h x c) (\<lambda>_. implicit_string_loop a h tag r)" for c
    by (subst implicit_string_loop.simps) simp
  then have eq: "implicit_string_loop a h tag (concat (map (der_element tag) (x # chunks))) =
      (\<lambda>c. pbind (CBB_add_bytes a h x c) (\<lambda>_. implicit_string_loop a h tag r))"
    by (simp add: fun_eq_iff r_def)
  have "appends a h (concat chunks) (implicit_string_loop a h tag r)"
    using Cons by (simp add: r_def)
  moreover have "length x < 2 ^ 64" using Cons.prems by simp
  ultimately show ?case unfolding eq concat.simps by (intro appends_bind CBB_add_bytes_appends)
qed

text \<open>The loop over the fragments of a string and the builder's last step, on an empty builder.\<close>

lemma fragments_joined:
  assumes c1: "rep [(0, Root, [])] c1" "\<And>n. n < 2 ^ 62 \<Longrightarrow> roomy a n c1" and child: "length child < 2 ^ 62"
  shows "(\<exists>c. pbind (implicit_string_loop a 0 inner child c1) (\<lambda>_ result. CBB_finish a 0 True True result) = (Some data, c)) \<longleftrightarrow>
    (\<exists>chunks. list_all (\<lambda>x. length x < 2 ^ 32) chunks \<and> child = concat (map (der_element inner) chunks) \<and>
      data = concat chunks)"
    (is "(\<exists>c. ?run = (Some data, c)) \<longleftrightarrow> _")
proof -
  have "\<exists>c. ?run = (Some (concat chunks), c)"
    if ch: "list_all (\<lambda>x. length x < 2 ^ 32) chunks" "child = concat (map (der_element inner) chunks)" for chunks
  proof -
    note app = implicit_string_loop_appends [OF ch(1)]
    have "length (concat chunks) \<le> length (concat (map (der_element inner) chunks))"
      using length_der_element by (induction chunks) (auto intro: add_mono)
    then have "length (concat chunks) < 2 ^ 62" using ch(2) child by simp
    then obtain c2 where l: "implicit_string_loop a 0 inner child c1 = (Some (), c2)"
      using appends_None [OF app, of "[]" 0 Root "[]" c1] c1 ch(2)
      by (cases "implicit_string_loop a 0 inner child c1"; cases "fst (implicit_string_loop a 0 inner child c1)") auto
    moreover have "rep [(0, Root, concat chunks)] c2"
      using appends_Some [OF app, of "[]" 0 Root "[]" c1] c1 ch(2) l by simp
    ultimately show ?thesis using CBB_finish_last by auto
  qed
  moreover have "\<exists>chunks. list_all (\<lambda>x. length x < 2 ^ 32) chunks \<and> child = concat (map (der_element inner) chunks)"
    if "?run = (Some data, c)" for c
    using that implicit_string_loop_sound by (fastforce simp: pbind_eq_Some)
  ultimately show ?thesis by fastforce
qed

text \<open>C15: \<open>CBS_get_asn1_implicit_string\<close> accepts exactly a primitive element with the outer tag, whose contents
  it returns in place, and a constructed one whose contents are elements with the inner tag, whose contents
  it joins in a buffer of its own.\<close>

theorem implicit_string_exact:
  assumes "plentiful a" "length s < 2 ^ 62" "outer AND CBS_ASN1_CONSTRUCTED = 0"
  shows "CBS_get_asn1_implicit_string a outer inner s = (Some (out, storage), rest) \<longleftrightarrow>
    (storage = None \<and> length out < 2 ^ 32 \<and> s = der_element outer out @ rest) \<or>
    (storage = Some out \<and>
     (\<exists>chunks. list_all (\<lambda>x. length x < 2 ^ 32) chunks \<and> out = concat chunks \<and>
        length (concat (map (der_element inner) chunks)) < 2 ^ 32 \<and>
        s = der_element (outer OR CBS_ASN1_CONSTRUCTED) (concat (map (der_element inner) chunks)) @ rest))"
proof -
  have "(outer OR CBS_ASN1_CONSTRUCTED) AND CBS_ASN1_CONSTRUCTED \<noteq> 0"
    using assms(3) by (simp add: bit.conj_disj_distrib2 CBS_ASN1_CONSTRUCTED_def)
  then have ne: "outer OR CBS_ASN1_CONSTRUCTED \<noteq> outer" using assms(3) by metis
  have tag: "parse_asn1_tag (der_element t x @ r) = (Some t, der_length (length x) @ x @ r)" for t x r
    by (simp add: parse_asn1_tag_iff der_element_def der_header_def)
  show ?thesis
  proof (cases "CBS_peek_asn1_tag outer s")
    case True
    then obtain r where "parse_asn1_tag s = (Some outer, r)" by (auto simp: CBS_peek_asn1_tag_iff parse_asn1_tag_iff)
    then have "s \<noteq> der_element (outer OR CBS_ASN1_CONSTRUCTED) x @ rest" for x using tag ne by auto
    then show ?thesis using True
      by (auto simp: CBS_get_asn1_implicit_string_def pbind_eq_Some CBS_get_asn1_iff)
  next
    case False
    have no: "s \<noteq> der_element outer out @ rest"
    proof
      assume "s = der_element outer out @ rest"
      then show False using False by (auto simp: CBS_peek_asn1_tag_iff der_element_def der_header_def)
    qed
    have "CBS_len s < 2 ^ 63" using assms(2) by (simp add: CBS_len_def)
    from CBB_init_plentiful [OF assms(1) this] obtain c1 where c1: "CBB_init a 0 (CBS_len s) = (Some (), c1)"
      "rep [(0, Root, [])] c1" "\<And>n. n < 2 ^ 62 \<Longrightarrow> roomy a n c1" by metis
    define run where "run child = pbind (implicit_string_loop a 0 inner child c1)
      (\<lambda>_ result. CBB_finish a 0 True True result)" for child
    note run = fragments_joined [where a = a and inner = inner, OF c1(2,3), folded run_def]
    have child: "length child < 2 ^ 62" if "CBS_get_asn1 (outer OR CBS_ASN1_CONSTRUCTED) s = (Some child, rest)" for child
      using CBS_get_asn1_shorter [OF that] assms(2) by linarith
    have "CBS_get_asn1_implicit_string a outer inner s = (Some (out, storage), rest) \<longleftrightarrow>
      (\<exists>child. CBS_get_asn1 (outer OR CBS_ASN1_CONSTRUCTED) s = (Some child, rest) \<and>
        (\<exists>c. run child = (Some out, c)) \<and> storage = Some out)"
    proof (cases "CBS_get_asn1 (outer OR CBS_ASN1_CONSTRUCTED) s")
      case (Pair r s')
      have eq: "CBS_get_asn1_implicit_string a outer inner s = pbind (r, s') (\<lambda>child ins.
          case run child of (None, _) \<Rightarrow> (None, ins) | (Some data, _) \<Rightarrow> (Some (CBS_init data (length data), Some data), ins))"
        using False unfolding CBS_get_asn1_implicit_string_def c1(1) Pair run_def by simp
      show ?thesis
      proof (cases r)
        case None
        then show ?thesis unfolding eq Pair by simp
      next
        case (Some child)
        obtain rr cc where "run child = (rr, cc)" by (cases "run child")
        then show ?thesis unfolding eq Pair by (cases rr) (auto simp: Some CBS_init_def)
      qed
    qed
    also have "\<dots> \<longleftrightarrow> (\<exists>child. CBS_get_asn1 (outer OR CBS_ASN1_CONSTRUCTED) s = (Some child, rest) \<and>
        (\<exists>chunks. list_all (\<lambda>x. length x < 2 ^ 32) chunks \<and>
          child = concat (map (der_element inner) chunks) \<and> out = concat chunks) \<and> storage = Some out)"
      by (intro iff_exI conj_cong refl run child)
    finally show ?thesis using no by (auto simp: CBS_get_asn1_iff)
  qed
qed

theorem implicit_string_exact_witness:
  "CBS_get_asn1_implicit_string plenty 0x80000000 4 [0xa0, 7, 4, 2, 1, 2, 4, 1, 3, 9] = (Some ([1, 2, 3], Some [1, 2, 3]), [9])"
proof -
  note eval = der_element_def der_header_def der_length_def der_tag_def CBS_ASN1_CONSTRUCTED_def
  have "[0xa0, 7, 4, 2, 1, 2, 4, 1, 3, 9] = der_element (0x80000000 OR CBS_ASN1_CONSTRUCTED)
      (concat (map (der_element 4) [[1, 2], [3]])) @ [9]" by (simp add: eval)
  then show ?thesis
    by (subst implicit_string_exact [OF plentiful_plenty])
      (simp_all add: eval, intro disjI2 exI [of _ "[[1, 2], [3]]"], simp add: eval)
qed

lemma ber_to_der_cases:
  assumes "plentiful a" "ts \<noteq> []" "list_all ber_wf ts" "list_all strings_ok ts" "list_all (shallow 2048) ts"
    and "length (concat (map ber_bytes ts)) < 2 ^ 63" "length (concat (map (encode \<circ> der_of) ts)) \<le> 0xfffffffe"
  shows "CBS_asn1_ber_to_der a (concat (map ber_bytes ts)) =
    (if in_sight ts
     then (Some (concat (map (encode \<circ> der_of) ts), Some (concat (map (encode \<circ> der_of) ts))), [])
     else (Some (ber_bytes (hd ts), None), concat (map ber_bytes (tl ts))))"
proof -
  define s where "s = concat (map ber_bytes ts)"
  define out where "out = concat (map (encode \<circ> der_of) ts)"
  have find: "cbs_find_ber s 0 = Some (in_sight ts)"
    unfolding cbs_find_ber_def s_def reported_eq_in_sight [symmetric]
    using assms(3,5) by (intro find_ber_loop_eq) (simp_all add: kMaxDepth_def)
  show ?thesis
  proof (cases "in_sight ts")
    case True
    have out: "out = concat (map (out_bytes 0) ts)" by (simp add: out_def encode_eq_out comp_def)
    have ap: "appends a 0 out (write_bers a 0 0 ts)"
      unfolding out using assms(3,7) by (intro write_bers_appends) (simp_all flip: out out_def)
    have "CBS_len s < 2 ^ 63" "length out < 2 ^ 62" using assms(6,7) by (simp_all add: CBS_len_def s_def out_def)
    from session [OF assms(1) this ap] obtain c1 c2 c3 where c:
      "CBB_init a 0 (CBS_len s) = (Some (), c1)" "write_bers a 0 0 ts c1 = (Some (), c2)"
      "CBB_finish a 0 True True c2 = (Some out, c3)" by blast
    have "cbs_convert_ber a 0 0 False 0 s c1 = (Some (), [], c2)"
      using convert_write [of ts 0 0 a 0 False undefined c1] assms(3,4,5) c(2) by (simp add: kMaxDepth_def s_def)
    then show ?thesis
      unfolding CBS_asn1_ber_to_der_def s_def [symmetric] out_def [symmetric] find
      using True c by (simp add: CBS_init_def)
  next
    case False
    obtain t us where ts: "ts = t # us" using assms(2) by (cases ts) auto
    have "\<not> ber_form t" using False by (simp add: ts in_sight_Cons)
    then obtain tag hl where "CBS_get_any_asn1_element s = (Some (ber_bytes t, tag, hl), concat (map ber_bytes us))"
      using read_der_element [of t "concat (map ber_bytes us)"] assms(3) by (auto simp: ts s_def)
    then show ?thesis
      unfolding CBS_asn1_ber_to_der_def s_def [symmetric] out_def [symmetric] find
      using False by (simp add: ts)
  qed
qed

text \<open>C14: On the bytes of any BER elements, nested at most 2048 deep, \<open>CBS_asn1_ber_to_der\<close> succeeds, and
  what it does depends on where there is anything to convert. Among the elements themselves, or among the
  elements of the last of them, or of the last of those, and so on: it consumes all of the input and returns
  the DER elements it stands for, with definite minimal lengths and the fragments of every string joined.
  Nowhere: it returns the first element as it is, without a copy. Somewhere, but only inside elements that
  are not the last of theirs: it also returns the first element as it is, although internal.h promises
  the conversion; the input need not be DER then.\<close>

theorem ber_to_der_exact:
  assumes "plentiful a" "ts \<noteq> []" "list_all ber_wf ts" "list_all strings_ok ts" "list_all (shallow 2048) ts"
    and "length (concat (map ber_bytes ts)) < 2 ^ 63" "length (concat (map (encode \<circ> der_of) ts)) \<le> 0xfffffffe"
  shows "(in_sight ts \<longrightarrow> list_ex holds_ber ts \<and>
      CBS_asn1_ber_to_der a (concat (map ber_bytes ts)) =
        (Some (concat (map (encode \<circ> der_of) ts), Some (concat (map (encode \<circ> der_of) ts))), [])) \<and>
    (\<not> list_ex holds_ber ts \<longrightarrow>
      CBS_asn1_ber_to_der a (concat (map ber_bytes ts)) =
        (Some (ber_bytes (hd ts), None), concat (map ber_bytes (tl ts))) \<and>
      concat (map ber_bytes ts) = concat (map (encode \<circ> der_of) ts)) \<and>
    (list_ex holds_ber ts \<and> \<not> in_sight ts \<longrightarrow>
      CBS_asn1_ber_to_der a (concat (map ber_bytes ts)) =
        (Some (ber_bytes (hd ts), None), concat (map ber_bytes (tl ts))))"
  using ber_to_der_cases [OF assms] in_sight_holds [of ts] no_ber_is_der [of ts] by auto

definition demo_ber :: "ber list" where
  "demo_ber = [Indefinite 0x20000010
     [Indefinite 0x20000004 [Primitive 4 0 [1], Definite 0x20000004 1 [Primitive 4 0 [2, 3]]], Primitive 5 0 []]]"

definition demo_hidden :: "ber list" where
  "demo_hidden = [Definite 0x20000010 0 [Definite 0x20000010 0 [Definite 0x20000004 0 []], Primitive 5 0 []]]"

theorem ber_to_der_exact_witness:
  "CBS_asn1_ber_to_der plenty [0x30, 0x80, 0x24, 0x80, 4, 1, 1, 0x24, 0x81, 4, 4, 2, 2, 3, 0, 0, 5, 0, 0, 0] =
     (Some ([0x30, 7, 4, 3, 1, 2, 3, 5, 0], Some [0x30, 7, 4, 3, 1, 2, 3, 5, 0]), []) \<and>
   CBS_asn1_ber_to_der plenty [0x30, 6, 0x30, 2, 0x24, 0, 5, 0] = (Some ([0x30, 6, 0x30, 2, 0x24, 0, 5, 0], None), [])"
proof -
  note eval = demo_ber_def demo_hidden_def CBS_ASN1_CONSTRUCTED_def ber_length_def der_tag_def Let_def is_string_type_def
    ber_length_ok_def der_element_def der_header_def der_length_def
  have b: "concat (map ber_bytes demo_ber) =
      [0x30, 0x80, 0x24, 0x80, 4, 1, 1, 0x24, 0x81, 4, 4, 2, 2, 3, 0, 0, 5, 0, 0, 0]" by (simp add: eval)
  have d: "concat (map (encode \<circ> der_of) demo_ber) = [0x30, 7, 4, 3, 1, 2, 3, 5, 0]" by (simp add: eval)
  have ok: "demo_ber \<noteq> []" "list_all ber_wf demo_ber" "list_all strings_ok demo_ber" "list_all (shallow 2048) demo_ber"
    by (simp_all add: eval)
  have "in_sight demo_ber" by (simp add: demo_ber_def in_sight_Cons)
  with ber_to_der_exact [OF plentiful_plenty ok] have
    "CBS_asn1_ber_to_der plenty [0x30, 0x80, 0x24, 0x80, 4, 1, 1, 0x24, 0x81, 4, 4, 2, 2, 3, 0, 0, 5, 0, 0, 0] =
       (Some ([0x30, 7, 4, 3, 1, 2, 3, 5, 0], Some [0x30, 7, 4, 3, 1, 2, 3, 5, 0]), [])"
    unfolding b d by simp
  moreover
  have hb: "concat (map ber_bytes demo_hidden) = [0x30, 6, 0x30, 2, 0x24, 0, 5, 0]"
    "concat (map (encode \<circ> der_of) demo_hidden) = [0x30, 6, 0x30, 2, 4, 0, 5, 0]"
    "ber_bytes (hd demo_hidden) = [0x30, 6, 0x30, 2, 0x24, 0, 5, 0]" "tl demo_hidden = []" by (simp_all add: eval)
  have hok: "demo_hidden \<noteq> []" "list_all ber_wf demo_hidden" "list_all strings_ok demo_hidden"
    "list_all (shallow 2048) demo_hidden"
    by (simp_all add: eval)
  have "list_ex holds_ber demo_hidden" "\<not> in_sight demo_hidden" by (simp_all add: eval in_sight_Cons)
  with ber_to_der_exact [OF plentiful_plenty hok] have
    "CBS_asn1_ber_to_der plenty [0x30, 6, 0x30, 2, 0x24, 0, 5, 0] = (Some ([0x30, 6, 0x30, 2, 0x24, 0, 5, 0], None), [])"
    unfolding hb by simp
  ultimately show ?thesis by blast
qed

text \<open>The outcome of a nested search is overwritten by the element that follows it: an empty constructed
  OCTET STRING inside an inner SEQUENCE that is not the last element of the outer one goes unnoticed, and the
  input, which is not DER, is handed out unconverted.\<close>

lemma ber_to_der_misses_nested_string:
  "CBS_asn1_ber_to_der a [0x30, 6, 0x30, 2, 0x24, 0, 5, 0] =
     (Some ([0x30, 6, 0x30, 2, 0x24, 0, 5, 0], None), []) \<and>
   cbs_find_ber [0x30, 4, 0x30, 2, 0x24, 0] 0 = Some True"
proof -
  have f: "cbs_find_ber [0x30, 6, 0x30, 2, 0x24, 0, 5, 0] 0 = Some False" by code_simp
  have g: "cbs_find_ber [0x30, 4, 0x30, 2, 0x24, 0] 0 = Some True" by code_simp
  have e: "CBS_get_any_asn1_element [0x30, 6, 0x30, 2, 0x24, 0, 5, 0] =
      (Some ([0x30, 6, 0x30, 2, 0x24, 0, 5, 0], 0x20000010, 2), [])" by code_simp
  show ?thesis by (simp add: CBS_asn1_ber_to_der_def f g e)
qed

end
