(* ===== verification/Constant_Time.thy ===== *)
theory Constant_Time
  imports Prelude
begin

text \<open>
  The branch-free comparisons and selections of \<open>crypto/internal.h\<close>, on words of 64 bits
  (\<open>crypto_word_t\<close> of a 64-bit build), and what they compute: all ones or zero. The assembly barriers
  of \<open>value_barrier_w\<close> return their argument.
\<close>

section \<open>The code\<close>

definition value_barrier_w :: "u64 \<Rightarrow> u64" where
  "value_barrier_w a = a"

definition constant_time_msb_w :: "u64 \<Rightarrow> u64" where
  "constant_time_msb_w a = 0 - drop_bit (8 * 8 - 1) a"

definition constant_time_lt_w :: "u64 \<Rightarrow> u64 \<Rightarrow> u64" where
  "constant_time_lt_w a b = constant_time_msb_w (a XOR ((a XOR b) OR ((a - b) XOR a)))"

definition constant_time_lt_8 :: "u64 \<Rightarrow> u64 \<Rightarrow> u8" where
  "constant_time_lt_8 a b = ucast (constant_time_lt_w a b)"

definition constant_time_ge_w :: "u64 \<Rightarrow> u64 \<Rightarrow> u64" where
  "constant_time_ge_w a b = NOT (constant_time_lt_w a b)"

definition constant_time_ge_8 :: "u64 \<Rightarrow> u64 \<Rightarrow> u8" where
  "constant_time_ge_8 a b = ucast (constant_time_ge_w a b)"

definition constant_time_is_zero_w :: "u64 \<Rightarrow> u64" where
  "constant_time_is_zero_w a = constant_time_msb_w (NOT a AND (a - 1))"

definition constant_time_is_zero_8 :: "u64 \<Rightarrow> u8" where
  "constant_time_is_zero_8 a = ucast (constant_time_is_zero_w a)"

definition constant_time_eq_w :: "u64 \<Rightarrow> u64 \<Rightarrow> u64" where
  "constant_time_eq_w a b = constant_time_is_zero_w (a XOR b)"

definition constant_time_eq_8 :: "u64 \<Rightarrow> u64 \<Rightarrow> u8" where
  "constant_time_eq_8 a b = ucast (constant_time_eq_w a b)"

text \<open>The arguments of the variants on \<open>int\<close> are sign-extended.\<close>

definition constant_time_eq_int :: "32 word \<Rightarrow> 32 word \<Rightarrow> u64" where
  "constant_time_eq_int a b = constant_time_eq_w (scast a) (scast b)"

definition constant_time_eq_int_8 :: "32 word \<Rightarrow> 32 word \<Rightarrow> u8" where
  "constant_time_eq_int_8 a b = constant_time_eq_8 (scast a) (scast b)"

definition constant_time_select_w :: "u64 \<Rightarrow> u64 \<Rightarrow> u64 \<Rightarrow> u64" where
  "constant_time_select_w msk a b = (value_barrier_w msk AND a) OR (value_barrier_w (NOT msk) AND b)"

definition constant_time_select_8 :: "u8 \<Rightarrow> u8 \<Rightarrow> u8 \<Rightarrow> u8" where
  "constant_time_select_8 msk a b = ucast (constant_time_select_w (ucast msk) (ucast a) (ucast b))"

definition constant_time_select_int :: "u64 \<Rightarrow> 32 word \<Rightarrow> 32 word \<Rightarrow> 32 word" where
  "constant_time_select_int msk a b = ucast (constant_time_select_w msk (scast a) (scast b))"

section \<open>Masks\<close>

text \<open>\<open>truth w c\<close>: the word \<open>w\<close> is the mask for \<open>c\<close>.\<close>

abbreviation all_ones :: "'a::len word" where "all_ones \<equiv> - 1"

lemma unat_div_63: "unat (w :: u64) div 2 ^ 63 = (if 9223372036854775808 \<le> unat w then 1 else 0)"
proof (cases "9223372036854775808 \<le> unat w")
  case True
  have "unat w < 18446744073709551616" by (rule unat_u64_lt)
  then have "unat w div 2 ^ 63 = 1" using True by (intro div_nat_eqI) simp_all
  then show ?thesis using True by simp
qed simp

lemma bit_63: "bit (w :: u64) 63 \<longleftrightarrow> 9223372036854775808 \<le> unat w"
proof -
  have "bit w 63 \<longleftrightarrow> bit (unat w) 63" by (simp add: bit_unsigned_iff)
  also have "\<dots> \<longleftrightarrow> odd (unat w div 2 ^ 63)" by (rule bit_iff_odd)
  finally show ?thesis unfolding unat_div_63 by simp
qed

lemma constant_time_msb_w_eq: "constant_time_msb_w w = (if bit w 63 then all_ones else 0)"
proof -
  have "unat (drop_bit 63 w) = (if bit w 63 then 1 else 0)" unfolding bit_63 unat_drop_bit unat_div_63 ..
  then have "drop_bit 63 w = (if bit w 63 then 1 else 0)" by (simp add: word_unat_eq_iff split: if_split_asm)
  then show ?thesis by (simp add: constant_time_msb_w_def)
qed

lemma unat_neg: "w \<noteq> 0 \<Longrightarrow> unat (- (w :: u64)) = 18446744073709551616 - unat w"
proof -
  assume "w \<noteq> 0"
  then have "0 < unat w" by (simp add: unat_gt_0)
  moreover have lt: "unat w < 18446744073709551616" by (rule unat_u64_lt)
  moreover have "of_nat (18446744073709551616 - unat w) = (- w :: u64)"
  proof -
    have "(of_nat 18446744073709551616 :: u64) = 0" by (simp only: word_of_nat_eq_0_iff) simp
    then show ?thesis using of_nat_diff [of "unat w" 18446744073709551616, where 'a = u64] lt
      by (simp only: of_nat_unat) simp
  qed
  moreover have "unat (of_nat n :: u64) = n" if "n < 18446744073709551616" for n
    using that by (intro unat_of_nat_small) simp
  ultimately show ?thesis by (metis diff_less zero_less_numeral)
qed

lemma bit_63_minus:
  assumes "bit a 63 \<longleftrightarrow> bit (b :: u64) 63"
  shows "bit (a - b) 63 \<longleftrightarrow> unat a < unat b"
proof -
  have lt: "unat a < 18446744073709551616" "unat b < 18446744073709551616" by (rule unat_u64_lt)+
  show ?thesis
  proof (cases "unat b \<le> unat a")
    case True
    then have "unat (a - b) = unat a - unat b" by (intro unat_sub) (simp add: word_le_nat_alt)
    then show ?thesis using True assms lt unfolding bit_63 by linarith
  next
    case False
    then have d: "unat (b - a) = unat b - unat a" by (intro unat_sub) (simp add: word_le_nat_alt)
    have "a - b = - (b - a)" by simp
    then have "unat (a - b) = 18446744073709551616 - unat (b - a)"
      using False d unat_neg [of "b - a"] by auto
    then show ?thesis using False d assms lt unfolding bit_63 by linarith
  qed
qed

lemma constant_time_lt_w_eq [simp]: "constant_time_lt_w a b = (if a < b then all_ones else 0)"
proof (cases "bit a 63 \<longleftrightarrow> bit b 63")
  case True
  then show ?thesis using bit_63_minus [OF True]
    by (auto simp: constant_time_lt_w_def constant_time_msb_w_eq bit_simps word_less_nat_alt)
next
  case False
  then have "a < b \<longleftrightarrow> bit b 63" by (auto simp: bit_63 word_less_nat_alt)
  then show ?thesis using False by (auto simp: constant_time_lt_w_def constant_time_msb_w_eq bit_simps)
qed

lemma constant_time_is_zero_w_eq [simp]: "constant_time_is_zero_w a = (if a = 0 then all_ones else 0)"
proof (cases "a = 0")
  case True
  then show ?thesis by (simp add: constant_time_is_zero_w_def constant_time_msb_w_eq bit_simps)
next
  case False
  then have "unat (a - 1) = unat a - 1" by (rule unat_minus_one)
  moreover have "unat a < 18446744073709551616" by (rule unat_u64_lt)
  ultimately have "\<not> (\<not> bit a 63 \<and> bit (a - 1) 63)" unfolding bit_63 by linarith
  then show ?thesis using False by (simp add: constant_time_is_zero_w_def constant_time_msb_w_eq bit_simps)
qed

lemma constant_time_eq_w_eq [simp]: "constant_time_eq_w a b = (if a = b then all_ones else 0)"
proof -
  have "a = (a XOR b) XOR b" by (simp add: xor.assoc)
  then have "a XOR b = 0 \<Longrightarrow> a = b" by simp
  then show ?thesis by (auto simp: constant_time_eq_w_def)
qed

lemma constant_time_select_w_eq [simp]:
  "constant_time_select_w (if c then all_ones else 0) a b = (if c then a else b)"
  by (simp add: constant_time_select_w_def value_barrier_w_def)

lemma ucast_ones [simp]: "(ucast (all_ones :: u64) :: u8) = all_ones"
  by (rule bit_eqI) (simp add: bit_simps)

lemma constant_time_eq_8_eq [simp]: "constant_time_eq_8 a b = (if a = b then all_ones else 0)"
  by (simp add: constant_time_eq_8_def)

lemma ucast_all_ones: "(ucast (all_ones :: u8) :: u64) = mask 8"
  by (rule bit_eqI) (auto simp: bit_simps)

lemma constant_time_select_8_eq [simp]:
  "constant_time_select_8 (if c then all_ones else 0) a b = (if c then a else b)"
proof -
  have "ucast ((mask 8 AND ucast a) OR (NOT (mask 8) AND ucast b) :: u64) = (a :: u8)"
    by (rule bit_eqI) (auto simp: bit_simps)
  moreover have "ucast (ucast b :: u64) = b" by (simp add: word_unat_eq_iff word_nat)
  ultimately show ?thesis
    by (simp only: constant_time_select_8_def constant_time_select_w_def value_barrier_w_def if_split)
      (simp add: ucast_all_ones)
qed

text \<open>C22: The branch-free comparisons compute what they are named for, on all pairs of 64-bit words: all ones
  for true and 0 for false, and a selection by such a mask returns the chosen argument.\<close>

theorem constant_time_masks:
  "constant_time_lt_w a b = (if a < b then all_ones else 0) \<and>
   constant_time_ge_w a b = (if a \<ge> b then all_ones else 0) \<and>
   constant_time_is_zero_w a = (if a = 0 then all_ones else 0) \<and>
   constant_time_eq_w a b = (if a = b then all_ones else 0) \<and>
   constant_time_lt_8 a b = (if a < b then all_ones else 0) \<and>
   constant_time_ge_8 a b = (if a \<ge> b then all_ones else 0) \<and>
   constant_time_select_w (constant_time_lt_w a b) c d = (if a < b then c else d) \<and>
   constant_time_select_8 (constant_time_eq_8 a b) x y = (if a = b then x else y)"
  by (auto simp: constant_time_ge_w_def constant_time_lt_8_def constant_time_ge_8_def not_less)

end
