(* ===== verification/Base64.thy ===== *)
theory Base64
  imports Constant_Time
begin

text \<open>
  Base64 (\<open>crypto/base64/base64.c\<close>): the one-shot and the streaming encoder, and the one-shot and the
  streaming decoder, against the encoding of RFC 4648 written out on numbers.
\<close>

section \<open>The code\<close>

definition constant_time_lt_args_8 :: "u8 \<Rightarrow> u8 \<Rightarrow> u8" where
  "constant_time_lt_args_8 a b = ucast (constant_time_msb_w (ucast a - ucast b))"

definition constant_time_in_range_8 :: "u8 \<Rightarrow> u8 \<Rightarrow> u8 \<Rightarrow> u8" where
  "constant_time_in_range_8 a lo hi = constant_time_lt_args_8 (a - lo) (hi - lo + 1)"

definition conv_bin2ascii :: "u8 \<Rightarrow> u8" where
  "conv_bin2ascii a =
     (let a = a AND 0x3f;
          ret = constant_time_select_8 (constant_time_eq_8 (ucast a) 62) 0x2b 0x2f;
          ret = constant_time_select_8 (constant_time_lt_args_8 a 62) (a - 52 + 0x30) ret;
          ret = constant_time_select_8 (constant_time_lt_args_8 a 52) (a - 26 + 0x61) ret;
          ret = constant_time_select_8 (constant_time_lt_args_8 a 26) (a + 0x41) ret
      in ret)"

definition EVP_EncodedLength :: "nat \<Rightarrow> nat option" where
  "EVP_EncodedLength len =
     (if size_wrap (len + 2) < len then None
      else let len = size_wrap (len + 2) div 3 in
        if size_wrap (len * 4) div 4 \<noteq> len then None
        else let len = size_wrap (len * 4) in
          if size_wrap (len + 1) < len then None else Some (size_wrap (len + 1)))"

record evp_encode_ctx =
  data_used :: nat
  data :: bytes
  eof_seen :: bool
  error_encountered :: bool

definition EVP_EncodeInit :: "evp_encode_ctx" where
  "EVP_EncodeInit = \<lparr>data_used = 0, data = replicate 48 0, eof_seen = False, error_encountered = False\<rparr>"

fun encode_block_loop :: "bytes \<Rightarrow> bytes" where
  "encode_block_loop [] = []"
| "encode_block_loop [x] =
     (let l = push_bit 16 (ucast x) :: u32 in
      [conv_bin2ascii (ucast (drop_bit 18 l)), conv_bin2ascii (ucast (drop_bit 12 l)), 0x3d, 0x3d])"
| "encode_block_loop [x, y] =
     (let l = push_bit 16 (ucast x) OR push_bit 8 (ucast y) :: u32 in
      [conv_bin2ascii (ucast (drop_bit 18 l)), conv_bin2ascii (ucast (drop_bit 12 l)),
       conv_bin2ascii (ucast (drop_bit 6 l)), 0x3d])"
| "encode_block_loop (x # y # z # src) =
     (let l = push_bit 16 (ucast x) OR push_bit 8 (ucast y) OR ucast z :: u32 in
      [conv_bin2ascii (ucast (drop_bit 18 l)), conv_bin2ascii (ucast (drop_bit 12 l)),
       conv_bin2ascii (ucast (drop_bit 6 l)), conv_bin2ascii (ucast l)] @ encode_block_loop src)"

text \<open>What the encoder writes to \<open>dst\<close>, with the NUL it ends in, and the length it returns.\<close>

definition EVP_EncodeBlock :: "bytes \<Rightarrow> bytes \<times> nat" where
  "EVP_EncodeBlock src = (let d = encode_block_loop src in (d @ [0], length d))"

text \<open>
  The streaming encoder returns the context, the bytes it has written at \<open>out\<close>, and \<open>*out_len\<close>. The NUL
  behind every line is overwritten by the line that follows it, so one is left at the end.
\<close>

definition store_data :: "nat \<Rightarrow> bytes \<Rightarrow> bytes \<Rightarrow> bytes" where
  "store_data i xs d = take i d @ xs @ drop (i + length xs) d"

definition encode_line :: "bytes \<Rightarrow> bytes \<times> nat" where
  "encode_line src = (case EVP_EncodeBlock src of (d, encoded) \<Rightarrow> (take encoded d @ [0x0a], encoded + 1))"

definition with_nul :: "bytes \<Rightarrow> bytes" where
  "with_nul out = (if out = [] then [] else out @ [0])"

function encode_update_loop :: "nat \<Rightarrow> bytes \<Rightarrow> bytes \<times> (nat \<times> bytes) option" where
  "encode_update_loop tot ins =
     (if length ins \<ge> 48 then
        (case encode_line (take 48 ins) of
           (line, n) \<Rightarrow>
             if size_wrap (tot + n) < tot then (line, None)
             else (case encode_update_loop (size_wrap (tot + n)) (drop 48 ins) of (out, r) \<Rightarrow> (line @ out, r)))
      else ([], Some (tot, ins)))"
  by pat_completeness auto
termination
  by (relation "measure (\<lambda>(_, ins). length ins)") auto

declare encode_update_loop.simps [simp del]

definition EVP_EncodeUpdate :: "evp_encode_ctx \<Rightarrow> bytes \<Rightarrow> evp_encode_ctx \<times> bytes \<times> nat" where
  "EVP_EncodeUpdate ctx ins =
     (if ins = [] then (ctx, [], 0)
      else if 48 - data_used ctx > length ins then
        (ctx\<lparr>data := store_data (data_used ctx) ins (data ctx), data_used := data_used ctx + length ins\<rparr>, [], 0)
      else
        (case
           (if data_used ctx \<noteq> 0 then
              let todo = 48 - data_used ctx;
                  ctx = ctx\<lparr>data := store_data (data_used ctx) (take todo ins) (data ctx)\<rparr>;
                  (line, n) = encode_line (data ctx)
              in (ctx\<lparr>data_used := 0\<rparr>, drop todo ins, line, n)
            else (ctx, ins, [], 0))
         of (ctx, ins, first, tot) \<Rightarrow>
           (case encode_update_loop tot ins of
              (out, None) \<Rightarrow> (ctx, with_nul (first @ out), 0)
            | (out, Some (tot, ins)) \<Rightarrow>
                let ctx = (if ins \<noteq> [] then ctx\<lparr>data := store_data 0 ins (data ctx)\<rparr> else ctx) in
                (ctx\<lparr>data_used := length ins\<rparr>, with_nul (first @ out), if tot > INT_MAX then 0 else tot))))"

definition EVP_EncodeFinal :: "evp_encode_ctx \<Rightarrow> evp_encode_ctx \<times> bytes \<times> nat" where
  "EVP_EncodeFinal ctx =
     (if data_used ctx = 0 then (ctx, [], 0)
      else case encode_line (take (data_used ctx) (data ctx)) of
        (line, n) \<Rightarrow> (ctx\<lparr>data_used := 0\<rparr>, with_nul line, n))"


definition EVP_DecodeInit :: "evp_encode_ctx" where
  "EVP_DecodeInit = \<lparr>data_used = 0, data = replicate 48 0, eof_seen = False, error_encountered = False\<rparr>"

definition base64_ascii_to_bin :: "u8 \<Rightarrow> u8" where
  "base64_ascii_to_bin a =
     (let is_upper = constant_time_in_range_8 a 0x41 0x5a;
          is_lower = constant_time_in_range_8 a 0x61 0x7a;
          is_digit = constant_time_in_range_8 a 0x30 0x39;
          is_plus = constant_time_eq_8 (ucast a) 0x2b;
          is_slash = constant_time_eq_8 (ucast a) 0x2f;
          is_equals = constant_time_eq_8 (ucast a) 0x3d;
          ret = 0;
          ret = ret OR (is_upper AND (a - 0x41));
          ret = ret OR (is_lower AND (a - 0x61 + 26));
          ret = ret OR (is_digit AND (a - 0x30 + 52));
          ret = ret OR (is_plus AND 62);
          ret = ret OR (is_slash AND 63);
          is_valid = is_upper OR is_lower OR is_digit OR is_plus OR is_slash OR is_equals
      in ret OR NOT is_valid)"

text \<open>The bytes written for four characters; their number is \<open>*out_num_bytes\<close>.\<close>

definition base64_decode_quad :: "u8 \<Rightarrow> u8 \<Rightarrow> u8 \<Rightarrow> u8 \<Rightarrow> bytes option" where
  "base64_decode_quad in0 in1 in2 in3 =
     (let a = base64_ascii_to_bin in0;
          b = base64_ascii_to_bin in1;
          c = base64_ascii_to_bin in2;
          d = base64_ascii_to_bin in3 in
      if a = 0xff \<or> b = 0xff \<or> c = 0xff \<or> d = 0xff then None
      else
        let v = push_bit 18 (ucast a) OR push_bit 12 (ucast b) OR push_bit 6 (ucast c) OR ucast d :: u32;
            padding_pattern = push_bit 3 (of_bool (in0 = 0x3d)) OR push_bit 2 (of_bool (in1 = 0x3d)) OR
              push_bit 1 (of_bool (in2 = 0x3d)) OR of_bool (in3 = 0x3d) :: u32 in
        if padding_pattern = 0 then Some [ucast (drop_bit 16 v), ucast (drop_bit 8 v), ucast v]
        else if padding_pattern = 1 then Some [ucast (drop_bit 16 v), ucast (drop_bit 8 v)]
        else if padding_pattern = 3 then Some [ucast (drop_bit 16 v)]
        else None)"

text \<open>The loop of the streaming decoder: the context, the bytes written, and whether it ran to the end.\<close>

fun decode_update_loop :: "evp_encode_ctx \<Rightarrow> bytes \<Rightarrow> evp_encode_ctx \<times> bytes \<times> bool" where
  "decode_update_loop ctx [] = (ctx, [], True)"
| "decode_update_loop ctx (c # ins) =
     (if c = 0x20 \<or> c = 0x09 \<or> c = 0x0d \<or> c = 0x0a then decode_update_loop ctx ins
      else if eof_seen ctx then (ctx\<lparr>error_encountered := True\<rparr>, [], False)
      else
        let ctx = ctx\<lparr>data := (data ctx)[data_used ctx := c], data_used := data_used ctx + 1\<rparr> in
        if data_used ctx = 4 then
          (case base64_decode_quad (data ctx ! 0) (data ctx ! 1) (data ctx ! 2) (data ctx ! 3) of
             None \<Rightarrow> (ctx\<lparr>error_encountered := True\<rparr>, [], False)
           | Some out \<Rightarrow>
               let ctx = ctx\<lparr>data_used := 0\<rparr>;
                   ctx = (if length out < 3 then ctx\<lparr>eof_seen := True\<rparr> else ctx)
               in (case decode_update_loop ctx ins of (ctx, rest, ok) \<Rightarrow> (ctx, out @ rest, ok)))
        else decode_update_loop ctx ins)"

text \<open>The context, the bytes at \<open>out\<close>, \<open>*out_len\<close>, and the return value.\<close>

definition EVP_DecodeUpdate :: "evp_encode_ctx \<Rightarrow> bytes \<Rightarrow> evp_encode_ctx \<times> bytes \<times> nat \<times> int" where
  "EVP_DecodeUpdate ctx ins =
     (if error_encountered ctx then (ctx, [], 0, -1)
      else case decode_update_loop ctx ins of
        (ctx, out, ok) \<Rightarrow>
          if \<not> ok then (ctx, out, 0, -1)
          else if length out > INT_MAX then (ctx\<lparr>error_encountered := True\<rparr>, out, 0, -1)
          else (ctx, out, length out, if eof_seen ctx then 0 else 1))"

definition EVP_DecodeFinal :: "evp_encode_ctx \<Rightarrow> int" where
  "EVP_DecodeFinal ctx = (if error_encountered ctx \<or> data_used ctx \<noteq> 0 then -1 else 1)"






section \<open>The alphabet\<close>

definition sextet_char :: "nat \<Rightarrow> u8" where
  "sextet_char n =
     (if n < 26 then of_nat (n + 65) else if n < 52 then of_nat (n + 71)
      else if n < 62 then of_nat (n - 4) else if n = 62 then 0x2b else 0x2f)"

lemma constant_time_lt_args_8_eq: "constant_time_lt_args_8 a b = (if a < b then all_ones else 0)"
proof -
  have "bit (ucast a - ucast b :: u64) 63 \<longleftrightarrow> unat (ucast a :: u64) < unat (ucast b :: u64)"
    using unat_u8_lt [of a, THEN order.strict_trans2, of 9223372036854775808]
      unat_u8_lt [of b, THEN order.strict_trans2, of 9223372036854775808]
    by (intro bit_63_minus) (simp add: bit_63 word_nat)
  then show ?thesis
    by (simp add: constant_time_lt_args_8_def constant_time_msb_w_eq word_nat word_less_nat_alt)
qed

lemma constant_time_in_range_8_eq:
  "constant_time_in_range_8 a lo hi = (if a - lo < hi - lo + 1 then all_ones else 0)"
  by (simp add: constant_time_in_range_8_def constant_time_lt_args_8_eq)

lemma ucast_eq_u64: "(ucast (a :: u8) :: u64) = n \<longleftrightarrow> unat a = unat n"
  by (simp add: word_unat_eq_iff word_nat)

lemma conv_bin2ascii_eq: "conv_bin2ascii a = sextet_char (unat a mod 64)"
proof -
  define b where "b = a AND 0x3f"
  have n: "unat b = unat a mod 64"
    by (simp add: b_def unat_and_bits [where k = 0 and n = 6] mask_eq_exp_minus_1)
  then have "unat b < 64" by simp
  moreover have "of_nat (unat b) = b" by simp
  moreover have "of_nat (unat b - 4) = b - 52 + 0x30" if "52 \<le> unat b"
    using that of_nat_diff [of 4 "unat b", where 'a = u8] by simp
  ultimately show ?thesis
    by (simp add: conv_bin2ascii_def sextet_char_def Let_def constant_time_lt_args_8_eq ucast_eq_u64
        word_less_nat_alt flip: b_def n)
qed

definition sextet_of :: "u8 \<Rightarrow> nat option" where
  "sextet_of a =
     (let n = unat a in
      if 65 \<le> n \<and> n < 91 then Some (n - 65) else if 97 \<le> n \<and> n < 123 then Some (n - 71)
      else if 48 \<le> n \<and> n < 58 then Some (n + 4) else if n = 43 then Some 62 else if n = 47 then Some 63 else None)"

lemma sub_in_range:
  fixes a lo hi :: u8
  assumes "unat lo \<le> unat hi" "unat hi - unat lo < 255"
  shows "a - lo < hi - lo + 1 \<longleftrightarrow> unat lo \<le> unat a \<and> unat a \<le> unat hi"
proof -
  have d: "unat (hi - lo) = unat hi - unat lo" using assms(1) by (intro unat_sub) (simp add: word_le_nat_alt)
  then have h: "unat (hi - lo + 1) = unat hi - unat lo + 1"
    using assms(2) by (subst unat_add_lem [THEN iffD1]) simp_all
  show ?thesis
  proof (cases "unat lo \<le> unat a")
    case True
    then have "unat (a - lo) = unat a - unat lo" by (intro unat_sub) (simp add: word_le_nat_alt)
    then show ?thesis using True assms(1) by (auto simp: word_less_nat_alt h)
  next
    case False
    have lt: "unat lo < 256" "unat hi < 256" by (rule unat_u8_lt)+
    have "(of_nat (256 + unat a - unat lo) :: u8) = of_nat (256 + unat a) - of_nat (unat lo)"
      using lt by (intro of_nat_diff) linarith
    also have "\<dots> = a - lo" by simp
    finally have "unat (a - lo) = unat (of_nat (256 + unat a - unat lo) :: u8)" by simp
    also have "\<dots> = 256 + unat a - unat lo" using False by (intro unat_of_nat_small) simp
    finally have d: "unat (a - lo) = 256 + unat a - unat lo" .
    have "\<not> 256 + unat a - unat lo < unat hi - unat lo + 1" using False assms(1) lt by linarith
    then show ?thesis using False unfolding word_less_nat_alt h d by blast
  qed
qed

lemma of_nat_unat_diff: "k \<le> unat a \<Longrightarrow> of_nat (unat (a :: u8) - k) = a - of_nat k"
  by (simp add: of_nat_diff)

lemma base64_ascii_to_bin_eq:
  "base64_ascii_to_bin a = (case sextet_of a of Some n \<Rightarrow> of_nat n | None \<Rightarrow> if a = 0x3d then 0 else 0xff)"
proof -
  have r: "a - 0x41 < 26 \<longleftrightarrow> 65 \<le> unat a \<and> unat a \<le> 90" "a - 0x61 < 26 \<longleftrightarrow> 97 \<le> unat a \<and> unat a \<le> 122"
    "a - 0x30 < 10 \<longleftrightarrow> 48 \<le> unat a \<and> unat a \<le> 57"
    using sub_in_range [of "0x41" "0x5a" a] sub_in_range [of "0x61" "0x7a" a] sub_in_range [of "0x30" "0x39" a] by simp_all
  have eq: "base64_ascii_to_bin a =
      (if 65 \<le> unat a \<and> unat a \<le> 90 then a - 0x41 else 0) OR
      (if 97 \<le> unat a \<and> unat a \<le> 122 then a - 0x61 + 26 else 0) OR
      (if 48 \<le> unat a \<and> unat a \<le> 57 then a - 0x30 + 52 else 0) OR
      (if unat a = 43 then 62 else 0) OR (if unat a = 47 then 63 else 0) OR
      (if (65 \<le> unat a \<and> unat a \<le> 90) \<or> (97 \<le> unat a \<and> unat a \<le> 122) \<or> (48 \<le> unat a \<and> unat a \<le> 57) \<or>
          unat a = 43 \<or> unat a = 47 \<or> unat a = 61 then 0 else 0xff)"
    by (simp add: base64_ascii_to_bin_def Let_def constant_time_in_range_8_eq ucast_eq_u64 or.assoc r)
  have e: "a = 0x3d \<longleftrightarrow> unat a = 61" by (simp add: word_unat_eq_iff)
  consider "65 \<le> unat a" "unat a \<le> 90" | "97 \<le> unat a" "unat a \<le> 122" | "48 \<le> unat a" "unat a \<le> 57"
    | "unat a = 43" | "unat a = 47" | "unat a = 61"
    | "\<not> (65 \<le> unat a \<and> unat a \<le> 90)" "\<not> (97 \<le> unat a \<and> unat a \<le> 122)" "\<not> (48 \<le> unat a \<and> unat a \<le> 57)"
      "unat a \<noteq> 43" "unat a \<noteq> 47" "unat a \<noteq> 61" by blast
  then show ?thesis
  proof cases
    case 1
    then show ?thesis unfolding eq sextet_of_def by (simp add: of_nat_unat_diff)
  next
    case 2
    then show ?thesis unfolding eq sextet_of_def by (simp add: of_nat_unat_diff)
  next
    case 3
    then show ?thesis unfolding eq sextet_of_def by simp
  next
    case 7
    then show ?thesis unfolding eq sextet_of_def by (auto simp: Let_def e)
  qed (simp_all add: eq sextet_of_def e)
qed

lemma sextet_of_nat:
  "k < 256 \<Longrightarrow> sextet_of (of_nat k) =
     (if 65 \<le> k \<and> k < 91 then Some (k - 65) else if 97 \<le> k \<and> k < 123 then Some (k - 71)
      else if 48 \<le> k \<and> k < 58 then Some (k + 4) else if k = 43 then Some 62 else if k = 47 then Some 63 else None)"
  unfolding sextet_of_def Let_def by (simp only: unat_of_nat_small(1))

lemma sextet_of_char [simp]: "n < 64 \<Longrightarrow> sextet_of (sextet_char n) = Some n"
proof -
  assume "n < 64"
  then consider "n < 26" | "26 \<le> n" "n < 52" | "52 \<le> n" "n < 62" | "n = 62" | "n = 63" by linarith
  then show ?thesis
  proof cases
    case 1
    then show ?thesis using sextet_of_nat [of "n + 65"] by (simp add: sextet_char_def)
  next
    case 2
    then show ?thesis using sextet_of_nat [of "n + 71"] by (simp add: sextet_char_def)
  next
    case 3
    then obtain m where "n = 4 + m" using le_Suc_ex [of 4 n] by auto
    then show ?thesis using 3 sextet_of_nat [of m] by (simp add: sextet_char_def)
  qed (simp_all add: sextet_char_def sextet_of_def)
qed

lemma sextet_char_of: "sextet_of a = Some n \<Longrightarrow> n < 64 \<and> sextet_char n = a"
proof -
  define k where "k = unat a"
  then have a: "a = of_nat k" and k: "k < 256" "unat (of_nat k :: u8) = k" using unat_u8_lt [of a] by simp_all
  assume "sextet_of a = Some n"
  then consider "65 \<le> k" "k < 91" "n = k - 65" | "97 \<le> k" "k < 123" "n = k - 71" | "48 \<le> k" "k < 58" "n = k + 4"
    | "k = 43" "n = 62" | "k = 47" "n = 63"
    unfolding a by (auto simp: sextet_of_def Let_def k split: if_split_asm)
  then show ?thesis unfolding a by cases (simp_all add: sextet_char_def less_diff_conv2)
qed

lemma sextet_of_pad [simp]: "sextet_of 0x3d = None"
  by (simp add: sextet_of_def)

lemma sextet_char_not_pad [simp]: "n < 64 \<Longrightarrow> sextet_char n \<noteq> 0x3d"
  using sextet_of_char [of n] by (auto simp del: sextet_of_char)

section \<open>The encoding\<close>

fun base64 :: "bytes \<Rightarrow> bytes" where
  "base64 [] = []"
| "base64 [x] = [sextet_char (unat x div 4), sextet_char (unat x mod 4 * 16), 0x3d, 0x3d]"
| "base64 [x, y] =
     [sextet_char (unat x div 4), sextet_char (unat x mod 4 * 16 + unat y div 16),
      sextet_char (unat y mod 16 * 4), 0x3d]"
| "base64 (x # y # z # s) =
     [sextet_char (unat x div 4), sextet_char (unat x mod 4 * 16 + unat y div 16),
      sextet_char (unat y mod 16 * 4 + unat z div 64), sextet_char (unat z mod 64)] @ base64 s"

lemma triple_val:
  "unat (push_bit 16 (ucast x) OR push_bit 8 (ucast y) OR ucast (z :: u8) :: u32) =
   unat (x :: u8) * 65536 + unat (y :: u8) * 256 + unat z"
proof -
  have b: "unat x < 256" "unat y < 256" "unat z < 256" by (rule unat_u8_lt)+
  have "unat x < 65536" "unat y < 65536" using b by linarith+
  then have x: "unat (push_bit 16 (ucast x) :: u32) = unat x * 65536"
    unfolding unat_push_bit unat_ucast_wider by (subst mod_less) simp_all
  have y: "unat (push_bit 8 (ucast y) :: u32) = unat y * 256"
    unfolding unat_push_bit unat_ucast_wider using \<open>unat y < 65536\<close> by (subst mod_less) simp_all
  have yz: "unat (push_bit 8 (ucast y) OR ucast z :: u32) = unat y * 256 + unat z"
    using b by (subst unat_or_add [where n = 8]) (simp_all add: y unat_ucast_wider)
  have "unat y * 256 + unat z < 65536" using b by linarith
  then show ?thesis by (subst unat_or_add [where n = 16]) (simp_all add: x yz)
qed

lemma conv_shift:
  assumes "unat (l :: u32) = n"
  shows "conv_bin2ascii (ucast (drop_bit k l)) = sextet_char (n div 2 ^ k mod 64)"
proof -
  have "unat (ucast (drop_bit k l) :: u8) mod 64 = n div 2 ^ k mod 64"
    by (simp add: word_nat assms mod_mod_cancel)
  then show ?thesis by (simp add: conv_bin2ascii_eq)
qed

lemma sextets_of_triple:
  assumes "x < 256" "y < 256" "z < 256" "n = x * 65536 + y * 256 + (z :: nat)"
  shows "n div 2 ^ 18 mod 64 = x div 4" "n div 2 ^ 12 mod 64 = x mod 4 * 16 + y div 16"
    "n div 2 ^ 6 mod 64 = y mod 16 * 4 + z div 64" "n div 2 ^ 0 mod 64 = z mod 64"
proof -
  obtain x1 x0 where x: "x = x1 * 4 + x0" "x0 < 4" by (metis div_mult_mod_eq mod_less_divisor zero_less_numeral)
  obtain y1 y0 where y: "y = y1 * 16 + y0" "y0 < 16" by (metis div_mult_mod_eq mod_less_divisor zero_less_numeral)
  obtain z1 z0 where z: "z = z1 * 64 + z0" "z0 < 64" by (metis div_mult_mod_eq mod_less_divisor zero_less_numeral)
  have x': "x div 4 = x1" "x mod 4 = x0" and y': "y div 16 = y1" "y mod 16 = y0" and z': "z div 64 = z1" "z mod 64 = z0"
    using x y z by simp_all
  have join: "(q * 64 + r) mod 64 = r" if "r < 64" for q r :: nat using that by simp
  have lt: "x1 < 64" "y1 < 16" "z1 < 4" using assms(1-3) x y z by linarith+
  have "n div 2 ^ 18 = x1" using assms(4) x y z lt by (intro div_nat_eqI) simp_all
  then show "n div 2 ^ 18 mod 64 = x div 4" using lt by (simp add: x')
  have "n div 2 ^ 12 = x1 * 64 + (x0 * 16 + y1)" using assms(4) x y z lt by (intro div_nat_eqI) simp_all
  then show "n div 2 ^ 12 mod 64 = x mod 4 * 16 + y div 16" unfolding x' y' using lt x by (simp only:) (rule join, linarith)
  have "n div 2 ^ 6 = (x1 * 64 + (x0 * 16 + y1)) * 64 + (y0 * 4 + z1)"
    using assms(4) x y z lt by (intro div_nat_eqI) simp_all
  then show "n div 2 ^ 6 mod 64 = y mod 16 * 4 + z div 64" unfolding y' z' using lt y by (simp only:) (rule join, linarith)
  have "n = ((x1 * 64 + (x0 * 16 + y1)) * 64 + (y0 * 4 + z1)) * 64 + z0" using assms(4) x y z by simp
  then show "n div 2 ^ 0 mod 64 = z mod 64" unfolding z' using z by (simp only: power_0 div_by_1) (rule join)
qed

lemmas sextets = sextets_of_triple [OF unat_u8_lt unat_u8_lt unat_u8_lt refl]

lemma encode_block_loop_eq: "encode_block_loop s = base64 s"
proof (induction s rule: base64.induct)
  case (2 x)
  have l: "unat (push_bit 16 (ucast x) :: u32) = unat x * 65536 + unat (0 :: u8) * 256 + unat (0 :: u8)"
    using triple_val [of x 0 0] by simp
  show ?case
    unfolding encode_block_loop.simps base64.simps Let_def conv_shift [OF l] sextets
    by simp
next
  case (3 x y)
  have l: "unat (push_bit 16 (ucast x) OR push_bit 8 (ucast y) :: u32) = unat x * 65536 + unat y * 256 + unat (0 :: u8)"
    using triple_val [of x y 0] by simp
  show ?case
    unfolding encode_block_loop.simps base64.simps Let_def conv_shift [OF l] sextets
    by simp
next
  case (4 x y z s)
  note t = conv_shift [OF triple_val] conv_shift [OF triple_val, where k = 0, simplified drop_bit_0 id_apply]
  show ?case
    unfolding encode_block_loop.simps base64.simps Let_def 4 t sextets ..
qed simp

lemma length_base64: "length (base64 s) = (length s + 2) div 3 * 4"
proof (induction s rule: base64.induct)
  case (4 x y z s)
  have "length (x # y # z # s) + 2 = (length s + 2) + 3" by simp
  then have "(length (x # y # z # s) + 2) div 3 = (length s + 2) div 3 + 1" by (simp only: div_add_self2)
  then show ?case using 4 by simp
qed simp_all

section \<open>The streaming encoder\<close>

text \<open>Lines of 48 bytes, each in Base64 with a newline; the last one may be shorter.\<close>

function lines :: "bytes \<Rightarrow> bytes" where
  "lines s = (if s = [] then [] else base64 (take 48 s) @ [0x0a] @ lines (drop 48 s))"
  by pat_completeness auto
termination
  by (relation "measure length") auto

declare lines.simps [simp del]

lemma lines_Nil [simp]: "lines [] = []"
  by (simp add: lines.simps)

definition whole :: "bytes \<Rightarrow> nat" where "whole s = length s div 48 * 48"

lemma whole_less: "length s < 48 \<Longrightarrow> whole s = 0"
  by (simp add: whole_def)

lemma whole_step: "48 \<le> length s \<Longrightarrow> whole s = 48 + whole (drop 48 s)"
  by (simp add: whole_def le_div_geq)

lemma whole_le: "whole s \<le> length s"
  by (simp add: whole_def)

lemma lines_step: "length l = 48 \<Longrightarrow> lines (l @ s) = base64 l @ [0x0a] @ lines s"
  by (subst lines.simps) auto

lemma lines_append: "lines (take (whole s) s) @ lines (drop (whole s) s @ t) = lines (s @ t)"
proof (induction s rule: length_induct)
  case (1 s)
  show ?case
  proof (cases "length s < 48")
    case True
    then show ?thesis by (simp add: whole_less)
  next
    case False
    define l r where "l = take 48 s" and "r = drop 48 s"
    have s: "s = l @ r" and l: "length l = 48" using False by (simp_all add: l_def r_def)
    have w: "whole s = 48 + whole r" using whole_step [of s] False by (simp add: r_def)
    have "take (whole s) s = l @ take (whole r) r" "drop (whole s) s = drop (whole r) r"
      unfolding w using l by (simp_all add: s)
    moreover have "length r < length s" using l by (simp add: s)
    with 1 have "lines (take (whole r) r) @ lines (drop (whole r) r @ t) = lines (r @ t)" by blast
    ultimately show ?thesis using l by (simp add: lines_step) (simp add: s lines_step)
  qed
qed

lemma length_lines_whole: "length (lines (take (whole s) s)) = length s div 48 * 65"
proof (induction s rule: length_induct)
  case (1 s)
  show ?case
  proof (cases "length s < 48")
    case True
    then show ?thesis by (simp add: whole_less)
  next
    case False
    define l r where "l = take 48 s" and "r = drop 48 s"
    have s: "s = l @ r" and l: "length l = 48" using False by (simp_all add: l_def r_def)
    have "length (lines (take (whole r) r)) = length r div 48 * 65" using 1 l by (simp add: s)
    moreover have "whole s = 48 + whole r" using whole_step [of s] False by (simp add: r_def)
    moreover have "length s div 48 = Suc (length r div 48)" using l by (simp add: s)
    ultimately show ?thesis using l by (simp add: s lines_step length_base64)
  qed
qed

lemma encode_line_eq: "encode_line src = (base64 src @ [0x0a], length (base64 src) + 1)"
  by (simp add: encode_line_def EVP_EncodeBlock_def encode_block_loop_eq Let_def)

lemma encode_update_loop_eq:
  "tot + length ins div 48 * 65 < 2 ^ 64 \<Longrightarrow> encode_update_loop tot ins =
     (lines (take (whole ins) ins), Some (tot + length ins div 48 * 65, drop (whole ins) ins))"
proof (induction tot ins rule: encode_update_loop.induct)
  case (1 tot ins)
  show ?case
  proof (cases "length ins < 48")
    case True
    then show ?thesis by (simp add: encode_update_loop.simps whole_less)
  next
    case False
    define l r where "l = take 48 ins" and "r = drop 48 ins"
    have s: "ins = l @ r" and l: "length l = 48" using False by (simp_all add: l_def r_def)
    have n: "length (base64 l) + 1 = 65" using l by (simp add: length_base64)
    have d: "length ins div 48 = Suc (length r div 48)" using l by (simp add: s)
    have w: "size_wrap (tot + 65) = tot + 65" using 1(2) unfolding size_wrap_def d by (intro mod_less) simp
    have "encode_update_loop (tot + 65) r =
        (lines (take (whole r) r), Some (tot + 65 + length r div 48 * 65, drop (whole r) r))"
      using 1(1) [of "base64 l @ [0x0a]" 65] 1(2) False n w d by (simp add: encode_line_eq flip: l_def r_def)
    moreover have "whole ins = 48 + whole r" using whole_step [of ins] False by (simp add: r_def)
    ultimately show ?thesis using False n w l d
      by (subst encode_update_loop.simps) (simp add: encode_line_eq flip: l_def r_def, simp add: s lines_step)
  qed
qed

definition pending :: "evp_encode_ctx \<Rightarrow> bytes" where
  "pending ctx = take (data_used ctx) (data ctx)"

definition encode_ctx_ok :: "evp_encode_ctx \<Rightarrow> bool" where
  "encode_ctx_ok ctx \<longleftrightarrow> data_used ctx < 48 \<and> length (data ctx) = 48"

lemma EVP_EncodeUpdate_eq:
  assumes ok: "encode_ctx_ok ctx" and len: "length ins \<le> 2 ^ 30" and s: "s = pending ctx @ ins"
  shows "\<exists>ctx'. EVP_EncodeUpdate ctx ins =
      (ctx', with_nul (lines (take (whole s) s)), length (lines (take (whole s) s))) \<and>
    encode_ctx_ok ctx' \<and> pending ctx' = drop (whole s) s"
proof -
  have len_s: "length s = data_used ctx + length ins" using ok by (simp add: s pending_def encode_ctx_ok_def)
  show ?thesis
  proof (cases "ins = [] \<or> 48 - data_used ctx > length ins")
    case True
    then have "length s < 48" using ok len_s by (auto simp: encode_ctx_ok_def)
    then show ?thesis using True ok len_s
      by (auto simp: EVP_EncodeUpdate_def whole_less with_nul_def encode_ctx_ok_def pending_def store_data_def s)
  next
    case False
    then have big: "48 \<le> length s" and ne: "ins \<noteq> []" using len_s by auto
    define todo where "todo = (if data_used ctx = 0 then 0 else 48 - data_used ctx)"
    define ctx1 where "ctx1 = (if data_used ctx = 0 then ctx
      else ctx\<lparr>data := pending ctx @ take todo ins, data_used := 0\<rparr>)"
    define ins1 where "ins1 = drop todo ins"
    define fst_line where "fst_line = (if data_used ctx = 0 then [] else base64 (pending ctx @ take todo ins) @ [0x0a])"
    have p: "length (pending ctx) = data_used ctx" "data_used ctx < 48" "length (data ctx) = 48"
      using ok by (simp_all add: encode_ctx_ok_def pending_def)
    have head: "(if data_used ctx \<noteq> 0 then
              let todo = 48 - data_used ctx;
                  ctx = ctx\<lparr>data := store_data (data_used ctx) (take todo ins) (data ctx)\<rparr>;
                  (line, n) = encode_line (data ctx)
              in (ctx\<lparr>data_used := 0\<rparr>, drop todo ins, line, n)
            else (ctx, ins, [], 0)) = (ctx1, ins1, fst_line, length fst_line)"
    proof (cases "data_used ctx = 0")
      case True
      then show ?thesis by (simp add: ctx1_def ins1_def fst_line_def todo_def)
    next
      case False
      have "store_data (data_used ctx) (take (48 - data_used ctx) ins) (data ctx) = pending ctx @ take (48 - data_used ctx) ins"
        using p len_s big by (simp add: store_data_def pending_def)
      then show ?thesis using False
        by (simp add: Let_def encode_line_eq ctx1_def ins1_def fst_line_def todo_def)
    qed
    have fl: "fst_line @ lines (take (whole ins1) ins1) = lines (take (whole s) s)"
      and dr: "drop (whole s) s = drop (whole ins1) ins1"
    proof -
      show "fst_line @ lines (take (whole ins1) ins1) = lines (take (whole s) s)" and "drop (whole s) s = drop (whole ins1) ins1"
      proof (atomize (full), cases "data_used ctx = 0")
        case True
        then show "fst_line @ lines (take (whole ins1) ins1) = lines (take (whole s) s) \<and> drop (whole s) s = drop (whole ins1) ins1"
          using p by (simp add: fst_line_def ins1_def todo_def s)
      next
        case False
        define l where "l = pending ctx @ take todo ins"
        have l: "length l = 48" "s = l @ ins1" using False p len_s big by (simp_all add: l_def todo_def s ins1_def)
        have w: "whole s = 48 + whole ins1" using whole_step [OF big] l by simp
        have "take (whole s) s = l @ take (whole ins1) ins1" "drop (whole s) s = drop (whole ins1) ins1"
          unfolding w using l by simp_all
        then show "fst_line @ lines (take (whole ins1) ins1) = lines (take (whole s) s) \<and> drop (whole s) s = drop (whole ins1) ins1"
          using l False by (simp add: lines_step fst_line_def flip: l_def)
      qed
    qed
    have "length (take todo ins) \<le> todo" "data_used ctx + todo \<le> 48" using p by (auto simp: todo_def)
    then have "length (pending ctx @ take todo ins) \<le> 48" using p(1) unfolding length_append by linarith
    then have "(length (pending ctx @ take todo ins) + 2) div 3 \<le> 50 div 3" by (intro div_le_mono) simp
    then have "length fst_line \<le> 65" by (simp add: fst_line_def length_base64)
    moreover have "length ins1 div 48 \<le> 2 ^ 30 div 48" using len by (intro div_le_mono) (simp add: ins1_def)
    ultimately have sum: "length fst_line + length ins1 div 48 * 65 \<le> 1454025430" by simp
    then have bound: "length fst_line + length ins1 div 48 * 65 < 2 ^ 64" by simp
    have tot: "length fst_line + length ins1 div 48 * 65 = length (lines (take (whole s) s))"
      unfolding fl [symmetric] by (simp add: length_lines_whole)
    have small: "\<not> length (lines (take (whole s) s)) > INT_MAX" using sum unfolding tot by simp
    define ctx2 where "ctx2 = (if drop (whole s) s \<noteq> [] then ctx1\<lparr>data := store_data 0 (drop (whole s) s) (data ctx1)\<rparr> else ctx1)"
    have "EVP_EncodeUpdate ctx ins = (ctx2\<lparr>data_used := length (drop (whole s) s)\<rparr>,
        with_nul (lines (take (whole s) s)), length (lines (take (whole s) s)))"
      unfolding EVP_EncodeUpdate_def head
      using False ne small by (simp add: encode_update_loop_eq [OF bound] fl ctx2_def flip: dr tot)
    moreover have r: "length (drop (whole s) s) < 48" by (simp add: whole_def minus_div_mult_eq_mod)
    have d1: "length (data ctx1) = 48" using p len_s big by (simp add: ctx1_def todo_def)
    have "length (data ctx2) = 48 \<and> take (length (drop (whole s) s)) (data ctx2) = drop (whole s) s"
      using r d1 by (auto simp: ctx2_def store_data_def)
    then have "encode_ctx_ok (ctx2\<lparr>data_used := length (drop (whole s) s)\<rparr>) \<and>
        pending (ctx2\<lparr>data_used := length (drop (whole s) s)\<rparr>) = drop (whole s) s"
      using r by (simp add: encode_ctx_ok_def pending_def)
    ultimately show ?thesis by blast
  qed
qed

text \<open>A session: the input in pieces, then the end; every call contributes its first \<open>*out_len\<close> bytes.\<close>

fun encode_stream :: "evp_encode_ctx \<Rightarrow> bytes list \<Rightarrow> bytes" where
  "encode_stream ctx [] = (case EVP_EncodeFinal ctx of (_, out, n) \<Rightarrow> take n out)"
| "encode_stream ctx (c # cs) =
     (case EVP_EncodeUpdate ctx c of (ctx, out, n) \<Rightarrow> take n out @ encode_stream ctx cs)"

lemma take_with_nul [simp]: "take (length out) (with_nul out) = out"
  by (simp add: with_nul_def)

lemma encode_stream_eq:
  "encode_ctx_ok ctx \<Longrightarrow> list_all (\<lambda>c. length c \<le> 2 ^ 30) cs \<Longrightarrow>
   encode_stream ctx cs = lines (pending ctx @ concat cs)"
proof (induction cs arbitrary: ctx)
  case Nil
  then have p: "length (pending ctx) < 48" "length (pending ctx) = data_used ctx"
    by (simp_all add: encode_ctx_ok_def pending_def)
  show ?case
  proof (cases "data_used ctx = 0")
    case True
    then show ?thesis by (simp add: EVP_EncodeFinal_def pending_def)
  next
    case False
    then have "lines (pending ctx) = base64 (pending ctx) @ [0x0a]" using p by (subst lines.simps) auto
    then show ?thesis using False
      by (simp add: EVP_EncodeFinal_def encode_line_eq with_nul_def flip: pending_def)
  qed
next
  case (Cons c cs)
  define s where "s = pending ctx @ c"
  obtain ctx' where u: "EVP_EncodeUpdate ctx c = (ctx', with_nul (lines (take (whole s) s)), length (lines (take (whole s) s)))"
    and ok: "encode_ctx_ok ctx'" "pending ctx' = drop (whole s) s"
    using EVP_EncodeUpdate_eq [OF Cons.prems(1) _ s_def] Cons.prems(2) by auto
  have "encode_stream ctx (c # cs) = lines (take (whole s) s) @ lines (drop (whole s) s @ concat cs)"
    using Cons.IH [OF ok(1)] Cons.prems(2) ok(2) by (simp add: u)
  also have "\<dots> = lines (s @ concat cs)" by (rule lines_append)
  finally show ?case by (simp add: s_def)
qed

section \<open>Decoding\<close>

lemma quad_val:
  assumes "a < 64" "b < 64" "c < 64" "d < (64 :: nat)"
  shows "unat (push_bit 18 (ucast (of_nat a :: u8)) OR push_bit 12 (ucast (of_nat b :: u8)) OR
      push_bit 6 (ucast (of_nat c :: u8)) OR ucast (of_nat d :: u8) :: u32) = a * 262144 + b * 4096 + c * 64 + d"
proof -
  have u: "unat (of_nat k :: u8) = k" if "k < 64" for k using that by (intro unat_of_nat_small) simp
  have p: "unat (push_bit n (ucast (of_nat k :: u8)) :: u32) = k * 2 ^ n" if "k < 64" "n \<le> 18" for n k
  proof -
    have "k * 2 ^ n < 64 * 2 ^ 18" using that by (intro mult_less_le_imp_less power_increasing) auto
    then have "k * 2 ^ n < 2 ^ LENGTH(32)" by simp
    then show ?thesis unfolding unat_push_bit unat_ucast_wider u [OF that(1)] by (rule mod_less)
  qed
  note ps = p [OF assms(1), of 18] p [OF assms(2), of 12] p [OF assms(3), of 6]
  have 1: "unat (push_bit 6 (ucast (of_nat c :: u8)) OR ucast (of_nat d :: u8) :: u32) = c * 64 + d"
    using assms ps by (subst unat_or_add [where n = 6]) (simp_all add: unat_ucast_wider u)
  have 2: "unat (push_bit 12 (ucast (of_nat b :: u8)) OR push_bit 6 (ucast (of_nat c :: u8)) OR ucast (of_nat d :: u8) :: u32)
      = b * 4096 + c * 64 + d"
    using assms ps by (subst unat_or_add [where n = 12]) (simp_all add: 1)
  show ?thesis using assms ps by (subst unat_or_add [where n = 18]) (simp_all add: 2)
qed

definition value_bytes :: "nat \<Rightarrow> nat \<Rightarrow> nat \<Rightarrow> nat \<Rightarrow> bytes" where
  "value_bytes a b c d = [of_nat (a * 4 + b div 16), of_nat (b mod 16 * 16 + c div 4), of_nat (c mod 4 * 64 + d)]"

lemma ucast_drop_val:
  assumes "unat (v :: u32) = n" "n div 2 ^ k = q * 256 + r" "r < 256"
  shows "ucast (drop_bit k v) = (of_nat r :: u8)"
proof -
  have "unat (ucast (drop_bit k v) :: u8) = r"
    using assms by (simp add: unat_ucast_narrower unat_drop_bit)
  then have "of_nat (unat (ucast (drop_bit k v) :: u8)) = (of_nat r :: u8)" by simp
  then show ?thesis by simp
qed

lemma value_split:
  assumes "a < 64" "b < 64" "c < 64" "d < (64 :: nat)" "n = a * 262144 + b * 4096 + c * 64 + d"
  shows "n div 2 ^ 16 = 0 * 256 + (a * 4 + b div 16)" "n div 2 ^ 8 = (a * 4 + b div 16) * 256 + (b mod 16 * 16 + c div 4)"
    "n div 2 ^ 0 = ((a * 4 + b div 16) * 256 + (b mod 16 * 16 + c div 4)) * 256 + (c mod 4 * 64 + d)"
    "a * 4 + b div 16 < 256" "b mod 16 * 16 + c div 4 < 256" "c mod 4 * 64 + d < 256"
proof -
  obtain b1 b0 where b: "b = b1 * 16 + b0" "b0 < 16" by (metis div_mult_mod_eq mod_less_divisor zero_less_numeral)
  obtain c1 c0 where c: "c = c1 * 4 + c0" "c0 < 4" by (metis div_mult_mod_eq mod_less_divisor zero_less_numeral)
  have b': "b div 16 = b1" "b mod 16 = b0" and c': "c div 4 = c1" "c mod 4 = c0" using b c by simp_all
  have lt: "b1 < 4" "c1 < 16" using assms(2,3) b c by linarith+
  show "n div 2 ^ 16 = 0 * 256 + (a * 4 + b div 16)" "n div 2 ^ 8 = (a * 4 + b div 16) * 256 + (b mod 16 * 16 + c div 4)"
    "n div 2 ^ 0 = ((a * 4 + b div 16) * 256 + (b mod 16 * 16 + c div 4)) * 256 + (c mod 4 * 64 + d)"
    unfolding b' c' using assms lt b c by (intro div_nat_eqI; simp)+
  show "a * 4 + b div 16 < 256" "b mod 16 * 16 + c div 4 < 256" "c mod 4 * 64 + d < 256"
    unfolding b' c' using assms lt b c by linarith+
qed

lemma quad_bytes:
  assumes "a < 64" "b < 64" "c < 64" "d < (64 :: nat)"
    and "v = (push_bit 18 (ucast (of_nat a :: u8)) OR push_bit 12 (ucast (of_nat b :: u8)) OR
      push_bit 6 (ucast (of_nat c :: u8)) OR ucast (of_nat d :: u8) :: u32)"
  shows "[ucast (drop_bit 16 v), ucast (drop_bit 8 v), ucast v] = value_bytes a b c d"
proof -
  have v: "unat v = a * 262144 + b * 4096 + c * 64 + d" unfolding assms(5) by (rule quad_val [OF assms(1-4)])
  note s = value_split [OF assms(1-4) refl]
  show ?thesis
    using ucast_drop_val [OF v s(1,4)] ucast_drop_val [OF v s(2,5)] ucast_drop_val [OF v s(3,6)]
    by (simp add: value_bytes_def)
qed

text \<open>The four characters of a group as numbers, with the padding they end in.\<close>

definition quad_out :: "u8 \<Rightarrow> u8 \<Rightarrow> u8 \<Rightarrow> u8 \<Rightarrow> bytes option" where
  "quad_out w x y z =
     (case (sextet_of w, sextet_of x, sextet_of y, sextet_of z) of
        (Some a, Some b, Some c, Some d) \<Rightarrow> Some (value_bytes a b c d)
      | (Some a, Some b, Some c, None) \<Rightarrow> if z = 0x3d then Some (take 2 (value_bytes a b c 0)) else None
      | (Some a, Some b, None, None) \<Rightarrow> if y = 0x3d \<and> z = 0x3d then Some (take 1 (value_bytes a b 0 0)) else None
      | _ \<Rightarrow> None)"

lemma sextet_not_ff: "n < 64 \<Longrightarrow> (of_nat n :: u8) \<noteq> 0xff"
proof
  assume "n < 64" "(of_nat n :: u8) = 0xff"
  then have "unat (of_nat n :: u8) = 255" by simp
  then show False using \<open>n < 64\<close> unat_of_nat_small(1) [of n] by simp
qed

lemma base64_decode_quad_eq: "base64_decode_quad w x y z = quad_out w x y z"
proof -
  define num where "num = (\<lambda>e. case sextet_of e of Some n \<Rightarrow> Some n | None \<Rightarrow> if e = 0x3d then Some 0 else None)"
  have bin: "base64_ascii_to_bin e = (case num e of Some n \<Rightarrow> of_nat n | None \<Rightarrow> 0xff)" for e
    by (simp add: base64_ascii_to_bin_eq num_def split: option.split)
  have lt: "num e = Some n \<Longrightarrow> n < 64" for e n
    using sextet_char_of by (auto simp: num_def split: option.split_asm if_split_asm)
  have bad: "base64_ascii_to_bin e = 0xff \<longleftrightarrow> num e = None" for e
    using lt [of e] sextet_not_ff by (auto simp: bin split: option.split)
  show ?thesis
  proof (cases "num w = None \<or> num x = None \<or> num y = None \<or> num z = None")
    case True
    then have "base64_decode_quad w x y z = None" by (auto simp: base64_decode_quad_def Let_def bad)
    moreover have "quad_out w x y z = None"
      using True by (auto simp: quad_out_def num_def split: option.split)
    ultimately show ?thesis by simp
  next
    case False
    then obtain a b c d where n: "num w = Some a" "num x = Some b" "num y = Some c" "num z = Some d" by auto
    define v where "v = (push_bit 18 (ucast (of_nat a :: u8)) OR push_bit 12 (ucast (of_nat b :: u8)) OR
      push_bit 6 (ucast (of_nat c :: u8)) OR ucast (of_nat d :: u8) :: u32)"
    note q = quad_bytes [OF lt [OF n(1)] lt [OF n(2)] lt [OF n(3)] lt [OF n(4)] v_def]
    have q': "take 2 (value_bytes a b c d) = [ucast (drop_bit 16 v), ucast (drop_bit 8 v)]"
      "take 1 (value_bytes a b c d) = [ucast (drop_bit 16 v)]" unfolding q [symmetric] by simp_all
    have eq: "base64_decode_quad w x y z =
        (if w \<noteq> 0x3d \<and> x \<noteq> 0x3d then
           if y = 0x3d then if z = 0x3d then Some (take 1 (value_bytes a b c d)) else None
           else if z = 0x3d then Some (take 2 (value_bytes a b c d)) else Some (value_bytes a b c d)
         else None)"
      unfolding base64_decode_quad_def Let_def bad if_not_P [OF False] unfolding bin n option.case
      unfolding v_def [symmetric] q q'
      by (cases "w = 0x3d"; cases "x = 0x3d"; cases "y = 0x3d"; cases "z = 0x3d") simp_all
    have num: "e = 0x3d \<and> sextet_of e = None \<and> k = 0 \<or> e \<noteq> 0x3d \<and> sextet_of e = Some k" if "num e = Some k" for e k
      using that by (auto simp: num_def split: option.split_asm if_split_asm)
    show ?thesis
      using num [OF n(1)] num [OF n(2)] num [OF n(3)] num [OF n(4)]
      unfolding eq quad_out_def by (elim disjE conjE) simp_all
  qed
qed

text \<open>The bytes of an encoding come back.\<close>

lemma value_bytes_eq:
  "value_bytes (unat x div 4) (unat x mod 4 * 16 + unat y div 16) (unat y mod 16 * 4 + unat z div 64) (unat z mod 64)
    = [x, y, z :: u8]"
proof -
  have lt: "unat x < 256" "unat y < 256" "unat z < 256" by (rule unat_u8_lt)+
  have y: "unat y div 16 < 16" and z: "unat z div 64 < 4"
    using lt by (intro less_mult_imp_div_less; simp)+
  have "unat x div 4 * 4 + (unat x mod 4 * 16 + unat y div 16) div 16 = unat x" using y by simp
  moreover have "(unat x mod 4 * 16 + unat y div 16) mod 16 * 16 + (unat y mod 16 * 4 + unat z div 64) div 4 = unat y"
    using y z by simp
  moreover have "(unat y mod 16 * 4 + unat z div 64) mod 4 * 64 + unat z mod 64 = unat z" using z by simp
  ultimately show ?thesis by (simp only: value_bytes_def of_nat_unat ucast_id)
qed

lemma quad_of_triple:
  "quad_out (sextet_char (unat x div 4)) (sextet_char (unat x mod 4 * 16 + unat y div 16))
     (sextet_char (unat y mod 16 * 4 + unat z div 64)) (sextet_char (unat z mod 64)) = Some [x, y, z :: u8]" (is ?three)
  "quad_out (sextet_char (unat x div 4)) (sextet_char (unat x mod 4 * 16 + unat y div 16))
     (sextet_char (unat y mod 16 * 4)) 0x3d = Some [x, y]" (is ?two)
  "quad_out (sextet_char (unat x div 4)) (sextet_char (unat x mod 4 * 16)) 0x3d 0x3d = Some [x]" (is ?one)
proof -
  have lt: "unat x < 256" "unat y < 256" "unat z < 256" by (rule unat_u8_lt)+
  have d: "unat x div 4 < 64" "unat y div 16 < 16" "unat z div 64 < 4" using lt by (intro less_mult_imp_div_less; simp)+
  have m: "unat x mod 4 < 4" "unat y mod 16 < 16" "unat z mod 64 < 64" by simp_all
  have s: "unat x mod 4 * 16 + unat y div 16 < 64" "unat y mod 16 * 4 + unat z div 64 < 64"
    "unat x mod 4 * 16 < 64" "unat y mod 16 * 4 < 64" using d m by linarith+
  show ?three using value_bytes_eq [of x y z] by (simp only: quad_out_def sextet_of_char d m s prod.case option.case)
  show ?two using value_bytes_eq [of x y 0] d m s by (simp add: quad_out_def)
  show ?one using value_bytes_eq [of x 0 0] d m s by (simp add: quad_out_def)
qed


section \<open>The streaming decoder\<close>

definition decode_ctx_ok :: "evp_encode_ctx \<Rightarrow> bool" where
  "decode_ctx_ok ctx \<longleftrightarrow> data_used ctx < 4 \<and> length (data ctx) = 48"

definition decode_char :: "evp_encode_ctx \<Rightarrow> u8 \<Rightarrow> evp_encode_ctx \<times> bytes \<times> bool" where
  "decode_char ctx c =
     (if c = 0x20 \<or> c = 0x09 \<or> c = 0x0d \<or> c = 0x0a then (ctx, [], True)
      else if eof_seen ctx then (ctx\<lparr>error_encountered := True\<rparr>, [], False)
      else
        let ctx = ctx\<lparr>data := (data ctx)[data_used ctx := c], data_used := data_used ctx + 1\<rparr> in
        if data_used ctx = 4 then
          (case quad_out (data ctx ! 0) (data ctx ! 1) (data ctx ! 2) (data ctx ! 3) of
             None \<Rightarrow> (ctx\<lparr>error_encountered := True\<rparr>, [], False)
           | Some out \<Rightarrow>
               (if length out < 3 then ctx\<lparr>data_used := 0, eof_seen := True\<rparr> else ctx\<lparr>data_used := 0\<rparr>, out, True))
        else (ctx, [], True))"

lemma decode_update_loop_Cons:
  "decode_update_loop ctx (c # ins) =
     (case decode_char ctx c of
        (ctx, out, ok) \<Rightarrow>
          if ok then (case decode_update_loop ctx ins of (ctx, rest, ok) \<Rightarrow> (ctx, out @ rest, ok)) else (ctx, out, False))"
  by (simp add: decode_char_def Let_def base64_decode_quad_eq split: option.split)

declare decode_update_loop.simps(2) [simp del]

lemma decode_update_loop_append:
  "decode_update_loop ctx (xs @ ys) =
     (case decode_update_loop ctx xs of
        (ctx, out, ok) \<Rightarrow>
          if ok then (case decode_update_loop ctx ys of (ctx, rest, ok) \<Rightarrow> (ctx, out @ rest, ok)) else (ctx, out, False))"
  by (induction xs arbitrary: ctx) (auto simp: decode_update_loop_Cons split: prod.split)

lemma quad_out_length: "quad_out w x y z = Some out \<Longrightarrow> length out \<le> 3"
  by (auto simp: quad_out_def value_bytes_def split: option.split_asm if_split_asm)

lemma decode_char_inv:
  "decode_ctx_ok ctx \<Longrightarrow> decode_char ctx c = (ctx', out, ok) \<Longrightarrow>
   length out + data_used ctx' \<le> data_used ctx + 1 \<and>
   (ok \<longrightarrow> decode_ctx_ok ctx' \<and> error_encountered ctx' = error_encountered ctx)"
  by (auto simp: decode_char_def decode_ctx_ok_def Let_def dest: quad_out_length
      split: if_split_asm option.split_asm)

lemma decode_update_loop_inv:
  "decode_ctx_ok ctx \<Longrightarrow> decode_update_loop ctx ins = (ctx', out, ok) \<Longrightarrow>
   length out + data_used ctx' \<le> data_used ctx + length ins \<and>
   (ok \<longrightarrow> decode_ctx_ok ctx' \<and> error_encountered ctx' = error_encountered ctx)"
proof (induction ins arbitrary: ctx out)
  case (Cons c ins)
  obtain ctx1 out1 ok1 where c: "decode_char ctx c = (ctx1, out1, ok1)" by (cases "decode_char ctx c") auto
  note i = decode_char_inv [OF Cons.prems(1) c]
  show ?case
  proof (cases ok1)
    case True
    obtain ctx2 out2 ok2 where l: "decode_update_loop ctx1 ins = (ctx2, out2, ok2)"
      by (cases "decode_update_loop ctx1 ins") auto
    have "decode_ctx_ok ctx1" using i True by simp
    from Cons.IH [OF this] l i True Cons.prems(2) c show ?thesis by (auto simp: decode_update_loop_Cons)
  next
    case False
    then show ?thesis using i c Cons.prems(2) by (auto simp: decode_update_loop_Cons)
  qed
qed simp

text \<open>What a decoder in its initial state, or between groups, makes of an encoding and of what follows it.\<close>

definition between_groups :: "bool \<Rightarrow> evp_encode_ctx \<Rightarrow> bool" where
  "between_groups eof ctx \<longleftrightarrow>
     data_used ctx = 0 \<and> length (data ctx) = 48 \<and> eof_seen ctx = eof \<and> \<not> error_encountered ctx"

definition white :: "u8 \<Rightarrow> bool" where
  "white c \<longleftrightarrow> c = 0x20 \<or> c = 0x09 \<or> c = 0x0d \<or> c = 0x0a"

lemma not_white: "n < 64 \<Longrightarrow> \<not> white (sextet_char n)" "\<not> white 0x3d"
proof -
  assume "n < 64"
  then have "sextet_of (sextet_char n) = Some n" by simp
  then show "\<not> white (sextet_char n)" by (auto simp: white_def sextet_of_def simp del: sextet_of_char)
qed (simp add: white_def)

lemma decode_group:
  assumes ctx: "between_groups False ctx" and nw: "\<not> white w" "\<not> white x" "\<not> white y" "\<not> white z"
    and q: "quad_out w x y z = Some out"
  shows "\<exists>ctx'. decode_update_loop ctx [w, x, y, z] = (ctx', out, True) \<and> between_groups (length out < 3) ctx'"
proof -
  have l: "4 < length (data ctx)" using ctx by (simp add: between_groups_def)
  show ?thesis
    using ctx nw l q
    by (simp add: decode_update_loop_Cons decode_char_def between_groups_def white_def Let_def
        numeral_2_eq_2 numeral_3_eq_3)
qed

lemma decode_base64:
  "between_groups False ctx \<Longrightarrow> \<exists>ctx'. decode_update_loop ctx (base64 s) = (ctx', s, True) \<and>
     between_groups (length s mod 3 \<noteq> 0) ctx'"
proof (induction s arbitrary: ctx rule: base64.induct)
  case 1
  then show ?case by simp
next
  case (2 x)
  have "unat x div 4 < 64" using unat_u8_lt [of x] by (intro less_mult_imp_div_less) simp
  moreover have "unat x mod 4 * 16 < 64" by simp
  ultimately show ?case using decode_group [OF 2 _ _ _ _ quad_of_triple(3) [of x]] not_white by simp
next
  case (3 x y)
  have lt: "unat x < 256" "unat y < 256" by (rule unat_u8_lt)+
  have d: "unat x div 4 < 64" "unat y div 16 < 16" using lt by (intro less_mult_imp_div_less; simp)+
  have m: "unat x mod 4 < 4" "unat y mod 16 < 16" by simp_all
  have "unat x mod 4 * 16 + unat y div 16 < 64" "unat y mod 16 * 4 < 64" using d m by linarith+
  then show ?case using decode_group [OF 3 _ _ _ _ quad_of_triple(2) [of x y]] not_white d(1) by simp
next
  case (4 x y z s)
  have lt: "unat x < 256" "unat y < 256" "unat z < 256" by (rule unat_u8_lt)+
  have d: "unat x div 4 < 64" "unat y div 16 < 16" "unat z div 64 < 4" using lt by (intro less_mult_imp_div_less; simp)+
  have m: "unat x mod 4 < 4" "unat y mod 16 < 16" "unat z mod 64 < 64" by simp_all
  have s: "unat x mod 4 * 16 + unat y div 16 < 64" "unat y mod 16 * 4 + unat z div 64 < 64"
    using d m by linarith+
  obtain ctx1 where 1: "decode_update_loop ctx [sextet_char (unat x div 4), sextet_char (unat x mod 4 * 16 + unat y div 16),
      sextet_char (unat y mod 16 * 4 + unat z div 64), sextet_char (unat z mod 64)] = (ctx1, [x, y, z], True)"
    "between_groups False ctx1"
    using decode_group [OF 4(2) _ _ _ _ quad_of_triple(1) [of x y z]] not_white(1) d(1) s m(3) by auto
  obtain ctx2 where 2: "decode_update_loop ctx1 (base64 s) = (ctx2, s, True)" "between_groups (length s mod 3 \<noteq> 0) ctx2"
    using 4(1) [OF 1(2)] by blast
  have l: "length (x # y # z # s) mod 3 = length s mod 3" using mod_add_self2 [of "length s" 3] by simp
  show ?case unfolding base64.simps decode_update_loop_append 1(1) prod.case using 2 by (simp only: l) simp
qed

lemma decode_newline: "decode_update_loop ctx (0x0a # ins) = decode_update_loop ctx ins"
  by (simp add: decode_update_loop_Cons decode_char_def split: prod.split)

lemma decode_lines:
  "between_groups False ctx \<Longrightarrow> \<exists>ctx' eof. decode_update_loop ctx (lines s) = (ctx', s, True) \<and> between_groups eof ctx'"
proof (induction s arbitrary: ctx rule: length_induct)
  case (1 s)
  show ?case
  proof (cases "s = []")
    case True
    then show ?thesis using 1(2) by auto
  next
    case False
    obtain ctx1 where 1: "decode_update_loop ctx (base64 (take 48 s)) = (ctx1, take 48 s, True)"
      "between_groups (length (take 48 s) mod 3 \<noteq> 0) ctx1" using decode_base64 [OF 1(2)] by blast
    have l: "lines s = base64 (take 48 s) @ 0x0a # lines (drop 48 s)" using False by (subst lines.simps) simp
    show ?thesis
    proof (cases "length s \<le> 48")
      case True
      then show ?thesis using 1 by (auto simp: l decode_update_loop_append decode_newline)
    next
      case long: False
      then have "between_groups False ctx1" using 1(2) by simp
      moreover have "length (drop 48 s) < length s" using long by simp
      ultimately obtain ctx2 eof where "decode_update_loop ctx1 (lines (drop 48 s)) = (ctx2, drop 48 s, True)"
        "between_groups eof ctx2" using "1.IH" by blast
      then show ?thesis using 1(1) by (auto simp: l decode_update_loop_append decode_newline)
    qed
  qed
qed

text \<open>A session of the decoder: the pieces in order, then the end. -1 ends it.\<close>

fun decode_stream :: "evp_encode_ctx \<Rightarrow> bytes list \<Rightarrow> bytes option" where
  "decode_stream ctx [] = (if EVP_DecodeFinal ctx = 1 then Some [] else None)"
| "decode_stream ctx (c # cs) =
     (case EVP_DecodeUpdate ctx c of
        (ctx, out, n, ret) \<Rightarrow>
          if ret = -1 then None else map_option ((@) (take n out)) (decode_stream ctx cs))"

lemma decode_stream_eq:
  "decode_ctx_ok ctx \<Longrightarrow> \<not> error_encountered ctx \<Longrightarrow> list_all (\<lambda>c. length c \<le> 2 ^ 30) cs \<Longrightarrow>
   decode_stream ctx cs = (case decode_update_loop ctx (concat cs) of
     (ctx', out, ok) \<Rightarrow> if ok \<and> data_used ctx' = 0 then Some out else None)"
proof (induction cs arbitrary: ctx)
  case Nil
  then show ?case by (simp add: EVP_DecodeFinal_def)
next
  case (Cons c cs)
  obtain ctx1 out ok where l: "decode_update_loop ctx c = (ctx1, out, ok)" by (cases "decode_update_loop ctx c") auto
  note i = decode_update_loop_inv [OF Cons.prems(1) l]
  show ?case
  proof (cases ok)
    case False
    then show ?thesis using Cons.prems(2) l by (simp add: EVP_DecodeUpdate_def decode_update_loop_append)
  next
    case True
    have "length out \<le> data_used ctx + length c" using i by simp
    also have "\<dots> \<le> 3 + 2 ^ 30" using Cons.prems(1,3) by (simp add: decode_ctx_ok_def)
    finally have u: "EVP_DecodeUpdate ctx c = (ctx1, out, length out, if eof_seen ctx1 then 0 else 1)"
      using Cons.prems(2) l True by (simp add: EVP_DecodeUpdate_def)
    have "decode_stream ctx1 cs = (case decode_update_loop ctx1 (concat cs) of
        (ctx', out, ok) \<Rightarrow> if ok \<and> data_used ctx' = 0 then Some out else None)"
      using i True Cons.prems by (intro Cons.IH) simp_all
    then show ?thesis using True l by (auto simp: u decode_update_loop_append split: prod.split)
  qed
qed

section \<open>The properties\<close>

text \<open>C19: The streaming encoder is independent of how the input is cut: for any pieces of at most \<open>2^30\<close>
  bytes, the bytes of all calls together are the lines of 48 bytes in Base64 of the whole input.\<close>

theorem encode_stream_lines:
  assumes "list_all (\<lambda>c. length c \<le> 2 ^ 30) cs"
  shows "encode_stream EVP_EncodeInit cs = lines (concat cs)"
  using encode_stream_eq [OF _ assms, of EVP_EncodeInit]
  by (simp add: EVP_EncodeInit_def encode_ctx_ok_def pending_def)

theorem encode_stream_lines_witness:
  "encode_stream EVP_EncodeInit [[0x66], [0x6f, 0x6f]] = [0x5a, 0x6d, 0x39, 0x76, 0x0a]"
  by (subst encode_stream_lines) (simp_all add: lines.simps sextet_char_def)

text \<open>C18: What the streaming encoder writes for an input cut into any pieces, the streaming decoder turns back
  into the input, however the text is cut in turn.\<close>

theorem base64_stream_roundtrip:
  assumes "list_all (\<lambda>c. length c \<le> 2 ^ 30) cs" "list_all (\<lambda>c. length c \<le> 2 ^ 30) ds"
    and "concat ds = encode_stream EVP_EncodeInit cs"
  shows "decode_stream EVP_DecodeInit ds = Some (concat cs)"
proof -
  have "concat ds = lines (concat cs)"
    using encode_stream_eq [OF _ assms(1), of EVP_EncodeInit] assms(3)
    by (simp add: EVP_EncodeInit_def encode_ctx_ok_def pending_def)
  moreover have "between_groups False EVP_DecodeInit" by (simp add: between_groups_def EVP_DecodeInit_def)
  from decode_lines [OF this] obtain ctx' eof where
    "decode_update_loop EVP_DecodeInit (lines (concat cs)) = (ctx', concat cs, True)" "between_groups eof ctx'" by blast
  moreover have "decode_ctx_ok EVP_DecodeInit" "\<not> error_encountered EVP_DecodeInit"
    by (simp_all add: EVP_DecodeInit_def decode_ctx_ok_def)
  ultimately show ?thesis using assms(2) by (simp add: decode_stream_eq between_groups_def)
qed

theorem base64_stream_roundtrip_witness:
  "decode_stream EVP_DecodeInit [[0x5a, 0x6d, 0x39], [0x76, 0x0a]] = Some [0x66, 0x6f, 0x6f]"
proof -
  have "concat [[0x5a, 0x6d, 0x39], [0x76, 0x0a]] = encode_stream EVP_EncodeInit [[0x66], [0x6f, 0x6f :: u8]]"
    using encode_stream_eq [of EVP_EncodeInit "[[0x66], [0x6f, 0x6f]]"]
    by (simp add: EVP_EncodeInit_def encode_ctx_ok_def pending_def lines.simps sextet_char_def)
  from base64_stream_roundtrip [OF _ _ this] show ?thesis by simp
qed

lemma EVP_EncodedLength_eq:
  assumes "len < 2 ^ 64"
  shows "EVP_EncodedLength len = (if (len + 2) div 3 * 4 + 1 < 2 ^ 64 then Some ((len + 2) div 3 * 4 + 1) else None)"
proof (cases "len + 2 < 2 ^ 64")
  case False
  then have "size_wrap (len + 2) = len + 2 - 2 ^ 64" using assms by (simp add: size_wrap_def le_mod_geq)
  moreover have "\<not> (len + 2) div 3 * 4 + 1 < 2 ^ 64"
  proof -
    have "2 ^ 64 div 3 \<le> (len + 2) div 3" using False by (intro div_le_mono) simp
    then show ?thesis by simp
  qed
  ultimately show ?thesis using assms by (simp add: EVP_EncodedLength_def)
next
  case True
  define m where "m = (len + 2) div 3"
  have "m \<le> 2 ^ 64 div 3" unfolding m_def using True by (intro div_le_mono) simp
  then have m: "m < 2 ^ 63" by simp
  have s: "size_wrap (len + 2) = len + 2" using True by (simp add: size_wrap_def)
  have w: "size_wrap (m * 4) div 4 = m mod 2 ^ 62"
  proof -
    have "m * 4 mod (2 ^ 62 * 4) = m mod 2 ^ 62 * 4" by (rule mult_mod_right [symmetric, where c = 4, simplified mult.commute [of 4]])
    then show ?thesis by (simp add: size_wrap_def)
  qed
  show ?thesis
  proof (cases "m < 2 ^ 62")
    case lt: True
    then have "m * 4 < 2 ^ 64" by simp
    then have w4: "size_wrap (m * 4) = m * 4" by (simp add: size_wrap_def)
    have "m * 4 + 1 < 2 ^ 64" using lt by simp
    then have w5: "size_wrap (m * 4 + 1) = m * 4 + 1" by (simp add: size_wrap_def)
    show ?thesis using lt unfolding EVP_EncodedLength_def s m_def [symmetric] Let_def w4 w5 by simp
  next
    case False
    then have "m mod 2 ^ 62 \<noteq> m" using mod_less_divisor [of "2 ^ 62" m] by (metis zero_less_numeral zero_less_power)
    then have ne: "size_wrap (m * 4) div 4 \<noteq> m" by (simp only: w not_False_eq_True)
    have "\<not> m * 4 + 1 < 2 ^ 64" using False by simp
    then show ?thesis using ne unfolding EVP_EncodedLength_def s m_def [symmetric] Let_def by simp
  qed
qed

text \<open>C20: \<open>EVP_EncodedLength\<close> reports, without any overflow on the way, exactly the number of bytes that
  \<open>EVP_EncodeBlock\<close> writes for an input of that length, its final NUL included, and fails exactly when this
  number does not fit a \<open>size_t\<close>.\<close>

theorem encoded_length_exact:
  assumes "length s < 2 ^ 64"
  shows "EVP_EncodedLength (length s) =
     (let n = length (fst (EVP_EncodeBlock s)) in if n < 2 ^ 64 then Some n else None) \<and>
   length (fst (EVP_EncodeBlock s)) = snd (EVP_EncodeBlock s) + 1"
  unfolding EVP_EncodedLength_eq [OF assms]
  by (simp add: EVP_EncodeBlock_def encode_block_loop_eq length_base64 Let_def)

theorem encoded_length_exact_witness: "EVP_EncodedLength (length [1, 2, 3, 4 :: u8]) = Some 9"
  using encoded_length_exact [of "[1, 2, 3, 4]"]
  by (simp add: EVP_EncodeBlock_def encode_block_loop_eq length_base64 Let_def)












end
