(* ===== verification/Stack.thy ===== *)
theory Stack
  imports Mem Comparator
begin

text \<open>
  Stacks of pointers (\<open>crypto/stack/stack.c\<close>), the containers of the X.509 and TLS code. A pointer is
  a number, 0 is NULL; a comparison function is a number too, as the code only stores it, compares it
  and hands it to \<open>call_cmp_func\<close>, which is a parameter of the code. \<open>qsort\<close> of the C library is a
  parameter here. A stack is \<open>None\<close> when the pointer to it is NULL.
\<close>

section \<open>The code\<close>

record stack =
  num :: nat
  cells :: "nat list"
  sorted :: bool
  num_alloc :: nat
  comp :: nat

definition kMinSize :: nat where "kMinSize = 4"

text \<open>What an array of pointers in fresh memory holds.\<close>

definition fresh_cells :: "(nat \<Rightarrow> u8) \<Rightarrow> nat \<Rightarrow> nat \<Rightarrow> nat list" where
  "fresh_cells f i j = map (\<lambda>k. be_val (map f [8 * k..<8 * k + 8])) [i..<j]"

definition sk_new :: "allocator \<Rightarrow> nat \<Rightarrow> stack option" where
  "sk_new a cmp =
     (case OPENSSL_malloc a 40 of
        None \<Rightarrow> None
      | Some _ \<Rightarrow>
          (case OPENSSL_malloc a (8 * kMinSize) of
             None \<Rightarrow> None
           | Some _ \<Rightarrow>
               Some \<lparr>num = 0, cells = replicate kMinSize 0, sorted = False, num_alloc = kMinSize, comp = cmp\<rparr>))"

definition sk_new_null :: "allocator \<Rightarrow> stack option" where
  "sk_new_null a = sk_new a 0"

definition sk_num :: "stack option \<Rightarrow> nat" where
  "sk_num sk = (case sk of None \<Rightarrow> 0 | Some sk \<Rightarrow> num sk)"

definition sk_zero :: "stack option \<Rightarrow> stack option" where
  "sk_zero sk =
     (case sk of None \<Rightarrow> None
      | Some sk \<Rightarrow>
          if num sk = 0 then Some sk
          else Some (sk\<lparr>cells := replicate (num sk) 0 @ drop (num sk) (cells sk), num := 0, sorted := False\<rparr>))"

definition sk_value :: "stack option \<Rightarrow> nat \<Rightarrow> nat" where
  "sk_value sk i =
     (case sk of None \<Rightarrow> 0 | Some sk \<Rightarrow> if i \<ge> num sk then 0 else cells sk ! i)"

definition sk_set :: "stack option \<Rightarrow> nat \<Rightarrow> nat \<Rightarrow> nat \<times> stack option" where
  "sk_set sk i v =
     (case sk of None \<Rightarrow> (0, None)
      | Some sk \<Rightarrow> if i \<ge> num sk then (0, Some sk) else (v, Some (sk\<lparr>cells := (cells sk)[i := v]\<rparr>)))"

text \<open>The calls of \<open>call_free_func\<close>, in order; the stack itself is freed afterwards.\<close>

definition sk_pop_free_ex :: "stack option \<Rightarrow> nat list" where
  "sk_pop_free_ex sk =
     (case sk of None \<Rightarrow> [] | Some sk \<Rightarrow> filter (\<lambda>p. p \<noteq> 0) (take (num sk) (cells sk)))"

definition sk_insert :: "allocator \<Rightarrow> stack option \<Rightarrow> nat \<Rightarrow> nat \<Rightarrow> nat \<times> stack option" where
  "sk_insert a sk p at =
     (case sk of None \<Rightarrow> (0, None)
      | Some sk \<Rightarrow>
          (case
             (if num_alloc sk \<le> num sk + 1 then
                let new_alloc = size_wrap (num_alloc sk * 2);
                    alloc_size = size_wrap (new_alloc * 8);
                    new_alloc' = (if new_alloc < num_alloc sk \<or> alloc_size div 8 \<noteq> new_alloc
                                  then size_wrap (num_alloc sk + 1) else new_alloc);
                    alloc_size' = size_wrap (new_alloc' * 8) in
                if new_alloc' < num_alloc sk \<or> alloc_size' div 8 \<noteq> new_alloc' then None
                else (case OPENSSL_malloc a alloc_size' of
                        None \<Rightarrow> None
                      | Some f \<Rightarrow> Some (sk\<lparr>cells := cells sk @ fresh_cells f (length (cells sk)) new_alloc',
                                          num_alloc := new_alloc'\<rparr>))
              else Some sk)
           of
             None \<Rightarrow> (0, Some sk)
           | Some sk \<Rightarrow>
               let cells' = (if at \<ge> num sk then (cells sk)[num sk := p]
                             else take at (cells sk) @ [p] @ drop at (take (num sk) (cells sk)) @ drop (num sk + 1) (cells sk))
               in (num sk + 1, Some (sk\<lparr>cells := cells', num := num sk + 1, sorted := False\<rparr>))))"

definition sk_delete :: "stack option \<Rightarrow> nat \<Rightarrow> nat \<times> stack option" where
  "sk_delete sk at =
     (case sk of None \<Rightarrow> (0, None)
      | Some sk \<Rightarrow>
          if at \<ge> num sk then (0, Some sk)
          else
            let ret = cells sk ! at;
                cells' = (if at \<noteq> num sk - 1 then
                            take at (cells sk) @ drop (at + 1) (take (num sk) (cells sk)) @ drop (num sk - 1) (cells sk)
                          else cells sk)
            in (ret, Some (sk\<lparr>cells := cells', num := num sk - 1\<rparr>)))"

definition sk_delete_ptr :: "stack option \<Rightarrow> nat \<Rightarrow> nat \<times> stack option" where
  "sk_delete_ptr sk p =
     (case sk of None \<Rightarrow> (0, None)
      | Some s \<Rightarrow>
          (case first_index (\<lambda>i. cells s ! i = p) (num s) of
             None \<Rightarrow> (0, Some s)
           | Some i \<Rightarrow> sk_delete (Some s) i))"

text \<open>The binary search of \<open>sk_find\<close>; \<open>r mid\<close> is what \<open>call_cmp_func\<close> answers for the element at \<open>mid\<close>.\<close>

function sk_find_loop :: "(nat \<Rightarrow> int) \<Rightarrow> nat \<Rightarrow> nat \<Rightarrow> nat option" where
  "sk_find_loop r lo hi =
     (if lo < hi then
        let mid = lo + (hi - lo - 1) div 2 in
        if r mid > 0 then sk_find_loop r (mid + 1) hi
        else if r mid < 0 then sk_find_loop r lo mid
        else if hi - lo = 1 then Some mid
        else sk_find_loop r lo (mid + 1)
      else None)"
  by pat_completeness auto
termination
proof (relation "measure (\<lambda>(r, lo, hi). hi - lo)", goal_cases)
  case (4 r lo hi mid)
  then have "(hi - lo - 1) div 2 + 1 < hi - lo" by linarith
  then show ?case using 4 by simp
qed auto

declare sk_find_loop.simps [simp del]

definition sk_is_sorted :: "stack option \<Rightarrow> bool" where
  "sk_is_sorted sk = (case sk of None \<Rightarrow> True | Some sk \<Rightarrow> sorted sk)"

definition sk_find :: "(nat \<Rightarrow> nat \<Rightarrow> nat \<Rightarrow> int) \<Rightarrow> stack option \<Rightarrow> nat \<Rightarrow> nat option" where
  "sk_find call_cmp_func sk p =
     (case sk of None \<Rightarrow> None
      | Some s \<Rightarrow>
          if comp s = 0 then first_index (\<lambda>i. cells s ! i = p) (num s)
          else if p = 0 then None
          else if \<not> sk_is_sorted sk then first_index (\<lambda>i. call_cmp_func (comp s) p (cells s ! i) = 0) (num s)
          else sk_find_loop (\<lambda>i. call_cmp_func (comp s) p (cells s ! i)) 0 (num s))"

definition sk_shift :: "stack option \<Rightarrow> nat \<times> stack option" where
  "sk_shift sk =
     (case sk of None \<Rightarrow> (0, None) | Some s \<Rightarrow> if num s = 0 then (0, Some s) else sk_delete (Some s) 0)"

definition sk_push :: "allocator \<Rightarrow> stack option \<Rightarrow> nat \<Rightarrow> nat \<times> stack option" where
  "sk_push a sk p = sk_insert a sk p (case sk of None \<Rightarrow> 0 | Some sk \<Rightarrow> num sk)"

definition sk_pop :: "stack option \<Rightarrow> nat \<times> stack option" where
  "sk_pop sk =
     (case sk of None \<Rightarrow> (0, None) | Some s \<Rightarrow> if num s = 0 then (0, Some s) else sk_delete (Some s) (num s - 1))"

definition sk_dup :: "allocator \<Rightarrow> stack option \<Rightarrow> stack option" where
  "sk_dup a sk =
     (case sk of None \<Rightarrow> None
      | Some s \<Rightarrow>
          (case OPENSSL_malloc a 40 of
             None \<Rightarrow> None
           | Some _ \<Rightarrow>
               (case OPENSSL_malloc a (size_wrap (8 * num_alloc s)) of
                  None \<Rightarrow> None
                | Some f \<Rightarrow>
                    Some \<lparr>num = num s, cells = take (num s) (cells s) @ fresh_cells f (num s) (num_alloc s),
                          sorted = sorted s, num_alloc = num_alloc s, comp = comp s\<rparr>)))"

definition sk_sort :: "((nat \<Rightarrow> nat \<Rightarrow> int) \<Rightarrow> nat list \<Rightarrow> nat list) \<Rightarrow> (nat \<Rightarrow> nat \<Rightarrow> nat \<Rightarrow> int) \<Rightarrow> stack option \<Rightarrow> stack option" where
  "sk_sort qsort call sk =
     (case sk of None \<Rightarrow> None
      | Some s \<Rightarrow>
          if comp s = 0 \<or> sorted s then Some s
          else
            let s = (if num s \<ge> 2 then
                       s\<lparr>cells := qsort (call (comp s)) (take (num s) (cells s)) @ drop (num s) (cells s)\<rparr>
                     else s)
            in Some (s\<lparr>sorted := True\<rparr>))"

definition sk_set_cmp_func :: "stack \<Rightarrow> nat \<Rightarrow> nat \<times> stack" where
  "sk_set_cmp_func sk cmp =
     (let old = comp sk;
          sk = (if comp sk \<noteq> cmp then sk\<lparr>sorted := False\<rparr> else sk)
      in (old, sk\<lparr>comp := cmp\<rparr>))"

text \<open>
  \<open>copy\<close> is \<open>call_copy_func\<close>, which gives NULL on failure; the second result lists the pointers that
  \<open>call_free_func\<close> was called on.
\<close>

fun deep_copy_loop :: "(nat \<Rightarrow> nat) \<Rightarrow> nat list \<Rightarrow> nat list \<Rightarrow> nat list option \<times> nat list" where
  "deep_copy_loop copy done_rev [] = (Some (rev done_rev), [])"
| "deep_copy_loop copy done_rev (p # ps) =
     (if p = 0 then deep_copy_loop copy (0 # done_rev) ps
      else if copy p = 0 then (None, filter (\<lambda>q. q \<noteq> 0) (rev done_rev))
      else deep_copy_loop copy (copy p # done_rev) ps)"

definition sk_deep_copy :: "allocator \<Rightarrow> (nat \<Rightarrow> nat) \<Rightarrow> stack option \<Rightarrow> stack option \<times> nat list" where
  "sk_deep_copy a copy sk =
     (case sk_dup a sk of None \<Rightarrow> (None, [])
      | Some ret \<Rightarrow>
          (case deep_copy_loop copy [] (take (num ret) (cells ret)) of
             (None, freed) \<Rightarrow> (None, freed)
           | (Some ps, freed) \<Rightarrow> (Some (ret\<lparr>cells := ps @ drop (num ret) (cells ret)\<rparr>), freed)))"

section \<open>The binary search\<close>

lemma sk_find_loop_first:
  assumes "\<And>i j. lo \<le> i \<Longrightarrow> i \<le> j \<Longrightarrow> j < hi \<Longrightarrow> (r j > 0 \<longrightarrow> r i > 0) \<and> (r i < 0 \<longrightarrow> r j < (0 :: int))"
  shows "sk_find_loop r lo hi = Some m \<longleftrightarrow> lo \<le> m \<and> m < hi \<and> r m = 0 \<and> (\<forall>j. lo \<le> j \<and> j < m \<longrightarrow> r j \<noteq> 0)"
  using assms
proof (induction r lo hi rule: sk_find_loop.induct)
  case (1 r lo hi)
  show ?case
  proof (cases "lo < hi")
    case False
    then show ?thesis by (subst sk_find_loop.simps) auto
  next
    case True
    define mid where "mid = lo + (hi - lo - 1) div 2"
    have mid: "lo \<le> mid" "mid < hi" using True unfolding mid_def by linarith+
    have mono: "(r j > 0 \<longrightarrow> r i > 0) \<and> (r i < 0 \<longrightarrow> r j < 0)" if "lo \<le> i" "i \<le> j" "j < hi" for i j
      using 1(4) that by blast
    have u: "sk_find_loop r lo hi =
        (if r mid > 0 then sk_find_loop r (mid + 1) hi else if r mid < 0 then sk_find_loop r lo mid
         else if hi - lo = 1 then Some mid else sk_find_loop r lo (mid + 1))"
      unfolding sk_find_loop.simps [of r lo hi] Let_def mid_def [symmetric] using True by simp
    consider "r mid > 0" | "r mid < 0" | "r mid = 0" "hi - lo = 1" | "r mid = 0" "hi - lo \<noteq> 1" by linarith
    then show ?thesis
    proof cases
      case r: 1
      have above: "r j \<noteq> 0" if "lo \<le> j" "j \<le> mid" for j using mono [of j mid] that mid r by auto
      have "sk_find_loop r lo hi = sk_find_loop r (mid + 1) hi"
        unfolding u using r by simp
      also have "\<dots> = Some m \<longleftrightarrow> mid + 1 \<le> m \<and> m < hi \<and> r m = 0 \<and> (\<forall>j. mid + 1 \<le> j \<and> j < m \<longrightarrow> r j \<noteq> 0)"
        by (rule 1(1) [OF True mid_def r], rule mono) (use mid in simp_all)
      also have "\<dots> \<longleftrightarrow> lo \<le> m \<and> m < hi \<and> r m = 0 \<and> (\<forall>j. lo \<le> j \<and> j < m \<longrightarrow> r j \<noteq> 0)"
      proof (intro iffI conjI allI impI; elim conjE)
        show "mid + 1 \<le> m" if "lo \<le> m" "m < hi" "r m = 0" using above [of m] that by fastforce
        show "r j \<noteq> 0" if "mid + 1 \<le> m" "r m = 0" "\<forall>j. mid + 1 \<le> j \<and> j < m \<longrightarrow> r j \<noteq> 0" "lo \<le> j" "j < m" for j
          using above [of j] that by fastforce
      qed (use mid in auto)
      finally show ?thesis .
    next
      case r: 2
      have below: "r j < 0" if "mid \<le> j" "j < hi" for j using mono [of mid j] that mid r by auto
      have "sk_find_loop r lo hi = sk_find_loop r lo mid"
        unfolding u using r by simp
      also have "\<dots> = Some m \<longleftrightarrow> lo \<le> m \<and> m < mid \<and> r m = 0 \<and> (\<forall>j. lo \<le> j \<and> j < m \<longrightarrow> r j \<noteq> 0)"
        by (rule 1(2) [OF True mid_def _ r], use r in simp, rule mono) (use mid in simp_all)
      also have "\<dots> \<longleftrightarrow> lo \<le> m \<and> m < hi \<and> r m = 0 \<and> (\<forall>j. lo \<le> j \<and> j < m \<longrightarrow> r j \<noteq> 0)"
        using below [of m] mid by fastforce
      finally show ?thesis .
    next
      case r: 3
      have "mid = lo" using r(2) unfolding mid_def by simp
      then have "sk_find_loop r lo hi = Some lo"
        unfolding u using r by simp
      moreover have "\<And>m. lo \<le> m \<and> m < hi \<Longrightarrow> m = lo" using r(2) by linarith
      ultimately show ?thesis using r(1) \<open>mid = lo\<close> True by auto
    next
      case r: 4
      have "sk_find_loop r lo hi = sk_find_loop r lo (mid + 1)"
        unfolding u using r by simp
      also have "\<dots> = Some m \<longleftrightarrow> lo \<le> m \<and> m < mid + 1 \<and> r m = 0 \<and> (\<forall>j. lo \<le> j \<and> j < m \<longrightarrow> r j \<noteq> 0)"
        by (rule 1(3) [OF True mid_def], use r in \<open>simp_all (no_asm_simp)\<close>, rule mono) (use mid in simp_all)
      also have "\<dots> \<longleftrightarrow> lo \<le> m \<and> m < hi \<and> r m = 0 \<and> (\<forall>j. lo \<le> j \<and> j < m \<longrightarrow> r j \<noteq> 0)"
      proof (intro iffI conjI allI impI; elim conjE)
        show "m < mid + 1" if "lo \<le> m" "\<forall>j. lo \<le> j \<and> j < m \<longrightarrow> r j \<noteq> 0"
        proof (rule ccontr)
          assume "\<not> m < mid + 1"
          then have "lo \<le> mid \<and> mid < m" using mid by simp
          then show False using that(2) r(1) by blast
        qed
      qed (use mid in auto)
      finally show ?thesis .
    qed
  qed
qed

lemma sk_find_loop_eq:
  assumes "\<And>i j. i \<le> j \<Longrightarrow> j < n \<Longrightarrow> (r j > 0 \<longrightarrow> r i > 0) \<and> (r i < 0 \<longrightarrow> r j < (0 :: int))"
  shows "sk_find_loop r 0 n = first_index (\<lambda>i. r i = 0) n"
proof -
  have "sk_find_loop r 0 n = Some m \<longleftrightarrow> first_index (\<lambda>i. r i = 0) n = Some m" for m
    using sk_find_loop_first [of 0 n r m] assms by (auto simp: first_index_Some)
  then show ?thesis by (metis not_Some_eq)
qed

section \<open>Stacks as lists\<close>

definition elems :: "stack \<Rightarrow> nat list" where
  "elems s = take (num s) (cells s)"

definition stack_ok :: "(nat \<Rightarrow> nat \<Rightarrow> nat \<Rightarrow> int) \<Rightarrow> stack \<Rightarrow> bool" where
  "stack_ok call s \<longleftrightarrow>
     num s < num_alloc s \<and> length (cells s) = num_alloc s \<and> num_alloc s * 8 < 2 ^ 64 \<and>
     (sorted s \<longrightarrow> comp s \<noteq> 0 \<and> sorted_by (call (comp s)) (elems s))"

lemma length_elems: "stack_ok call s \<Longrightarrow> length (elems s) = num s"
  by (simp add: stack_ok_def elems_def)

lemma nth_elems: "i < num s \<Longrightarrow> elems s ! i = cells s ! i"
  by (simp add: elems_def)

lemma first_index_cong: "(\<And>i. i < n \<Longrightarrow> P i = Q i) \<Longrightarrow> first_index P n = first_index Q n"
  unfolding first_index_def by (rule find_cong) auto

lemma sk_find_eq:
  assumes ok: "stack_ok call s" and cmp: "comparator (call (comp s))" and p: "comp s \<noteq> 0" "p \<noteq> 0"
  shows "sk_find call (Some s) p = first_index (\<lambda>i. call (comp s) p (elems s ! i) = 0) (num s)"
proof -
  have lin: "first_index (\<lambda>i. call (comp s) p (cells s ! i) = 0) (num s) =
      first_index (\<lambda>i. call (comp s) p (elems s ! i) = 0) (num s)"
    by (rule first_index_cong) (simp add: nth_elems)
  show ?thesis
  proof (cases "sorted s")
    case True
    then have srt: "sorted_by (call (comp s)) (elems s)" using ok by (simp add: stack_ok_def)
    have "sk_find_loop (\<lambda>i. call (comp s) p (cells s ! i)) 0 (num s) =
        first_index (\<lambda>i. call (comp s) p (cells s ! i) = 0) (num s)"
    proof (rule sk_find_loop_eq, intro conjI impI)
      fix i j assume ij: "i \<le> j" "j < num s"
      then have e: "elems s ! i = cells s ! i" "elems s ! j = cells s ! j" "j < length (elems s)"
        using length_elems [OF ok] by (simp_all add: nth_elems)
      show "call (comp s) p (cells s ! j) > 0 \<Longrightarrow> call (comp s) p (cells s ! i) > 0"
        using comparator.sorted_signs(1) [OF cmp srt ij(1) e(3), of p] by (simp only: e)
      show "call (comp s) p (cells s ! i) < 0 \<Longrightarrow> call (comp s) p (cells s ! j) < 0"
        using comparator.sorted_signs(2) [OF cmp srt ij(1) e(3), of p] by (simp only: e)
    qed
    then show ?thesis using True p by (simp add: sk_find_def sk_is_sorted_def lin)
  next
    case False
    then show ?thesis using p by (simp add: sk_find_def sk_is_sorted_def lin)
  qed
qed

section \<open>What the operations do to the list\<close>

lemma sk_new_ok: "sk_new a c = Some s \<Longrightarrow> stack_ok call s \<and> elems s = [] \<and> comp s = c"
  by (auto simp: sk_new_def stack_ok_def elems_def kMinSize_def split: option.split_asm)

lemma length_fresh_cells [simp]: "length (fresh_cells f i j) = j - i"
  by (simp add: fresh_cells_def)

lemma take_prefix: "xs = ys @ zs \<Longrightarrow> length ys = n \<Longrightarrow> take n xs = ys"
  by simp

lemma sk_insert_spec:
  assumes ok: "stack_ok call s" and r: "sk_insert a (Some s) p at = (n, s')"
  shows "n = 0 \<and> s' = Some s \<or>
    (\<exists>t. s' = Some t \<and> n = length (elems s) + 1 \<and> elems t = take at (elems s) @ [p] @ drop at (elems s) \<and>
       stack_ok call t \<and> comp t = comp s)"
proof -
  have store: "\<exists>t. s' = Some t \<and> n = length (elems s) + 1 \<and> elems t = take at (elems s) @ [p] @ drop at (elems s) \<and>
      stack_ok call t \<and> comp t = comp s"
    if c: "num s1 = num s" "comp s1 = comp s" "take (num s) (cells s1) = take (num s) (cells s)"
        "length (cells s1) = num_alloc s1" "num s + 1 < num_alloc s1" "num_alloc s1 * 8 < 2 ^ 64"
      and r: "(n, s') = (num s1 + 1, Some (s1\<lparr>cells := if at \<ge> num s1 then (cells s1)[num s1 := p]
         else take at (cells s1) @ [p] @ drop at (take (num s1) (cells s1)) @ drop (num s1 + 1) (cells s1),
         num := num s1 + 1, sorted := False\<rparr>))" for s1
  proof -
    have len: "length (elems s) = num s" by (rule length_elems [OF ok])
    define t where "t = s1\<lparr>cells := if at \<ge> num s1 then (cells s1)[num s1 := p]
         else take at (cells s1) @ [p] @ drop at (take (num s1) (cells s1)) @ drop (num s1 + 1) (cells s1),
         num := num s1 + 1, sorted := False\<rparr>"
    have "elems t = take at (elems s) @ [p] @ drop at (elems s)"
    proof (cases "at \<ge> num s")
      case True
      have "take (num s + 1) ((cells s1)[num s := p]) = take (num s) (cells s1) @ [p]"
        using c(4,5) by (simp add: take_Suc_conv_app_nth)
      then show ?thesis using True c(1,3) len by (simp add: t_def elems_def)
    next
      case False
      have "take at (cells s1) = take at (elems s)"
        using False c(3) by (metis elems_def min.absorb1 nat_le_linear take_take)
      then have ct: "cells t = (take at (elems s) @ [p] @ drop at (elems s)) @ drop (num s + 1) (cells s1)"
        using False c(1,3) by (simp add: t_def elems_def)
      have l: "length (take at (elems s) @ [p] @ drop at (elems s)) = num s + 1" using False len by simp
      have n: "num t = num s + 1" using c(1) by (simp add: t_def)
      show ?thesis unfolding elems_def [of t] n by (rule take_prefix [OF ct l])
    qed
    moreover have "stack_ok call t"
      using c len by (cases "at \<ge> num s") (simp_all add: stack_ok_def t_def elems_def [of s])
    moreover have "comp t = comp s" "n = length (elems s) + 1" "s' = Some t" using c r len by (simp_all add: t_def)
    ultimately show ?thesis by blast
  qed
  have ok': "num s < num_alloc s" "length (cells s) = num_alloc s" "num_alloc s * 8 < 2 ^ 64"
    using ok by (simp_all add: stack_ok_def)
  show ?thesis
  proof (cases "num_alloc s \<le> num s + 1")
    case False
    then have "sk_insert a (Some s) p at = (num s + 1, Some (s\<lparr>cells := if at \<ge> num s then (cells s)[num s := p]
         else take at (cells s) @ [p] @ drop at (take (num s) (cells s)) @ drop (num s + 1) (cells s),
         num := num s + 1, sorted := False\<rparr>))" by (simp add: sk_insert_def)
    then have "(n, s') = (num s + 1, Some (s\<lparr>cells := if at \<ge> num s then (cells s)[num s := p]
         else take at (cells s) @ [p] @ drop at (take (num s) (cells s)) @ drop (num s + 1) (cells s),
         num := num s + 1, sorted := False\<rparr>))" unfolding r .
    with False ok' show ?thesis by (intro disjI2 store [of s]) simp_all
  next
    case True
    define na where "na = (if size_wrap (num_alloc s * 2) < num_alloc s \<or>
        size_wrap (size_wrap (num_alloc s * 2) * 8) div 8 \<noteq> size_wrap (num_alloc s * 2)
      then size_wrap (num_alloc s + 1) else size_wrap (num_alloc s * 2))"
    show ?thesis
    proof (cases "na < num_alloc s \<or> size_wrap (na * 8) div 8 \<noteq> na \<or> OPENSSL_malloc a (size_wrap (na * 8)) = None")
      case no: True
      have "sk_insert a (Some s) p at = (0, Some s)"
        unfolding sk_insert_def option.case Let_def na_def [symmetric] using True no by auto
      then show ?thesis using r by simp
    next
      case yes: False
      then obtain f where f: "OPENSSL_malloc a (size_wrap (na * 8)) = Some f" by auto
      define s1 where "s1 = s\<lparr>cells := cells s @ fresh_cells f (length (cells s)) na, num_alloc := na\<rparr>"
      have two: "size_wrap (num_alloc s * 2) = num_alloc s * 2" "size_wrap (num_alloc s + 1) = num_alloc s + 1"
        using ok' unfolding size_wrap_def by simp_all
      have na: "num s + 1 < na"
        using ok' True unfolding na_def two by (auto split: if_splits)
      have na8: "na * 8 < 2 ^ 64"
      proof -
        have "size_wrap (na * 8) div 8 = na" using yes by simp
        moreover have "size_wrap (na * 8) div 8 * 8 \<le> size_wrap (na * 8)" by (rule div_times_less_eq_dividend)
        ultimately have "na * 8 \<le> size_wrap (na * 8)" by (simp only:)
        also have "\<dots> < 2 ^ 64" by (simp add: size_wrap_def)
        finally show ?thesis .
      qed
      have "sk_insert a (Some s) p at = (num s1 + 1, Some (s1\<lparr>cells := if at \<ge> num s1 then (cells s1)[num s1 := p]
         else take at (cells s1) @ [p] @ drop at (take (num s1) (cells s1)) @ drop (num s1 + 1) (cells s1),
         num := num s1 + 1, sorted := False\<rparr>))"
        unfolding sk_insert_def option.case Let_def na_def [symmetric] using True yes f by (simp add: s1_def)
      moreover have "num s1 = num s" "comp s1 = comp s" "take (num s) (cells s1) = take (num s) (cells s)"
        "length (cells s1) = num_alloc s1" "num_alloc s1 = na"
        using ok' na yes by (simp_all add: s1_def)
      ultimately show ?thesis using r na na8 by (intro disjI2 store [of s1]) simp_all
    qed
  qed
qed

text \<open>An insertion fails only when the array is full and cannot grow.\<close>

lemma sk_insert_fails:
  assumes ok: "stack_ok call s" and r: "sk_insert a (Some s) p at = (0, s')"
  shows "num_alloc s \<le> num s + 1" "plentiful a \<Longrightarrow> 2 ^ 59 \<le> num_alloc s"
proof -
  have "size_wrap (num_alloc s * 2) = num_alloc s * 2" using ok by (simp add: stack_ok_def size_wrap_def)
  note ins = r [unfolded sk_insert_def option.case Let_def this]
  show "num_alloc s \<le> num s + 1" using ins by (simp split: if_split_asm)
  show "2 ^ 59 \<le> num_alloc s" if pl: "plentiful a"
  proof (rule ccontr)
    assume "\<not> 2 ^ 59 \<le> num_alloc s"
    then have w: "size_wrap (num_alloc s * 2 * 8) = num_alloc s * 2 * 8" "num_alloc s * 2 * 8 < 2 ^ 63"
      by (simp_all add: size_wrap_def)
    then obtain f where "OPENSSL_malloc a (num_alloc s * 2 * 8) = Some f" using plentiful_malloc [OF pl w(2)] by blast
    then show False using ins w(1) by (simp split: if_split_asm)
  qed
qed

lemma sk_delete_spec:
  assumes ok: "stack_ok call s" and r: "sk_delete (Some s) at = (p, s')"
  shows "if at < length (elems s)
    then \<exists>t. s' = Some t \<and> p = elems s ! at \<and> elems t = take at (elems s) @ drop (at + 1) (elems s) \<and>
      stack_ok call t \<and> comp t = comp s
    else p = 0 \<and> s' = Some s"
proof -
  have len: "length (elems s) = num s" by (rule length_elems [OF ok])
  have ok': "num s < num_alloc s" "length (cells s) = num_alloc s" "num_alloc s * 8 < 2 ^ 64"
    "sorted s \<Longrightarrow> comp s \<noteq> 0 \<and> sorted_by (call (comp s)) (elems s)"
    using ok by (simp_all add: stack_ok_def)
  show ?thesis
  proof (cases "at < num s")
    case False
    then show ?thesis using r len by (simp add: sk_delete_def)
  next
    case True
    define cs where "cs = (if at \<noteq> num s - 1 then
        take at (cells s) @ drop (at + 1) (take (num s) (cells s)) @ drop (num s - 1) (cells s) else cells s)"
    define t where "t = s\<lparr>cells := cs, num := num s - 1\<rparr>"
    have r': "p = cells s ! at" "s' = Some t" using r True by (simp_all add: sk_delete_def cs_def t_def Let_def)
    have el: "elems t = take at (elems s) @ drop (at + 1) (elems s)"
    proof (cases "at = num s - 1")
      case last: True
      then show ?thesis using True by (simp add: t_def cs_def elems_def min_def)
    next
      case False
      have "take at (cells s) = take at (elems s)" using True by (simp add: elems_def)
      then have ct: "cells t = (take at (elems s) @ drop (at + 1) (elems s)) @ drop (num s - 1) (cells s)"
        using False by (simp add: t_def cs_def elems_def)
      have l: "length (take at (elems s) @ drop (at + 1) (elems s)) = num s - 1" using True len by simp
      have n: "num t = num s - 1" by (simp add: t_def)
      show ?thesis unfolding elems_def [of t] n by (rule take_prefix [OF ct l])
    qed
    have cs: "length cs = length (cells s)" using True ok' by (simp add: cs_def)
    have "sorted_by (call (comp s)) (elems t)" if "sorted_by (call (comp s)) (elems s)"
    proof -
      have "elems s = take at (elems s) @ elems s ! at # drop (at + 1) (elems s)"
        using True len by (simp add: id_take_nth_drop)
      then show ?thesis using that sorted_by_sublist unfolding el by metis
    qed
    then have "stack_ok call t" using ok' cs True by (auto simp: stack_ok_def t_def)
    then show ?thesis using True len r' el by (simp add: nth_elems t_def)
  qed
qed

lemma sk_delete_ok: "stack_ok call s \<Longrightarrow> sk_delete (Some s) at = (p, Some t) \<Longrightarrow> stack_ok call t \<and> comp t = comp s"
  using sk_delete_spec [of call s at p "Some t"] by (auto split: if_split_asm)

lemma sk_zero_ok: "stack_ok call s \<Longrightarrow> sk_zero (Some s) = Some t \<Longrightarrow> stack_ok call t \<and> elems t = []"
  by (auto simp: sk_zero_def stack_ok_def elems_def split: if_split_asm)

lemma sk_dup_ok:
  "stack_ok call s \<Longrightarrow> sk_dup a (Some s) = Some t \<Longrightarrow> stack_ok call t \<and> elems t = elems s \<and> comp t = comp s"
  by (auto simp: sk_dup_def stack_ok_def elems_def split: option.split_asm)

lemma sk_set_cmp_func_ok:
  "stack_ok call s \<Longrightarrow> sk_set_cmp_func s c = (old, t) \<Longrightarrow> stack_ok call t \<and> elems t = elems s \<and> old = comp s"
  by (cases "comp s = c") (auto simp: sk_set_cmp_func_def stack_ok_def elems_def)

lemma sk_sort_ok:
  assumes ok: "stack_ok call s" and t: "sk_sort qs call (Some s) = Some t"
    and qs: "\<And>c. qsort_ok (call c) (qs (call c))" and cmp: "\<And>c. c \<noteq> 0 \<Longrightarrow> comparator (call c)"
  shows "stack_ok call t \<and> mset (elems t) = mset (elems s) \<and> comp t = comp s \<and> (comp s \<noteq> 0 \<longrightarrow> sorted t)"
proof (cases "comp s = 0 \<or> sorted s")
  case True
  then show ?thesis using ok t by (auto simp: sk_sort_def)
next
  case False
  have len: "length (elems s) = num s" by (rule length_elems [OF ok])
  have ok': "num s < num_alloc s" "length (cells s) = num_alloc s" "num_alloc s * 8 < 2 ^ 64"
    using ok by (simp_all add: stack_ok_def)
  show ?thesis
  proof (cases "num s \<ge> 2")
    case True
    define xs where "xs = qs (call (comp s)) (elems s)"
    have m: "mset xs = mset (elems s)" unfolding xs_def by (rule qsort_ok_mset [OF qs])
    then have l: "length xs = num s" using len by (metis size_mset)
    have "sorted_by (call (comp s)) xs"
      unfolding xs_def using False by (intro qsort_ok_sorted [OF qs] cmp) simp
    moreover have "t = s\<lparr>cells := xs @ drop (num s) (cells s), sorted := True\<rparr>"
      using t False True by (simp add: sk_sort_def xs_def elems_def)
    ultimately show ?thesis using ok' False m l by (simp add: stack_ok_def elems_def)
  next
    case few: False
    then have "t = s\<lparr>sorted := True\<rparr>" using t False by (simp add: sk_sort_def)
    moreover have "sorted_by (call (comp s)) (elems s)"
      using few len by (cases "elems s"; cases "tl (elems s)") (auto simp: sorted_by_def)
    ultimately show ?thesis using ok' False by (simp add: stack_ok_def elems_def)
  qed
qed

section \<open>The properties\<close>

text \<open>Any use of the operations, \<open>sk_set\<close> and the copying of the elements apart.\<close>

inductive stack_reachable ::
  "((nat \<Rightarrow> nat \<Rightarrow> int) \<Rightarrow> nat list \<Rightarrow> nat list) \<Rightarrow> (nat \<Rightarrow> nat \<Rightarrow> nat \<Rightarrow> int) \<Rightarrow> stack \<Rightarrow> bool"
  for qs call where
  new: "sk_new a c = Some s \<Longrightarrow> stack_reachable qs call s"
| zero: "stack_reachable qs call s \<Longrightarrow> sk_zero (Some s) = Some t \<Longrightarrow> stack_reachable qs call t"
| insert: "stack_reachable qs call s \<Longrightarrow> sk_insert a (Some s) p at = (n, Some t) \<Longrightarrow> stack_reachable qs call t"
| push: "stack_reachable qs call s \<Longrightarrow> sk_push a (Some s) p = (n, Some t) \<Longrightarrow> stack_reachable qs call t"
| delete: "stack_reachable qs call s \<Longrightarrow> sk_delete (Some s) at = (p, Some t) \<Longrightarrow> stack_reachable qs call t"
| delete_ptr: "stack_reachable qs call s \<Longrightarrow> sk_delete_ptr (Some s) p = (q, Some t) \<Longrightarrow> stack_reachable qs call t"
| shift: "stack_reachable qs call s \<Longrightarrow> sk_shift (Some s) = (p, Some t) \<Longrightarrow> stack_reachable qs call t"
| pop: "stack_reachable qs call s \<Longrightarrow> sk_pop (Some s) = (p, Some t) \<Longrightarrow> stack_reachable qs call t"
| dup: "stack_reachable qs call s \<Longrightarrow> sk_dup a (Some s) = Some t \<Longrightarrow> stack_reachable qs call t"
| sort: "stack_reachable qs call s \<Longrightarrow> sk_sort qs call (Some s) = Some t \<Longrightarrow> stack_reachable qs call t"
| set_cmp: "stack_reachable qs call s \<Longrightarrow> sk_set_cmp_func s c = (old, t) \<Longrightarrow> stack_reachable qs call t"

definition comparisons_ok ::
  "((nat \<Rightarrow> nat \<Rightarrow> int) \<Rightarrow> nat list \<Rightarrow> nat list) \<Rightarrow> (nat \<Rightarrow> nat \<Rightarrow> nat \<Rightarrow> int) \<Rightarrow> bool" where
  "comparisons_ok qs call \<longleftrightarrow>
     (\<forall>c. qsort_ok (call c) (qs (call c))) \<and> (\<forall>c. c \<noteq> 0 \<longrightarrow> comparator (call c))"

lemma sk_insert_ok: "stack_ok call s \<Longrightarrow> sk_insert a (Some s) p at = (n, Some t) \<Longrightarrow> stack_ok call t"
  using sk_insert_spec [of call s a p at n "Some t"] by auto

lemma reachable_ok:
  assumes "stack_reachable qs call s" "comparisons_ok qs call"
  shows "stack_ok call s"
  using assms(1)
proof induction
  case (delete_ptr s p q t)
  then show ?case by (auto simp: sk_delete_ptr_def dest: sk_delete_ok split: option.split_asm)
next
  case (sort s t)
  then show ?case using assms(2) sk_sort_ok [of call s qs t] by (simp add: comparisons_ok_def)
qed (auto simp: sk_push_def sk_shift_def sk_pop_def dest: sk_new_ok sk_zero_ok sk_insert_ok sk_delete_ok sk_dup_ok sk_set_cmp_func_ok
    split: if_split_asm)

text \<open>C23: Every stack that the operations build, \<open>sk_set\<close> apart, keeps the invariant: room for one more
  pointer behind the elements, a size in bytes that does not overflow, and elements in order whenever the
  \<open>sorted\<close> flag is set.\<close>

theorem stack_invariant:
  assumes "stack_reachable qs call s" "comparisons_ok qs call"
  shows "num s < num_alloc s \<and> length (cells s) = num_alloc s \<and> num_alloc s * 8 < 2 ^ 64 \<and>
    (sk_is_sorted (Some s) \<longrightarrow> sorted_by (call (comp s)) (elems s))"
  using reachable_ok [OF assms] by (simp add: stack_ok_def sk_is_sorted_def)

text \<open>C24: On every such stack that has a comparison function, \<open>sk_find\<close> returns the index of the first element
  that compares equal, whether it searches the sorted stack by halving or the unsorted one from the start.\<close>

theorem sk_find_first:
  assumes "stack_reachable qs call s" "comparisons_ok qs call" "comp s \<noteq> 0" "p \<noteq> 0"
  shows "sk_find call (Some s) p = first_index (\<lambda>i. call (comp s) p (sk_value (Some s) i) = 0) (sk_num (Some s))"
proof -
  have "comparator (call (comp s))" using assms(2,3) by (simp add: comparisons_ok_def)
  then have "sk_find call (Some s) p = first_index (\<lambda>i. call (comp s) p (elems s ! i) = 0) (num s)"
    using reachable_ok [OF assms(1,2)] assms(3,4) by (intro sk_find_eq)
  also have "\<dots> = first_index (\<lambda>i. call (comp s) p (sk_value (Some s) i) = 0) (num s)"
    by (rule first_index_cong) (simp add: nth_elems sk_value_def)
  finally show ?thesis by (simp add: sk_num_def)
qed

text \<open>C25: Inserting and deleting act on the list of elements as their names say, at every index. An insertion
  fails only when the array is full and the allocator gives no larger one, never with one that does not run
  out and an array below \<open>2 ^ 59\<close> pointers; it then leaves the stack as it was.\<close>

theorem stack_list_operations:
  assumes "stack_reachable qs call s" "comparisons_ok qs call"
  shows "(case sk_insert a (Some s) p at of
      (n, s') \<Rightarrow> if n = 0
        then s' = Some s \<and> num_alloc s \<le> length (elems s) + 1 \<and> \<not> (plentiful a \<and> num_alloc s < 2 ^ 59)
        else n = length (elems s) + 1 \<and>
          (\<exists>t. s' = Some t \<and> elems t = take at (elems s) @ [p] @ drop at (elems s) \<and> comp t = comp s)) \<and>
    (case sk_delete (Some s) at of
      (q, s') \<Rightarrow> if at < length (elems s)
        then q = elems s ! at \<and> (\<exists>t. s' = Some t \<and> elems t = take at (elems s) @ drop (at + 1) (elems s) \<and> comp t = comp s)
        else q = 0 \<and> s' = Some s)"
proof -
  note ok = reachable_ok [OF assms]
  obtain n s1 where i: "sk_insert a (Some s) p at = (n, s1)" by (cases "sk_insert a (Some s) p at")
  obtain q s2 where d: "sk_delete (Some s) at = (q, s2)" by (cases "sk_delete (Some s) at")
  have "n = 0 \<Longrightarrow> num_alloc s \<le> length (elems s) + 1 \<and> \<not> (plentiful a \<and> num_alloc s < 2 ^ 59)"
    using sk_insert_fails [OF ok] i length_elems [OF ok] by fastforce
  then show ?thesis using sk_insert_spec [OF ok i] sk_delete_spec [OF ok d] by (auto simp: i d split: if_split_asm)
qed

text \<open>A comparison of the pointers themselves, and a stack built with it.\<close>

definition by_address :: "nat \<Rightarrow> nat \<Rightarrow> nat \<Rightarrow> int" where
  "by_address c p q = int p - int q"

lemma comparisons_ok_by_address: "comparisons_ok sort_by by_address"
  by (auto simp: comparisons_ok_def qsort_ok_sort_by by_address_def intro!: comparator.intro)

definition demo_stack :: stack where
  "demo_stack = \<lparr>num = 3, cells = [1, 2, 3, 0], sorted = True, num_alloc = 4, comp = 1\<rparr>"

lemma demo_new: "sk_new plenty 1 = Some \<lparr>num = 0, cells = [0, 0, 0, 0], sorted = False, num_alloc = 4, comp = 1\<rparr>"
proof -
  have "replicate 4 0 = [0, 0, 0, 0 :: nat]" by (simp add: numeral_eq_Suc)
  then show ?thesis
    by (simp add: sk_new_def OPENSSL_malloc_def plenty_def size_wrap_def OPENSSL_MALLOC_PREFIX_def kMinSize_def)
qed

lemma demo_stack_reachable: "stack_reachable sort_by by_address demo_stack"
proof -
  define s where "s n xs = \<lparr>num = n, cells = xs, sorted = False, num_alloc = 4, comp = 1 :: nat\<rparr>" for n xs
  have push: "sk_push plenty (Some (s n xs)) p = (n + 1, Some (s (n + 1) (xs[n := p])))" if "n < 3" for n xs p
    using that by (simp add: sk_push_def sk_insert_def s_def)
  have "stack_reachable sort_by by_address (s 0 [0, 0, 0, 0])"
    using stack_reachable.new [OF demo_new] by (simp add: s_def)
  then have "stack_reachable sort_by by_address (s 3 [3, 1, 2, 0])"
    using stack_reachable.push [OF _ push [of 0 "[0, 0, 0, 0]" 3]] stack_reachable.push [OF _ push [of 1 "[3, 0, 0, 0]" 1]]
      stack_reachable.push [OF _ push [of 2 "[3, 1, 0, 0]" 2]] by (simp add: eval_nat_numeral)
  moreover have "sk_sort sort_by by_address (Some (s 3 [3, 1, 2, 0])) = Some demo_stack"
    by (simp add: sk_sort_def s_def demo_stack_def by_address_def eval_nat_numeral)
  ultimately show ?thesis by (rule stack_reachable.sort)
qed

theorem stack_invariant_witness: "num demo_stack < num_alloc demo_stack \<and> sorted_by (by_address 1) [1, 2, 3]"
  using stack_invariant [OF demo_stack_reachable comparisons_ok_by_address]
  by (simp add: demo_stack_def sk_is_sorted_def elems_def)

theorem sk_find_first_witness: "sk_find by_address (Some demo_stack) 2 = Some 1"
proof -
  have "first_index (\<lambda>i. by_address (comp demo_stack) 2 (sk_value (Some demo_stack) i) = 0) (sk_num (Some demo_stack)) = Some 1"
    by code_simp
  then show ?thesis
    using sk_find_first [OF demo_stack_reachable comparisons_ok_by_address, of 2] by (simp add: demo_stack_def)
qed

theorem stack_list_operations_witness:
  "(\<exists>t. sk_insert plenty (Some demo_stack) 7 1 = (4, Some t) \<and> elems t = [1, 7, 2, 3]) \<and>
   (\<exists>t. sk_delete (Some demo_stack) 1 = (2, Some t) \<and> elems t = [1, 3])"
  using stack_list_operations [OF demo_stack_reachable comparisons_ok_by_address, where a = plenty and p = 7 and at = 1]
    plentiful_plenty
  by (auto simp: demo_stack_def elems_def split: prod.split_asm if_split_asm)

text \<open>\<open>sk_set\<close> keeps the \<open>sorted\<close> flag: after overwriting the first element of a sorted stack, \<open>sk_find\<close>
  halves its way past an element that is still there.\<close>

lemma sk_set_breaks_find:
  "\<exists>s t. stack_reachable sort_by by_address s \<and> sk_set (Some s) 0 9 = (9, Some t) \<and> sorted t \<and>
     sk_find by_address (Some t) 2 = None \<and> sk_value (Some t) 1 = 2"
proof -
  have "sk_set (Some demo_stack) 0 9 = (9, Some (demo_stack\<lparr>cells := [9, 2, 3, 0]\<rparr>))" by code_simp
  moreover have "sk_find by_address (Some (demo_stack\<lparr>cells := [9, 2, 3, 0]\<rparr>)) 2 = None" by code_simp
  moreover have "sk_value (Some (demo_stack\<lparr>cells := [9, 2, 3, 0]\<rparr>)) 1 = 2" by code_simp
  moreover have "sorted (demo_stack\<lparr>cells := [9, 2, 3, 0]\<rparr>)" by (simp add: demo_stack_def)
  ultimately show ?thesis using demo_stack_reachable by blast
qed

end
