(* ===== verification/Lhash.thy ===== *)
theory Lhash
  imports Mem "HOL-Library.Multiset"
begin

text \<open>
  The hash table (\<open>crypto/lhash/lhash.c\<close>): an array of chains that grows and shrinks with the number of
  items. The stored pointers, the hash function and the comparison function are numbers, 0 is NULL; the
  functions are called through \<open>call_hash_func\<close> and \<open>call_cmp_func\<close>, parameters of the code. A chain is the
  list of its items; a pointer to the link of an item, which \<open>get_next_ptr_and_hash\<close> returns, is the bucket
  and the position of the item in its chain, the length of the chain for the link that holds NULL.
\<close>

section \<open>The code\<close>

definition kMinNumBuckets :: nat where "kMinNumBuckets = 16"
definition kMaxAverageChainLength :: nat where "kMaxAverageChainLength = 2"
definition kMinAverageChainLength :: nat where "kMinAverageChainLength = 1"

record lhash_item =
  data :: nat
  item_hash :: u32

record lhash =
  num_items :: nat
  buckets :: "lhash_item list list"
  num_buckets :: nat
  callback_depth :: nat
  comp :: nat
  hash :: nat

definition OPENSSL_lh_new :: "allocator \<Rightarrow> nat \<Rightarrow> nat \<Rightarrow> lhash option" where
  "OPENSSL_lh_new a h cmp =
     (case OPENSSL_malloc a 48 of
        None \<Rightarrow> None
      | Some _ \<Rightarrow>
          (case OPENSSL_malloc a (8 * kMinNumBuckets) of
             None \<Rightarrow> None
           | Some _ \<Rightarrow>
               Some \<lparr>num_items = 0, buckets = replicate kMinNumBuckets [], num_buckets = kMinNumBuckets,
                 callback_depth = 0, comp = cmp, hash = h\<rparr>))"

definition OPENSSL_lh_num_items :: "lhash \<Rightarrow> nat" where
  "OPENSSL_lh_num_items lh = num_items lh"

fun find_in_chain :: "(nat \<Rightarrow> bool) \<Rightarrow> lhash_item list \<Rightarrow> nat" where
  "find_in_chain P [] = 0"
| "find_in_chain P (cur # rest) = (if P (data cur) then 0 else Suc (find_in_chain P rest))"

text \<open>\<open>*next_ptr\<close>\<close>

definition pointee :: "lhash \<Rightarrow> nat \<times> nat \<Rightarrow> lhash_item option" where
  "pointee lh ptr =
     (case ptr of (i, k) \<Rightarrow> if k < length (buckets lh ! i) then Some (buckets lh ! i ! k) else None)"

definition get_next_ptr_and_hash ::
  "(nat \<Rightarrow> nat \<Rightarrow> u32) \<Rightarrow> (nat \<Rightarrow> nat \<Rightarrow> nat \<Rightarrow> int) \<Rightarrow> lhash \<Rightarrow> nat \<Rightarrow> (nat \<times> nat) \<times> u32" where
  "get_next_ptr_and_hash call_hash_func call_cmp_func lh x =
     (let h = call_hash_func (hash lh) x; i = unat h mod num_buckets lh in
      ((i, find_in_chain (\<lambda>d. call_cmp_func (comp lh) d x = 0) (buckets lh ! i)), h))"

definition get_next_ptr_by_key :: "lhash \<Rightarrow> 'k \<Rightarrow> u32 \<Rightarrow> ('k \<Rightarrow> nat \<Rightarrow> int) \<Rightarrow> nat \<times> nat" where
  "get_next_ptr_by_key lh key key_hash cmp_key =
     (let i = unat key_hash mod num_buckets lh in (i, find_in_chain (\<lambda>d. cmp_key key d = 0) (buckets lh ! i)))"

definition OPENSSL_lh_retrieve ::
  "(nat \<Rightarrow> nat \<Rightarrow> u32) \<Rightarrow> (nat \<Rightarrow> nat \<Rightarrow> nat \<Rightarrow> int) \<Rightarrow> lhash \<Rightarrow> nat \<Rightarrow> nat" where
  "OPENSSL_lh_retrieve call_hash_func call_cmp_func lh x =
     (case pointee lh (fst (get_next_ptr_and_hash call_hash_func call_cmp_func lh x)) of
        None \<Rightarrow> 0 | Some item \<Rightarrow> data item)"

definition OPENSSL_lh_retrieve_key :: "lhash \<Rightarrow> 'k \<Rightarrow> u32 \<Rightarrow> ('k \<Rightarrow> nat \<Rightarrow> int) \<Rightarrow> nat" where
  "OPENSSL_lh_retrieve_key lh key key_hash cmp_key =
     (case pointee lh (get_next_ptr_by_key lh key key_hash cmp_key) of None \<Rightarrow> 0 | Some item \<Rightarrow> data item)"

text \<open>The items of one chain move to the heads of their new chains, one after the other.\<close>

fun rebucket_chain :: "nat \<Rightarrow> lhash_item list \<Rightarrow> lhash_item list list \<Rightarrow> lhash_item list list" where
  "rebucket_chain n [] new_buckets = new_buckets"
| "rebucket_chain n (cur # rest) new_buckets =
     (let new_bucket = unat (item_hash cur) mod n in
      rebucket_chain n rest (new_buckets[new_bucket := cur # new_buckets ! new_bucket]))"

fun rebucket_all :: "nat \<Rightarrow> lhash_item list list \<Rightarrow> lhash_item list list \<Rightarrow> lhash_item list list" where
  "rebucket_all n [] new_buckets = new_buckets"
| "rebucket_all n (c # cs) new_buckets = rebucket_all n cs (rebucket_chain n c new_buckets)"

definition lh_rebucket :: "allocator \<Rightarrow> lhash \<Rightarrow> nat \<Rightarrow> lhash" where
  "lh_rebucket a lh new_num_buckets =
     (let alloc_size = size_wrap (8 * new_num_buckets) in
      if alloc_size div 8 \<noteq> new_num_buckets then lh
      else
        (case OPENSSL_malloc a alloc_size of
           None \<Rightarrow> lh
         | Some _ \<Rightarrow>
             lh\<lparr>num_buckets := new_num_buckets,
               buckets := rebucket_all new_num_buckets (take (num_buckets lh) (buckets lh)) (replicate new_num_buckets [])\<rparr>))"

definition lh_maybe_resize :: "allocator \<Rightarrow> lhash \<Rightarrow> lhash" where
  "lh_maybe_resize a lh =
     (if callback_depth lh > 0 then lh
      else
        let avg_chain_length = num_items lh div num_buckets lh in
        if avg_chain_length > kMaxAverageChainLength then
          (let new_num_buckets = size_wrap (num_buckets lh * 2) in
           if new_num_buckets > num_buckets lh then lh_rebucket a lh new_num_buckets else lh)
        else if avg_chain_length < kMinAverageChainLength \<and> num_buckets lh > kMinNumBuckets then
          (let new_num_buckets = num_buckets lh div 2;
               new_num_buckets = (if new_num_buckets < kMinNumBuckets then kMinNumBuckets else new_num_buckets) in
           lh_rebucket a lh new_num_buckets)
        else lh)"

text \<open>The result is the return value, \<open>*old_data\<close> and the table.\<close>

definition OPENSSL_lh_insert ::
  "(nat \<Rightarrow> nat \<Rightarrow> u32) \<Rightarrow> (nat \<Rightarrow> nat \<Rightarrow> nat \<Rightarrow> int) \<Rightarrow> allocator \<Rightarrow> lhash \<Rightarrow> nat \<Rightarrow> bool \<times> nat \<times> lhash" where
  "OPENSSL_lh_insert call_hash_func call_cmp_func a lh x =
     (let (ptr, h) = get_next_ptr_and_hash call_hash_func call_cmp_func lh x; (i, k) = ptr in
      case pointee lh ptr of
        Some item \<Rightarrow>
          (True, data item, lh\<lparr>buckets := (buckets lh)[i := (buckets lh ! i)[k := item\<lparr>data := x\<rparr>]]\<rparr>)
      | None \<Rightarrow>
          (case OPENSSL_malloc a 24 of
             None \<Rightarrow> (False, 0, lh)
           | Some _ \<Rightarrow>
               (True, 0, lh_maybe_resize a
                  (lh\<lparr>buckets := (buckets lh)[i := buckets lh ! i @ [\<lparr>data = x, item_hash = h\<rparr>]],
                     num_items := size_wrap (num_items lh + 1)\<rparr>))))"

definition OPENSSL_lh_delete ::
  "(nat \<Rightarrow> nat \<Rightarrow> u32) \<Rightarrow> (nat \<Rightarrow> nat \<Rightarrow> nat \<Rightarrow> int) \<Rightarrow> allocator \<Rightarrow> lhash \<Rightarrow> nat \<Rightarrow> nat \<times> lhash" where
  "OPENSSL_lh_delete call_hash_func call_cmp_func a lh x =
     (let (ptr, _) = get_next_ptr_and_hash call_hash_func call_cmp_func lh x; (i, k) = ptr in
      case pointee lh ptr of
        None \<Rightarrow> (0, lh)
      | Some item \<Rightarrow>
          (data item, lh_maybe_resize a
             (lh\<lparr>buckets := (buckets lh)[i := take k (buckets lh ! i) @ drop (Suc k) (buckets lh ! i)],
                num_items := num_items lh - 1\<rparr>)))"

text \<open>
  The callback of \<open>OPENSSL_lh_doall_arg\<close> changes \<open>arg\<close> and may change the table, as long as it leaves the
  items behind the current one in its chain as they are: the loop reads the link of an item before it
  calls the callback on it.
\<close>

fun doall_chain :: "(nat \<Rightarrow> lhash \<times> 's \<Rightarrow> lhash \<times> 's) \<Rightarrow> lhash_item list \<Rightarrow> lhash \<times> 's \<Rightarrow> lhash \<times> 's" where
  "doall_chain func [] st = st"
| "doall_chain func (cur # rest) st = doall_chain func rest (func (data cur) st)"

function doall_buckets :: "(nat \<Rightarrow> lhash \<times> 's \<Rightarrow> lhash \<times> 's) \<Rightarrow> nat \<Rightarrow> nat \<Rightarrow> lhash \<times> 's \<Rightarrow> lhash \<times> 's" where
  "doall_buckets func n i st =
     (if i < n then doall_buckets func n (Suc i) (doall_chain func (buckets (fst st) ! i) st) else st)"
  by pat_completeness auto
termination
  by (relation "measure (\<lambda>(_, n, i, _). n - i)") auto

declare doall_buckets.simps [simp del]

text \<open>\<open>callback_depth\<close> counts up to \<open>UINT_MAX\<close> and stays there.\<close>

definition OPENSSL_lh_doall_arg ::
  "allocator \<Rightarrow> lhash option \<Rightarrow> (nat \<Rightarrow> lhash \<times> 's \<Rightarrow> lhash \<times> 's) \<Rightarrow> 's \<Rightarrow> lhash option \<times> 's" where
  "OPENSSL_lh_doall_arg a lh func arg =
     (case lh of
        None \<Rightarrow> (None, arg)
      | Some lh \<Rightarrow>
          let lh = (if callback_depth lh < UINT_MAX then lh\<lparr>callback_depth := callback_depth lh + 1\<rparr> else lh);
              (lh, arg) = doall_buckets func (num_buckets lh) 0 (lh, arg);
              lh = (if callback_depth lh < UINT_MAX then lh\<lparr>callback_depth := callback_depth lh - 1\<rparr> else lh)
          in (Some (lh_maybe_resize a lh), arg))"

section \<open>The contract of the hash and comparison functions\<close>

locale hash_contract =
  fixes H :: "'a \<Rightarrow> u32" and C :: "'a \<Rightarrow> 'a \<Rightarrow> int"
  assumes C_refl [simp]: "C x x = 0"
    and C_sym: "C x y = 0 \<Longrightarrow> C y x = 0"
    and C_trans: "C x y = 0 \<Longrightarrow> C y z = 0 \<Longrightarrow> C x z = 0"
    and C_hash: "C x y = 0 \<Longrightarrow> H x = H y"

text \<open>What the table stores, and the invariant of its representation.\<close>

definition contents :: "lhash \<Rightarrow> nat set" where
  "contents lh = data ` set (concat (buckets lh))"

definition placed_at :: "(nat \<Rightarrow> u32) \<Rightarrow> nat \<Rightarrow> nat \<Rightarrow> lhash_item \<Rightarrow> bool" where
  "placed_at H n i it \<longleftrightarrow> item_hash it = H (data it) \<and> unat (item_hash it) mod n = i"

definition placed :: "(nat \<Rightarrow> u32) \<Rightarrow> nat \<Rightarrow> lhash_item list list \<Rightarrow> bool" where
  "placed H n bs \<longleftrightarrow> length bs = n \<and>
     (\<forall>i < n. \<forall>it \<in> set (bs ! i). placed_at H n i it)"

definition lh_ok :: "(nat \<Rightarrow> u32) \<Rightarrow> (nat \<Rightarrow> nat \<Rightarrow> int) \<Rightarrow> lhash \<Rightarrow> bool" where
  "lh_ok H C lh \<longleftrightarrow> 16 \<le> num_buckets lh \<and> 8 * num_buckets lh < 2 ^ 64 \<and> placed H (num_buckets lh) (buckets lh) \<and>
     num_items lh = length (concat (buckets lh)) \<and> distinct (map data (concat (buckets lh))) \<and>
     (\<forall>x \<in> contents lh. \<forall>y \<in> contents lh. C x y = 0 \<longrightarrow> x = y)"

lemma lh_ok_card: "lh_ok H C lh \<Longrightarrow> num_items lh = card (contents lh)"
  using distinct_card [of "map data (concat (buckets lh))"] by (simp add: lh_ok_def contents_def)

section \<open>Rebucketing\<close>

lemma concat_split: "i < length xss \<Longrightarrow> concat xss = concat (take i xss) @ xss ! i @ concat (drop (Suc i) xss)"
  using arg_cong [OF id_take_nth_drop, of i xss concat] by simp

lemma concat_update:
  "i < length xss \<Longrightarrow> concat (xss[i := ys]) = concat (take i xss) @ ys @ concat (drop (Suc i) xss)"
  by (simp add: upd_conv_take_nth_drop)

lemma mset_rebucket_chain:
  "0 < n \<Longrightarrow> length bs = n \<Longrightarrow> mset (concat (rebucket_chain n c bs)) = mset c + mset (concat bs)"
proof (induction n c bs rule: rebucket_chain.induct)
  case (2 n cur rest bs)
  define i where "i = unat (item_hash cur) mod n"
  have i: "i < length bs" using "2.prems" by (simp add: i_def)
  have "mset (concat (bs[i := cur # bs ! i])) = {#cur#} + mset (concat bs)"
    by (simp add: concat_update [OF i] concat_split [OF i])
  then show ?case using "2.IH" [OF i_def] "2.prems" by (simp add: i_def [symmetric])
qed simp

lemma placed_rebucket_chain:
  "0 < n \<Longrightarrow> placed H n bs \<Longrightarrow> \<forall>it \<in> set c. item_hash it = H (data it) \<Longrightarrow> placed H n (rebucket_chain n c bs)"
proof (induction n c bs rule: rebucket_chain.induct)
  case (2 n cur rest bs)
  define i where "i = unat (item_hash cur) mod n"
  have "placed_at H n i cur" using "2.prems" by (simp add: i_def placed_at_def)
  then have "placed H n (bs[i := cur # bs ! i])"
    using "2.prems"(1,2) by (auto simp: placed_def nth_list_update i_def split: if_split_asm)
  then show ?case using "2.IH" [OF i_def] "2.prems" unfolding rebucket_chain.simps Let_def i_def by simp
qed simp

lemma rebucket_all_ok:
  "0 < n \<Longrightarrow> placed H n bs \<Longrightarrow> \<forall>it \<in> set (concat cs). item_hash it = H (data it) \<Longrightarrow>
   placed H n (rebucket_all n cs bs) \<and> mset (concat (rebucket_all n cs bs)) = mset (concat cs) + mset (concat bs)"
proof (induction n cs bs rule: rebucket_all.induct)
  case (2 n c cs bs)
  have "placed H n (rebucket_chain n c bs)" using 2 placed_rebucket_chain [of n H bs c] by auto
  moreover have "mset (concat (rebucket_chain n c bs)) = mset c + mset (concat bs)"
    using 2 mset_rebucket_chain [of n bs c] by (simp add: placed_def)
  ultimately show ?case using 2 by simp
qed simp

lemma placed_empty: "placed H n (replicate n [])"
  by (simp add: placed_def)

lemma placed_hash: "placed H n bs \<Longrightarrow> \<forall>it \<in> set (concat bs). item_hash it = H (data it)"
  by (fastforce simp: placed_def placed_at_def in_set_conv_nth [of _ bs])

text \<open>A table that only got new buckets.\<close>

definition same_table :: "lhash \<Rightarrow> lhash \<Rightarrow> bool" where
  "same_table lh lh' \<longleftrightarrow> contents lh' = contents lh \<and> num_items lh' = num_items lh \<and> comp lh' = comp lh \<and>
     hash lh' = hash lh \<and> callback_depth lh' = callback_depth lh"

lemma same_table_refl [simp]: "same_table lh lh"
  by (simp add: same_table_def)

lemma lh_rebucket_ok:
  assumes ok: "lh_ok H C lh" and n: "16 \<le> n" "n < 2 ^ 64"
  shows "lh_ok H C (lh_rebucket a lh n) \<and> same_table lh (lh_rebucket a lh n) \<and>
    (num_buckets (lh_rebucket a lh n) = n \<or> lh_rebucket a lh n = lh) \<and>
    (plentiful a \<longrightarrow> 8 * n < 2 ^ 63 \<longrightarrow> num_buckets (lh_rebucket a lh n) = n)"
proof (cases "size_wrap (8 * n) div 8 \<noteq> n \<or> OPENSSL_malloc a (size_wrap (8 * n)) = None")
  case True
  have "size_wrap (8 * n) div 8 = n" "OPENSSL_malloc a (size_wrap (8 * n)) \<noteq> None" if "plentiful a" "8 * n < 2 ^ 63"
    using that plentiful_malloc [OF that] by (auto simp: size_wrap_def)
  then show ?thesis using True ok by (auto simp: lh_rebucket_def Let_def split: option.splits)
next
  case False
  define bs where "bs = rebucket_all n (buckets lh) (replicate n [])"
  have p: "placed H (num_buckets lh) (buckets lh)" using ok by (simp add: lh_ok_def)
  have eq: "lh_rebucket a lh n = lh\<lparr>num_buckets := n, buckets := bs\<rparr>"
    using False p by (auto simp: lh_rebucket_def Let_def bs_def placed_def)
  have bs: "placed H n bs" "mset (concat bs) = mset (concat (buckets lh))"
    using rebucket_all_ok [OF _ placed_empty placed_hash [OF p], of n] n by (simp_all add: bs_def)
  have "mset (map data (concat bs)) = mset (map data (concat (buckets lh)))" using bs(2) by simp
  then have d: "distinct (map data (concat bs)) = distinct (map data (concat (buckets lh)))"
    by (rule mset_eq_imp_distinct_iff)
  have s: "set (concat bs) = set (concat (buckets lh))" using bs(2) by (rule mset_eq_setD)
  have l: "length (concat bs) = length (concat (buckets lh))" using bs(2) by (rule mset_eq_length)
  have c: "contents (lh\<lparr>num_buckets := n, buckets := bs\<rparr>) = contents lh" using s by (simp add: contents_def)
  have "8 * n < 2 ^ 64"
  proof (rule ccontr)
    assume "\<not> 8 * n < 2 ^ 64"
    moreover have "size_wrap (8 * n) < 2 ^ 64" by (simp add: size_wrap_def)
    ultimately have "size_wrap (8 * n) div 8 < n" by linarith
    then show False using False by simp
  qed
  then have "lh_ok H C (lh\<lparr>num_buckets := n, buckets := bs\<rparr>)"
    using ok n bs(1) d l unfolding lh_ok_def c by simp
  then show ?thesis unfolding eq by (simp add: same_table_def c)
qed

lemma lh_maybe_resize_ok:
  assumes ok: "lh_ok H C lh"
  shows "lh_ok H C (lh_maybe_resize a lh) \<and> same_table lh (lh_maybe_resize a lh)"
proof -
  have "size_wrap m < 2 ^ 64" "size_wrap m > num_buckets lh \<Longrightarrow> 16 \<le> size_wrap m" for m
    using ok by (simp_all add: size_wrap_def lh_ok_def)
  moreover have "num_buckets lh div 2 < 2 ^ 64" using ok unfolding lh_ok_def by linarith
  moreover note lh_rebucket_ok [OF ok, THEN conjunct1] lh_rebucket_ok [OF ok, THEN conjunct2, THEN conjunct1]
  ultimately show ?thesis using ok
    by (auto simp: lh_maybe_resize_def Let_def kMinNumBuckets_def)
qed

text \<open>The number of items and of buckets of a table after one operation that leaves \<open>n\<close> items.\<close>

definition stepped :: "(nat \<Rightarrow> u32) \<Rightarrow> (nat \<Rightarrow> nat \<Rightarrow> int) \<Rightarrow> allocator \<Rightarrow> lhash \<Rightarrow> nat \<Rightarrow> lhash \<Rightarrow> bool" where
  "stepped H C a lh n lh' \<longleftrightarrow>
     num_items lh' = num_items lh \<and> num_buckets lh' = num_buckets lh \<or>
     (\<exists>lh1. lh_ok H C lh1 \<and> num_items lh1 = n \<and> num_buckets lh1 = num_buckets lh \<and>
        callback_depth lh1 = callback_depth lh \<and> lh' = lh_maybe_resize a lh1)"

section \<open>Looking up\<close>

lemma find_in_chain_le: "find_in_chain P ch \<le> length ch"
  by (induction ch) auto

lemma find_in_chain_split:
  "find_in_chain P ch < length ch \<Longrightarrow>
   \<exists>pre it post. ch = pre @ it # post \<and> find_in_chain P ch = length pre \<and> P (data it)"
proof (induction ch)
  case (Cons c ch)
  show ?case
  proof (cases "P (data c)")
    case True
    then show ?thesis by (intro exI [of _ "[]"]) simp
  next
    case False
    then obtain pre it post where "ch = pre @ it # post" "find_in_chain P ch = length pre" "P (data it)"
      using Cons by auto
    then show ?thesis using False by (intro exI [of _ "c # pre"]) simp
  qed
qed simp

lemma find_in_chain_none: "\<not> find_in_chain P ch < length ch \<Longrightarrow> \<forall>it \<in> set ch. \<not> P (data it)"
  by (induction ch) (auto split: if_split_asm)

text \<open>Where the search for an element can end: at an item equal to it, or at the end of its chain.\<close>

lemma search_cases:
  assumes i: "i < length bs" and k: "k = find_in_chain P (bs ! i)"
  obtains (found) A pre it post B where "k < length (bs ! i)" "bs ! i = pre @ it # post" "k = length pre" "P (data it)"
      "concat bs = A @ (pre @ it # post) @ B" "\<And>ch. concat (bs[i := ch]) = A @ ch @ B"
  | (absent) A B where "k = length (bs ! i)" "\<And>it. it \<in> set (bs ! i) \<Longrightarrow> \<not> P (data it)"
      "concat bs = A @ bs ! i @ B" "\<And>ch. concat (bs[i := ch]) = A @ ch @ B"
proof (cases "k < length (bs ! i)")
  case True
  then obtain pre it post where s: "bs ! i = pre @ it # post" "k = length pre" "P (data it)"
    using find_in_chain_split k by metis
  show thesis
    by (rule found [OF True s(1-3) _ concat_update [OF i]]) (simp only: concat_split [OF i] s(1))
next
  case False
  then have "k = length (bs ! i)" using find_in_chain_le [of P "bs ! i"] k by simp
  moreover have "it \<in> set (bs ! i) \<Longrightarrow> \<not> P (data it)" for it using find_in_chain_none False k by metis
  ultimately show thesis by (rule absent [OF _ _ concat_split [OF i] concat_update [OF i]])
qed

lemma chain_without:
  assumes "distinct (map data (A @ (pre @ it # post) @ B))"
  shows "data ` set (A @ (pre @ it # post) @ B) - {data it} = data ` set (A @ (pre @ post) @ B)"
proof -
  have "data it \<notin> data ` set (A @ (pre @ post) @ B)" using assms by auto
  moreover have "data ` set (A @ (pre @ it # post) @ B) = insert (data it) (data ` set (A @ (pre @ post) @ B))" by auto
  ultimately show ?thesis by simp
qed

context hash_contract
begin

text \<open>An element equal to \<open>x\<close> is in the chain where the search for \<open>x\<close> looks.\<close>

lemma equal_in_chain:
  assumes p: "placed (H \<circ> f) n bs" and n: "0 < n" and it: "it \<in> set (concat bs)" "C (f (data it)) (f x) = 0"
  shows "it \<in> set (bs ! (unat (H (f x)) mod n))"
proof -
  obtain i where i: "i < n" "it \<in> set (bs ! i)" using it(1) p by (auto simp: in_set_conv_nth [of _ bs] placed_def)
  then have "placed_at (H \<circ> f) n i it" using p by (simp add: placed_def)
  then have "unat (H (f x)) mod n = i" using C_hash [OF it(2)] by (auto simp: placed_at_def)
  then show ?thesis using i(2) by simp
qed

text \<open>What the operations do, for pointers to objects that \<open>f\<close> gives.\<close>

abbreviation table :: "(nat \<Rightarrow> 'a) \<Rightarrow> lhash \<Rightarrow> bool" where
  "table f \<equiv> lh_ok (H \<circ> f) (\<lambda>p q. C (f p) (f q))"

lemma lookup:
  assumes ok: "table f lh" and ch: "ch (hash lh) = H \<circ> f" and cc: "cc (comp lh) = (\<lambda>p q. C (f p) (f q))"
  obtains (found) i A pre it post B where "get_next_ptr_and_hash ch cc lh x = ((i, length pre), H (f x))"
      "pointee lh (i, length pre) = Some it" "i < length (buckets lh)" "buckets lh ! i = pre @ it # post"
      "data it \<in> contents lh" "\<And>y. y \<in> contents lh \<Longrightarrow> C (f y) (f x) = 0 \<longleftrightarrow> y = data it"
      "concat (buckets lh) = A @ (pre @ it # post) @ B" "\<And>ch. concat ((buckets lh)[i := ch]) = A @ ch @ B"
  | (absent) i k A B where "get_next_ptr_and_hash ch cc lh x = ((i, k), H (f x))" "pointee lh (i, k) = None"
      "i < length (buckets lh)" "i = unat (H (f x)) mod num_buckets lh" "\<And>y. y \<in> contents lh \<Longrightarrow> C (f y) (f x) \<noteq> 0"
      "concat (buckets lh) = A @ buckets lh ! i @ B" "\<And>ch. concat ((buckets lh)[i := ch]) = A @ ch @ B"
proof -
  define i where "i = unat (H (f x)) mod num_buckets lh"
  have p: "placed (H \<circ> f) (num_buckets lh) (buckets lh)" and n: "0 < num_buckets lh" using ok by (auto simp: lh_ok_def)
  have i: "i < length (buckets lh)" using p n by (simp add: placed_def i_def)
  define k where "k = find_in_chain (\<lambda>d. C (f d) (f x) = 0) (buckets lh ! i)"
  have ptr: "get_next_ptr_and_hash ch cc lh x = ((i, k), H (f x))"
    by (simp add: get_next_ptr_and_hash_def Let_def ch cc i_def k_def)
  show thesis using i k_def
  proof (cases rule: search_cases)
    case f: (found A pre it post B)
    have it: "data it \<in> contents lh" by (simp add: contents_def f(5))
    have "C (f y) (f x) = 0 \<longleftrightarrow> y = data it" if "y \<in> contents lh" for y
      using ok that it f(4) C_trans [of "f y" "f x" "f (data it)"] C_sym unfolding lh_ok_def by blast
    moreover have "pointee lh (i, length pre) = Some it" by (simp add: pointee_def f(2))
    ultimately show thesis using found ptr i f(2,3,5,6) it by blast
  next
    case a: (absent A B)
    have "C (f y) (f x) \<noteq> 0" if "y \<in> contents lh" for y
      using that equal_in_chain [OF p n] a(2) by (auto simp: contents_def i_def)
    moreover have "pointee lh (i, k) = None" by (simp add: pointee_def a(1))
    ultimately show thesis using absent ptr i i_def a(3,4) by blast
  qed
qed

lemma retrieve_ok:
  assumes ok: "table f lh" and ch: "ch (hash lh) = H \<circ> f" and cc: "cc (comp lh) = (\<lambda>p q. C (f p) (f q))"
  shows "y \<in> contents lh \<Longrightarrow> C (f y) (f x) = 0 \<Longrightarrow> OPENSSL_lh_retrieve ch cc lh x = y"
    and "\<forall>y \<in> contents lh. C (f y) (f x) \<noteq> 0 \<Longrightarrow> OPENSSL_lh_retrieve ch cc lh x = 0"
  using ok ch cc by (cases rule: lookup [where x = x]; auto simp: OPENSSL_lh_retrieve_def)+

text \<open>The table with the chain \<open>i\<close> changed.\<close>

lemma table_update:
  assumes ok: "table f lh" and i: "i < length (buckets lh)"
    and new: "\<And>ch. concat ((buckets lh)[i := ch]) = A @ ch @ B" and s: "S = data ` set (A @ ch @ B)"
    and pl: "\<forall>it \<in> set ch. placed_at (H \<circ> f) (num_buckets lh) i it" and n: "n = length (A @ ch @ B)"
    and d: "distinct (map data (A @ ch @ B))" and u: "\<And>y z. y \<in> S \<Longrightarrow> z \<in> S \<Longrightarrow> C (f y) (f z) = 0 \<Longrightarrow> y = z"
  shows "table f (lh\<lparr>buckets := (buckets lh)[i := ch], num_items := n\<rparr>) \<and>
    contents (lh\<lparr>buckets := (buckets lh)[i := ch], num_items := n\<rparr>) = S"
proof -
  let ?lh = "lh\<lparr>buckets := (buckets lh)[i := ch], num_items := n\<rparr>"
  have "placed (H \<circ> f) (num_buckets lh) ((buckets lh)[i := ch])"
    using ok pl i by (auto simp: lh_ok_def placed_def nth_list_update)
  moreover have c: "contents ?lh = S" by (simp add: contents_def s new)
  moreover have "distinct (map data (concat (buckets ?lh)))" using d by (simp add: new)
  ultimately show ?thesis using ok n u unfolding lh_ok_def c by (simp add: new)
qed

lemma old_placed:
  "table f lh \<Longrightarrow> i < length (buckets lh) \<Longrightarrow> it \<in> set (buckets lh ! i) \<Longrightarrow> placed_at (H \<circ> f) (num_buckets lh) i it"
  by (auto simp: lh_ok_def placed_def)

lemma insert_ok:
  assumes ok: "table f lh" and ch: "ch (hash lh) = H \<circ> f" and cc: "cc (comp lh) = (\<lambda>p q. C (f p) (f q))"
    and few: "num_items lh + 1 < 2 ^ 64"
    and ins: "OPENSSL_lh_insert ch cc a lh x = (r, old, lh')"
  shows "table f lh' \<and> hash lh' = hash lh \<and> comp lh' = comp lh \<and> callback_depth lh' = callback_depth lh \<and>
    (if r then contents lh' = insert x (contents lh - {y. C (f y) (f x) = 0}) \<and>
       (\<forall>y \<in> contents lh. C (f y) (f x) = 0 \<longrightarrow> old = y) \<and>
       ((\<forall>y \<in> contents lh. C (f y) (f x) \<noteq> 0) \<longrightarrow> old = 0)
     else lh' = lh \<and> old = 0 \<and> \<not> plentiful a) \<and>
    stepped (H \<circ> f) (\<lambda>p q. C (f p) (f q)) a lh (num_items lh + 1) lh'"
proof -
  have uniq: "C (f y) (f z) = 0 \<Longrightarrow> y \<in> contents lh \<Longrightarrow> z \<in> contents lh \<Longrightarrow> y = z" for y z
    using ok by (auto simp: lh_ok_def)
  have d: "distinct (map data (concat (buckets lh)))" and num: "num_items lh = length (concat (buckets lh))"
    using ok by (simp_all add: lh_ok_def)
  note pl = old_placed [OF ok]
  show ?thesis using ok ch cc
  proof (cases rule: lookup [where x = x])
    case (found i A pre it post B)
    let ?ch = "pre @ it\<lparr>data := x\<rparr> # post"
    have lh': "r = True" "old = data it" "lh' = lh\<lparr>buckets := (buckets lh)[i := ?ch], num_items := num_items lh\<rparr>"
      using ins by (auto simp: OPENSSL_lh_insert_def found(1,2,4))
    have hx: "C (f (data it)) (f x) = 0" using found(5,6) by blast
    have other: "x \<notin> data ` set (A @ pre @ post @ B)"
    proof
      assume "x \<in> data ` set (A @ pre @ post @ B)"
      moreover from this have "x = data it" using found(6) [of x] by (auto simp: contents_def found(7))
      ultimately show False using d unfolding found(7) by auto
    qed
    have "table f lh' \<and> contents lh' = insert x (contents lh - {data it})" unfolding lh'
    proof (rule table_update [OF ok found(3,8)])
      have "placed_at (H \<circ> f) (num_buckets lh) i it" using pl [OF found(3)] found(4) by simp
      then have "placed_at (H \<circ> f) (num_buckets lh) i (it\<lparr>data := x\<rparr>)"
        using C_hash [OF hx] by (auto simp: placed_at_def)
      then show "\<forall>it \<in> set ?ch. placed_at (H \<circ> f) (num_buckets lh) i it"
        using pl [OF found(3)] found(4) by auto
      have "contents lh - {data it} = data ` set (A @ (pre @ post) @ B)"
        unfolding contents_def found(7) by (rule chain_without [OF d [unfolded found(7)]])
      then show "insert x (contents lh - {data it}) = data ` set (A @ ?ch @ B)" by auto
      show "num_items lh = length (A @ ?ch @ B)" using num by (simp add: found(7))
      show "distinct (map data (A @ ?ch @ B))" using d other unfolding found(7) by auto
      show "y = z" if "y \<in> insert x (contents lh - {data it})" "z \<in> insert x (contents lh - {data it})" "C (f y) (f z) = 0" for y z
        using that found(6) uniq C_sym by blast
    qed
    then show ?thesis using found(5,6) by (auto simp: lh' stepped_def)
  next
    case (absent i k A B)
    let ?ch = "buckets lh ! i @ [\<lparr>data = x, item_hash = H (f x)\<rparr>]"
    let ?lh = "lh\<lparr>buckets := (buckets lh)[i := ?ch], num_items := num_items lh + 1\<rparr>"
    have w: "size_wrap (num_items lh + 1) = num_items lh + 1" using few by (simp add: size_wrap_def)
    have lh': "(r, old, lh') = (case OPENSSL_malloc a 24 of None \<Rightarrow> (False, 0, lh) | Some _ \<Rightarrow> (True, 0, lh_maybe_resize a ?lh))"
      using ins by (cases "OPENSSL_malloc a 24") (auto simp: OPENSSL_lh_insert_def absent(1,2) w [unfolded Suc_eq_plus1 [symmetric]])
    have x: "x \<notin> contents lh" using absent(5) by fastforce
    have t: "table f ?lh \<and> contents ?lh = insert x (contents lh)"
    proof (rule table_update [OF ok absent(3,7)])
      have "placed_at (H \<circ> f) (num_buckets lh) i \<lparr>data = x, item_hash = H (f x)\<rparr>"
        by (simp add: placed_at_def absent(4))
      then show "\<forall>it \<in> set ?ch. placed_at (H \<circ> f) (num_buckets lh) i it"
        using pl [OF absent(3)] by auto
      show "insert x (contents lh) = data ` set (A @ ?ch @ B)" by (auto simp: contents_def absent(6))
      show "num_items lh + 1 = length (A @ ?ch @ B)" using num by (simp add: absent(6))
      show "distinct (map data (A @ ?ch @ B))" using d x unfolding contents_def absent(6) by auto
      show "y = z" if "y \<in> insert x (contents lh)" "z \<in> insert x (contents lh)" "C (f y) (f z) = 0" for y z
        using that absent(5) uniq C_sym by blast
    qed
    note m = lh_maybe_resize_ok [OF conjunct1 [OF t], of a]
    show ?thesis
    proof (cases "OPENSSL_malloc a 24")
      case None
      then show ?thesis using lh' ok plentiful_malloc [of a 24] by (auto simp: stepped_def)
    next
      case (Some g)
      then have eq: "r = True" "old = 0" "lh' = lh_maybe_resize a ?lh" using lh' by auto
      have "stepped (H \<circ> f) (\<lambda>p q. C (f p) (f q)) a lh (num_items lh + 1) lh'"
        unfolding stepped_def eq by (intro disjI2 exI [of _ ?lh]) (use t in simp)
      then show ?thesis using eq m t absent(5) by (auto simp: same_table_def)
    qed
  qed
qed

lemma delete_ok:
  assumes ok: "table f lh" and ch: "ch (hash lh) = H \<circ> f" and cc: "cc (comp lh) = (\<lambda>p q. C (f p) (f q))"
    and del: "OPENSSL_lh_delete ch cc a lh x = (old, lh')"
  shows "table f lh' \<and> hash lh' = hash lh \<and> comp lh' = comp lh \<and> callback_depth lh' = callback_depth lh \<and>
    contents lh' = contents lh - {y. C (f y) (f x) = 0} \<and> old = OPENSSL_lh_retrieve ch cc lh x \<and>
    (callback_depth lh > 0 \<longrightarrow> num_buckets lh' = num_buckets lh \<and>
      (\<forall>j. buckets lh' ! j \<noteq> buckets lh ! j \<longrightarrow> j = unat (H (f x)) mod num_buckets lh)) \<and>
    stepped (H \<circ> f) (\<lambda>p q. C (f p) (f q)) a lh (num_items lh - 1) lh'"
  using ok ch cc
proof (cases rule: lookup [where x = x])
  case (found i A pre it post B)
  let ?lh = "lh\<lparr>buckets := (buckets lh)[i := pre @ post], num_items := num_items lh - 1\<rparr>"
  have lh': "old = data it" "lh' = lh_maybe_resize a ?lh"
    using del by (auto simp: OPENSSL_lh_delete_def found(1,2,4))
  have d: "distinct (map data (concat (buckets lh)))" and num: "num_items lh = length (concat (buckets lh))"
    using ok by (simp_all add: lh_ok_def)
  have t: "table f ?lh \<and> contents ?lh = contents lh - {data it}"
  proof (rule table_update [OF ok found(3,8)])
    show "\<forall>it \<in> set (pre @ post). placed_at (H \<circ> f) (num_buckets lh) i it"
      using old_placed [OF ok found(3)] found(4) by auto
    show "contents lh - {data it} = data ` set (A @ (pre @ post) @ B)"
      unfolding contents_def found(7) by (rule chain_without [OF d [unfolded found(7)]])
    show "num_items lh - 1 = length (A @ (pre @ post) @ B)" using num by (simp add: found(7))
    show "distinct (map data (A @ (pre @ post) @ B))" using d unfolding found(7) by auto
    show "y = z" if "y \<in> contents lh - {data it}" "z \<in> contents lh - {data it}" "C (f y) (f z) = 0" for y z
      using ok that by (auto simp: lh_ok_def)
  qed
  have "i = unat (H (f x)) mod num_buckets lh"
    using old_placed [OF ok found(3), of it] found(4) C_hash [of "f (data it)" "f x"] found(5,6) by (auto simp: placed_at_def)
  moreover have "contents lh - {y. C (f y) (f x) = 0} = contents lh - {data it}" using found(6) by blast
  moreover have "OPENSSL_lh_retrieve ch cc lh x = data it" by (simp add: OPENSSL_lh_retrieve_def found(1,2))
  moreover have "table f lh' \<and> same_table ?lh lh'"
    using lh_maybe_resize_ok [OF conjunct1 [OF t], of a] unfolding lh' .
  moreover have "lh' = ?lh" if "callback_depth lh > 0" using that by (simp add: lh' lh_maybe_resize_def)
  moreover have "buckets ?lh ! j \<noteq> buckets lh ! j \<Longrightarrow> j = i" for j by (cases "j = i") auto
  moreover have "stepped (H \<circ> f) (\<lambda>p q. C (f p) (f q)) a lh (num_items lh - 1) lh'"
    unfolding stepped_def lh'(2) by (intro disjI2 exI [of _ ?lh]) (use t in simp)
  ultimately show ?thesis using t lh'(1) by (simp add: same_table_def)
next
  case (absent i k A B)
  then show ?thesis using del ok by (auto simp: OPENSSL_lh_delete_def OPENSSL_lh_retrieve_def stepped_def)
qed

end

section \<open>Tables that the operations build\<close>

text \<open>
  The tables made by insertions and deletions with allocators that satisfy \<open>A\<close>. An item takes 24 bytes, so
  the bound on the number of items is above what fits the address space.
\<close>

inductive lh_reachable ::
  "(allocator \<Rightarrow> bool) \<Rightarrow> (nat \<Rightarrow> nat \<Rightarrow> u32) \<Rightarrow> (nat \<Rightarrow> nat \<Rightarrow> nat \<Rightarrow> int) \<Rightarrow> nat \<Rightarrow> nat \<Rightarrow> lhash \<Rightarrow> bool"
  for A ch cc h cmp where
  new: "A a \<Longrightarrow> OPENSSL_lh_new a h cmp = Some lh \<Longrightarrow> lh_reachable A ch cc h cmp lh"
| inserted: "lh_reachable A ch cc h cmp lh \<Longrightarrow> A a \<Longrightarrow> num_items lh + 1 < 2 ^ 60 \<Longrightarrow>
    OPENSSL_lh_insert ch cc a lh x = (r, old, lh') \<Longrightarrow> lh_reachable A ch cc h cmp lh'"
| deleted: "lh_reachable A ch cc h cmp lh \<Longrightarrow> A a \<Longrightarrow> OPENSSL_lh_delete ch cc a lh x = (old, lh') \<Longrightarrow>
    lh_reachable A ch cc h cmp lh'"

lemma lh_new_ok:
  assumes "OPENSSL_lh_new a h cmp = Some lh"
  shows "lh_ok H C lh \<and> hash lh = h \<and> comp lh = cmp \<and> callback_depth lh = 0 \<and> contents lh = {} \<and>
    num_buckets lh = 16"
proof -
  have "lh = \<lparr>num_items = 0, buckets = replicate 16 [], num_buckets = 16, callback_depth = 0, comp = cmp, hash = h\<rparr>"
    using assms by (simp add: OPENSSL_lh_new_def kMinNumBuckets_def split: option.splits)
  moreover have "concat (replicate 16 ([] :: lhash_item list)) = []" by simp
  ultimately show ?thesis by (simp add: lh_ok_def contents_def placed_def)
qed

lemma lh_reachable_ok:
  assumes "lh_reachable A ch cc h cmp lh" "hash_contract (ch h) (cc cmp)"
  shows "lh_ok (ch h) (cc cmp) lh \<and> hash lh = h \<and> comp lh = cmp \<and> callback_depth lh = 0"
  using assms(1)
proof (induction rule: lh_reachable.induct)
  case (new a lh)
  then show ?case using lh_new_ok by blast
next
  case (inserted lh a x r old lh')
  then show ?case
    using hash_contract.insert_ok [OF assms(2), where f = id and ch = ch and cc = cc and lh = lh and a = a] by simp
next
  case (deleted lh a x old lh')
  then show ?case
    using hash_contract.delete_ok [OF assms(2), where f = id and ch = ch and cc = cc and lh = lh and a = a] by simp
qed

text \<open>The chains are short on average and the array is not much longer than the items need.\<close>

definition balanced :: "lhash \<Rightarrow> bool" where
  "balanced lh \<longleftrightarrow> num_items lh < 3 * num_buckets lh \<and> (num_buckets lh = 16 \<or> num_buckets lh \<le> num_items lh)"

lemma maybe_resize_balanced:
  assumes ok: "lh_ok H C lh" and a: "plentiful a" and d: "callback_depth lh = 0" and n: "num_items lh < 2 ^ 60"
    and near: "num_items lh \<le> 3 * num_buckets lh" "num_buckets lh = 16 \<or> num_buckets lh \<le> num_items lh + 1"
    and pow: "num_buckets lh = 16 * 2 ^ k"
  shows "balanced (lh_maybe_resize a lh) \<and> (\<exists>k. num_buckets (lh_maybe_resize a lh) = 16 * 2 ^ k)"
proof -
  have nb: "16 \<le> num_buckets lh" using ok by (simp add: lh_ok_def)
  consider "num_items lh = 3 * num_buckets lh" | "num_items lh < num_buckets lh" "16 < num_buckets lh"
    | "num_items lh < 3 * num_buckets lh" "num_buckets lh = 16 \<or> num_buckets lh \<le> num_items lh"
    using near(1) nb by linarith
  then show ?thesis
  proof cases
    case 1
    have w: "size_wrap (num_buckets lh * 2) = num_buckets lh * 2" using 1 n by (simp add: size_wrap_def)
    have "lh_maybe_resize a lh = lh_rebucket a lh (num_buckets lh * 2)"
      using d 1 nb w by (simp add: lh_maybe_resize_def kMaxAverageChainLength_def Let_def)
    moreover have "8 * (num_buckets lh * 2) < 2 ^ 63" "num_buckets lh * 2 < 2 ^ 64" using 1 n by simp_all
    moreover note lh_rebucket_ok [OF ok, of "num_buckets lh * 2" a]
    moreover have "num_buckets lh * 2 = 16 * 2 ^ Suc k" using pow by simp
    ultimately show ?thesis using nb a 1 by (auto simp: balanced_def same_table_def simp del: power_Suc)
  next
    case 2
    obtain j where j: "k = Suc j" using 2(2) pow by (cases k) auto
    then have half: "num_buckets lh div 2 = 16 * 2 ^ j" using pow by simp
    have "16 \<le> num_buckets lh div 2" unfolding half by simp
    then have "lh_maybe_resize a lh = lh_rebucket a lh (num_buckets lh div 2)"
      using d 2 by (simp add: lh_maybe_resize_def kMaxAverageChainLength_def kMinAverageChainLength_def
          kMinNumBuckets_def Let_def)
    moreover have "8 * (num_buckets lh div 2) < 2 ^ 63" "num_buckets lh div 2 < 2 ^ 64"
      using conjunct1 [OF conjunct2 [OF ok [unfolded lh_ok_def]]] by simp_all
    moreover note lh_rebucket_ok [OF ok, of "num_buckets lh div 2" a]
    moreover have "num_items lh < 3 * (num_buckets lh div 2)" "num_buckets lh div 2 \<le> num_items lh"
      using 2 near(2) by linarith+
    ultimately show ?thesis using \<open>16 \<le> num_buckets lh div 2\<close> a half by (auto simp: balanced_def same_table_def)
  next
    case 3
    have "num_items lh div num_buckets lh \<le> 2" using 3(1) nb by (simp add: less_mult_imp_div_less flip: less_Suc_eq_le)
    moreover have "num_buckets lh > 16 \<Longrightarrow> 1 \<le> num_items lh div num_buckets lh"
      using 3(2) by (simp add: Suc_le_eq div_greater_zero_iff)
    ultimately have "lh_maybe_resize a lh = lh"
      by (auto simp: lh_maybe_resize_def kMaxAverageChainLength_def kMinAverageChainLength_def kMinNumBuckets_def)
    then show ?thesis using 3 pow by (auto simp: balanced_def)
  qed
qed

lemma stepped_balanced:
  assumes "stepped H C a lh n lh'" and a: "plentiful a" and d: "callback_depth lh = 0" and b: "balanced lh"
    and n: "n < 2 ^ 60" "n \<le> num_items lh + 1" "num_items lh \<le> n + 1" and pow: "num_buckets lh = 16 * 2 ^ k"
  shows "balanced lh' \<and> (\<exists>k. num_buckets lh' = 16 * 2 ^ k)"
  using assms(1) unfolding stepped_def
proof (elim disjE exE conjE)
  fix lh1 assume lh1: "lh_ok H C lh1" "num_items lh1 = n" "num_buckets lh1 = num_buckets lh"
    "callback_depth lh1 = callback_depth lh" "lh' = lh_maybe_resize a lh1"
  show ?thesis unfolding lh1(5)
    by (rule maybe_resize_balanced [OF lh1(1) a, where k = k]) (use lh1 d b n pow in \<open>auto simp: balanced_def\<close>)
qed (use b pow in \<open>auto simp: balanced_def\<close>)

lemma lh_reachable_balanced:
  assumes "lh_reachable A ch cc h cmp lh" "hash_contract (ch h) (cc cmp)" "\<And>a. A a \<Longrightarrow> plentiful a"
  shows "balanced lh \<and> (\<exists>k. num_buckets lh = 16 * 2 ^ k) \<and> num_items lh < 2 ^ 60"
  using assms(1)
proof (induction rule: lh_reachable.induct)
  case (new a lh)
  then have "num_buckets lh = 16" "num_items lh = 0" using lh_new_ok [of a h cmp lh] lh_ok_card by fastforce+
  then show ?case by (auto simp: balanced_def intro: exI [of _ 0])
next
  case (inserted lh a x r old lh')
  note ok = lh_reachable_ok [OF inserted(1) assms(2)]
  have st: "stepped (ch h) (cc cmp) a lh (num_items lh + 1) lh'"
    using hash_contract.insert_ok [OF assms(2), where f = id and ch = ch and cc = cc and lh = lh and a = a] ok inserted by simp
  moreover have "num_items lh' \<le> num_items lh + 1"
    using st lh_maybe_resize_ok [of "ch h" "cc cmp" _ a] by (auto simp: stepped_def same_table_def)
  ultimately show ?case using stepped_balanced [OF st] ok inserted assms(3) by fastforce
next
  case (deleted lh a x old lh')
  note ok = lh_reachable_ok [OF deleted(1) assms(2)]
  have st: "stepped (ch h) (cc cmp) a lh (num_items lh - 1) lh'"
    using hash_contract.delete_ok [OF assms(2), where f = id and ch = ch and cc = cc and lh = lh and a = a] ok deleted by simp
  moreover have "num_items lh' \<le> num_items lh"
    using st lh_maybe_resize_ok [of "ch h" "cc cmp" _ a] by (auto simp: stepped_def same_table_def)
  ultimately show ?case using stepped_balanced [OF st] ok deleted assms(3) by fastforce
qed

section \<open>Iterating\<close>

text \<open>A callback that notes every element and deletes those that satisfy \<open>P\<close>.\<close>

definition sweep ::
  "(nat \<Rightarrow> nat \<Rightarrow> u32) \<Rightarrow> (nat \<Rightarrow> nat \<Rightarrow> nat \<Rightarrow> int) \<Rightarrow> allocator \<Rightarrow> (nat \<Rightarrow> bool) \<Rightarrow> nat \<Rightarrow> lhash \<times> nat list \<Rightarrow> lhash \<times> nat list" where
  "sweep ch cc a P d st =
     (case st of (lh, seen) \<Rightarrow> (if P d then snd (OPENSSL_lh_delete ch cc a lh d) else lh, seen @ [d]))"

context hash_contract
begin

lemma sweep_step:
  assumes ok: "table f lh" "ch (hash lh) = H \<circ> f" "cc (comp lh) = (\<lambda>p q. C (f p) (f q))" "callback_depth lh > 0"
    and d: "d \<in> contents lh" "unat (H (f d)) mod num_buckets lh = i"
    and s: "sweep ch cc a P d (lh, seen) = (lh', seen')"
  shows "table f lh' \<and> hash lh' = hash lh \<and> comp lh' = comp lh \<and> callback_depth lh' = callback_depth lh \<and>
    num_buckets lh' = num_buckets lh \<and> seen' = seen @ [d] \<and> contents lh' = contents lh - (if P d then {d} else {}) \<and>
    (\<forall>j. j \<noteq> i \<longrightarrow> buckets lh' ! j = buckets lh ! j)"
proof (cases "P d")
  case True
  have eq: "{y \<in> contents lh. C (f y) (f d) = 0} = {d}" using ok(1) d(1) by (auto simp: lh_ok_def)
  have "contents lh - {y. C (f y) (f d) = 0} = contents lh - {y \<in> contents lh. C (f y) (f d) = 0}" by blast
  then have c: "contents lh - {y. C (f y) (f d) = 0} = contents lh - {d}" unfolding eq .
  obtain old lh1 where del: "OPENSSL_lh_delete ch cc a lh d = (old, lh1)" by (cases "OPENSSL_lh_delete ch cc a lh d")
  then have "lh' = lh1" "seen' = seen @ [d]" using s True by (simp_all add: sweep_def)
  then show ?thesis
    using delete_ok [where f = f and lh = lh and ch = ch and cc = cc, OF ok(1-3) del] ok(4) d(2) True c by auto
next
  case False
  then show ?thesis using s ok by (auto simp: sweep_def)
qed

lemma sweep_chain:
  assumes "table f lh" "ch (hash lh) = H \<circ> f" "cc (comp lh) = (\<lambda>p q. C (f p) (f q))" "callback_depth lh > 0"
    and "data ` set its \<subseteq> contents lh" "distinct (map data its)"
    and "\<forall>it \<in> set its. unat (H (f (data it))) mod num_buckets lh = i"
    and "doall_chain (sweep ch cc a P) its (lh, seen) = (lh', seen')"
  shows "table f lh' \<and> hash lh' = hash lh \<and> comp lh' = comp lh \<and> callback_depth lh' = callback_depth lh \<and>
    num_buckets lh' = num_buckets lh \<and> seen' = seen @ map data its \<and>
    contents lh' = contents lh - {d \<in> data ` set its. P d} \<and> (\<forall>j. j \<noteq> i \<longrightarrow> buckets lh' ! j = buckets lh ! j)"
  using assms
proof (induction its arbitrary: lh seen)
  case (Cons it its)
  obtain lh1 seen1 where s: "sweep ch cc a P (data it) (lh, seen) = (lh1, seen1)"
    by (cases "sweep ch cc a P (data it) (lh, seen)")
  have "data it \<in> contents lh" "unat (H (f (data it))) mod num_buckets lh = i" using Cons.prems(5,7) by simp_all
  note st = sweep_step [OF Cons.prems(1-4) this s]
  have "data it \<notin> data ` set its" "data ` set its \<subseteq> contents lh" using Cons.prems(5,6) by simp_all
  then have sub: "data ` set its \<subseteq> contents lh1" using st
    by (cases "P (data it)") (simp_all add: subset_Diff_insert)
  have IH: "table f lh' \<and> hash lh' = hash lh1 \<and> comp lh' = comp lh1 \<and> callback_depth lh' = callback_depth lh1 \<and>
      num_buckets lh' = num_buckets lh1 \<and> seen' = seen1 @ map data its \<and>
      contents lh' = contents lh1 - {d \<in> data ` set its. P d} \<and> (\<forall>j. j \<noteq> i \<longrightarrow> buckets lh' ! j = buckets lh1 ! j)"
  proof (rule Cons.IH [OF _ _ _ _ sub])
    show "table f lh1" using st by (elim conjE)
    show "ch (hash lh1) = H \<circ> f" "cc (comp lh1) = (\<lambda>p q. C (f p) (f q))"
      using st Cons.prems(2,3) by (elim conjE, simp only:)+
  qed (use st Cons.prems s in simp_all)
  have "contents lh' = contents lh - {d \<in> data ` set (it # its). P d}" using st IH by auto
  then show ?case using st IH by (elim conjE) (intro conjI; (assumption | simp))
qed simp

lemma sweep_buckets:
  assumes "table f lh" "ch (hash lh) = H \<circ> f" "cc (comp lh) = (\<lambda>p q. C (f p) (f q))" "callback_depth lh > 0"
    and "n = num_buckets lh" "\<forall>j \<ge> i. buckets lh ! j = bs ! j" "length bs = n"
    and "doall_buckets (sweep ch cc a P) n i (lh, seen) = (lh', seen')"
  shows "table f lh' \<and> hash lh' = hash lh \<and> comp lh' = comp lh \<and> callback_depth lh' = callback_depth lh \<and>
    seen' = seen @ map data (concat (drop i bs)) \<and>
    contents lh' = contents lh - {d \<in> data ` set (concat (drop i bs)). P d}"
  using assms
proof (induction "n - i" arbitrary: i lh seen)
  case 0
  then show ?case by (simp add: doall_buckets.simps)
next
  case (Suc m)
  then have i: "i < n" by simp
  have len: "length (buckets lh) = n" using Suc.prems(1,5) by (simp add: lh_ok_def placed_def)
  have bsi: "buckets lh ! i = bs ! i" using Suc.prems(6) by simp
  obtain lh1 seen1 where c: "doall_chain (sweep ch cc a P) (buckets lh ! i) (lh, seen) = (lh1, seen1)"
    by (cases "doall_chain (sweep ch cc a P) (buckets lh ! i) (lh, seen)")
  have "set (buckets lh ! i) \<subseteq> set (concat (buckets lh))" using UN_upper [OF nth_mem, of i "buckets lh" set] i len by simp
  then have sub: "data ` set (buckets lh ! i) \<subseteq> contents lh" unfolding contents_def by (rule image_mono)
  have "distinct (map data (concat (buckets lh)))" using Suc.prems(1) by (simp add: lh_ok_def)
  then have dist: "distinct (map data (buckets lh ! i))" using concat_split [of i "buckets lh"] i len by simp
  have "\<forall>it \<in> set (buckets lh ! i). unat (H (f (data it))) mod num_buckets lh = i"
  proof
    fix it assume "it \<in> set (buckets lh ! i)"
    then have "placed_at (H \<circ> f) (num_buckets lh) i it" using old_placed [OF Suc.prems(1)] i len by simp
    then show "unat (H (f (data it))) mod num_buckets lh = i" by (auto simp: placed_at_def)
  qed
  note st = sweep_chain [OF Suc.prems(1-4) sub dist this c]
  have d: "drop i bs = bs ! i # drop (Suc i) bs" using i Suc.prems(7) by (simp add: Cons_nth_drop_Suc)
  have "doall_buckets (sweep ch cc a P) n (Suc i) (lh1, seen1) = (lh', seen')"
    using Suc.prems(8) i c by (subst (asm) doall_buckets.simps) simp
  then have IH: "table f lh' \<and> hash lh' = hash lh1 \<and> comp lh' = comp lh1 \<and> callback_depth lh' = callback_depth lh1 \<and>
    seen' = seen1 @ map data (concat (drop (Suc i) bs)) \<and>
    contents lh' = contents lh1 - {d \<in> data ` set (concat (drop (Suc i) bs)). P d}"
    using Suc.hyps st Suc.prems by (intro Suc.hyps(1)) auto
  show ?case using st IH by (auto simp: d bsi)
qed

lemma sweep_table:
  assumes ok: "table f lh" "ch (hash lh) = H \<circ> f" "cc (comp lh) = (\<lambda>p q. C (f p) (f q))"
    and depth: "callback_depth lh < UINT_MAX - 1"
    and s: "OPENSSL_lh_doall_arg a (Some lh) (sweep ch cc a P) [] = (lh', seen)"
  shows "\<exists>t. lh' = Some t \<and> table f t \<and> hash t = hash lh \<and> comp t = comp lh \<and> callback_depth t = callback_depth lh \<and>
    distinct seen \<and> set seen = contents lh \<and> contents t = {x \<in> contents lh. \<not> P x}"
proof -
  let ?lh = "lh\<lparr>callback_depth := callback_depth lh + 1\<rparr>"
  have c: "contents ?lh = contents lh" by (simp add: contents_def)
  have t: "table f ?lh" using ok(1) unfolding lh_ok_def c by simp
  obtain lh1 seen1 where d: "doall_buckets (sweep ch cc a P) (num_buckets lh) 0 (?lh, []) = (lh1, seen1)"
    by (cases "doall_buckets (sweep ch cc a P) (num_buckets lh) 0 (?lh, [])")
  have "length (buckets lh) = num_buckets lh" using ok(1) by (simp add: lh_ok_def placed_def)
  then have st: "table f lh1 \<and> hash lh1 = hash lh \<and> comp lh1 = comp lh \<and> callback_depth lh1 = callback_depth lh + 1 \<and>
    seen1 = map data (concat (buckets lh)) \<and> contents lh1 = contents lh - {d \<in> contents lh. P d}"
    using sweep_buckets [where f = f and ch = ch and cc = cc and bs = "buckets lh" and i = 0 and n = "num_buckets lh",
        OF t _ _ _ _ _ _ d] ok(2,3) unfolding c drop_0 contents_def [of lh, symmetric] by simp
  let ?lh1 = "lh1\<lparr>callback_depth := callback_depth lh\<rparr>"
  have c1: "contents ?lh1 = contents lh1" by (simp add: contents_def)
  have t1: "table f ?lh1" using st unfolding lh_ok_def c1 by simp
  have "lh' = Some (lh_maybe_resize a ?lh1)" "seen = seen1"
    using s depth d st by (auto simp: OPENSSL_lh_doall_arg_def Let_def)
  moreover have "distinct (map data (concat (buckets lh)))" using ok(1) by (simp add: lh_ok_def)
  moreover have "set (map data (concat (buckets lh))) = contents lh" by (simp add: contents_def)
  moreover have "contents lh - {d \<in> contents lh. P d} = {x \<in> contents lh. \<not> P x}" by blast
  ultimately show ?thesis
    using lh_maybe_resize_ok [OF t1, of a] st c1 by (simp add: same_table_def)
qed

end

section \<open>Properties\<close>

text \<open>C26: On every table that insertions and deletions build, through all growing and shrinking, the operations
  act on the set of stored elements, of which no two are equal: a lookup finds the element equal to the
  argument, an insertion replaces it and hands it back, a deletion takes it out, and \<open>num_items\<close> is the size
  of the set. Only an insertion without memory fails, and it changes nothing.\<close>

theorem lhash_set_operations:
  assumes "lh_reachable A ch cc h cmp lh" "hash_contract (ch h) (cc cmp)" "num_items lh + 1 < 2 ^ 60"
  shows "(\<forall>y \<in> contents lh. cc cmp y x = 0 \<longrightarrow> OPENSSL_lh_retrieve ch cc lh x = y) \<and>
    ((\<forall>y \<in> contents lh. cc cmp y x \<noteq> 0) \<longrightarrow> OPENSSL_lh_retrieve ch cc lh x = 0) \<and>
    OPENSSL_lh_num_items lh = card (contents lh) \<and>
    (\<forall>y \<in> contents lh. \<forall>z \<in> contents lh. cc cmp y z = 0 \<longrightarrow> y = z) \<and>
    (case OPENSSL_lh_insert ch cc a lh x of (r, old, lh') \<Rightarrow>
      if r then contents lh' = insert x (contents lh - {y. cc cmp y x = 0}) \<and> old = OPENSSL_lh_retrieve ch cc lh x
      else lh' = lh \<and> old = 0 \<and> \<not> plentiful a) \<and>
    (case OPENSSL_lh_delete ch cc a lh x of (old, lh') \<Rightarrow>
      contents lh' = contents lh - {y. cc cmp y x = 0} \<and> old = OPENSSL_lh_retrieve ch cc lh x)"
proof -
  note ok = lh_reachable_ok [OF assms(1,2)]
  have t: "lh_ok (ch h \<circ> id) (\<lambda>p q. cc cmp (id p) (id q)) lh" "ch (hash lh) = ch h \<circ> id"
    "cc (comp lh) = (\<lambda>p q. cc cmp (id p) (id q))" using ok by simp_all
  have r: "(\<forall>y \<in> contents lh. cc cmp y x = 0 \<longrightarrow> OPENSSL_lh_retrieve ch cc lh x = y)"
    "(\<forall>y \<in> contents lh. cc cmp y x \<noteq> 0) \<longrightarrow> OPENSSL_lh_retrieve ch cc lh x = 0"
    using hash_contract.retrieve_ok [where f = id and ch = ch and cc = cc and lh = lh and x = x, OF assms(2) t] by simp_all
  obtain i old lh' where ins: "OPENSSL_lh_insert ch cc a lh x = (i, old, lh')" by (cases "OPENSSL_lh_insert ch cc a lh x")
  have few: "num_items lh + 1 < 2 ^ 64" using assms(3) by simp
  have "if i then contents lh' = insert x (contents lh - {y. cc cmp y x = 0}) \<and> old = OPENSSL_lh_retrieve ch cc lh x
      else lh' = lh \<and> old = 0 \<and> \<not> plentiful a"
    using hash_contract.insert_ok [where f = id and ch = ch and cc = cc and lh = lh, OF assms(2) t few ins] r by (cases i; cases "\<exists>y \<in> contents lh. cc cmp y x = 0") auto
  moreover obtain old' lh'' where del: "OPENSSL_lh_delete ch cc a lh x = (old', lh'')" by (cases "OPENSSL_lh_delete ch cc a lh x")
  moreover have "contents lh'' = contents lh - {y. cc cmp y x = 0} \<and> old' = OPENSSL_lh_retrieve ch cc lh x"
    using hash_contract.delete_ok [where f = id and ch = ch and cc = cc and lh = lh, OF assms(2) t del] by simp
  moreover have "OPENSSL_lh_num_items lh = card (contents lh)" using ok lh_ok_card by (auto simp: OPENSSL_lh_num_items_def)
  moreover have "\<forall>y \<in> contents lh. \<forall>z \<in> contents lh. cc cmp y z = 0 \<longrightarrow> y = z" using ok by (simp add: lh_ok_def)
  ultimately show ?thesis using r ins by auto
qed

text \<open>Pointers that are their own keys.\<close>

definition demo_hash :: "nat \<Rightarrow> nat \<Rightarrow> u32" where
  "demo_hash h p = of_nat p"

definition demo_cmp :: "nat \<Rightarrow> nat \<Rightarrow> nat \<Rightarrow> int" where
  "demo_cmp c p q = int p - int q"

lemma demo_contract: "hash_contract (demo_hash h) (demo_cmp c)"
  by unfold_locales (auto simp: demo_hash_def demo_cmp_def)

definition demo_table :: lhash where
  "demo_table = \<lparr>num_items = 0, buckets = replicate 16 [], num_buckets = 16, callback_depth = 0, comp = 1, hash = 2\<rparr>"

definition demo_one :: lhash where
  "demo_one = demo_table\<lparr>num_items := 1, buckets := (replicate 16 [])[7 := [\<lparr>data = 7, item_hash = 7\<rparr>]]\<rparr>"

lemma demo_table_new: "OPENSSL_lh_new plenty 2 1 = Some demo_table"
  by (simp add: OPENSSL_lh_new_def OPENSSL_malloc_def plenty_def size_wrap_def OPENSSL_MALLOC_PREFIX_def
      demo_table_def kMinNumBuckets_def)

lemma demo_one_insert: "OPENSSL_lh_insert demo_hash demo_cmp plenty demo_table 7 = (True, 0, demo_one)"
proof -
  have "get_next_ptr_and_hash demo_hash demo_cmp demo_table 7 = ((7, 0), 7)"
    by (simp add: get_next_ptr_and_hash_def demo_hash_def demo_table_def Let_def)
  moreover have "pointee demo_table (7, 0) = None" by (simp add: pointee_def demo_table_def)
  moreover have "lh_maybe_resize plenty demo_one = demo_one"
    by (simp add: lh_maybe_resize_def demo_one_def demo_table_def kMaxAverageChainLength_def
        kMinAverageChainLength_def kMinNumBuckets_def)
  ultimately show ?thesis
    by (simp add: OPENSSL_lh_insert_def OPENSSL_malloc_def plenty_def size_wrap_def OPENSSL_MALLOC_PREFIX_def)
      (simp add: demo_one_def demo_table_def)
qed

lemma demo_one_reachable: "lh_reachable plentiful demo_hash demo_cmp 2 1 demo_one"
proof (rule lh_reachable.inserted [where A = plentiful, OF _ plentiful_plenty _ demo_one_insert])
  show "lh_reachable plentiful demo_hash demo_cmp 2 1 demo_table"
    by (rule lh_reachable.new [where A = plentiful, OF plentiful_plenty demo_table_new])
qed (simp add: demo_table_def)

lemma demo_one_contents: "contents demo_one = {7}"
  by (simp add: contents_def demo_one_def demo_table_def eval_nat_numeral)

theorem lhash_set_operations_witness:
  "OPENSSL_lh_retrieve demo_hash demo_cmp demo_one 7 = 7 \<and> OPENSSL_lh_retrieve demo_hash demo_cmp demo_one 8 = 0"
proof -
  have "num_items demo_one + 1 < 2 ^ 60" by (simp add: demo_one_def)
  note ops = lhash_set_operations [OF demo_one_reachable demo_contract this]
  have "demo_cmp 1 7 7 = 0" "demo_cmp 1 7 8 \<noteq> 0" by (simp_all add: demo_cmp_def)
  then show ?thesis using conjunct1 [OF ops [of 7 plenty]] conjunct1 [OF conjunct2 [OF ops [of 8 plenty]]]
    by (simp add: demo_one_contents)
qed

text \<open>C27: With an allocator that delivers, the array follows the number of items: there are fewer than three items
  per bucket on average, and never more buckets than items once the table has grown beyond its 16 buckets.\<close>

theorem lhash_balanced:
  assumes "lh_reachable plentiful ch cc h cmp lh" "hash_contract (ch h) (cc cmp)"
  shows "num_items lh < 3 * num_buckets lh \<and> (num_buckets lh = 16 \<or> num_buckets lh \<le> num_items lh) \<and>
    (\<exists>k. num_buckets lh = 16 * 2 ^ k) \<and> length (buckets lh) = num_buckets lh"
  using lh_reachable_balanced [OF assms] lh_reachable_ok [OF assms] by (simp add: balanced_def lh_ok_def placed_def)

theorem lhash_balanced_witness: "num_items demo_one < 3 * num_buckets demo_one"
  using lhash_balanced [OF demo_one_reachable demo_contract] by blast

text \<open>C28: \<open>OPENSSL_lh_doall_arg\<close> calls its callback on every element exactly once, also when the callback deletes
  the element it is called on: no resizing disturbs the iteration, and the table afterwards holds the
  elements that were not deleted.\<close>

theorem lhash_doall_deleting:
  assumes "lh_reachable A ch cc h cmp lh" "hash_contract (ch h) (cc cmp)"
  shows "\<exists>t seen. OPENSSL_lh_doall_arg a (Some lh) (sweep ch cc a P) [] = (Some t, seen) \<and>
    distinct seen \<and> set seen = contents lh \<and> contents t = {x \<in> contents lh. \<not> P x} \<and> callback_depth t = 0"
proof -
  note ok = lh_reachable_ok [OF assms]
  have t: "lh_ok (ch h \<circ> id) (\<lambda>p q. cc cmp (id p) (id q)) lh" "ch (hash lh) = ch h \<circ> id"
    "cc (comp lh) = (\<lambda>p q. cc cmp (id p) (id q))" "callback_depth lh < UINT_MAX - 1" using ok by simp_all
  obtain lh' seen where "OPENSSL_lh_doall_arg a (Some lh) (sweep ch cc a P) [] = (lh', seen)"
    by (cases "OPENSSL_lh_doall_arg a (Some lh) (sweep ch cc a P) []")
  from hash_contract.sweep_table [where f = id and ch = ch and cc = cc and lh = lh, OF assms(2) t this] this ok show ?thesis by auto
qed

theorem lhash_doall_deleting_witness:
  "\<exists>t. OPENSSL_lh_doall_arg plenty (Some demo_one) (sweep demo_hash demo_cmp plenty (\<lambda>p. p < 9)) [] = (Some t, [7]) \<and>
    contents t = {}"
proof -
  obtain t seen where t: "OPENSSL_lh_doall_arg plenty (Some demo_one) (sweep demo_hash demo_cmp plenty (\<lambda>p. p < 9)) [] = (Some t, seen)"
    "distinct seen" "set seen = {7}" "contents t = {x \<in> {7}. \<not> x < 9}"
    using lhash_doall_deleting [OF demo_one_reachable demo_contract, of plenty "\<lambda>p. p < 9"]
    unfolding demo_one_contents by blast
  then have "length seen = 1" using distinct_card [of seen] by simp
  then have "seen = [7]" using t(3) by (cases seen) auto
  then show ?thesis using t(1,4) by auto
qed

end
