(* ===== verification/Bio.thy ===== *)
theory Bio
  imports Mem
begin

text \<open>
  The generic part of BIOs (\<open>crypto/bio/bio.c\<close>): the functions that check their arguments and call the
  method of a BIO, its flags and chains, and the readers built on them. A \<open>BIO*\<close> is a number, 0 is NULL, and
  the heap says what is there; \<open>'p\<close> is what \<open>ptr\<close> points at. A \<open>BIO_METHOD*\<close> is a number too, which the
  parameter \<open>M\<close> resolves. Pushes to the error queue are left out.
\<close>

section \<open>Methods and BIOs\<close>

record 'p bio =
  bio_meth :: nat
  init :: bool
  shutdown :: int
  flags :: u32
  retry_reason :: int
  bio_num :: int
  references :: nat
  ptr :: 'p
  next_bio :: nat
  num_read :: u64
  num_write :: u64

type_synonym 'p bios = "nat \<rightharpoonup> 'p bio"

text \<open>\<open>None\<close> for the functions a method does not have. A reader hands out the return value and the bytes at
  \<open>buf\<close>; a writer gets the bytes at \<open>buf\<close>.\<close>

record 'p bio_method =
  type_id :: u32
  bwrite :: "(nat \<Rightarrow> bytes \<Rightarrow> int \<Rightarrow> 'p bios \<Rightarrow> int \<times> 'p bios) option"
  bread :: "(nat \<Rightarrow> int \<Rightarrow> 'p bios \<Rightarrow> (int \<times> bytes) \<times> 'p bios) option"
  bgets :: "(nat \<Rightarrow> int \<Rightarrow> 'p bios \<Rightarrow> (int \<times> bytes) \<times> 'p bios) option"
  ctrl :: "(nat \<Rightarrow> int \<Rightarrow> int \<Rightarrow> nat \<Rightarrow> 'p bios \<Rightarrow> int \<times> 'p bios) option"
  create :: "(nat \<Rightarrow> 'p bios \<Rightarrow> bool \<times> 'p bios) option"
  destroy :: "(nat \<Rightarrow> 'p bios \<Rightarrow> 'p bios) option"

type_synonym 'p methods = "nat \<Rightarrow> 'p bio_method"

abbreviation update_bio :: "nat \<Rightarrow> ('p bio \<Rightarrow> 'p bio) \<Rightarrow> 'p bios \<Rightarrow> 'p bios" where
  "update_bio b f h \<equiv> h(b \<mapsto> f (the (h b)))"

abbreviation the_method :: "'p methods \<Rightarrow> 'p bios \<Rightarrow> nat \<Rightarrow> 'p bio_method" where
  "the_method M h b \<equiv> M (bio_meth (the (h b)))"

text \<open>\<open>bio == NULL || bio->method == NULL || bio->method->f == NULL\<close>\<close>

definition unsupported :: "'p methods \<Rightarrow> 'p bios \<Rightarrow> nat \<Rightarrow> ('p bio_method \<Rightarrow> 'f option) \<Rightarrow> bool" where
  "unsupported M h b f \<longleftrightarrow> b = 0 \<or> bio_meth (the (h b)) = 0 \<or> f (the_method M h b) = None"

text \<open>The memory for the BIO is at \<open>addr\<close>, as the allocator has it; \<open>zero\<close> is what \<open>memset\<close> leaves at \<open>ptr\<close>.\<close>

definition BIO_new :: "allocator \<Rightarrow> 'p methods \<Rightarrow> 'p \<Rightarrow> nat \<Rightarrow> nat \<Rightarrow> 'p bios \<Rightarrow> nat \<times> 'p bios" where
  "BIO_new a M zero addr m h =
     (case OPENSSL_malloc a 64 of
        None \<Rightarrow> (0, h)
      | Some _ \<Rightarrow>
          let h = h(addr \<mapsto> \<lparr>bio_meth = m, init = False, shutdown = 1, flags = 0, retry_reason = 0, bio_num = 0, references = 1,
            ptr = zero, next_bio = 0, num_read = 0, num_write = 0\<rparr>) in
          (case create (M m) of
             None \<Rightarrow> (addr, h)
           | Some f \<Rightarrow> (case f addr h of (ok, h) \<Rightarrow> if ok then (addr, h) else (0, h(addr := None)))))"

text \<open>
  A count at the maximum stays there (\<open>crypto/refcount_lock.c\<close>). Here and for \<open>BIO_free\<close>, \<open>None\<close> says that the call does
  not return; \<open>CRYPTO_refcount_dec_and_test_zero\<close> aborts on a count of 0.
\<close>

abbreviation CRYPTO_REFCOUNT_MAX :: nat where
  "CRYPTO_REFCOUNT_MAX \<equiv> 0xffffffff"

definition CRYPTO_refcount_inc :: "nat \<Rightarrow> nat" where
  "CRYPTO_refcount_inc count = (if count < CRYPTO_REFCOUNT_MAX then count + 1 else count)"

definition CRYPTO_refcount_dec_and_test_zero :: "nat \<Rightarrow> (bool \<times> nat) option" where
  "CRYPTO_refcount_dec_and_test_zero count =
     (if count = 0 then None
      else
        let count = (if count < CRYPTO_REFCOUNT_MAX then count - 1 else count) in Some (count = 0, count))"

definition BIO_up_ref :: "nat \<Rightarrow> 'p bios \<Rightarrow> int \<times> 'p bios" where
  "BIO_up_ref b h = (1, update_bio b (\<lambda>x. x\<lparr>references := CRYPTO_refcount_inc (references x)\<rparr>) h)"

definition BIO_pop :: "nat \<Rightarrow> 'p bios \<Rightarrow> nat \<times> 'p bios" where
  "BIO_pop b h = (if b = 0 then (0, h) else (next_bio (the (h b)), update_bio b (\<lambda>x. x\<lparr>next_bio := 0\<rparr>) h))"

partial_function (option) BIO_free :: "'p methods \<Rightarrow> nat \<Rightarrow> 'p bios \<Rightarrow> (int \<times> 'p bios) option" where
  "BIO_free M b h =
     (if b \<noteq> 0 then
        (case CRYPTO_refcount_dec_and_test_zero (references (the (h b))) of
           None \<Rightarrow> None
         | Some (zero, count) \<Rightarrow>
             let h = update_bio b (\<lambda>x. x\<lparr>references := count\<rparr>) h in
             if \<not> zero then Some (0, h)
             else
               (case BIO_pop b h of
                  (nxt, h) \<Rightarrow>
                    let h = (if unsupported M h b destroy then h else the (destroy (the_method M h b)) b h)
                    in BIO_free M nxt (h(b := None))))
      else Some (1, h))"

section \<open>Reading, writing and control\<close>

definition BIO_read :: "'p methods \<Rightarrow> nat \<Rightarrow> int \<Rightarrow> 'p bios \<Rightarrow> (int \<times> bytes) \<times> 'p bios" where
  "BIO_read M b len h =
     (if unsupported M h b bread then ((-2, []), h)
      else if \<not> init (the (h b)) then ((-2, []), h)
      else if len \<le> 0 then ((0, []), h)
      else
        (case the (bread (the_method M h b)) b len h of
           ((ret, data), h) \<Rightarrow>
             ((ret, data), if ret > 0 then update_bio b (\<lambda>x. x\<lparr>num_read := num_read x + of_int ret\<rparr>) h else h)))"

definition BIO_gets :: "'p methods \<Rightarrow> nat \<Rightarrow> int \<Rightarrow> 'p bios \<Rightarrow> (int \<times> bytes) \<times> 'p bios" where
  "BIO_gets M b len h =
     (if unsupported M h b bgets then ((-2, []), h)
      else if \<not> init (the (h b)) then ((-2, []), h)
      else if len \<le> 0 then ((0, []), h)
      else
        (case the (bgets (the_method M h b)) b len h of
           ((ret, data), h) \<Rightarrow>
             ((ret, data), if ret > 0 then update_bio b (\<lambda>x. x\<lparr>num_read := num_read x + of_int ret\<rparr>) h else h)))"

definition BIO_write :: "'p methods \<Rightarrow> nat \<Rightarrow> bytes \<Rightarrow> int \<Rightarrow> 'p bios \<Rightarrow> int \<times> 'p bios" where
  "BIO_write M b data inl h =
     (if unsupported M h b bwrite then (-2, h)
      else if \<not> init (the (h b)) then (-2, h)
      else if inl \<le> 0 then (0, h)
      else
        (case the (bwrite (the_method M h b)) b data inl h of
           (ret, h) \<Rightarrow>
             (ret, if ret > 0 then update_bio b (\<lambda>x. x\<lparr>num_write := num_write x + of_int ret\<rparr>) h else h)))"

text \<open>\<open>size_t\<close> minus an \<open>int\<close>, and the conversion of a \<open>size_t\<close> to \<open>int\<close>.\<close>

definition size_minus :: "nat \<Rightarrow> int \<Rightarrow> nat" where
  "size_minus n i = nat ((int n - i) mod 2 ^ 64)"

definition int_of_size :: "nat \<Rightarrow> int" where
  "int_of_size n = sint (of_nat n :: 32 word)"

text \<open>The conversion of a \<open>long\<close> to \<open>int\<close>.\<close>

definition int_of_long :: "int \<Rightarrow> int" where
  "int_of_long n = sint (of_int n :: 32 word)"

text \<open>\<open>wr\<close> is \<open>BIO_write\<close> on the BIO.\<close>

partial_function (option) BIO_write_all :: "(bytes \<Rightarrow> int \<Rightarrow> 's \<Rightarrow> int \<times> 's) \<Rightarrow> bytes \<Rightarrow> nat \<Rightarrow> 's \<Rightarrow> (int \<times> 's) option" where
  "BIO_write_all wr data_u8 len s =
     (if len > 0 then
        (case wr data_u8 (if len > INT_MAX then int INT_MAX else int len) s of
           (ret, s) \<Rightarrow>
             if ret \<le> 0 then Some (0, s)
             else BIO_write_all wr (drop (nat ret) data_u8) (size_minus len ret) s)
      else Some (1, s))"

definition BIO_puts :: "(bytes \<Rightarrow> int \<Rightarrow> 's \<Rightarrow> int \<times> 's) \<Rightarrow> bytes \<Rightarrow> 's \<Rightarrow> int \<times> 's" where
  "BIO_puts wr s = wr s (int_of_size (strlen s))"

fun indent_loop :: "(bytes \<Rightarrow> int \<Rightarrow> 's \<Rightarrow> int \<times> 's) \<Rightarrow> nat \<Rightarrow> 's \<Rightarrow> int \<times> 's" where
  "indent_loop wr 0 s = (1, s)"
| "indent_loop wr (Suc indent) s =
     (case BIO_puts wr [0x20, 0] s of (r, s) \<Rightarrow> if r \<noteq> 1 then (0, s) else indent_loop wr indent s)"

definition BIO_indent :: "(bytes \<Rightarrow> int \<Rightarrow> 's \<Rightarrow> int \<times> 's) \<Rightarrow> nat \<Rightarrow> nat \<Rightarrow> 's \<Rightarrow> int \<times> 's" where
  "BIO_indent wr indent max_indent s = indent_loop wr (if indent > max_indent then max_indent else indent) s"

definition BIO_ctrl :: "'p methods \<Rightarrow> nat \<Rightarrow> int \<Rightarrow> int \<Rightarrow> nat \<Rightarrow> 'p bios \<Rightarrow> int \<times> 'p bios" where
  "BIO_ctrl M b cmd larg parg h =
     (if b = 0 then (0, h)
      else if bio_meth (the (h b)) = 0 \<or> ctrl (the_method M h b) = None then (-2, h)
      else the (ctrl (the_method M h b)) b cmd larg parg h)"

abbreviation (input) BIO_CTRL_RESET :: int where "BIO_CTRL_RESET \<equiv> 1"
abbreviation (input) BIO_CTRL_EOF :: int where "BIO_CTRL_EOF \<equiv> 2"
abbreviation (input) BIO_CTRL_GET_CLOSE :: int where "BIO_CTRL_GET_CLOSE \<equiv> 8"
abbreviation (input) BIO_CTRL_SET_CLOSE :: int where "BIO_CTRL_SET_CLOSE \<equiv> 9"
abbreviation (input) BIO_CTRL_PENDING :: int where "BIO_CTRL_PENDING \<equiv> 10"
abbreviation (input) BIO_CTRL_FLUSH :: int where "BIO_CTRL_FLUSH \<equiv> 11"
abbreviation (input) BIO_CTRL_WPENDING :: int where "BIO_CTRL_WPENDING \<equiv> 13"

definition BIO_flush :: "'p methods \<Rightarrow> nat \<Rightarrow> 'p bios \<Rightarrow> int \<times> 'p bios" where
  "BIO_flush M b = BIO_ctrl M b BIO_CTRL_FLUSH 0 0"

definition BIO_reset :: "'p methods \<Rightarrow> nat \<Rightarrow> 'p bios \<Rightarrow> int \<times> 'p bios" where
  "BIO_reset M b = BIO_ctrl M b BIO_CTRL_RESET 0 0"

definition BIO_eof :: "'p methods \<Rightarrow> nat \<Rightarrow> 'p bios \<Rightarrow> int \<times> 'p bios" where
  "BIO_eof M b = BIO_ctrl M b BIO_CTRL_EOF 0 0"

text \<open>The assertions that the answers are not negative are taken to be compiled out; a negative answer counts as 0.\<close>

definition BIO_pending :: "'p methods \<Rightarrow> nat \<Rightarrow> 'p bios \<Rightarrow> nat \<times> 'p bios" where
  "BIO_pending M b h = (case BIO_ctrl M b BIO_CTRL_PENDING 0 0 h of (r, h) \<Rightarrow> (if r < 0 then 0 else nat r, h))"

definition BIO_wpending :: "'p methods \<Rightarrow> nat \<Rightarrow> 'p bios \<Rightarrow> nat \<times> 'p bios" where
  "BIO_wpending M b h = (case BIO_ctrl M b BIO_CTRL_WPENDING 0 0 h of (r, h) \<Rightarrow> (if r < 0 then 0 else nat r, h))"

definition BIO_ctrl_pending :: "'p methods \<Rightarrow> nat \<Rightarrow> 'p bios \<Rightarrow> nat \<times> 'p bios" where
  "BIO_ctrl_pending = BIO_pending"

definition BIO_number_read :: "'p bio \<Rightarrow> nat" where
  "BIO_number_read b = unat (num_read b)"

definition BIO_number_written :: "'p bio \<Rightarrow> nat" where
  "BIO_number_written b = unat (num_write b)"

definition BIO_set_close :: "'p methods \<Rightarrow> nat \<Rightarrow> int \<Rightarrow> 'p bios \<Rightarrow> int \<times> 'p bios" where
  "BIO_set_close M b close_flag = BIO_ctrl M b BIO_CTRL_SET_CLOSE close_flag 0"

section \<open>Flags\<close>

definition BIO_FLAGS_READ :: u32 where "BIO_FLAGS_READ = 0x01"
definition BIO_FLAGS_WRITE :: u32 where "BIO_FLAGS_WRITE = 0x02"
definition BIO_FLAGS_IO_SPECIAL :: u32 where "BIO_FLAGS_IO_SPECIAL = 0x04"
definition BIO_FLAGS_RWS :: u32 where "BIO_FLAGS_RWS = BIO_FLAGS_READ OR BIO_FLAGS_WRITE OR BIO_FLAGS_IO_SPECIAL"
definition BIO_FLAGS_SHOULD_RETRY :: u32 where "BIO_FLAGS_SHOULD_RETRY = 0x08"

definition BIO_set_flags :: "'p bio \<Rightarrow> u32 \<Rightarrow> 'p bio" where
  "BIO_set_flags b fl = b\<lparr>flags := flags b OR fl\<rparr>"

definition BIO_test_flags :: "'p bio \<Rightarrow> u32 \<Rightarrow> u32" where
  "BIO_test_flags b fl = flags b AND fl"

definition BIO_should_read :: "'p bio \<Rightarrow> bool" where
  "BIO_should_read b = (BIO_test_flags b BIO_FLAGS_READ \<noteq> 0)"

definition BIO_should_write :: "'p bio \<Rightarrow> bool" where
  "BIO_should_write b = (BIO_test_flags b BIO_FLAGS_WRITE \<noteq> 0)"

definition BIO_should_retry :: "'p bio \<Rightarrow> bool" where
  "BIO_should_retry b = (BIO_test_flags b BIO_FLAGS_SHOULD_RETRY \<noteq> 0)"

definition BIO_should_io_special :: "'p bio \<Rightarrow> bool" where
  "BIO_should_io_special b = (BIO_test_flags b BIO_FLAGS_IO_SPECIAL \<noteq> 0)"

definition BIO_clear_flags :: "'p bio \<Rightarrow> u32 \<Rightarrow> 'p bio" where
  "BIO_clear_flags b fl = b\<lparr>flags := flags b AND NOT fl\<rparr>"

definition BIO_set_retry_read :: "'p bio \<Rightarrow> 'p bio" where
  "BIO_set_retry_read b = b\<lparr>flags := flags b OR (BIO_FLAGS_READ OR BIO_FLAGS_SHOULD_RETRY)\<rparr>"

definition BIO_set_retry_write :: "'p bio \<Rightarrow> 'p bio" where
  "BIO_set_retry_write b = b\<lparr>flags := flags b OR (BIO_FLAGS_WRITE OR BIO_FLAGS_SHOULD_RETRY)\<rparr>"

definition BIO_set_retry_special :: "'p bio \<Rightarrow> 'p bio" where
  "BIO_set_retry_special b = b\<lparr>flags := flags b OR (BIO_FLAGS_READ OR BIO_FLAGS_IO_SPECIAL)\<rparr>"

definition kRetryFlags :: u32 where
  "kRetryFlags = BIO_FLAGS_RWS OR BIO_FLAGS_SHOULD_RETRY"

definition BIO_get_retry_flags :: "'p bio \<Rightarrow> u32" where
  "BIO_get_retry_flags b = flags b AND kRetryFlags"

definition BIO_clear_retry_flags :: "'p bio \<Rightarrow> 'p bio" where
  "BIO_clear_retry_flags b = b\<lparr>flags := flags b AND NOT kRetryFlags, retry_reason := 0\<rparr>"

definition BIO_copy_next_retry :: "nat \<Rightarrow> 'p bios \<Rightarrow> 'p bios" where
  "BIO_copy_next_retry b h =
     (let h = update_bio b BIO_clear_retry_flags h;
          n = the (h (next_bio (the (h b)))) in
      update_bio b (\<lambda>x. (BIO_set_flags x (BIO_get_retry_flags n))\<lparr>retry_reason := retry_reason n\<rparr>) h)"

section \<open>Chains\<close>

partial_function (option) last_bio_loop :: "'p bios \<Rightarrow> nat \<Rightarrow> nat option" where
  "last_bio_loop h last_bio =
     (if next_bio (the (h last_bio)) \<noteq> 0 then last_bio_loop h (next_bio (the (h last_bio))) else Some last_bio)"

definition BIO_push :: "nat \<Rightarrow> nat \<Rightarrow> 'p bios \<Rightarrow> (nat \<times> 'p bios) option" where
  "BIO_push b appended_bio h =
     (if b = 0 then Some (b, h)
      else
        (case last_bio_loop h b of
           None \<Rightarrow> None
         | Some last_bio \<Rightarrow> Some (b, update_bio last_bio (\<lambda>x. x\<lparr>next_bio := appended_bio\<rparr>) h)))"

definition BIO_next :: "nat \<Rightarrow> 'p bios \<Rightarrow> nat" where
  "BIO_next b h = (if b = 0 then 0 else next_bio (the (h b)))"

partial_function (option) find_type_loop :: "'p methods \<Rightarrow> u32 \<Rightarrow> 'p bios \<Rightarrow> nat \<Rightarrow> nat option" where
  "find_type_loop M t h b =
     (let method_type = type_id (the_method M h b); found =
        (bio_meth (the (h b)) \<noteq> 0 \<and> (if t AND 0xff = 0 then method_type AND t \<noteq> 0 else method_type = t)) in
      if found then Some b
      else
        let b = next_bio (the (h b)) in if b \<noteq> 0 then find_type_loop M t h b else Some 0)"

definition BIO_find_type :: "'p methods \<Rightarrow> nat \<Rightarrow> u32 \<Rightarrow> 'p bios \<Rightarrow> nat option" where
  "BIO_find_type M b t h = (if b = 0 then Some 0 else find_type_loop M t h b)"

section \<open>Reading ASN.1 objects\<close>

text \<open>\<open>rd\<close> is \<open>BIO_read\<close> on the BIO. The buffer at \<open>*out\<close> is the list \<open>out\<close> of \<open>len\<close> bytes.\<close>

definition kChunkSize :: nat where "kChunkSize = 4096"

definition store_at :: "nat \<Rightarrow> bytes \<Rightarrow> bytes \<Rightarrow> bytes" where
  "store_at k data out = take k out @ data @ drop (k + length data) out"

partial_function (option) read_all_loop ::
  "allocator \<Rightarrow> (int \<Rightarrow> 's \<Rightarrow> (int \<times> bytes) \<times> 's) \<Rightarrow> nat \<Rightarrow> nat \<Rightarrow> nat \<Rightarrow> bytes \<Rightarrow> 's \<Rightarrow> (bytes option \<times> 's) option" where
  "read_all_loop a rd max_len len dn out s =
     (if dn = len then Some (None, s)
      else
        (case rd (int_of_size (size_minus len (int dn))) s of
           ((n, data), s) \<Rightarrow>
             if n = 0 then Some (Some (take dn out), s)
             else if n = -1 then Some (None, s)
             else
               let out = store_at dn data out; dn = size_minus dn (- n) in
               if len < max_len \<and> size_minus len (int dn) < kChunkSize div 2 then
                 (let len = size_wrap (len + kChunkSize);
                      len = (if len < kChunkSize \<or> len > max_len then max_len else len) in
                  case OPENSSL_realloc a (Some (\<lambda>i. out ! i, length out)) len of
                    None \<Rightarrow> Some (None, s)
                  | Some new_buf \<Rightarrow> read_all_loop a rd max_len len dn (map new_buf [0..<len]) s)
               else read_all_loop a rd max_len len dn out s))"

definition bio_read_all ::
  "allocator \<Rightarrow> (int \<Rightarrow> 's \<Rightarrow> (int \<times> bytes) \<times> 's) \<Rightarrow> bytes \<Rightarrow> nat \<Rightarrow> 's \<Rightarrow> (bytes option \<times> 's) option" where
  "bio_read_all a rd prefix max_len s =
     (let len = size_wrap (length prefix + kChunkSize);
          len = (if len > max_len then max_len else len) in
      if len < length prefix then Some (None, s)
      else
        (case OPENSSL_malloc a len of
           None \<Rightarrow> Some (None, s)
         | Some out \<Rightarrow>
             read_all_loop a rd max_len len (length prefix) (store_at 0 prefix (map out [0..<len])) s))"

text \<open>The bytes read, or \<open>out_eof_on_first_read\<close> on failure.\<close>

partial_function (option) read_full_loop ::
  "(int \<Rightarrow> 's \<Rightarrow> (int \<times> bytes) \<times> 's) \<Rightarrow> bool \<Rightarrow> nat \<Rightarrow> bytes \<Rightarrow> 's \<Rightarrow> ((bool + bytes) \<times> 's) option" where
  "read_full_loop rd first_read len out s =
     (if len > 0 then
        (case rd (if len \<le> INT_MAX then int len else int INT_MAX) s of
           ((ret, data), s) \<Rightarrow>
             if ret \<le> 0 then Some (Inl (first_read \<and> ret = 0), s)
             else read_full_loop rd False (size_minus len ret) (out @ data) s)
      else Some (Inr out, s))"

definition bio_read_full ::
  "(int \<Rightarrow> 's \<Rightarrow> (int \<times> bytes) \<times> 's) \<Rightarrow> nat \<Rightarrow> 's \<Rightarrow> ((bool + bytes) \<times> 's) option" where
  "bio_read_full rd len s = read_full_loop rd True len [] s"

datatype asn1_error = HEADER_TOO_LONG | NOT_ENOUGH_DATA | DECODE_ERROR | TOO_LONG | MALLOC_FAILURE

text \<open>The big-endian length, on 32 bits.\<close>

definition len32_of :: "bytes \<Rightarrow> u32" where
  "len32_of bs = foldl (\<lambda>len32 b. push_bit 8 len32 OR ucast b) 0 bs"

text \<open>The second half of \<open>BIO_read_asn1\<close>: the header is read, \<open>len\<close> is the length of the contents.\<close>

definition read_contents ::
  "allocator \<Rightarrow> (int \<Rightarrow> 's \<Rightarrow> (int \<times> bytes) \<times> 's) \<Rightarrow> nat \<Rightarrow> bytes \<Rightarrow> nat \<Rightarrow> 's \<Rightarrow> ((asn1_error + bytes) \<times> 's) option" where
  "read_contents a rd max_len header len s =
     (if size_wrap (len + length header) < len \<or> size_wrap (len + length header) > max_len \<or> len > INT_MAX
      then Some (Inl TOO_LONG, s)
      else
        (case OPENSSL_malloc a (len + length header) of
           None \<Rightarrow> Some (Inl MALLOC_FAILURE, s)
         | Some _ \<Rightarrow>
             (case bio_read_full rd len s of
                None \<Rightarrow> None
              | Some (Inl _, s) \<Rightarrow> Some (Inl NOT_ENOUGH_DATA, s)
              | Some (Inr data, s) \<Rightarrow> Some (Inr (header @ data), s))))"

definition BIO_read_asn1 ::
  "allocator \<Rightarrow> (int \<Rightarrow> 's \<Rightarrow> (int \<times> bytes) \<times> 's) \<Rightarrow> nat \<Rightarrow> 's \<Rightarrow> ((asn1_error + bytes) \<times> 's) option" where
  "BIO_read_asn1 a rd max_len s =
     (case bio_read_full rd 2 s of
        None \<Rightarrow> None
      | Some (Inl eof_on_first_read, s) \<Rightarrow>
          Some (Inl (if eof_on_first_read then HEADER_TOO_LONG else NOT_ENOUGH_DATA), s)
      | Some (Inr header, s) \<Rightarrow>
          let tag = header ! 0; length_byte = header ! 1 in
          if tag AND 0x1f = 0x1f then Some (Inl DECODE_ERROR, s)
          else if length_byte AND 0x80 = 0 then read_contents a rd max_len header (unat length_byte) s
          else
            let num_bytes = unat (length_byte AND 0x7f) in
            if tag AND 0x20 \<noteq> 0 \<and> num_bytes = 0 then
              (case bio_read_all a rd header max_len s of
                 None \<Rightarrow> None
               | Some (None, s) \<Rightarrow> Some (Inl NOT_ENOUGH_DATA, s)
               | Some (Some out, s) \<Rightarrow> Some (Inr out, s))
            else if num_bytes = 0 \<or> num_bytes > 4 then Some (Inl DECODE_ERROR, s)
            else
              (case bio_read_full rd num_bytes s of
                 None \<Rightarrow> None
               | Some (Inl _, s) \<Rightarrow> Some (Inl NOT_ENOUGH_DATA, s)
               | Some (Inr lens, s) \<Rightarrow>
                   let len32 = len32_of lens in
                   if len32 < 128 then Some (Inl DECODE_ERROR, s)
                   else if drop_bit ((num_bytes - 1) * 8) len32 = 0 then Some (Inl DECODE_ERROR, s)
                   else read_contents a rd max_len (header @ lens) (unat len32) s))"

end
