(* ===== verification/Pair.thy ===== *)
theory Pair
  imports Bio
begin

text \<open>
  BIO pairs (\<open>crypto/bio/pair.c\<close>): what is written to one end waits in a ring buffer of that end until the
  other end reads it. The BIOs of a pair point at each other.
\<close>

section \<open>The code\<close>

record bio_bio =
  peer :: nat
  closed :: bool
  len :: nat
  offset :: nat
  bsize :: nat
  buf :: "bytes option"
  request :: nat

definition zero_bio_bio :: bio_bio where
  "zero_bio_bio = \<lparr>peer = 0, closed = False, len = 0, offset = 0, bsize = 0, buf = None, request = 0\<rparr>"

abbreviation bb :: "bio_bio bios \<Rightarrow> nat \<Rightarrow> bio_bio" where
  "bb h b \<equiv> ptr (the (h b))"

abbreviation update_bb :: "nat \<Rightarrow> (bio_bio \<Rightarrow> bio_bio) \<Rightarrow> bio_bio bios \<Rightarrow> bio_bio bios" where
  "update_bb b f \<equiv> update_bio b (\<lambda>x. x\<lparr>ptr := f (ptr x)\<rparr>)"

definition bio_new :: "allocator \<Rightarrow> nat \<Rightarrow> bio_bio bios \<Rightarrow> bool \<times> bio_bio bios" where
  "bio_new a b h =
     (case OPENSSL_malloc a 56 of
        None \<Rightarrow> (False, h)
      | Some _ \<Rightarrow> (True, update_bb b (\<lambda>_. zero_bio_bio\<lparr>bsize := 17 * 1024\<rparr>) h))"

definition bio_destroy_pair :: "nat \<Rightarrow> bio_bio bios \<Rightarrow> bio_bio bios" where
  "bio_destroy_pair b h =
     (let peer_bio = peer (bb h b) in
      if peer_bio = 0 then h
      else
        let h = update_bio peer_bio (\<lambda>x. x\<lparr>init := False, ptr := (ptr x)\<lparr>peer := 0, len := 0, offset := 0\<rparr>\<rparr>) h
        in update_bio b (\<lambda>x. x\<lparr>init := False, ptr := (ptr x)\<lparr>peer := 0, len := 0, offset := 0\<rparr>\<rparr>) h)"

definition bio_free :: "nat \<Rightarrow> bio_bio bios \<Rightarrow> bio_bio bios" where
  "bio_free b h = (if peer (bb h b) \<noteq> 0 then bio_destroy_pair b h else h)"

text \<open>The loops that copy out of and into the ring, of one or two rounds.\<close>

partial_function (option) ring_read :: "bio_bio \<Rightarrow> nat \<Rightarrow> bytes \<Rightarrow> (bytes \<times> bio_bio) option" where
  "ring_read peer_b rest out =
     (let chunk = (if size_wrap (offset peer_b + rest) \<le> bsize peer_b then rest else bsize peer_b - offset peer_b);
          out = out @ take chunk (drop (offset peer_b) (the (buf peer_b)));
          len' = len peer_b - chunk;
          offset' =
            (if len' \<noteq> 0 then (if offset peer_b + chunk = bsize peer_b then 0 else offset peer_b + chunk) else 0);
          peer_b = peer_b\<lparr>len := len', offset := offset'\<rparr>;
          rest = rest - chunk in
      if rest \<noteq> 0 then ring_read peer_b rest out else Some (out, peer_b))"

partial_function (option) ring_write :: "bio_bio \<Rightarrow> nat \<Rightarrow> bytes \<Rightarrow> bio_bio option" where
  "ring_write b rest data =
     (let write_offset = size_wrap (offset b + len b);
          write_offset = (if write_offset \<ge> bsize b then write_offset - bsize b else write_offset);
          chunk = (if size_wrap (write_offset + rest) \<le> bsize b then rest else bsize b - write_offset);
          b = b\<lparr>buf := map_option (store_at write_offset (take chunk data)) (buf b), len := len b + chunk\<rparr>;
          rest = rest - chunk in
      if rest \<noteq> 0 then ring_write b rest (drop chunk data) else Some b)"

text \<open>\<open>size_t size = sz\<close>\<close>

definition size_of_int :: "int \<Rightarrow> nat" where
  "size_of_int i = nat (i mod 2 ^ 64)"

definition bio_read :: "nat \<Rightarrow> int \<Rightarrow> bio_bio bios \<Rightarrow> (int \<times> bytes) \<times> bio_bio bios" where
  "bio_read b sz h =
     (let size = size_of_int sz; h = update_bio b BIO_clear_retry_flags h in
      if \<not> init (the (h b)) then ((0, []), h)
      else
        let p = peer (bb h b); h = update_bb p (\<lambda>x. x\<lparr>request := 0\<rparr>) h; peer_b = bb h p in
        if size = 0 then ((0, []), h)
        else if len peer_b = 0 then
          (if closed peer_b then ((0, []), h)
           else
             ((-1, []), update_bb p (\<lambda>x. x\<lparr>request := (if size \<le> bsize x then size else bsize x)\<rparr>)
               (update_bio b BIO_set_retry_read h)))
        else
          let size = (if len peer_b < size then len peer_b else size) in
          (case ring_read peer_b size [] of
             None \<Rightarrow> undefined
           | Some (data, peer_b) \<Rightarrow> ((int size, data), update_bb p (\<lambda>_. peer_b) h)))"

definition bio_write :: "nat \<Rightarrow> bytes \<Rightarrow> int \<Rightarrow> bio_bio bios \<Rightarrow> int \<times> bio_bio bios" where
  "bio_write b data nm h =
     (let num = size_of_int nm; h = update_bio b BIO_clear_retry_flags h in
      if \<not> init (the (h b)) \<or> num = 0 then (0, h)
      else
        let h = update_bb b (\<lambda>x. x\<lparr>request := 0\<rparr>) h in
        if closed (bb h b) then (-1, h)
        else if len (bb h b) = bsize (bb h b) then (-1, update_bio b BIO_set_retry_write h)
        else
          let num = (if num > bsize (bb h b) - len (bb h b) then bsize (bb h b) - len (bb h b) else num) in
          (case ring_write (bb h b) num data of
             None \<Rightarrow> undefined
           | Some x \<Rightarrow> (int num, update_bb b (\<lambda>_. x) h)))"

text \<open>The size asked for is kept when its allocation fails.\<close>

definition make_buf :: "allocator \<Rightarrow> nat \<Rightarrow> bio_bio \<Rightarrow> bool \<times> bio_bio" where
  "make_buf a writebuf_len x =
     (if buf x = None then
        let x = (if writebuf_len \<noteq> 0 then x\<lparr>bsize := writebuf_len\<rparr> else x) in
        (case OPENSSL_malloc a (bsize x) of
           None \<Rightarrow> (False, x)
         | Some f \<Rightarrow> (True, x\<lparr>buf := Some (map f [0..<bsize x]), len := 0, offset := 0\<rparr>))
      else (True, x))"

text \<open>The two rings are allocated one after the other, from what \<open>a1\<close> and \<open>a2\<close> have at those moments.\<close>

definition bio_make_pair ::
  "allocator \<Rightarrow> allocator \<Rightarrow> nat \<Rightarrow> nat \<Rightarrow> nat \<Rightarrow> nat \<Rightarrow> bio_bio bios \<Rightarrow> bool \<times> bio_bio bios" where
  "bio_make_pair a1 a2 bio1 bio2 writebuf1_len writebuf2_len h =
     (if peer (bb h bio1) \<noteq> 0 \<or> peer (bb h bio2) \<noteq> 0 then (False, h)
      else
        (case make_buf a1 writebuf1_len (bb h bio1) of
           (ok1, b1) \<Rightarrow>
             let h = update_bb bio1 (\<lambda>_. b1) h in
             if \<not> ok1 then (False, h)
             else
               (case make_buf a2 writebuf2_len (bb h bio2) of
                  (ok2, b2) \<Rightarrow>
                    let h = update_bb bio2 (\<lambda>_. b2) h in
                    if \<not> ok2 then (False, h)
                    else
                      let h = update_bio bio1
                        (\<lambda>x. x\<lparr>init := True, ptr := (ptr x)\<lparr>peer := bio2, closed := False, request := 0\<rparr>\<rparr>) h
                      in (True, update_bio bio2
                        (\<lambda>x. x\<lparr>init := True, ptr := (ptr x)\<lparr>peer := bio1, closed := False, request := 0\<rparr>\<rparr>) h))))"

abbreviation (input) BIO_C_GET_WRITE_BUF_SIZE :: int where "BIO_C_GET_WRITE_BUF_SIZE \<equiv> 137"
abbreviation (input) BIO_C_GET_WRITE_GUARANTEE :: int where "BIO_C_GET_WRITE_GUARANTEE \<equiv> 140"
abbreviation (input) BIO_C_GET_READ_REQUEST :: int where "BIO_C_GET_READ_REQUEST \<equiv> 141"
abbreviation (input) BIO_C_SHUTDOWN_WR :: int where "BIO_C_SHUTDOWN_WR \<equiv> 142"
abbreviation (input) BIO_C_RESET_READ_REQUEST :: int where "BIO_C_RESET_READ_REQUEST \<equiv> 147"

text \<open>A \<open>size_t\<close> as a \<open>long\<close>.\<close>

definition long_of_size :: "nat \<Rightarrow> int" where
  "long_of_size n = sint (of_nat n :: 64 word)"

definition bio_ctrl :: "nat \<Rightarrow> int \<Rightarrow> int \<Rightarrow> nat \<Rightarrow> bio_bio bios \<Rightarrow> int \<times> bio_bio bios" where
  "bio_ctrl bio cmd num other_bio h =
     (let b = bb h bio in
      if cmd = BIO_C_GET_WRITE_BUF_SIZE then (long_of_size (bsize b), h)
      else if cmd = BIO_C_GET_WRITE_GUARANTEE then
        (if peer b = 0 \<or> closed b then (0, h) else (long_of_size (size_minus (bsize b) (int (len b))), h))
      else if cmd = BIO_C_GET_READ_REQUEST then (long_of_size (request b), h)
      else if cmd = BIO_C_RESET_READ_REQUEST then (1, update_bb bio (\<lambda>x. x\<lparr>request := 0\<rparr>) h)
      else if cmd = BIO_C_SHUTDOWN_WR then (1, update_bb bio (\<lambda>x. x\<lparr>closed := True\<rparr>) h)
      else if cmd = BIO_CTRL_GET_CLOSE then (shutdown (the (h bio)), h)
      else if cmd = BIO_CTRL_SET_CLOSE then (1, update_bio bio (\<lambda>x. x\<lparr>shutdown := int_of_long num\<rparr>) h)
      else if cmd = BIO_CTRL_PENDING then (if peer b \<noteq> 0 then long_of_size (len (bb h (peer b))) else 0, h)
      else if cmd = BIO_CTRL_WPENDING then (if buf b \<noteq> None then long_of_size (len b) else 0, h)
      else if cmd = BIO_CTRL_FLUSH then (1, h)
      else if cmd = BIO_CTRL_EOF then
        (if other_bio \<noteq> 0 then (if len (bb h other_bio) = 0 \<and> closed (bb h other_bio) then 1 else 0) else 1, h)
      else (0, h))"

definition methods_biop :: "allocator \<Rightarrow> bio_bio bio_method" where
  "methods_biop a = \<lparr>type_id = 0x0400 OR 19, bwrite = Some bio_write, bread = Some bio_read, bgets = None,
     ctrl = Some bio_ctrl, create = Some (bio_new a), destroy = Some bio_free\<rparr>"

text \<open>
  The two BIOs are at \<open>addr1\<close> and \<open>addr2\<close>; \<open>m\<close> is the address of \<open>methods_biop\<close>. The call makes up to six
  allocations, and \<open>al n\<close> is the allocator at the moment of the one numbered \<open>n\<close>: 0 and 1 for the first BIO and the
  state its method adds, 2 and 3 for the second, 4 and 5 for the two rings. Any of them may fail on its own. The
  result is \<open>*bio1_p\<close>, \<open>*bio2_p\<close> and the return value.
\<close>

definition BIO_new_bio_pair ::
  "(nat \<Rightarrow> allocator) \<Rightarrow> bio_bio methods \<Rightarrow> nat \<Rightarrow> nat \<Rightarrow> nat \<Rightarrow> nat \<Rightarrow> nat \<Rightarrow> bio_bio bios \<Rightarrow>
   ((nat \<times> nat \<times> bool) \<times> bio_bio bios) option" where
  "BIO_new_bio_pair al M m addr1 addr2 writebuf1_len writebuf2_len h =
     (case BIO_new (al 0) (M(m := methods_biop (al 1))) zero_bio_bio addr1 m h of
        (bio1, h) \<Rightarrow>
          (case BIO_new (al 2) (M(m := methods_biop (al 3))) zero_bio_bio addr2 m h of
             (bio2, h) \<Rightarrow>
               (case (if bio1 = 0 \<or> bio2 = 0 then (False, h)
                      else bio_make_pair (al 4) (al 5) bio1 bio2 writebuf1_len writebuf2_len h) of
                  (True, h) \<Rightarrow> Some ((bio1, bio2, True), h)
                | (False, h) \<Rightarrow>
                    (case BIO_free M bio1 h of
                       None \<Rightarrow> None
                     | Some (_, h) \<Rightarrow>
                         (case BIO_free M bio2 h of
                            None \<Rightarrow> None
                          | Some (_, h) \<Rightarrow> Some ((0, 0, False), h))))))"

definition BIO_ctrl_get_read_request :: "bio_bio methods \<Rightarrow> nat \<Rightarrow> bio_bio bios \<Rightarrow> int \<times> bio_bio bios" where
  "BIO_ctrl_get_read_request M b = BIO_ctrl M b BIO_C_GET_READ_REQUEST 0 0"

definition BIO_ctrl_get_write_guarantee :: "bio_bio methods \<Rightarrow> nat \<Rightarrow> bio_bio bios \<Rightarrow> int \<times> bio_bio bios" where
  "BIO_ctrl_get_write_guarantee M b = BIO_ctrl M b BIO_C_GET_WRITE_GUARANTEE 0 0"

definition BIO_shutdown_wr :: "bio_bio methods \<Rightarrow> nat \<Rightarrow> bio_bio bios \<Rightarrow> int \<times> bio_bio bios" where
  "BIO_shutdown_wr M b = BIO_ctrl M b BIO_C_SHUTDOWN_WR 0 0"

section \<open>Queues of bytes\<close>

text \<open>
  What the ring promises to its users: a write takes as much as there is room for, a read gives out what
  was written first, and both return.
\<close>

locale byte_queue =
  fixes put :: "'s \<Rightarrow> nat \<Rightarrow> bytes \<Rightarrow> 's option"
    and get :: "'s \<Rightarrow> nat \<Rightarrow> bytes \<Rightarrow> (bytes \<times> 's) option"
    and wait :: "'s \<Rightarrow> bytes"
    and capacity :: "'s \<Rightarrow> nat"
    and ok :: "'s \<Rightarrow> bool"
    and other :: "'s \<Rightarrow> 'r"
  assumes put: "ok s \<Longrightarrow> 0 < n \<Longrightarrow> n \<le> length data \<Longrightarrow> length (wait s) + n \<le> capacity s \<Longrightarrow>
      \<exists>s'. put s n data = Some s' \<and> ok s' \<and> wait s' = wait s @ take n data \<and> capacity s' = capacity s \<and> other s' = other s"
    and get: "ok s \<Longrightarrow> 0 < n \<Longrightarrow> n \<le> length (wait s) \<Longrightarrow>
      \<exists>s'. get s n out = Some (out @ take n (wait s), s') \<and> ok s' \<and> wait s' = drop n (wait s) \<and> capacity s' = capacity s \<and>
        other s' = other s"
    and bound: "ok s \<Longrightarrow> length (wait s) \<le> capacity s"
begin

text \<open>As much as fits, and as much as there is.\<close>

lemma put_some:
  assumes "ok s" "0 < n" "n \<le> length data" "length (wait s) \<noteq> capacity s"
  shows "\<exists>s'. put s (min n (capacity s - length (wait s))) data = Some s' \<and> ok s' \<and>
    wait s' = wait s @ take (min n (capacity s - length (wait s))) data \<and> capacity s' = capacity s \<and> other s' = other s"
  using assms bound [OF assms(1)] by (intro put) auto

lemma get_some:
  assumes "ok s" "0 < n" "wait s \<noteq> []"
  shows "\<exists>s'. get s (min n (length (wait s))) [] = Some (take n (wait s), s') \<and> ok s' \<and>
    wait s' = drop n (wait s) \<and> capacity s' = capacity s \<and> other s' = other s"
proof -
  have "take (min n (length (wait s))) (wait s) = take n (wait s)" "drop (min n (length (wait s))) (wait s) = drop n (wait s)"
    by (simp_all add: min_def)
  then show ?thesis using get [OF assms(1), of "min n (length (wait s))" "[]"] assms(2,3) by auto
qed

end

section \<open>The ring\<close>

definition ring_ok :: "bio_bio \<Rightarrow> bool" where
  "ring_ok b \<longleftrightarrow> (\<exists>xs. buf b = Some xs \<and> length xs = bsize b) \<and> 0 < bsize b \<and> bsize b < 2 ^ 63 \<and>
     len b \<le> bsize b \<and> offset b < bsize b"

definition at_ring :: "bio_bio \<Rightarrow> nat \<Rightarrow> u8" where
  "at_ring b i = the (buf b) ! ((offset b + i) mod bsize b)"

definition waiting :: "bio_bio \<Rightarrow> bytes" where
  "waiting b = map (at_ring b) [0..<len b]"

text \<open>Everything but the contents of the ring.\<close>

definition same_end :: "bio_bio \<Rightarrow> bio_bio \<Rightarrow> bool" where
  "same_end b b' \<longleftrightarrow> peer b' = peer b \<and> closed b' = closed b \<and> bsize b' = bsize b \<and> request b' = request b"

lemma length_waiting [simp]: "length (waiting b) = len b"
  by (simp add: waiting_def)

lemma map_shift: "map f [k..<k + n] = map (\<lambda>i. f (k + i)) [0..<n]"
  by (rule nth_equalityI) auto

lemma ring_read_ok:
  "ring_ok b \<Longrightarrow> 0 < n \<Longrightarrow> n \<le> len b \<Longrightarrow>
   \<exists>b'. ring_read b n out = Some (out @ take n (waiting b), b') \<and> ring_ok b' \<and> waiting b' = drop n (waiting b) \<and>
     same_end b b'"
proof (induction n arbitrary: b out rule: less_induct)
  case (less n)
  obtain xs where xs: "buf b = Some xs" "length xs = bsize b" using less.prems(1) by (auto simp: ring_ok_def)
  have off: "offset b < bsize b" "len b \<le> bsize b" "bsize b < 2 ^ 63" using less.prems(1) by (auto simp: ring_ok_def)
  define c where "c = (if offset b + n \<le> bsize b then n else bsize b - offset b)"
  have w: "size_wrap (offset b + n) = offset b + n" using off less.prems(3) by (simp add: size_wrap_def)
  have c: "0 < c" "c \<le> n" "offset b + c \<le> bsize b" using off less.prems(2) by (auto simp: c_def)
  define b1 where "b1 = b\<lparr>len := len b - c,
    offset := (if len b - c \<noteq> 0 then (if offset b + c = bsize b then 0 else offset b + c) else 0)\<rparr>"
  have out: "take c (drop (offset b) xs) = take c (waiting b)"
    using c less.prems(3) off xs by (intro nth_equalityI) (auto simp: waiting_def at_ring_def)
  have b1: "ring_ok b1" "same_end b b1" "len b1 = len b - c"
    using less.prems(1) c by (auto simp: b1_def ring_ok_def same_end_def)
  have "at_ring b1 i = at_ring b (c + i)" if "i < len b - c" for i
  proof -
    have "offset b1 = (offset b + c) mod bsize b" using that c off by (auto simp: b1_def)
    then have "(offset b1 + i) mod bsize b = (offset b + (c + i)) mod bsize b" by (simp add: mod_add_left_eq add.assoc)
    then show ?thesis by (simp add: at_ring_def b1_def)
  qed
  then have wait: "waiting b1 = drop c (waiting b)"
    by (intro nth_equalityI) (auto simp: waiting_def b1(3))
  have step: "ring_read b n out = (if n - c \<noteq> 0 then ring_read b1 (n - c) (out @ take c (waiting b))
      else Some (out @ take c (waiting b), b1))"
    by (subst ring_read.simps) (simp add: w c_def [symmetric] xs(1) out b1_def Let_def)
  show ?case
  proof (cases "n - c = 0")
    case True
    then show ?thesis using step wait b1 c by auto
  next
    case False
    then obtain b' where "ring_read b1 (n - c) (out @ take c (waiting b)) =
        Some ((out @ take c (waiting b)) @ take (n - c) (waiting b1), b')"
      "ring_ok b'" "waiting b' = drop (n - c) (waiting b1)" "same_end b1 b'"
      using less.IH [of "n - c" b1 "out @ take c (waiting b)"] b1 c diff_le_mono [OF less.prems(3), of c] by auto
    moreover have "take c (waiting b) @ take (n - c) (drop c (waiting b)) = take n (waiting b)"
      using c by (simp flip: take_add)
    ultimately show ?thesis using step False wait b1(2) c by (auto simp: same_end_def)
  qed
qed

lemma mod_once: "(x :: nat) < 2 * m \<Longrightarrow> x mod m = (if x < m then x else x - m)"
  by (simp add: mod_if)

lemma ring_write_ok:
  "ring_ok b \<Longrightarrow> 0 < n \<Longrightarrow> len b + n \<le> bsize b \<Longrightarrow> n \<le> length data \<Longrightarrow>
   \<exists>b'. ring_write b n data = Some b' \<and> ring_ok b' \<and> waiting b' = waiting b @ take n data \<and> same_end b b'"
proof (induction n arbitrary: b data rule: less_induct)
  case (less n)
  obtain xs where xs: "buf b = Some xs" "length xs = bsize b" using less.prems(1) by (auto simp: ring_ok_def)
  have off: "offset b < bsize b" "len b < bsize b" "bsize b < 2 ^ 63" using less.prems by (auto simp: ring_ok_def)
  define wo where "wo = (if offset b + len b \<ge> bsize b then offset b + len b - bsize b else offset b + len b)"
  define c where "c = (if wo + n \<le> bsize b then n else bsize b - wo)"
  have wo: "wo < bsize b" using off by (auto simp: wo_def)
  have w: "size_wrap (offset b + len b) = offset b + len b" "size_wrap (wo + n) = wo + n"
    using off wo less.prems(3) by (simp_all add: size_wrap_def)
  have c: "0 < c" "c \<le> n" "wo + c \<le> bsize b" using wo less.prems(2) by (auto simp: c_def)
  define ys where "ys = store_at wo (take c data) xs"
  define b1 where "b1 = b\<lparr>buf := Some ys, len := len b + c\<rparr>"
  have ld: "length (take c data) = c" using c less.prems(4) by simp
  have ys: "length ys = bsize b" "\<And>j. j < bsize b \<Longrightarrow> ys ! j = (if wo \<le> j \<and> j < wo + c then data ! (j - wo) else xs ! j)"
    using c(3) xs(2) ld by (auto simp: ys_def store_at_def nth_append)
  have b1: "ring_ok b1" "same_end b b1" using less.prems c ys(1) by (auto simp: b1_def ring_ok_def same_end_def)
  have "at_ring b1 i = (if i < len b then at_ring b i else data ! (i - len b))" if i: "i < len b + c" for i
  proof -
    have lt: "offset b + i < 2 * bsize b" "offset b + i - bsize b < bsize b" using off i less.prems(3) c by linarith+
    have j: "(offset b + i) mod bsize b < bsize b" using off by simp
    have "wo \<le> (offset b + i) mod bsize b \<and> (offset b + i) mod bsize b < wo + c \<longleftrightarrow> \<not> i < len b"
      "\<not> i < len b \<Longrightarrow> (offset b + i) mod bsize b - wo = i - len b"
      unfolding mod_once [OF lt(1)] wo_def using i c(3) off less.prems(3) c(2)
      by (auto simp: wo_def split: if_split_asm)
    then show ?thesis using ys(2) [OF j] by (auto simp: at_ring_def b1_def xs(1))
  qed
  then have wait: "waiting b1 = waiting b @ take c data"
    using ld by (intro nth_equalityI) (auto simp: waiting_def b1_def nth_append)
  have step: "ring_write b n data = (if n - c \<noteq> 0 then ring_write b1 (n - c) (drop c data) else Some b1)"
    by (subst ring_write.simps) (auto simp: w wo_def [symmetric] c_def xs(1) b1_def ys_def Let_def)
  show ?case
  proof (cases "n - c = 0")
    case True
    then show ?thesis using step wait b1 c by auto
  next
    case False
    have "len b1 + (n - c) \<le> bsize b1" "n - c \<le> length (drop c data)" using less.prems c by (auto simp: b1_def)
    then obtain b' where "ring_write b1 (n - c) (drop c data) = Some b'" "ring_ok b'"
      "waiting b' = waiting b1 @ take (n - c) (drop c data)" "same_end b1 b'"
      using less.IH [of "n - c" b1 "drop c data"] b1 c False by auto
    moreover have "take c data @ take (n - c) (drop c data) = take n data" using c by (simp flip: take_add)
    ultimately show ?thesis using step False wait b1(2) by (auto simp: same_end_def)
  qed
qed

interpretation ring: byte_queue ring_write ring_read waiting bsize ring_ok "\<lambda>b. (peer b, closed b, request b)"
proof
  fix s n data out
  show "\<exists>s'. ring_write s n data = Some s' \<and> ring_ok s' \<and> waiting s' = waiting s @ take n data \<and> bsize s' = bsize s \<and>
      (peer s', closed s', request s') = (peer s, closed s, request s)"
    if "ring_ok s" "0 < n" "n \<le> length data" "length (waiting s) + n \<le> bsize s"
    using ring_write_ok [of s n data] that by (auto simp: same_end_def)
  show "\<exists>s'. ring_read s n out = Some (out @ take n (waiting s), s') \<and> ring_ok s' \<and> waiting s' = drop n (waiting s) \<and>
      bsize s' = bsize s \<and> (peer s', closed s', request s') = (peer s, closed s, request s)"
    if "ring_ok s" "0 < n" "n \<le> length (waiting s)"
    using ring_read_ok [of s n out] that by (auto simp: same_end_def)
  show "length (waiting s) \<le> bsize s" if "ring_ok s" using that by (simp add: ring_ok_def)
qed

section \<open>The two ends\<close>

definition end_ok :: "bio_bio methods \<Rightarrow> bio_bio bios \<Rightarrow> nat \<Rightarrow> nat \<Rightarrow> bool" where
  "end_ok M h b p \<longleftrightarrow> b \<noteq> 0 \<and> bio_meth (the (h b)) \<noteq> 0 \<and> (\<exists>a. the_method M h b = methods_biop a) \<and> init (the (h b)) \<and>
     peer (bb h b) = p \<and> ring_ok (bb h b)"

definition pair_ok :: "bio_bio methods \<Rightarrow> bio_bio bios \<Rightarrow> nat \<Rightarrow> nat \<Rightarrow> bool" where
  "pair_ok M h b p \<longleftrightarrow> b \<noteq> p \<and> end_ok M h b p \<and> end_ok M h p b"

lemma pair_ok_sym: "pair_ok M h b p \<Longrightarrow> pair_ok M h p b"
  by (auto simp: pair_ok_def)

lemma ring_ok_request [simp]: "ring_ok (b\<lparr>request := r\<rparr>) \<longleftrightarrow> ring_ok b"
  by (simp add: ring_ok_def)

lemma ring_ok_closed [simp]: "ring_ok (b\<lparr>closed := r\<rparr>) \<longleftrightarrow> ring_ok b"
  by (simp add: ring_ok_def)

lemma waiting_request [simp]: "waiting (b\<lparr>request := r\<rparr>) = waiting b"
  by (simp add: waiting_def at_ring_def)

lemma waiting_closed [simp]: "waiting (b\<lparr>closed := r\<rparr>) = waiting b"
  by (simp add: waiting_def at_ring_def)

lemma waiting_Nil: "waiting b = [] \<longleftrightarrow> len b = 0"
  by (simp add: waiting_def)

lemma retry_flags [simp]:
  "\<not> BIO_should_retry (BIO_clear_retry_flags x)"
  "BIO_should_retry (BIO_set_retry_read x)" "BIO_should_read (BIO_set_retry_read x)"
  "BIO_should_retry (BIO_set_retry_write x)" "BIO_should_write (BIO_set_retry_write x)"
  by (simp_all add: BIO_should_retry_def BIO_should_read_def BIO_should_write_def BIO_test_flags_def BIO_clear_retry_flags_def
      BIO_set_retry_read_def BIO_set_retry_write_def kRetryFlags_def BIO_FLAGS_RWS_def BIO_FLAGS_READ_def BIO_FLAGS_WRITE_def
      BIO_FLAGS_IO_SPECIAL_def BIO_FLAGS_SHOULD_RETRY_def bit.conj_disj_distrib2 and.assoc)

lemma retry_fields [simp]:
  "init (BIO_clear_retry_flags x) = init x" "ptr (BIO_clear_retry_flags x) = ptr x"
  "bio_meth (BIO_clear_retry_flags x) = bio_meth x"
  "init (BIO_set_retry_read x) = init x" "ptr (BIO_set_retry_read x) = ptr x" "bio_meth (BIO_set_retry_read x) = bio_meth x"
  "init (BIO_set_retry_write x) = init x" "ptr (BIO_set_retry_write x) = ptr x" "bio_meth (BIO_set_retry_write x) = bio_meth x"
  by (simp_all add: BIO_clear_retry_flags_def BIO_set_retry_read_def BIO_set_retry_write_def)

lemma retry_counters [simp]:
  "BIO_should_retry (x\<lparr>num_read := k\<rparr>) = BIO_should_retry x" "BIO_should_retry (x\<lparr>num_write := k\<rparr>) = BIO_should_retry x"
  "BIO_should_retry (x\<lparr>ptr := q\<rparr>) = BIO_should_retry x" "BIO_should_write (x\<lparr>ptr := q\<rparr>) = BIO_should_write x"
  by (simp_all add: BIO_should_retry_def BIO_should_write_def BIO_test_flags_def)

lemma size_of_int_pos: "0 < n \<Longrightarrow> n < 2 ^ 31 \<Longrightarrow> size_of_int n = nat n"
  by (simp add: size_of_int_def)

text \<open>What an operation on one end leaves of the other things.\<close>

definition untouched :: "bio_bio bios \<Rightarrow> bio_bio bios \<Rightarrow> nat \<Rightarrow> bool" where
  "untouched h h' b \<longleftrightarrow> waiting (bb h' b) = waiting (bb h b) \<and> closed (bb h' b) = closed (bb h b) \<and> bsize (bb h' b) = bsize (bb h b)"

lemma BIO_read_pair:
  assumes ok: "pair_ok M h b p" and n: "0 < n" "n < 2 ^ 31"
    and rd: "BIO_read M b n h = ((r, data), h')"
  shows "pair_ok M h' b p \<and> untouched h h' b \<and> closed (bb h' p) = closed (bb h p) \<and> bsize (bb h' p) = bsize (bb h p) \<and>
    data = take (nat n) (waiting (bb h p)) \<and> waiting (bb h' p) = drop (nat n) (waiting (bb h p)) \<and>
    r = (if waiting (bb h p) \<noteq> [] then int (length data) else if closed (bb h p) then 0 else -1) \<and>
    BIO_should_retry (the (h' b)) = (r = -1) \<and> (r = -1 \<longrightarrow> BIO_should_read (the (h' b))) \<and>
    request (bb h' p) = (if r = -1 then min (nat n) (bsize (bb h p)) else 0)"
proof -
  have bp: "b \<noteq> p" and b: "end_ok M h b p" and p: "end_ok M h p b" using ok by (auto simp: pair_ok_def)
  have un: "\<not> unsupported M h b bread" and ini: "init (the (h b))" and fn: "bread (the_method M h b) = Some bio_read"
    using b by (auto simp: end_ok_def unsupported_def methods_biop_def)
  have pe: "peer (bb h b) = p" and ring: "ring_ok (bb h p)" using b p by (auto simp: end_ok_def)
  define pb where "pb = (bb h p)\<lparr>request := 0\<rparr>"
  define x where "x = BIO_clear_retry_flags (the (h b))"
  define h1 where "h1 = (update_bio b (\<lambda>_. x) h)(p \<mapsto> (the (h p))\<lparr>ptr := pb\<rparr>)"
  have h1: "update_bb p (\<lambda>x. x\<lparr>request := 0\<rparr>) (update_bio b BIO_clear_retry_flags h) = h1" "bb h1 p = pb" "the (h1 b) = x"
    using bp by (simp_all add: h1_def x_def pb_def fun_upd_twist)
  have rpb: "ring_ok pb" "waiting pb = waiting (bb h p)" "bsize pb = bsize (bb h p)" "closed pb = closed (bb h p)" "peer pb = b"
    using ring p by (simp_all add: pb_def end_ok_def)
  have read: "bio_read b n h =
      (if waiting pb = [] then
         (if closed pb then ((0, []), h1)
          else ((-1, []), update_bb p (\<lambda>x. x\<lparr>request := min (nat n) (bsize pb)\<rparr>) (update_bio b BIO_set_retry_read h1)))
       else case ring_read pb (min (nat n) (length (waiting pb))) [] of
          None \<Rightarrow> undefined
        | Some (data, pb') \<Rightarrow> ((int (min (nat n) (length (waiting pb))), data), update_bb p (\<lambda>_. pb') h1))"
    using ini n h1 bp pe unfolding bio_read_def Let_def size_of_int_pos [OF n]
    by (auto simp: waiting_Nil min_def x_def split: option.splits)
  show ?thesis
  proof (cases "waiting pb = []")
    case True
    show ?thesis
    proof (cases "closed pb")
      case closed: True
      then have "r = 0" "data = []" "h' = h1"
        using rd un ini n fn read True by (simp_all add: BIO_read_def)
      then show ?thesis using True closed bp b p h1 rpb
        by (simp add: pair_ok_def end_ok_def untouched_def h1_def pb_def x_def)
    next
      case open': False
      then have "r = -1" "data = []"
        "h' = update_bb p (\<lambda>x. x\<lparr>request := min (nat n) (bsize pb)\<rparr>) (update_bio b BIO_set_retry_read h1)"
        using rd un ini n fn read True by (auto simp: BIO_read_def)
      then show ?thesis using True open' bp b p h1 rpb
        by (simp add: pair_ok_def end_ok_def untouched_def h1_def pb_def x_def)
    qed
  next
    case False
    obtain pb' where pb': "ring_read pb (min (nat n) (length (waiting pb))) [] = Some (take (nat n) (waiting pb), pb')"
      "ring_ok pb'" "waiting pb' = drop (nat n) (waiting pb)" "bsize pb' = bsize pb" "peer pb' = peer pb" "closed pb' = closed pb"
      "request pb' = request pb"
      using ring.get_some [OF rpb(1) _ False, of "nat n"] n by auto
    have pos: "0 < min (nat n) (length (waiting pb))" "waiting (bb h p) \<noteq> []" "len (bb h p) \<noteq> 0"
      using False n rpb(2) by (auto simp: waiting_Nil)
    have "r = int (min (nat n) (length (waiting pb)))" "data = take (nat n) (waiting pb)"
      "h' = update_bio b (\<lambda>x. x\<lparr>num_read := num_read x + of_int r\<rparr>) (update_bb p (\<lambda>_. pb') h1)"
      using rd un ini n fn read False pb'(1) pos(1) by (auto simp: BIO_read_def waiting_Nil simp del: length_waiting)
    then show ?thesis using False pos bp b p h1 rpb pb'
      by (simp add: pair_ok_def end_ok_def untouched_def h1_def pb_def x_def min.commute)
  qed
qed

lemma BIO_write_pair:
  assumes ok: "pair_ok M h b p" and n: "0 < n" "n < 2 ^ 31" "nat n \<le> length data"
    and wr: "BIO_write M b data n h = (r, h')"
  shows "pair_ok M h' b p \<and> untouched h h' p \<and> closed (bb h' b) = closed (bb h b) \<and> bsize (bb h' b) = bsize (bb h b) \<and>
    waiting (bb h' b) = waiting (bb h b) @ take (nat r) data \<and>
    r = (if closed (bb h b) \<or> length (waiting (bb h b)) = bsize (bb h b) then -1
         else min n (int (bsize (bb h b) - length (waiting (bb h b))))) \<and>
    BIO_should_retry (the (h' b)) = (r = -1 \<and> \<not> closed (bb h b)) \<and>
    (r = -1 \<and> \<not> closed (bb h b) \<longrightarrow> BIO_should_write (the (h' b))) \<and>
    request (bb h' b) = 0"
proof -
  have bp: "b \<noteq> p" and b: "end_ok M h b p" and p: "end_ok M h p b" using ok by (auto simp: pair_ok_def)
  have un: "\<not> unsupported M h b bwrite" and ini: "init (the (h b))" and fn: "bwrite (the_method M h b) = Some bio_write"
    using b by (auto simp: end_ok_def unsupported_def methods_biop_def)
  define q where "q = (bb h b)\<lparr>request := 0\<rparr>"
  define x where "x = (BIO_clear_retry_flags (the (h b)))\<lparr>ptr := q\<rparr>"
  define h1 where "h1 = h(b \<mapsto> x)"
  have h1: "update_bb b (\<lambda>x. x\<lparr>request := 0\<rparr>) (update_bio b BIO_clear_retry_flags h) = h1" "bb h1 b = q" "the (h1 b) = x"
    by (simp_all add: h1_def x_def q_def)
  have rq: "ring_ok q" "waiting q = waiting (bb h b)" "bsize q = bsize (bb h b)" "closed q = closed (bb h b)" "peer q = p"
    "request q = 0"
    using b by (simp_all add: q_def end_ok_def)
  have le: "len q \<le> bsize q" using rq(1) by (simp add: ring_ok_def)
  have ptr: "ptr x = q" "init x = init (the (h b))" "bio_meth x = bio_meth (the (h b))" by (simp_all add: x_def)
  have wrote: "bio_write b data n h =
      (if closed q then (-1, h1)
       else if len q = bsize q then (-1, update_bio b BIO_set_retry_write h1)
       else case ring_write q (min (nat n) (bsize q - length (waiting q))) data of
          None \<Rightarrow> undefined
        | Some q' \<Rightarrow> (int (min (nat n) (bsize q - length (waiting q))), update_bb b (\<lambda>_. q') h1))"
    using ini n h1 unfolding bio_write_def Let_def size_of_int_pos [OF n(1,2)]
    by (auto simp: min_def split: option.splits)
  show ?thesis
  proof (cases "closed q")
    case True
    then have "r = -1" "h' = h1" using wr un ini n fn wrote by (simp_all add: BIO_write_def)
    then show ?thesis using True bp b p h1 rq ptr
      by (simp add: pair_ok_def end_ok_def untouched_def h1_def) (simp add: x_def)
  next
    case open': False
    show ?thesis
    proof (cases "len q = bsize q")
      case True
      then have "r = -1" "h' = update_bio b BIO_set_retry_write h1"
        using wr un ini n fn wrote open' by (simp_all add: BIO_write_def)
      then show ?thesis using True open' bp b p h1 rq ptr
        by (simp add: pair_ok_def end_ok_def untouched_def h1_def) (simp add: q_def)
    next
      case False
      obtain q' where q': "ring_write q (min (nat n) (bsize q - length (waiting q))) data = Some q'"
        "ring_ok q'" "waiting q' = waiting q @ take (min (nat n) (bsize q - length (waiting q))) data" "bsize q' = bsize q"
        "peer q' = peer q" "closed q' = closed q" "request q' = request q"
        using ring.put_some [OF rq(1), of "nat n" data] False n by auto
      have pos: "0 < min (nat n) (bsize q - length (waiting q))" "len (bb h b) \<noteq> bsize (bb h b)" using False n le by (auto simp: q_def)
      have "r = int (min (nat n) (bsize q - length (waiting q)))"
        "h' = update_bio b (\<lambda>x. x\<lparr>num_write := num_write x + of_int r\<rparr>) (update_bb b (\<lambda>_. q') h1)"
        using wr un ini n fn wrote open' False pos(1) q'(1) by (auto simp: BIO_write_def simp del: length_waiting)
      then have r: "r = int (min (nat n) (bsize (bb h b) - len (bb h b)))"
        and hb: "the (h' b) = x\<lparr>ptr := q', num_write := num_write x + of_int r\<rparr>" "the (h' p) = the (h p)"
        using bp rq(2,3) h1(3) by (simp_all add: h1_def q_def)
      have "pair_ok M h' b p" "waiting (bb h' b) = waiting (bb h b) @ take (nat r) data"
        using b p bp rq q' r ptr by (simp_all add: pair_ok_def end_ok_def hb)
      moreover have "\<not> BIO_should_retry (the (h' b))" by (simp add: hb x_def)
      moreover have rn: "r = min n (int (bsize (bb h b) - len (bb h b)))" "r \<noteq> -1" using n r by auto
      moreover have "request (bb h' b) = 0" "bsize (bb h' b) = bsize (bb h b)" "closed (bb h' b) = closed (bb h b)"
        "untouched h h' p"
        using rq q' by (simp_all add: hb untouched_def)
      ultimately show ?thesis using open' pos(2) rq(4) by simp
    qed
  qed
qed

text \<open>No control of an end touches the bytes in the rings.\<close>

lemma BIO_ctrl_pair:
  assumes ok: "pair_ok M h b p" and ct: "BIO_ctrl M b cmd num arg h = (r, h')"
  shows "pair_ok M h' b p \<and> untouched h h' p \<and> waiting (bb h' b) = waiting (bb h b) \<and> bsize (bb h' b) = bsize (bb h b) \<and>
    closed (bb h' b) = (closed (bb h b) \<or> cmd = BIO_C_SHUTDOWN_WR)"
proof -
  have b: "b \<noteq> 0" "bio_meth (the (h b)) \<noteq> 0" "ctrl (the_method M h b) = Some bio_ctrl"
    using ok by (auto simp: pair_ok_def end_ok_def methods_biop_def)
  then have "bio_ctrl b cmd num arg h = (r, h')" using ct by (simp add: BIO_ctrl_def)
  then have "h' = h \<and> cmd \<noteq> BIO_C_SHUTDOWN_WR \<or> h' = update_bb b (\<lambda>x. x\<lparr>request := 0\<rparr>) h \<and> cmd \<noteq> BIO_C_SHUTDOWN_WR \<or>
      h' = update_bio b (\<lambda>x. x\<lparr>shutdown := int_of_long num\<rparr>) h \<and> cmd \<noteq> BIO_C_SHUTDOWN_WR \<or>
      h' = update_bb b (\<lambda>x. x\<lparr>closed := True\<rparr>) h \<and> cmd = BIO_C_SHUTDOWN_WR"
    unfolding bio_ctrl_def Let_def by (simp split: if_split_asm)
  then show ?thesis using ok by (elim disjE conjE) (simp_all add: pair_ok_def end_ok_def untouched_def)
qed

lemma BIO_shutdown_wr_pair:
  assumes "pair_ok M h b p" "BIO_shutdown_wr M b h = (r, h')"
  shows "pair_ok M h' b p \<and> untouched h h' p \<and> waiting (bb h' b) = waiting (bb h b) \<and> closed (bb h' b)"
  using BIO_ctrl_pair [OF assms(1) assms(2) [unfolded BIO_shutdown_wr_def]] by simp

lemma long_of_size: "n < 2 ^ 63 \<Longrightarrow> long_of_size n = int n"
  by (simp add: long_of_size_def signed_of_nat signed_take_bit_int_eq_self)

lemma write_guarantee:
  assumes "pair_ok M h b p"
  shows "BIO_ctrl_get_write_guarantee M b h =
    (if closed (bb h b) then 0 else int (bsize (bb h b) - length (waiting (bb h b))), h)"
proof -
  have b: "b \<noteq> 0" "bio_meth (the (h b)) \<noteq> 0" "ctrl (the_method M h b) = Some bio_ctrl" "peer (bb h b) \<noteq> 0" "ring_ok (bb h b)"
    using assms by (auto simp: pair_ok_def end_ok_def methods_biop_def)
  then have "size_minus (bsize (bb h b)) (int (len (bb h b))) = bsize (bb h b) - len (bb h b)"
    "bsize (bb h b) - len (bb h b) < 2 ^ 63"
    by (auto simp: size_minus_def ring_ok_def simp flip: of_nat_diff)
  then show ?thesis using b by (simp add: BIO_ctrl_get_write_guarantee_def BIO_ctrl_def bio_ctrl_def Let_def long_of_size)
qed

lemma read_request:
  assumes "pair_ok M h b p" "request (bb h b) < 2 ^ 63"
  shows "BIO_ctrl_get_read_request M b h = (int (request (bb h b)), h)"
proof -
  have b: "b \<noteq> 0" "bio_meth (the (h b)) \<noteq> 0" "ctrl (the_method M h b) = Some bio_ctrl"
    using assms by (auto simp: pair_ok_def end_ok_def methods_biop_def)
  then show ?thesis using assms(2)
    by (simp add: BIO_ctrl_get_read_request_def BIO_ctrl_def bio_ctrl_def Let_def long_of_size)
qed

end
