(* ===== verification/Pair_Runs.thy ===== *)
theory Pair_Runs
  imports Pair
begin

text \<open>
  Making a pair, and what holds in every state that reads, writes and controls at its two ends lead to.
\<close>

section \<open>Making a pair\<close>

text \<open>The size of the ring that is made for an argument \<open>writebuf_len\<close>.\<close>

abbreviation ring_size :: "nat \<Rightarrow> nat" where
  "ring_size n \<equiv> (if n = 0 then 17 * 1024 else n)"

lemma make_buf_result:
  assumes "buf x = None" "0 < bsize x" "bsize x < 2 ^ 63" "n < 2 ^ 63" and mk: "make_buf a n x = (ok, y)"
  shows "ok = (OPENSSL_malloc a (if n = 0 then bsize x else n) \<noteq> None)" "peer y = peer x"
    "ok \<Longrightarrow> ring_ok y \<and> waiting y = [] \<and> bsize y = (if n = 0 then bsize x else n)"
  using assms by (auto simp: make_buf_def Let_def ring_ok_def waiting_def split: option.split_asm if_split_asm)

definition fresh_bio :: "nat \<Rightarrow> bio_bio bio" where
  "fresh_bio m = \<lparr>bio_meth = m, init = False, shutdown = 1, flags = 0, retry_reason = 0, bio_num = 0, references = 1,
     ptr = zero_bio_bio\<lparr>bsize := 17 * 1024\<rparr>, next_bio = 0, num_read = 0, num_write = 0\<rparr>"

lemma BIO_new_pair_end:
  assumes "M m = methods_biop a'" "h addr = None"
  shows "BIO_new a M zero_bio_bio addr m h =
    (if OPENSSL_malloc a 64 = None \<or> OPENSSL_malloc a' 56 = None then (0, h) else (addr, h(addr \<mapsto> fresh_bio m)))"
proof -
  have "h(addr := None) = h" using assms(2) by auto
  then show ?thesis using assms
    by (auto simp: BIO_new_def methods_biop_def bio_new_def Let_def fresh_bio_def split: option.splits)
qed

lemma BIO_free_NULL [simp]: "BIO_free M 0 h = Some (1, h)"
  by (subst BIO_free.simps) simp

lemma BIO_free_end:
  assumes "M (bio_meth x) = methods_biop a" "b \<noteq> 0" "references x = 1" "next_bio x = 0" "peer (ptr x) = 0" "bio_meth x \<noteq> 0"
  shows "BIO_free M b (h(b \<mapsto> x)) = Some (1, h(b := None))"
  using assms by (subst BIO_free.simps)
    (simp add: CRYPTO_refcount_dec_and_test_zero_def BIO_pop_def unsupported_def methods_biop_def bio_free_def Let_def)

lemma BIO_free_fresh:
  "M m = methods_biop a \<Longrightarrow> b \<noteq> 0 \<Longrightarrow> m \<noteq> 0 \<Longrightarrow> BIO_free M b (h(b \<mapsto> fresh_bio m)) = Some (1, h(b := None))"
  by (rule BIO_free_end) (simp_all add: fresh_bio_def zero_bio_bio_def)

lemma bio_make_pair_fresh:
  assumes "b1 \<noteq> b2" "b1 \<noteq> 0" "b2 \<noteq> 0" "m \<noteq> 0" "M m = methods_biop a" "n1 < 2 ^ 63" "n2 < 2 ^ 63"
    and h: "h b1 = Some (fresh_bio m)" "h b2 = Some (fresh_bio m)"
    and mk: "bio_make_pair a1 a2 b1 b2 n1 n2 h = (ok, h')"
  shows "ok = (OPENSSL_malloc a1 (ring_size n1) \<noteq> None \<and> OPENSSL_malloc a2 (ring_size n2) \<noteq> None) \<and>
    (if ok then pair_ok M h' b1 b2 \<and> (\<forall>e \<in> {b1, b2}. waiting (bb h' e) = [] \<and> \<not> closed (bb h' e)) \<and>
      bsize (bb h' b1) = ring_size n1 \<and> bsize (bb h' b2) = ring_size n2 \<and>
      (\<forall>c. c \<noteq> b1 \<longrightarrow> c \<noteq> b2 \<longrightarrow> h' c = h c)
    else \<exists>x y. h' = h(b1 \<mapsto> x, b2 \<mapsto> y) \<and> (\<forall>z \<in> {x, y}. bio_meth z = m \<and> references z = 1 \<and> next_bio z = 0 \<and> peer (ptr z) = 0))"
proof -
  define z where "z = zero_bio_bio\<lparr>bsize := 17 * 1024\<rparr>"
  have z: "buf z = None" "0 < bsize z" "bsize z < 2 ^ 63" "bsize z = 17 * 1024" "peer z = 0"
    by (simp_all add: z_def zero_bio_bio_def)
  have bb: "bb h b1 = z" "bb h b2 = z" using h by (simp_all add: fresh_bio_def z_def)
  obtain ok1 y1 where m1: "make_buf a1 n1 z = (ok1, y1)" by fastforce
  obtain ok2 y2 where m2: "make_buf a2 n2 z = (ok2, y2)" by fastforce
  note y1 = make_buf_result [OF z(1-3) assms(6) m1] and y2 = make_buf_result [OF z(1-3) assms(7) m2]
  define e where "e y = (fresh_bio m)\<lparr>ptr := y\<rparr>" for y
  have e: "bio_meth (e y) = m" "references (e y) = 1" "next_bio (e y) = 0" "ptr (e y) = y" for y
    by (simp_all add: e_def fresh_bio_def)
  define live where "live y = (fresh_bio m)\<lparr>init := True, ptr := y\<rparr>" for y
  have live: "bio_meth (live y) = m" "init (live y)" "ptr (live y) = y" for y
    by (simp_all add: live_def fresh_bio_def)
  have "fresh_bio m = e z" by (simp add: e_def fresh_bio_def z_def)
  then have g: "h = h(b2 \<mapsto> e z)" using h(2) by auto
  have mp: "(ok, h') =
      (if \<not> ok1 then (False, h(b1 \<mapsto> e y1))
       else if \<not> ok2 then (False, h(b1 \<mapsto> e y1, b2 \<mapsto> e y2))
       else (True, h(b1 \<mapsto> live (y1\<lparr>peer := b2, closed := False, request := 0\<rparr>),
         b2 \<mapsto> live (y2\<lparr>peer := b1, closed := False, request := 0\<rparr>))))"
    using mk bb z(5) m1 m2 assms(1) h by (auto simp: bio_make_pair_def Let_def e_def live_def fun_upd_twist)
  have ok: "ok = (OPENSSL_malloc a1 (ring_size n1) \<noteq> None \<and> OPENSSL_malloc a2 (ring_size n2) \<noteq> None)"
    using mp y1(1) y2(1) z(4) by (auto split: if_split_asm)
  show ?thesis
  proof (cases ok)
    case True
    then have "ok1" "ok2" and
      h': "h' = h(b1 \<mapsto> live (y1\<lparr>peer := b2, closed := False, request := 0\<rparr>),
         b2 \<mapsto> live (y2\<lparr>peer := b1, closed := False, request := 0\<rparr>))"
      using mp by (simp_all split: if_split_asm)
    moreover have "ring_ok (y\<lparr>peer := q\<rparr>) = ring_ok y" "waiting (y\<lparr>peer := q\<rparr>) = waiting y"
      "ring_ok (y\<lparr>closed := c\<rparr>) = ring_ok y" "waiting (y\<lparr>closed := c\<rparr>) = waiting y"
      "ring_ok (y\<lparr>request := r\<rparr>) = ring_ok y" "waiting (y\<lparr>request := r\<rparr>) = waiting y" for y q c r
      by (simp_all add: ring_ok_def waiting_def at_ring_def)
    ultimately show ?thesis using ok y1(3) y2(3) assms(1-5) z True live
      by (auto simp: pair_ok_def end_ok_def)
  next
    case False
    have "h(b1 \<mapsto> e y1) = h(b1 \<mapsto> e y1, b2 \<mapsto> e z)" using g assms(1) by (metis fun_upd_twist)
    then have "h' = h(b1 \<mapsto> e y1, b2 \<mapsto> e z) \<or> h' = h(b1 \<mapsto> e y1, b2 \<mapsto> e y2)"
      using mp False by (auto split: if_split_asm)
    then have "\<exists>x y. h' = h(b1 \<mapsto> x, b2 \<mapsto> y) \<and>
        (\<forall>z \<in> {x, y}. bio_meth z = m \<and> references z = 1 \<and> next_bio z = 0 \<and> peer (ptr z) = 0)"
      using e y1(2) y2(2) z(5) by (elim disjE; intro exI conjI; (assumption)?) auto
    then show ?thesis unfolding if_not_P [OF False] using ok by blast
  qed
qed

text \<open>The six allocations of a pair.\<close>

definition pair_allocations :: "nat \<Rightarrow> nat \<Rightarrow> (nat \<times> nat) list" where
  "pair_allocations n1 n2 = [(0, 64), (1, 56), (2, 64), (3, 56), (4, ring_size n1), (5, ring_size n2)]"

lemma new_pair_cases:
  assumes "b1 \<noteq> b2" "b1 \<noteq> 0" "b2 \<noteq> 0" "m \<noteq> 0" "M m = methods_biop a" "n1 < 2 ^ 63" "n2 < 2 ^ 63" "h b1 = None" "h b2 = None"
    and g: "g = h(b1 \<mapsto> fresh_bio m, b2 \<mapsto> fresh_bio m)"
  shows "if OPENSSL_malloc (al 0) 64 = None \<or> OPENSSL_malloc (al 1) 56 = None \<or>
      OPENSSL_malloc (al 2) 64 = None \<or> OPENSSL_malloc (al 3) 56 = None
    then BIO_new_bio_pair al M m b1 b2 n1 n2 h = Some ((0, 0, False), h)
    else BIO_new_bio_pair al M m b1 b2 n1 n2 h =
      (case bio_make_pair (al 4) (al 5) b1 b2 n1 n2 g of
         (True, h') \<Rightarrow> Some ((b1, b2, True), h')
       | (False, h') \<Rightarrow>
           (case BIO_free M b1 h' of None \<Rightarrow> None
            | Some (_, h') \<Rightarrow> (case BIO_free M b2 h' of None \<Rightarrow> None | Some (_, h') \<Rightarrow> Some ((0, 0, False), h'))))"
proof -
  have gone: "h(b1 := None) = h" "h(b2 := None) = h" using assms(8,9) by auto
  define k1 where "k1 = (OPENSSL_malloc (al 0) 64 \<noteq> None \<and> OPENSSL_malloc (al 1) 56 \<noteq> None)"
  define k2 where "k2 = (OPENSSL_malloc (al 2) 64 \<noteq> None \<and> OPENSSL_malloc (al 3) 56 \<noteq> None)"
  have new1: "BIO_new (al 0) (M(m := methods_biop (al 1))) zero_bio_bio b1 m h =
      (if k1 then (b1, h(b1 \<mapsto> fresh_bio m)) else (0, h))"
    by (subst BIO_new_pair_end [of _ _ "al 1"]) (auto simp: k1_def assms(8))
  have new2: "f b2 = None \<Longrightarrow> BIO_new (al 2) (M(m := methods_biop (al 3))) zero_bio_bio b2 m f =
      (if k2 then (b2, f(b2 \<mapsto> fresh_bio m)) else (0, f))" for f
    by (subst BIO_new_pair_end [of _ _ "al 3"]) (auto simp: k2_def)
  have new2': "BIO_new (al 2) (M(m := methods_biop (al 3))) zero_bio_bio b2 m h = (if k2 then (b2, h(b2 \<mapsto> fresh_bio m)) else (0, h))"
    "BIO_new (al 2) (M(m := methods_biop (al 3))) zero_bio_bio b2 m (h(b1 \<mapsto> fresh_bio m)) = (if k2 then (b2, g) else (b1 - b1, h(b1 \<mapsto> fresh_bio m)))"
    using new2 assms(1,9) by (simp_all add: g)
  have free: "BIO_free M b1 (h(b1 \<mapsto> fresh_bio m)) = Some (1, h)" "BIO_free M b2 (h(b2 \<mapsto> fresh_bio m)) = Some (1, h)"
    using BIO_free_fresh [of M m a, OF assms(5) _ assms(4)] assms(2,3) gone by simp_all
  show ?thesis
    unfolding BIO_new_bio_pair_def new1 using new2' free assms(2,3) k1_def k2_def
    by (cases k1; cases k2) (auto split: prod.split bool.split)
qed

lemma new_pair_result:
  assumes "b1 \<noteq> b2" "b1 \<noteq> 0" "b2 \<noteq> 0" "m \<noteq> 0" "M m = methods_biop a" "n1 < 2 ^ 63" "n2 < 2 ^ 63" "h b1 = None" "h b2 = None"
  shows "\<exists>ok h'. BIO_new_bio_pair al M m b1 b2 n1 n2 h = Some ((if ok then b1 else 0, if ok then b2 else 0, ok), h') \<and>
    ok = (\<forall>(i, n) \<in> set (pair_allocations n1 n2). OPENSSL_malloc (al i) n \<noteq> None) \<and>
    (if ok then pair_ok M h' b1 b2 \<and> (\<forall>e \<in> {b1, b2}. waiting (bb h' e) = [] \<and> \<not> closed (bb h' e)) \<and>
       bsize (bb h' b1) = ring_size n1 \<and> bsize (bb h' b2) = ring_size n2 \<and> (\<forall>c. c \<noteq> b1 \<longrightarrow> c \<noteq> b2 \<longrightarrow> h' c = h c)
     else h' = h)"
proof -
  define g where "g = h(b1 \<mapsto> fresh_bio m, b2 \<mapsto> fresh_bio m)"
  note new = new_pair_cases [where h = h and M = M and m = m, OF assms g_def, of al]
  obtain ok h' where mk: "bio_make_pair (al 4) (al 5) b1 b2 n1 n2 g = (ok, h')" by fastforce
  have g12: "g b1 = Some (fresh_bio m)" "g b2 = Some (fresh_bio m)" using assms(1) by (simp_all add: g_def)
  note res = bio_make_pair_fresh [where a = a and M = M and m = m, OF assms(1-7) g12 mk]
  show ?thesis
  proof (cases "OPENSSL_malloc (al 0) 64 = None \<or> OPENSSL_malloc (al 1) 56 = None \<or>
      OPENSSL_malloc (al 2) 64 = None \<or> OPENSSL_malloc (al 3) 56 = None")
    case True
    then have "BIO_new_bio_pair al M m b1 b2 n1 n2 h = Some ((0, 0, False), h)" using new by simp
    then show ?thesis using True by (intro exI [of _ False] exI [of _ h]) (auto simp: pair_allocations_def)
  next
    case made: False
    show ?thesis
    proof (cases ok)
      case True
      then have "BIO_new_bio_pair al M m b1 b2 n1 n2 h = Some ((b1, b2, True), h')" using new made mk by simp
      then show ?thesis using made res True
        by (intro exI [of _ True] exI [of _ h']) (auto simp: pair_allocations_def g_def)
    next
      case notok: False
      then obtain x y where h': "h' = g(b1 \<mapsto> x, b2 \<mapsto> y)" and
        ends: "\<forall>z \<in> {x, y}. bio_meth z = m \<and> references z = 1 \<and> next_bio z = 0 \<and> peer (ptr z) = 0"
        using conjunct2 [OF res] unfolding if_not_P [OF notok] by blast
      have "h' = (h(b2 \<mapsto> y))(b1 \<mapsto> x)" using assms(1) by (auto simp: h' g_def fun_eq_iff)
      then have "BIO_free M b1 h' = Some (1, (h(b2 \<mapsto> y))(b1 := None))"
        using ends assms(2,4,5) by (simp add: BIO_free_end [of M x a])
      moreover have "(h(b2 \<mapsto> y))(b1 := None) = h(b2 \<mapsto> y)" "h(b2 := None) = h" using assms(1,8,9) by (auto simp: fun_eq_iff)
      moreover have "BIO_free M b2 (h(b2 \<mapsto> y)) = Some (1, h(b2 := None))"
        using ends assms(3,4,5) by (simp add: BIO_free_end [of M y a])
      ultimately have "BIO_new_bio_pair al M m b1 b2 n1 n2 h = Some ((0, 0, False), h)" using new made mk notok by simp
      then show ?thesis using made res notok
        by (intro exI [of _ False] exI [of _ h]) (auto simp: pair_allocations_def)
    qed
  qed
qed

text \<open>C29: \<open>BIO_new_bio_pair\<close> always returns, and makes either a whole pair or nothing: when all six allocations
  succeed, the two BIOs point at each other, with empty open rings of the sizes asked for (17 KiB for 0); when
  any one of them fails, whatever the others do, both results are NULL and everything that had been made is
  freed again, a first BIO without the second one included.
\<close>

theorem BIO_new_bio_pair_all_or_nothing:
  assumes "b1 \<noteq> b2" "b1 \<noteq> 0" "b2 \<noteq> 0" "m \<noteq> 0" "M m = methods_biop a" "n1 < 2 ^ 63" "n2 < 2 ^ 63" "h b1 = None" "h b2 = None"
  shows "\<exists>ok h'. BIO_new_bio_pair al M m b1 b2 n1 n2 h = Some ((if ok then b1 else 0, if ok then b2 else 0, ok), h') \<and>
    ok = (\<forall>(i, n) \<in> set (pair_allocations n1 n2). OPENSSL_malloc (al i) n \<noteq> None) \<and>
    (if ok then pair_ok M h' b1 b2 \<and> (\<forall>e \<in> {b1, b2}. waiting (bb h' e) = [] \<and> \<not> closed (bb h' e)) \<and>
       bsize (bb h' b1) = ring_size n1 \<and> bsize (bb h' b2) = ring_size n2 \<and> (\<forall>c. c \<noteq> b1 \<longrightarrow> c \<noteq> b2 \<longrightarrow> h' c = h c)
     else h' = h)"
  using assms by (rule new_pair_result [where a = a and M = M and m = m and h = h])

text \<open>An allocator that has nothing left.\<close>

definition exhausted :: allocator where
  "exhausted = plenty\<lparr>libc_malloc := (\<lambda>n. False)\<rparr>"

theorem BIO_new_bio_pair_all_or_nothing_witness:
  "(\<exists>h'. BIO_new_bio_pair (\<lambda>_. plenty) (\<lambda>_. methods_biop plenty) 1 1 2 200 0 Map.empty = Some ((1, 2, True), h') \<and>
      pair_ok (\<lambda>_. methods_biop plenty) h' 1 2 \<and> bsize (bb h' 1) = 200 \<and> bsize (bb h' 2) = 17408) \<and>
   BIO_new_bio_pair ((\<lambda>_. plenty)(2 := exhausted)) (\<lambda>_. methods_biop plenty) 1 1 2 200 0 Map.empty = Some ((0, 0, False), Map.empty)"
proof -
  have "\<forall>n \<in> {64, 56, 200, 17408}. OPENSSL_malloc plenty n \<noteq> None" "OPENSSL_malloc exhausted 64 = None"
    by (auto simp: OPENSSL_malloc_def plenty_def exhausted_def OPENSSL_MALLOC_PREFIX_def size_wrap_def)
  then show ?thesis
    using BIO_new_bio_pair_all_or_nothing [of 1 2 1 "\<lambda>_. methods_biop plenty" plenty 200 0 Map.empty "\<lambda>_. plenty"]
      BIO_new_bio_pair_all_or_nothing [of 1 2 1 "\<lambda>_. methods_biop plenty" plenty 200 0 Map.empty "(\<lambda>_. plenty)(2 := exhausted)"]
    by (auto simp: pair_allocations_def)
qed

section \<open>Runs\<close>

text \<open>
  The states a new pair can get into, with the bytes that writes at each end have taken and those that reads at
  each end have handed out. Both ends may be read, written and controlled in any order.
\<close>

inductive pair_run ::
  "bio_bio methods \<Rightarrow> nat \<Rightarrow> nat \<Rightarrow> bio_bio bios \<Rightarrow> (nat \<Rightarrow> bytes) \<Rightarrow> (nat \<Rightarrow> bytes) \<Rightarrow> bool" for M b1 b2 where
  start: "\<lbrakk>BIO_new_bio_pair al M m b1 b2 n1 n2 h0 = Some ((b1, b2, True), h); b1 \<noteq> b2; b1 \<noteq> 0; b2 \<noteq> 0; m \<noteq> 0;
    M m = methods_biop a; n1 < 2 ^ 63; n2 < 2 ^ 63; h0 b1 = None; h0 b2 = None\<rbrakk> \<Longrightarrow> pair_run M b1 b2 h (\<lambda>_. []) (\<lambda>_. [])"
| writing: "\<lbrakk>pair_run M b1 b2 h w r; e \<in> {b1, b2}; n < 2 ^ 31; nat n \<le> length data; BIO_write M e data n h = (ret, h')\<rbrakk> \<Longrightarrow>
    pair_run M b1 b2 h' (w(e := w e @ take (nat ret) data)) r"
| reading: "\<lbrakk>pair_run M b1 b2 h w r; e \<in> {b1, b2}; n < 2 ^ 31; BIO_read M e n h = ((ret, data), h')\<rbrakk> \<Longrightarrow>
    pair_run M b1 b2 h' w (r(e := r e @ take (nat ret) data))"
| control: "\<lbrakk>pair_run M b1 b2 h w r; e \<in> {b1, b2}; BIO_ctrl M e cmd num arg h = (ret, h')\<rbrakk> \<Longrightarrow> pair_run M b1 b2 h' w r"

definition flows :: "bio_bio methods \<Rightarrow> bio_bio bios \<Rightarrow> (nat \<Rightarrow> bytes) \<Rightarrow> (nat \<Rightarrow> bytes) \<Rightarrow> nat \<Rightarrow> nat \<Rightarrow> bool" where
  "flows M h w r b p \<longleftrightarrow> pair_ok M h b p \<and> w b = r p @ waiting (bb h b) \<and> w p = r b @ waiting (bb h p)"

lemma flows_sym: "flows M h w r b p \<Longrightarrow> flows M h w r p b"
  by (auto simp: flows_def pair_ok_sym)

lemma flows_write:
  assumes f: "flows M h w r b p" and n: "n < 2 ^ 31" "nat n \<le> length data" and wr: "BIO_write M b data n h = (ret, h')"
  shows "flows M h' (w(b := w b @ take (nat ret) data)) r b p"
proof (cases "0 < n")
  case True
  then show ?thesis using f BIO_write_pair [OF _ True n wr, of p] by (auto simp: flows_def untouched_def pair_ok_def)
next
  case False
  then have "ret \<le> 0" "h' = h" using wr by (auto simp: BIO_write_def split: if_split_asm)
  then show ?thesis using f by (simp add: flows_def)
qed

lemma flows_read:
  assumes f: "flows M h w r b p" and n: "n < 2 ^ 31" and rd: "BIO_read M b n h = ((ret, data), h')"
  shows "flows M h' w (r(b := r b @ take (nat ret) data)) b p"
proof (cases "0 < n")
  case True
  have ok: "pair_ok M h b p" "b \<noteq> p" using f by (simp_all add: flows_def pair_ok_def)
  note 1 = BIO_read_pair [OF ok(1) True n rd]
  then have "ret = int (length data) \<or> data = []" by (metis take_Nil)
  then have "take (nat ret) data = data" by auto
  then show ?thesis using f 1 ok(2) by (auto simp: flows_def untouched_def simp del: length_waiting)
next
  case False
  then have "ret \<le> 0" "h' = h" using rd by (auto simp: BIO_read_def split: if_split_asm)
  then show ?thesis using f by (simp add: flows_def)
qed

lemma flows_ctrl: "flows M h w r b p \<Longrightarrow> BIO_ctrl M b cmd num arg h = (ret, h') \<Longrightarrow> flows M h' w r b p"
  using BIO_ctrl_pair by (fastforce simp: flows_def untouched_def)

lemma run_flows: "pair_run M b1 b2 h w r \<Longrightarrow> flows M h w r b1 b2"
proof (induction rule: pair_run.induct)
  case (start al m n1 n2 h0 h a)
  then obtain ok h' where "BIO_new_bio_pair al M m b1 b2 n1 n2 h0 = Some ((if ok then b1 else 0, if ok then b2 else 0, ok), h')"
    "ok \<Longrightarrow> pair_ok M h' b1 b2 \<and> (\<forall>e \<in> {b1, b2}. waiting (bb h' e) = [])"
    using new_pair_result [of b1 b2 m M a n1 n2 h0 al] by (smt (verit, best))
  then show ?case using start(1) by (auto simp: flows_def)
next
  case (writing h w r e n data ret h')
  then show ?case using flows_write flows_sym by (metis insertE singletonD)
next
  case (reading h w r e n ret data h')
  then show ?case using flows_read flows_sym by (metis insertE singletonD)
next
  case (control h w r e cmd num arg ret h')
  then show ?case using flows_ctrl flows_sym by (metis insertE singletonD)
qed

lemma run_end:
  assumes "pair_run M b1 b2 h w r" "(e, p) \<in> {(b1, b2), (b2, b1)}"
  shows "pair_ok M h e p" "waiting (bb h e) = drop (length (r p)) (w e)" "waiting (bb h p) = drop (length (r e)) (w p)"
  using run_flows [OF assms(1)] assms(2) by (auto simp: flows_def dest: pair_ok_sym)

text \<open>A run: a ring of two bytes takes two of the three bytes that are written, then one byte is read.\<close>

definition demo_methods :: "bio_bio methods" where
  "demo_methods = (\<lambda>_. methods_biop plenty)"

lemma demo_run:
  "\<exists>h. pair_run demo_methods 1 2 h ((\<lambda>_. [])(1 := [7, 8])) ((\<lambda>_. [])(2 := [7])) \<and> \<not> closed (bb h 2) \<and> bsize (bb h 2) = 17408"
proof -
  obtain h where h: "BIO_new_bio_pair (\<lambda>_. plenty) demo_methods 1 1 2 2 0 Map.empty = Some ((1, 2, True), h)"
    "pair_ok demo_methods h 1 2" "waiting (bb h 1) = []" "\<not> closed (bb h 1)" "bsize (bb h 1) = 2"
    "\<not> closed (bb h 2)" "bsize (bb h 2) = 17408"
    using new_pair_result [of 1 2 1 demo_methods plenty 2 0 Map.empty "\<lambda>_. plenty"] plentiful_plenty
    by (auto simp: demo_methods_def plentiful_def pair_allocations_def)
  have 0: "pair_run demo_methods 1 2 h (\<lambda>_. []) (\<lambda>_. [])"
    by (rule pair_run.start [OF h(1)]) (simp_all add: demo_methods_def)
  obtain ret h1 where w: "BIO_write demo_methods 1 [7, 8, 9] 3 h = (ret, h1)" by fastforce
  note 1 = BIO_write_pair [OF h(2) _ _ _ w]
  then have w1: "ret = 2" "waiting (bb h1 1) = [7, 8]" "pair_ok demo_methods h1 1 2" "\<not> closed (bb h1 2)" "bsize (bb h1 2) = 17408"
    using h(3-7) by (simp_all add: waiting_Nil untouched_def)
  have run1: "pair_run demo_methods 1 2 h1 ((\<lambda>_. [])(1 := [7, 8])) (\<lambda>_. [])"
    using pair_run.writing [OF 0 _ _ _ w] w1(1) by simp
  obtain ret2 data h2 where r: "BIO_read demo_methods 2 1 h1 = ((ret2, data), h2)" by (metis prod.exhaust)
  note 2 = BIO_read_pair [OF pair_ok_sym [OF w1(3)] _ _ r]
  then have r1: "ret2 = 1" "data = [7]" "\<not> closed (bb h2 2)" "bsize (bb h2 2) = 17408"
    using w1 by (simp_all add: untouched_def)
  have "pair_run demo_methods 1 2 h2 ((\<lambda>_. [])(1 := [7, 8])) ((\<lambda>_. [])(2 := [7]))"
    using pair_run.reading [OF run1 _ _ r] r1 by simp
  then show ?thesis using r1 by blast
qed

text \<open>C30: In every run, whatever is written, read and controlled at the two ends in any order, the bytes read at one
  end are the first of those the other end's writes took, in order, none lost or repeated; the rest waits in
  the ring, and never exceeds its size.
\<close>

theorem pair_fifo:
  assumes "pair_run M b1 b2 h w r"
  shows "w b1 = r b2 @ waiting (bb h b1) \<and> w b2 = r b1 @ waiting (bb h b2) \<and>
    length (w b1) - length (r b2) \<le> bsize (bb h b1) \<and> length (w b2) - length (r b1) \<le> bsize (bb h b2)"
  using run_flows [OF assms] by (simp add: flows_def pair_ok_def end_ok_def ring_ok_def)

theorem pair_fifo_witness: "\<exists>h. waiting (bb h 1) = [8] \<and> pair_run demo_methods 1 2 h ((\<lambda>_. [])(1 := [7, 8])) ((\<lambda>_. [])(2 := [7]))"
proof -
  obtain h where run: "pair_run demo_methods 1 2 h ((\<lambda>_. [])(1 := [7, 8])) ((\<lambda>_. [])(2 := [7]))"
    using demo_run by blast
  then show ?thesis using pair_fifo [OF run] by auto
qed

text \<open>C31: The results of reads and writes at any point of a run. A write takes what there is room for, or fails with -1:
  for good when writing has been shut down, else with the flags that say to try again. A read hands out the next
  bytes the other end wrote; when there are none, it returns 0 (end of file) once the other end has shut down writing,
  else -1 with the flags that say to try again, and the other end sees how many bytes are wanted.
\<close>

theorem pair_results:
  assumes run: "pair_run M b1 b2 h w r" and ends: "(e, p) \<in> {(b1, b2), (b2, b1)}" and n: "0 < n" "n < 2 ^ 31" "nat n \<le> length data"
    and wr: "BIO_write M e data n h = (wret, h1)" and rd: "BIO_read M e n h = ((rret, got), h2)"
  shows "let room = bsize (bb h e) - (length (w e) - length (r p)); more = drop (length (r e)) (w p) in
    (wret = (if closed (bb h e) \<or> room = 0 then -1 else min n (int room))) \<and>
    (BIO_should_retry (the (h1 e)) \<longleftrightarrow> \<not> closed (bb h e) \<and> room = 0) \<and>
    (wret = -1 \<and> \<not> closed (bb h e) \<longrightarrow> BIO_should_write (the (h1 e))) \<and>
    got = take (nat n) more \<and>
    rret = (if more \<noteq> [] then int (length got) else if closed (bb h p) then 0 else -1) \<and>
    (BIO_should_retry (the (h2 e)) \<longleftrightarrow> rret = -1) \<and>
    (rret = -1 \<longrightarrow> BIO_should_read (the (h2 e)) \<and>
       BIO_ctrl_get_read_request M p h2 = (min n (int (bsize (bb h p))), h2))"
proof -
  have f: "flows M h w r e p" using run_flows [OF run] flows_sym ends by auto
  have ok: "pair_ok M h e p" and w: "w e = r p @ waiting (bb h e)" "w p = r e @ waiting (bb h p)"
    using f by (simp_all add: flows_def)
  have le: "len (bb h e) \<le> bsize (bb h e)" "bsize (bb h p) < 2 ^ 63" using ok by (simp_all add: pair_ok_def end_ok_def ring_ok_def)
  note W = BIO_write_pair [OF ok n wr] and R = BIO_read_pair [OF ok n(1,2) rd]
  have "BIO_ctrl_get_read_request M p h2 = (int (request (bb h2 p)), h2)"
    by (rule read_request [of _ _ _ e]) (use R le(2) n(2) pair_ok_sym in auto)
  then have req: "rret = -1 \<longrightarrow> BIO_ctrl_get_read_request M p h2 = (min n (int (bsize (bb h p))), h2)"
    using R n(1) by (simp add: min_def) (metis of_nat_le_iff nat_le_iff)
  have room: "bsize (bb h e) - (length (w e) - length (r p)) = bsize (bb h e) - length (waiting (bb h e))"
    and zero: "bsize (bb h e) - length (waiting (bb h e)) = 0 \<longleftrightarrow> length (waiting (bb h e)) = bsize (bb h e)"
    and more: "drop (length (r e)) (w p) = waiting (bb h p)"
    using w le(1) by auto
  have pos: "min n (int (bsize (bb h e) - length (waiting (bb h e)))) \<noteq> -1" using n(1) by simp
  have retry: "BIO_should_retry (the (h1 e)) \<longleftrightarrow> \<not> closed (bb h e) \<and> length (waiting (bb h e)) = bsize (bb h e)"
    using W pos by auto
  show ?thesis unfolding Let_def room more zero by (intro conjI) (use W R req retry in simp_all)
qed

theorem pair_results_witness:
  "\<exists>h h1 h2. BIO_write demo_methods 2 [1, 2, 3] 3 h = (3, h1) \<and> BIO_read demo_methods 2 3 h = ((1, [8]), h2)"
proof -
  obtain h where run: "pair_run demo_methods 1 2 h ((\<lambda>_. [])(1 := [7, 8])) ((\<lambda>_. [])(2 := [7]))" and c: "\<not> closed (bb h 2)" "bsize (bb h 2) = 17408"
    using demo_run by blast
  obtain wret h1 where w: "BIO_write demo_methods 2 [1, 2, 3] 3 h = (wret, h1)" by fastforce
  obtain rret got h2 where r: "BIO_read demo_methods 2 3 h = ((rret, got), h2)" by (metis prod.exhaust)
  show ?thesis using pair_results [OF run _ _ _ _ w r, of 1] w r c by auto
qed

text \<open>A write of no more than \<open>BIO_ctrl_get_write_guarantee\<close> bytes is taken whole.
\<close>

lemma write_guarantee_kept:
  assumes run: "pair_run M b1 b2 h w r" and ends: "e \<in> {b1, b2}" and g: "BIO_ctrl_get_write_guarantee M e h = (g, h')"
    and n: "0 < n" "n < 2 ^ 31" "n \<le> g" "nat n \<le> length data"
  shows "h' = h \<and> fst (BIO_write M e data n h) = n"
proof -
  obtain p where ok: "pair_ok M h e p" using run_flows [OF run] ends by (auto simp: flows_def dest: pair_ok_sym)
  obtain ret h1 where w: "BIO_write M e data n h = (ret, h1)" by fastforce
  show ?thesis using write_guarantee [OF ok] BIO_write_pair [OF ok n(1,2,4) w] g n w by (auto split: if_split_asm)
qed

end
