(* ===== verification/Bio_Read.thy ===== *)
theory Bio_Read
  imports Pair_Runs Der_Tree
begin

text \<open>
  Reading from a BIO that behaves like a pipe: \<open>bio_read_full\<close>, \<open>bio_read_all\<close> and \<open>BIO_read_asn1\<close> on
  any such BIO, and on the ends of a pair.
\<close>

section \<open>Pipes\<close>

lemma store_at:
  assumes "k + length d \<le> length out"
  shows "length (store_at k d out) = length out" "take (k + length d) (store_at k d out) = take k out @ d"
  using assms by (simp_all add: store_at_def)

lemma int_of_size: "n < 2 ^ 31 \<Longrightarrow> int_of_size n = int n"
  by (simp add: int_of_size_def signed_of_nat signed_take_bit_int_eq_self)

lemma realloc_copy:
  assumes "OPENSSL_realloc a (Some (\<lambda>i. out ! i, length out)) n = Some f" "length out \<le> n"
  shows "take (length out) (map f [0..<n]) = out"
  using realloc_prefix [OF assms(1)] assms(2) by (intro nth_equalityI) auto

text \<open>
  \<open>content\<close> is what is still to be read, \<open>stop\<close> what a read returns when there is nothing left: 0 for the
  end of the file, -1 for a writer that is not done.
\<close>

locale byte_source =
  fixes rd :: "int \<Rightarrow> 's \<Rightarrow> (int \<times> bytes) \<times> 's"
    and content :: "'s \<Rightarrow> bytes"
    and stop :: "'s \<Rightarrow> int"
    and live :: "'s \<Rightarrow> bool"
  assumes some: "live s \<Longrightarrow> 0 < n \<Longrightarrow> n < 2 ^ 31 \<Longrightarrow> content s \<noteq> [] \<Longrightarrow>
      \<exists>s'. rd n s = ((int (min (nat n) (length (content s))), take (nat n) (content s)), s') \<and>
        live s' \<and> content s' = drop (nat n) (content s) \<and> stop s' = stop s"
    and none: "live s \<Longrightarrow> 0 < n \<Longrightarrow> n < 2 ^ 31 \<Longrightarrow> content s = [] \<Longrightarrow>
      \<exists>s'. rd n s = ((stop s, []), s') \<and> live s' \<and> content s' = [] \<and> stop s' = stop s"
    and stop: "live s \<Longrightarrow> stop s = 0 \<or> stop s = -1"
begin

text \<open>\<open>s'\<close> is \<open>s\<close> after \<open>k\<close> bytes have been read.\<close>

definition advanced :: "nat \<Rightarrow> 's \<Rightarrow> 's \<Rightarrow> bool" where
  "advanced k s s' \<longleftrightarrow> live s' \<and> content s' = drop k (content s) \<and> stop s' = stop s"

lemma advanced_trans: "advanced k s s' \<Longrightarrow> advanced m s' s'' \<Longrightarrow> advanced (k + m) s s''"
  by (simp add: advanced_def add.commute)

lemma read_some:
  assumes "live s" "0 < n" "n \<le> INT_MAX" "content s \<noteq> []"
  obtains s' where "rd (int n) s = ((int (min n (length (content s))), take n (content s)), s')" "advanced n s s'"
  using some [OF assms(1) _ _ assms(4), of "int n"] assms(2,3) by (auto simp: advanced_def)

lemma read_none:
  assumes "live s" "0 < n" "n \<le> INT_MAX" "content s = []"
  obtains s' where "rd (int n) s = ((stop s, []), s')" "advanced 0 s s'"
  using none [OF assms(1) _ _ assms(4), of "int n"] assms(2,3,4) by (auto simp: advanced_def)

lemma read_full_loop:
  "live s \<Longrightarrow> n < 2 ^ 63 \<Longrightarrow>
   \<exists>s'. advanced n s s' \<and> read_full_loop rd first n out s =
     Some (if n \<le> length (content s) then Inr (out @ take n (content s))
           else Inl (first \<and> content s = [] \<and> stop s = 0), s')"
proof (induction n arbitrary: first out s rule: less_induct)
  case (less n)
  define m where "m = min n INT_MAX"
  show ?case
  proof (cases "n = 0")
    case True
    then show ?thesis using less.prems(1) by (subst read_full_loop.simps) (auto simp: advanced_def)
  next
    case False
    then have m: "0 < m" "m \<le> INT_MAX" "m \<le> n" "(if n \<le> INT_MAX then int n else int INT_MAX) = int m"
      by (auto simp: m_def)
    have loop: "read_full_loop rd first n out s = (case rd (int m) s of ((ret, data), s) \<Rightarrow>
        if ret \<le> 0 then Some (Inl (first \<and> ret = 0), s) else read_full_loop rd False (size_minus n ret) (out @ data) s)"
      using False by (subst read_full_loop.simps) (simp only: m(4) if_True neq0_conv)
    show ?thesis
    proof (cases "content s = []")
      case True
      obtain s' where "rd (int m) s = ((stop s, []), s')" "advanced 0 s s'" using read_none [OF less.prems(1) m(1,2) True] .
      then show ?thesis using False True stop [OF less.prems(1)] by (auto simp: loop advanced_def)
    next
      case ne: False
      define k where "k = min m (length (content s))"
      obtain s1 where r: "rd (int m) s = ((int k, take m (content s)), s1)" "advanced m s s1"
        using read_some [OF less.prems(1) m(1,2) ne] unfolding k_def .
      have tk: "take m (content s) = take k (content s)" "drop m (content s) = drop k (content s)" by (simp_all add: k_def min_def)
      have k: "0 < k" "k \<le> n" "k \<le> length (content s)" using m ne by (auto simp: k_def)
      have adv: "advanced k s s1" using r(2) by (simp add: advanced_def tk)
      have sm: "size_minus n (int k) = n - k"
        using k(2) less.prems(2) by (simp add: size_minus_def flip: of_nat_diff)
      obtain s' where s': "advanced (n - k) s1 s'" "read_full_loop rd False (n - k) (out @ take k (content s)) s1 =
          Some (if n - k \<le> length (content s1) then Inr ((out @ take k (content s)) @ take (n - k) (content s1))
                else Inl (False \<and> content s1 = [] \<and> stop s1 = 0), s')"
        using less.IH [of "n - k" s1 False "out @ take k (content s)"] k le_less_trans [OF diff_le_self less.prems(2), of k] adv
        unfolding advanced_def [of k] by auto
      have c1: "content s1 = drop k (content s)" using adv by (simp add: advanced_def)
      have "take k (content s) @ take (n - k) (content s1) = take n (content s)" "n - k \<le> length (content s1) \<longleftrightarrow> n \<le> length (content s)"
        using k by (auto simp: c1 simp flip: take_add)
      then have "read_full_loop rd first n out s =
          Some (if n \<le> length (content s) then Inr (out @ take n (content s)) else Inl (first \<and> content s = [] \<and> stop s = 0), s')"
        using s'(2) ne k(1) by (simp add: loop r(1) tk sm)
      moreover have "advanced n s s'" using advanced_trans [OF adv s'(1)] k(2) by simp
      ultimately show ?thesis by blast
    qed
  qed
qed

lemma read_full:
  assumes "live s" "n < 2 ^ 63"
  obtains s' where "bio_read_full rd n s =
      Some (if n \<le> length (content s) then Inr (take n (content s)) else Inl (content s = [] \<and> stop s = 0), s')"
    "advanced n s s'"
  using read_full_loop [OF assms, of True "[]"] unfolding bio_read_full_def by auto

lemma read_all_loop:
  assumes a: "plentiful a"
  shows "live s \<Longrightarrow> dn \<le> sz \<Longrightarrow> sz \<le> max_len \<Longrightarrow> max_len < 2 ^ 63 \<Longrightarrow> length out = sz \<Longrightarrow> sz - dn < 2 ^ 31 \<Longrightarrow>
   (sz < max_len \<longrightarrow> kChunkSize div 2 \<le> sz - dn) \<Longrightarrow>
   \<exists>s'. live s' \<and> (stop s = 0 \<and> dn + length (content s) < max_len \<longrightarrow> content s' = [] \<and> stop s' = 0) \<and>
     read_all_loop a rd max_len sz dn out s =
       Some (if stop s = 0 \<and> dn + length (content s) < max_len then Some (take dn out @ content s) else None, s')"
proof (induction "length (content s)" arbitrary: sz dn out s rule: less_induct)
  case less
  show ?case
  proof (cases "dn = sz")
    case True
    then show ?thesis using less.prems by (subst read_all_loop.simps) (auto simp: kChunkSize_def)
  next
    case False
    define m where "m = sz - dn"
    have m: "0 < m" "m \<le> INT_MAX" "int_of_size (size_minus sz (int dn)) = int m" "dn + m = sz"
      using False less.prems by (auto simp: m_def size_minus_def int_of_size simp flip: of_nat_diff)
    show ?thesis
    proof (cases "content s = []")
      case True
      obtain s' where "rd (int m) s = ((stop s, []), s')" "advanced 0 s s'" using read_none [OF less.prems(1) m(1,2) True] .
      then show ?thesis using False True stop [OF less.prems(1)] less.prems(2,3)
        by (subst read_all_loop.simps) (auto simp: m(3) advanced_def)
    next
      case ne: False
      define k where "k = min m (length (content s))"
      obtain s1 where r: "rd (int m) s = ((int k, take m (content s)), s1)" "advanced m s s1"
        using read_some [OF less.prems(1) m(1,2) ne] unfolding k_def .
      have tk: "take m (content s) = take k (content s)" "drop m (content s) = drop k (content s)" by (simp_all add: k_def min_def)
      have k: "0 < k" "k \<le> m" "k \<le> length (content s)" using m ne by (auto simp: k_def)
      have adv: "advanced k s s1" using r(2) by (simp add: advanced_def tk)
      then have s1: "live s1" "content s1 = drop k (content s)" "stop s1 = stop s" by (simp_all add: advanced_def)
      define out1 where "out1 = store_at dn (take k (content s)) out"
      have out1: "length out1 = sz" "take (dn + k) out1 = take dn out @ take k (content s)"
        using store_at [of dn "take k (content s)" out] k m(4) less.prems(5) by (simp_all add: out1_def)
      have sm: "size_minus dn (- int k) = dn + k" "size_minus sz (int (dn + k)) = sz - (dn + k)"
        using k m(4) less.prems(3,4) by (simp_all add: size_minus_def flip: of_nat_add of_nat_diff)
      have lt: "length (content s) - k < length (content s)" using k by simp
      have finish: ?thesis
        if "dn + k \<le> sz'" "sz' \<le> max_len" "length out' = sz'" "sz' - (dn + k) < 2 ^ 31"
          "sz' < max_len \<longrightarrow> kChunkSize div 2 \<le> sz' - (dn + k)" "take (dn + k) out' = take (dn + k) out1"
          "read_all_loop a rd max_len sz dn out s = read_all_loop a rd max_len sz' (dn + k) out' s1" for sz' out'
        using less.hyps [of s1 "dn + k" sz' out'] that s1 k less.prems(4) out1(2) lt
        by auto
      have loop: "read_all_loop a rd max_len sz dn out s =
          (if sz < max_len \<and> sz - (dn + k) < kChunkSize div 2 then
             let sz = min (sz + kChunkSize) max_len in
             case OPENSSL_realloc a (Some (\<lambda>i. out1 ! i, length out1)) sz of
               None \<Rightarrow> Some (None, s1)
             | Some new_buf \<Rightarrow> read_all_loop a rd max_len sz (dn + k) (map new_buf [0..<sz]) s1
           else read_all_loop a rd max_len sz (dn + k) out1 s1)"
      proof -
        have "size_wrap (sz + kChunkSize) = sz + kChunkSize" if "sz < max_len"
          using that less.prems(4) by (simp add: size_wrap_def kChunkSize_def)
        then have grow: "(if size_wrap (sz + kChunkSize) < kChunkSize \<or> size_wrap (sz + kChunkSize) > max_len then max_len
            else size_wrap (sz + kChunkSize)) = min (sz + kChunkSize) max_len" if "sz < max_len"
          using that by auto
        show ?thesis
        proof (cases "sz < max_len")
          case True
          then show ?thesis using False k(1) by (subst read_all_loop.simps)
            (simp add: m(3) r(1) tk sm sm(2) [simplified] grow Let_def cong: if_cong option.case_cong split del: if_split flip: out1_def)
        qed (use False k(1) in \<open>subst read_all_loop.simps, simp add: m(3) r(1) tk sm flip: out1_def\<close>)
      qed
      show ?thesis
      proof (cases "sz < max_len \<and> sz - (dn + k) < kChunkSize div 2")
        case True
        define sz' where "sz' = min (sz + kChunkSize) max_len"
        have sz': "dn + k \<le> sz'" "sz' \<le> max_len" "sz \<le> sz'" "sz' - (dn + k) < 2 ^ 31"
          "sz' < max_len \<longrightarrow> kChunkSize div 2 \<le> sz' - (dn + k)" "sz' < 2 ^ 63"
          using True k m(4) less.prems(4) by (auto simp: sz'_def kChunkSize_def)
        obtain f where f: "OPENSSL_realloc a (Some (\<lambda>i. out1 ! i, length out1)) sz' = Some f"
          using realloc_plentiful [OF a sz'(6)] by blast
        have "take sz (map f [0..<sz']) = out1" using realloc_copy [OF f] sz'(3) out1(1) by simp
        then have "take (dn + k) (map f [0..<sz']) = take (dn + k) out1"
          using k(2) m(4) by (metis le_add_same_cancel1 min.absorb1 nat_add_left_cancel_le take_take)
        then show ?thesis using sz' True f by (intro finish [of sz' "map f [0..<sz']"]) (auto simp: loop sz'_def Let_def)
      next
        case False
        then show ?thesis using less.prems k m(4) out1 by (intro finish [of sz out1]) (auto simp: loop)
      qed
    qed
  qed
qed

text \<open>\<open>bio_read_all\<close> reads to the end of the file, if that comes before \<open>max_len\<close> bytes.\<close>

lemma read_all:
  assumes "plentiful a" "live s" "max_len < 2 ^ 63" "length prefix < 2 ^ 31 - kChunkSize"
  shows "\<exists>s'. live s' \<and> (stop s = 0 \<and> length prefix + length (content s) < max_len \<longrightarrow> content s' = [] \<and> stop s' = 0) \<and>
    bio_read_all a rd prefix max_len s =
      Some (if stop s = 0 \<and> length prefix + length (content s) < max_len then Some (prefix @ content s) else None, s')"
proof -
  define sz where "sz = min (length prefix + kChunkSize) max_len"
  have sz: "(if size_wrap (length prefix + kChunkSize) > max_len then max_len else size_wrap (length prefix + kChunkSize)) = sz"
    using assms(4) by (auto simp: sz_def kChunkSize_def size_wrap_def)
  show ?thesis
  proof (cases "sz < length prefix")
    case True
    then have "\<not> length prefix + length (content s) < max_len" by (auto simp: sz_def)
    moreover have "bio_read_all a rd prefix max_len s = Some (None, s)"
      using True unfolding bio_read_all_def sz Let_def by simp
    ultimately show ?thesis using assms(2) by auto
  next
    case False
    then have n: "length prefix \<le> sz" "sz \<le> max_len" "sz - length prefix < 2 ^ 31" "sz < 2 ^ 63"
      "sz < max_len \<longrightarrow> kChunkSize div 2 \<le> sz - length prefix"
      using assms(3) by (auto simp: sz_def kChunkSize_def)
    obtain f where f: "OPENSSL_malloc a sz = Some f" using plentiful_malloc [OF assms(1) n(4)] by blast
    define out where "out = store_at 0 prefix (map f [0..<sz])"
    have out: "length out = sz" "take (length prefix) out = prefix" using n(1) by (simp_all add: out_def store_at_def)
    have "bio_read_all a rd prefix max_len s = read_all_loop a rd max_len sz (length prefix) out s"
      using False f unfolding bio_read_all_def sz Let_def by (simp add: out_def)
    then show ?thesis
      using read_all_loop [OF assms(1,2) n(1,2) assms(3) out(1) n(3,5)] unfolding out(2) by auto
  qed
qed

lemma read_contents:
  assumes "plentiful a" "live s" "n < 2 ^ 32" "length header \<le> 6"
  shows "\<exists>r s'. read_contents a rd max_len header n s = Some (r, s') \<and> live s' \<and> r \<noteq> Inl HEADER_TOO_LONG \<and>
    (\<forall>e. r = Inr e \<longleftrightarrow> n + length header \<le> max_len \<and> n \<le> INT_MAX \<and> n \<le> length (content s) \<and> e = header @ take n (content s)) \<and>
    (\<forall>e. r = Inr e \<longrightarrow> content s' = drop n (content s))"
proof -
  have w: "size_wrap (n + length header) = n + length header" using assms(3,4) by (simp add: size_wrap_def)
  obtain f where f: "OPENSSL_malloc a (n + length header) = Some f" using plentiful_malloc [OF assms(1), of "n + length header"] assms(3,4) by auto
  obtain s' where r: "bio_read_full rd n s = Some (if n \<le> length (content s) then Inr (take n (content s)) else Inl (content s = [] \<and> stop s = 0), s')"
    "advanced n s s'"
    using read_full [OF assms(2), of n] assms(3) by auto
  show ?thesis
  proof (cases "n + length header > max_len \<or> n > INT_MAX")
    case True
    then show ?thesis using assms(2) by (intro exI [of _ "Inl TOO_LONG"] exI [of _ s]) (auto simp: read_contents_def w)
  next
    case False
    show ?thesis
    proof (cases "n \<le> length (content s)")
      case True
      then show ?thesis using False f r
        by (intro exI [of _ "Inr (header @ take n (content s))"] exI [of _ s']) (auto simp: read_contents_def w advanced_def)
    next
      case no: False
      then show ?thesis using False f r
        by (intro exI [of _ "Inl NOT_ENOUGH_DATA"] exI [of _ s']) (auto simp: read_contents_def w advanced_def)
    qed
  qed
qed

end


section \<open>Elements with short tags\<close>

lemma and_1f: "t AND 0x1f = (0x1f :: u8) \<longleftrightarrow> unat t mod 32 = 31"
  by (simp add: word_unat_eq_iff word_nat)

text \<open>A DER element whose tag number fits the first byte.\<close>

definition short_tag :: "u32 \<Rightarrow> bool" where
  "short_tag tag \<longleftrightarrow> unat tag mod 2 ^ 29 < 31"

lemma der_tag_byte:
  assumes "der_tag tag = t # bs"
  shows "short_tag tag \<longleftrightarrow> unat t mod 32 \<noteq> 31" "short_tag tag \<Longrightarrow> bs = []"
proof -
  have cls: "unat tag div 2 ^ 29 < 8"
  proof -
    have "unat tag < 2 ^ 32" using unsigned_less [of tag] by simp
    then show ?thesis by (intro less_mult_imp_div_less) simp
  qed
  define n where "n = (if short_tag tag then unat tag mod 2 ^ 29 else 31)"
  have t: "t = of_nat (unat tag div 2 ^ 29 * 32 + n)" "n < 32" and bs: "short_tag tag \<Longrightarrow> bs = []"
    using assms unfolding der_tag_def Let_def n_def short_tag_def by (auto split: if_split_asm)
  have "unat t = unat tag div 2 ^ 29 * 32 + n" unfolding t(1) using cls t(2) by (intro unat_of_nat_small) simp
  then have "unat t mod 32 = n" using t(2) by simp
  then show "short_tag tag \<longleftrightarrow> unat t mod 32 \<noteq> 31" by (auto simp: n_def short_tag_def)
  show "short_tag tag \<Longrightarrow> bs = []" by (rule bs)
qed

lemma byte_tag:
  assumes "unat t mod 32 \<noteq> 31"
  obtains tag where "der_tag tag = [t]" "short_tag tag"
proof -
  have "unat t div 32 < 8" using unat_u8_lt [of t] by linarith
  then have "der_tag (mk_tag (unat t div 32) (unat t mod 32)) = [t]" using assms
    by (subst der_tag_mk_tag) (auto simp: of_nat_div_mod_32 intro: less_trans [of _ 32])
  then show thesis using that der_tag_byte(1) assms by blast
qed

definition short_element :: "bytes \<Rightarrow> bytes \<Rightarrow> bytes \<Rightarrow> bool" where
  "short_element s d rest \<longleftrightarrow> (\<exists>tag. s = der_element tag d @ rest \<and> short_tag tag) \<and> length d < 2 ^ 32"

lemma short_element_tag: "short_element (t # s) d rest \<Longrightarrow> unat t mod 32 \<noteq> 31"
proof -
  assume "short_element (t # s) d rest"
  then obtain tag where tag: "t # s = der_tag tag @ der_length (length d) @ d @ rest" "short_tag tag"
    by (auto simp: short_element_def der_element_def der_header_def)
  have "der_tag tag \<noteq> []" by (simp add: der_tag_def Let_def)
  then obtain bs where "der_tag tag = t # bs" using tag(1) by (cases "der_tag tag") auto
  then show ?thesis using der_tag_byte(1) tag(2) by blast
qed

lemma short_element_iff:
  assumes "unat t mod 32 \<noteq> 31"
  shows "short_element (t # s) d rest \<longleftrightarrow> s = der_length (length d) @ d @ rest \<and> length d < 2 ^ 32"
proof -
  have "t # s = der_element tag d @ rest \<longleftrightarrow> der_tag tag = [t] \<and> s = der_length (length d) @ d @ rest" if "short_tag tag" for tag
  proof -
    have "der_tag tag \<noteq> []" by (simp add: der_tag_def Let_def)
    then obtain b bs where b: "der_tag tag = b # bs" by (cases "der_tag tag") auto
    then have "bs = []" using der_tag_byte(2) [OF b] that by simp
    then show ?thesis using b by (auto simp: der_element_def der_header_def)
  qed
  moreover obtain tag where "der_tag tag = [t]" "short_tag tag" using byte_tag assms by blast
  ultimately show ?thesis unfolding short_element_def by metis
qed

lemma der_length_first:
  assumes "n < 2 ^ 32"
  shows "\<exists>lb ls. der_length n = lb # ls \<and> (if n < 128 then unat lb = n \<and> ls = []
    else unat lb = 128 + byte_len n \<and> ls = be_bytes (byte_len n) n \<and> 0 < byte_len n \<and> byte_len n \<le> 4)"
proof (cases "n < 128")
  case True
  then show ?thesis by (auto simp: der_length_short unat_of_nat_small)
next
  case False
  have k: "byte_len n \<le> 4" "0 < byte_len n" using byte_len_le_4 [OF assms] False by (simp_all add: byte_len_pos)
  then have "unat (of_nat (128 + byte_len n) :: u8) = 128 + byte_len n" by (intro unat_of_nat_small) simp
  then show ?thesis using False k by (simp only: der_length_long not_less) simp
qed

lemma element_short_form:
  assumes "unat t mod 32 \<noteq> 31" "unat lb < 128"
  shows "short_element (t # lb # h) d rest \<longleftrightarrow> length d = unat lb \<and> h = d @ rest"
proof -
  have "lb # h = der_length (length d) @ d @ rest \<and> length d < 2 ^ 32 \<longleftrightarrow> length d = unat lb \<and> h = d @ rest"
  proof (cases "length d < 2 ^ 32")
    case True
    then obtain l ls where l: "der_length (length d) = l # ls" "if length d < 128 then unat l = length d \<and> ls = []
        else unat l = 128 + byte_len (length d)"
      using der_length_first [OF True] by metis
    show ?thesis
    proof (cases "length d < 128")
      case True
      then show ?thesis using l word_unat_eq_iff [of lb l] by auto
    next
      case False
      then have "lb \<noteq> l" using l(2) assms(2) by auto
      then show ?thesis using False l(1) assms(2) by auto
    qed
  qed (use assms(2) in auto)
  then show ?thesis by (simp only: short_element_iff [OF assms(1)])
qed

lemma element_long_form:
  assumes "unat t mod 32 \<noteq> 31" "\<not> unat lb < 128"
  defines "nb \<equiv> unat lb mod 128"
  shows "short_element (t # lb # h) d rest \<longleftrightarrow>
    0 < nb \<and> nb \<le> 4 \<and> nb \<le> length h \<and> 128 \<le> be_val (take nb h) \<and> 256 ^ (nb - 1) \<le> be_val (take nb h) \<and>
    length d = be_val (take nb h) \<and> drop nb h = d @ rest"
    (is "_ \<longleftrightarrow> ?R")
proof
  assume "short_element (t # lb # h) d rest"
  then have s: "lb # h = der_length (length d) @ d @ rest" "length d < 2 ^ 32" by (simp_all add: short_element_iff assms(1))
  then have d: "\<not> length d < 128" "unat lb = 128 + byte_len (length d)" "h = be_bytes (byte_len (length d)) (length d) @ d @ rest"
    "0 < byte_len (length d)" "byte_len (length d) \<le> 4"
    using der_length_first [OF s(2)] assms(2) by (auto split: if_split_asm)
  have nb: "nb = byte_len (length d)" using d(2,5) by (simp add: nb_def)
  have "256 ^ (nb - 1) \<le> length d \<and> length d < 256 ^ nb" unfolding nb using d(1) by (intro byte_len_bounds) linarith
  moreover have "take nb h = be_bytes nb (length d)" "drop nb h = d @ rest" using d(3) by (simp_all add: nb)
  ultimately show ?R using d nb by (simp add: be_val_be_bytes)
next
  assume r: ?R
  define ls where "ls = take nb h"
  have ls: "length ls = nb" "be_val ls = length d" "h = ls @ d @ rest"
    using r append_take_drop_id [of nb h] by (simp_all add: ls_def)
  have lt: "length d < 256 ^ nb" using be_val_lt [of ls] by (simp add: ls)
  have "(256 :: nat) ^ nb \<le> 256 ^ 4" using r by (intro power_increasing) auto
  then have len: "length d < 2 ^ 32" using lt by simp
  obtain tag where tag: "der_tag tag = [t]" "short_tag tag" using byte_tag assms(1) by blast
  have "lb = of_nat (128 + nb)"
  proof -
    have "128 + nb = unat lb" using u8_high [OF assms(2)] by (simp add: nb_def)
    then show ?thesis by simp
  qed
  moreover have "der_element tag d = der_tag tag @ of_nat (128 + nb) # ls @ d"
    using r lt ls(2) unfolding ls_def [symmetric] by (intro der_element_long) (simp_all add: ls)
  ultimately have "t # lb # h = der_element tag d @ rest" by (simp add: tag(1) ls(3))
  then show "short_element (t # lb # h) d rest" unfolding short_element_def using tag(2) len by blast
qed

lemma unat_len32: "length ls \<le> 4 \<Longrightarrow> unat (len32_of ls) = be_val ls"
proof (induction ls rule: rev_induct)
  case (snoc b ls)
  have "be_val ls < 256 ^ length ls" by (rule be_val_lt)
  also have "\<dots> \<le> 256 ^ 3" using snoc.prems by (intro power_increasing) auto
  finally have "be_val ls * 256 < 2 ^ 32" by simp
  then have "unat (push_bit 8 (len32_of ls)) = be_val ls * 256" using snoc by (simp add: unat_push_bit)
  then have "unat (push_bit 8 (len32_of ls) OR ucast b) = be_val ls * 256 + unat b"
    by (subst unat_or_add [of _ 8]) (simp_all add: word_nat)
  then show ?case by (simp add: len32_of_def be_val_append)
qed (simp add: len32_of_def)

lemma drop_len32: "drop_bit ((k - 1) * 8) (w :: u32) = 0 \<longleftrightarrow> unat w < 256 ^ (k - 1)"
proof -
  have "drop_bit ((k - 1) * 8) w = 0 \<longleftrightarrow> unat w div 2 ^ ((k - 1) * 8) = 0"
    by (simp only: unat_drop_bit flip: unat_eq_zero)
  also have "(2 :: nat) ^ ((k - 1) * 8) = 256 ^ (k - 1)"
    by (simp only: mult.commute [of "k - 1"] power_mult) simp
  finally show ?thesis by (simp add: div_eq_0_iff)
qed

section \<open>Objects\<close>

text \<open>What \<open>BIO_read_asn1\<close> is to accept at the start of \<open>c\<close>.\<close>

definition definite_object :: "nat \<Rightarrow> bytes \<Rightarrow> bytes \<Rightarrow> bool" where
  "definite_object max_len c e \<longleftrightarrow> (\<exists>d rest. short_element c d rest \<and> c = e @ rest \<and> length d \<le> INT_MAX \<and> length e \<le> max_len)"

definition indefinite_object :: "nat \<Rightarrow> bytes \<Rightarrow> bytes \<Rightarrow> bool" where
  "indefinite_object max_len c e \<longleftrightarrow> (\<exists>t rest. c = t # 0x80 # rest \<and> t AND 0x20 \<noteq> 0 \<and> t AND 0x1f \<noteq> 0x1f) \<and>
     e = c \<and> length c < max_len"

lemma definite_short:
  assumes "unat t mod 32 \<noteq> 31" "unat lb < 128"
  shows "definite_object max_len (t # lb # h) e \<longleftrightarrow>
    unat lb + 2 \<le> max_len \<and> unat lb \<le> length h \<and> e = t # lb # take (unat lb) h"
proof
  assume "definite_object max_len (t # lb # h) e"
  then obtain d rest where "length d = unat lb" "h = d @ rest" "t # lb # h = e @ rest" "length e \<le> max_len"
    unfolding definite_object_def element_short_form [OF assms] by blast
  then show "unat lb + 2 \<le> max_len \<and> unat lb \<le> length h \<and> e = t # lb # take (unat lb) h" by auto
next
  assume r: "unat lb + 2 \<le> max_len \<and> unat lb \<le> length h \<and> e = t # lb # take (unat lb) h"
  then show "definite_object max_len (t # lb # h) e"
    unfolding definite_object_def element_short_form [OF assms] using assms(2)
    by (intro exI [of _ "take (unat lb) h"] exI [of _ "drop (unat lb) h"]) auto
qed

lemma definite_long:
  assumes "unat t mod 32 \<noteq> 31" "\<not> unat lb < 128"
  defines "nb \<equiv> unat lb mod 128"
  shows "definite_object max_len (t # lb # h) e \<longleftrightarrow>
    (let ls = take nb h; n = be_val ls in
      0 < nb \<and> nb \<le> 4 \<and> nb \<le> length h \<and> 128 \<le> n \<and> 256 ^ (nb - 1) \<le> n \<and>
      n + (2 + nb) \<le> max_len \<and> n \<le> INT_MAX \<and> n \<le> length (drop nb h) \<and> e = (t # lb # ls) @ take n (drop nb h))"
    (is "_ \<longleftrightarrow> ?R")
proof
  assume "definite_object max_len (t # lb # h) e"
  then obtain d rest where d: "0 < nb" "nb \<le> 4" "nb \<le> length h" "128 \<le> be_val (take nb h)" "256 ^ (nb - 1) \<le> be_val (take nb h)"
    "length d = be_val (take nb h)" "drop nb h = d @ rest" "t # lb # h = e @ rest" "length e \<le> max_len" "length d \<le> INT_MAX"
    unfolding definite_object_def element_long_form [OF assms(1,2), folded nb_def] by blast
  have h: "h = take nb h @ d @ rest" using append_take_drop_id [of nb h] by (simp only: d(7))
  have "e @ rest = ((t # lb # take nb h) @ d) @ rest" using arg_cong [OF h, of "\<lambda>x. t # lb # x"] unfolding d(8) by simp
  then have e: "e = (t # lb # take nb h) @ d" by (simp only: append_same_eq)
  then have "length e = be_val (take nb h) + (2 + nb)" using d(3,6) by simp
  moreover have "take (be_val (take nb h)) (drop nb h) = d" "be_val (take nb h) \<le> length (drop nb h)"
    unfolding d(7) by (simp_all flip: d(6))
  ultimately show ?R using d(1-5,9,10) e unfolding Let_def d(6) by metis
next
  assume r: ?R
  define n where "n = be_val (take nb h)"
  have "length e = n + (2 + nb)" "t # lb # h = e @ drop n (drop nb h)"
    using r by (simp_all add: Let_def n_def min_absorb2 del: drop_drop)
  then show "definite_object max_len (t # lb # h) e"
    unfolding definite_object_def element_long_form [OF assms(1,2), folded nb_def]
    using r by (intro exI [of _ "take n (drop nb h)"] exI [of _ "drop n (drop nb h)"]) (simp add: Let_def n_def del: drop_drop)
qed

section \<open>Reading objects\<close>

context byte_source begin

text \<open>\<open>BIO_read_asn1\<close> returns, with an object at the start of the contents if there is one, and reads no further.\<close>

lemma header_cases:
  assumes "plentiful a" "live s" "max_len < 2 ^ 63" "content s = t # lb # h" "unat t mod 32 \<noteq> 31"
    and h: "bio_read_full rd 2 s = Some (Inr [t, lb], s1)" "live s1" "content s1 = h" "stop s1 = stop s"
  shows "\<exists>r s'. BIO_read_asn1 a rd max_len s = Some (r, s') \<and> live s' \<and> r \<noteq> Inl HEADER_TOO_LONG \<and>
    (\<forall>e. r = Inr e \<longleftrightarrow> definite_object max_len (content s) e \<or> stop s = 0 \<and> indefinite_object max_len (content s) e) \<and>
    (\<forall>e. r = Inr e \<longrightarrow> content s' = drop (length e) (content s))"
proof -
  have low: "t AND 0x1f \<noteq> 0x1f" using assms(5) by (simp add: and_1f)
  define nb where "nb = unat lb mod 128"
  have nb: "unat (lb AND 0x7f) = nb" by (simp add: word_nat nb_def)
  have lb80: "lb = 0x80 \<longleftrightarrow> \<not> unat lb < 128 \<and> nb = 0"
    using u8_high [of lb] by (auto simp: nb_def word_unat_eq_iff)
  have indef: "indefinite_object max_len (content s) e \<longleftrightarrow> lb = 0x80 \<and> t AND 0x20 \<noteq> 0 \<and> e = content s \<and> length (content s) < max_len" for e
    using low by (auto simp: indefinite_object_def assms(4))
  have start: "BIO_read_asn1 a rd max_len s =
      (if unat lb < 128 then read_contents a rd max_len [t, lb] (unat lb) s1
       else if t AND 0x20 \<noteq> 0 \<and> nb = 0 then
         (case bio_read_all a rd [t, lb] max_len s1 of
            None \<Rightarrow> None
          | Some (None, s) \<Rightarrow> Some (Inl NOT_ENOUGH_DATA, s)
          | Some (Some out, s) \<Rightarrow> Some (Inr out, s))
       else if nb = 0 \<or> nb > 4 then Some (Inl DECODE_ERROR, s1)
       else
         (case bio_read_full rd nb s1 of
            None \<Rightarrow> None
          | Some (Inl _, s) \<Rightarrow> Some (Inl NOT_ENOUGH_DATA, s)
          | Some (Inr lens, s) \<Rightarrow>
              if unat (len32_of lens) < 128 \<or> unat (len32_of lens) < 256 ^ (nb - 1) then Some (Inl DECODE_ERROR, s)
              else read_contents a rd max_len (t # lb # lens) (unat (len32_of lens)) s))"
    using low by (simp add: BIO_read_asn1_def h(1) and_80_eq_0 nb Let_def word_less_nat_alt drop_len32 [of nb, simplified]
        cong: if_cong split: option.split sum.split)
  show ?thesis
  proof (cases "unat lb < 128")
    case True
    have n: "unat lb < 2 ^ 32" "length [t, lb] \<le> 6" using True by simp_all
    obtain r s' where r: "read_contents a rd max_len [t, lb] (unat lb) s1 = Some (r, s')" "live s'" "r \<noteq> Inl HEADER_TOO_LONG"
      "\<forall>e. r = Inr e \<longleftrightarrow> unat lb + length [t, lb] \<le> max_len \<and> unat lb \<le> INT_MAX \<and> unat lb \<le> length (content s1) \<and> e = [t, lb] @ take (unat lb) (content s1)"
      "\<forall>e. r = Inr e \<longrightarrow> content s' = drop (unat lb) (content s1)"
      using read_contents [OF assms(1) h(2) n, of max_len] by (elim exE conjE) (rule that)
    have "r = Inr e \<longleftrightarrow> definite_object max_len (content s) e" for e
      unfolding spec [OF r(4)] assms(4) definite_short [OF assms(5) True] using True h(3) by auto
    moreover have "content s' = drop (length e) (content s)" if "r = Inr e" for e
      using spec [OF r(5)] that unfolding spec [OF r(4)] by (auto simp: h(3) assms(4))
    ultimately show ?thesis using True r(1-3) by (simp add: start indef lb80)
  next
    case False
    note long = definite_long [OF assms(5) False, of max_len h, folded nb_def assms(4), unfolded Let_def]
    show ?thesis
    proof (cases "nb = 0")
      case True
      have def: "\<not> definite_object max_len (content s) e" for e using True by (simp add: long)
      show ?thesis
      proof (cases "t AND 0x20 = 0")
        case True
        then show ?thesis using False \<open>nb = 0\<close> def h(2) by (simp add: start indef)
      next
        case constr: False
        have "length [t, lb] < 2 ^ 31 - kChunkSize" by (simp add: kChunkSize_def)
        note all = read_all [OF assms(1) h(2) assms(3) this, unfolded h(3,4)]
        obtain s' where "live s'" "stop s = 0 \<and> length [t, lb] + length h < max_len \<longrightarrow> content s' = [] \<and> stop s' = 0"
          "bio_read_all a rd [t, lb] max_len s1 = Some (if stop s = 0 \<and> length [t, lb] + length h < max_len then Some ([t, lb] @ h) else None, s')"
          using all by (elim exE conjE) (rule that)
        then show ?thesis using False True constr def unfolding assms(4) by (auto simp: start indef [unfolded assms(4)] lb80)
      qed
    next
      case nz: False
      show ?thesis
      proof (cases "nb \<le> 4")
        case False
        then show ?thesis using \<open>\<not> unat lb < 128\<close> nz h(2) by (simp add: start indef lb80 long)
      next
        case le4: True
        then have nb63: "nb < 2 ^ 63" by simp
        obtain s2 where s2: "bio_read_full rd nb s1 = Some (if nb \<le> length (content s1) then Inr (take nb (content s1)) else Inl (content s1 = [] \<and> stop s1 = 0), s2)"
          "advanced nb s1 s2"
          using read_full [OF h(2) nb63] .
        then have l2: "live s2" "content s2 = drop nb h" by (simp_all add: advanced_def h(3))
        show ?thesis
        proof (cases "nb \<le> length h")
          case False
          then show ?thesis using \<open>\<not> unat lb < 128\<close> nz le4 s2(1) l2(1) h(3) by (simp add: start indef lb80 long)
        next
          case enough: True
          define ls where "ls = take nb h"
          have v: "unat (len32_of ls) = be_val ls" using le4 by (intro unat_len32) (simp add: ls_def)
          have start2: "BIO_read_asn1 a rd max_len s = (if be_val ls < 128 \<or> be_val ls < 256 ^ (nb - 1) then Some (Inl DECODE_ERROR, s2)
              else read_contents a rd max_len (t # lb # ls) (be_val ls) s2)"
            using False nz le4 enough s2(1) v by (simp add: start h(3) flip: ls_def)
          show ?thesis
          proof (cases "be_val ls < 128 \<or> be_val ls < 256 ^ (nb - 1)")
            case True
            then have "\<not> definite_object max_len (content s) e" for e by (auto simp: long simp flip: ls_def)
            then show ?thesis using True nz l2(1) by (simp add: start2 indef lb80)
          next
            case ok: False
            have len: "length ls = nb" using enough by (simp add: ls_def)
            have "be_val ls < 256 ^ nb" using be_val_lt [of ls] by (simp add: len)
            also have "\<dots> \<le> 256 ^ 4" using le4 by (intro power_increasing) auto
            finally have n: "be_val ls < 2 ^ 32" "length (t # lb # ls) \<le> 6" using le4 len by simp_all
            obtain r s' where r: "read_contents a rd max_len (t # lb # ls) (be_val ls) s2 = Some (r, s')" "live s'" "r \<noteq> Inl HEADER_TOO_LONG"
              "\<forall>e. r = Inr e \<longleftrightarrow> be_val ls + length (t # lb # ls) \<le> max_len \<and> be_val ls \<le> INT_MAX \<and> be_val ls \<le> length (content s2) \<and>
                e = (t # lb # ls) @ take (be_val ls) (content s2)"
              "\<forall>e. r = Inr e \<longrightarrow> content s' = drop (be_val ls) (content s2)"
              using read_contents [OF assms(1) l2(1) n, of max_len] by (elim exE conjE) (rule that)
            have "r = Inr e \<longleftrightarrow> definite_object max_len (content s) e" for e
              unfolding spec [OF r(4)] long ls_def [symmetric] l2(2) using nz le4 enough ok len by (auto simp: not_less)
            moreover have "content s' = drop (length e) (content s)" if e: "r = Inr e" for e
            proof -
              have "length e = be_val ls + (2 + nb)" using e unfolding spec [OF r(4)] l2(2) by (simp add: len min_absorb2)
              then show ?thesis using mp [OF spec [OF r(5)] e] by (simp add: l2(2) assms(4) add.commute)
            qed
            ultimately show ?thesis using ok r(1-3) nz by (simp add: start2 indef lb80)
          qed
        qed
      qed
    qed
  qed
qed

lemma definite_length: "definite_object max_len c e \<Longrightarrow> 2 \<le> length c"
proof -
  assume "definite_object max_len c e"
  then obtain tag d rest where c: "c = der_element tag d @ rest" by (auto simp: definite_object_def short_element_def)
  have "1 \<le> length (der_tag tag)" "1 \<le> length (der_length (length d))" by (simp_all add: der_tag_def der_length_def Let_def)
  then show ?thesis by (simp add: c der_element_def der_header_def)
qed

lemma read_asn1:
  assumes "plentiful a" "live s" "max_len < 2 ^ 63"
  shows "\<exists>r s'. BIO_read_asn1 a rd max_len s = Some (r, s') \<and> live s' \<and>
    (r = Inl HEADER_TOO_LONG \<longleftrightarrow> content s = [] \<and> stop s = 0) \<and>
    (\<forall>e. r = Inr e \<longleftrightarrow> definite_object max_len (content s) e \<or> stop s = 0 \<and> indefinite_object max_len (content s) e) \<and>
    (\<forall>e. r = Inr e \<longrightarrow> content s' = drop (length e) (content s))"
proof -
  obtain s1 where r: "bio_read_full rd 2 s = Some (if 2 \<le> length (content s) then Inr (take 2 (content s)) else Inl (content s = [] \<and> stop s = 0), s1)"
    "advanced 2 s s1"
    using read_full [OF assms(2), of 2] by (auto simp del: split_paired_Ex)
  show ?thesis
  proof (cases "2 \<le> length (content s)")
    case False
    then have "\<not> definite_object max_len (content s) e" "\<not> indefinite_object max_len (content s) e" for e
      using definite_length by (auto simp: indefinite_object_def)
    then show ?thesis using False r by (auto simp: BIO_read_asn1_def advanced_def)
  next
    case True
    then obtain t lb h where c: "content s = t # lb # h" by (metis Suc_le_length_iff numeral_2_eq_2)
    have s1: "bio_read_full rd 2 s = Some (Inr [t, lb], s1)" "live s1" "content s1 = h" "stop s1 = stop s"
      using r by (simp_all add: advanced_def c)
    show ?thesis
    proof (cases "unat t mod 32 = 31")
      case True
      have "\<not> definite_object max_len (content s) e" for e
        using True short_element_tag unfolding definite_object_def c by blast
      moreover have "\<not> indefinite_object max_len (content s) e" for e
        using True and_1f by (auto simp: indefinite_object_def c)
      moreover have "BIO_read_asn1 a rd max_len s = Some (Inl DECODE_ERROR, s1)"
        using True by (simp add: BIO_read_asn1_def s1(1) and_1f)
      ultimately show ?thesis using s1(2) c by simp
    next
      case False
      show ?thesis using header_cases [OF assms c False s1] c by auto
    qed
  qed
qed

end


section \<open>Pairs as pipes\<close>

interpretation pair_reader: byte_source "BIO_read M b" "\<lambda>h. waiting (bb h p)" "\<lambda>h. if closed (bb h p) then 0 else -1"
  "\<lambda>h. pair_ok M h b p" for M b p
proof
  fix h n
  assume ok: "pair_ok M h b p" and n: "(0 :: int) < n" "n < 2 ^ 31"
  obtain r data h' where rd: "BIO_read M b n h = ((r, data), h')" by (metis prod.exhaust)
  note R = BIO_read_pair [OF ok n rd]
  show "\<exists>h'. BIO_read M b n h = ((int (min (nat n) (length (waiting (bb h p)))), take (nat n) (waiting (bb h p))), h') \<and>
      pair_ok M h' b p \<and> waiting (bb h' p) = drop (nat n) (waiting (bb h p)) \<and>
      (if closed (bb h' p) then 0 else -1) = (if closed (bb h p) then 0 else (-1 :: int))"
    if "waiting (bb h p) \<noteq> []"
    using R that rd by (auto simp: min.commute)
  show "\<exists>h'. BIO_read M b n h = ((if closed (bb h p) then 0 else -1, []), h') \<and> pair_ok M h' b p \<and> waiting (bb h' p) = [] \<and>
      (if closed (bb h' p) then 0 else -1) = (if closed (bb h p) then 0 else (-1 :: int))"
    if "waiting (bb h p) = []"
    using R that rd by auto
qed auto

text \<open>\<open>BIO_write_all\<close> writes as much as there is room for, and tells whether that was all.\<close>

lemma write_all_pair:
  "pair_ok M h b p \<Longrightarrow> \<not> closed (bb h b) \<Longrightarrow> length data < 2 ^ 63 \<Longrightarrow>
   \<exists>h'. BIO_write_all (BIO_write M b) data (length data) h =
       Some (if length data \<le> bsize (bb h b) - length (waiting (bb h b)) then 1 else 0, h') \<and>
     pair_ok M h' b p \<and> untouched h h' p \<and> \<not> closed (bb h' b) \<and> bsize (bb h' b) = bsize (bb h b) \<and>
     waiting (bb h' b) = waiting (bb h b) @ take (bsize (bb h b) - length (waiting (bb h b))) data"
proof (induction "length data" arbitrary: data h rule: less_induct)
  case less
  define room where "room = bsize (bb h b) - length (waiting (bb h b))"
  have full: "length (waiting (bb h b)) = bsize (bb h b) \<longleftrightarrow> room = 0"
    using less.prems(1) by (auto simp: room_def pair_ok_def end_ok_def ring_ok_def)
  show ?case
  proof (cases "data = []")
    case True
    then show ?thesis using less.prems by (subst BIO_write_all.simps) (simp add: untouched_def)
  next
    case False
    define n where "n = min (length data) INT_MAX"
    have n: "0 < int n" "int n < 2 ^ 31" "nat (int n) \<le> length data" "n \<le> length data" using False by (auto simp: n_def)
    obtain r h1 where wr: "BIO_write M b data (int n) h = (r, h1)" by fastforce
    note W = BIO_write_pair [OF less.prems(1) n(1-3) wr]
    have r: "r = (if room = 0 then -1 else int (min n room))"
      using W less.prems(2) full by (auto simp: room_def)
    have loop: "BIO_write_all (BIO_write M b) data (length data) h =
        (if r \<le> 0 then Some (0, h1) else BIO_write_all (BIO_write M b) (drop (nat r) data) (size_minus (length data) r) h1)"
    proof -
      have "(if length data > INT_MAX then int INT_MAX else int (length data)) = int n" by (simp add: n_def)
      then show ?thesis using False wr by (subst BIO_write_all.simps) (simp only: length_greater_0_conv if_True prod.case not_False_eq_True)
    qed
    show ?thesis
    proof (cases "room = 0")
      case True
      then have "r = -1" "BIO_write_all (BIO_write M b) data (length data) h = Some (0, h1)" using r loop by simp_all
      then show ?thesis using True False W less.prems(2) unfolding room_def [symmetric] by auto
    next
      case open': False
      define k where "k = min n room"
      have k: "r = int k" "0 < k" "k \<le> length data" "k \<le> room" using r open' n by (auto simp: k_def)
      have sm: "size_minus (length data) r = length (drop k data)"
        using k less.prems(3) by (simp add: size_minus_def flip: of_nat_diff)
      have w1: "pair_ok M h1 b p" "untouched h h1 p" "\<not> closed (bb h1 b)" "bsize (bb h1 b) = bsize (bb h b)"
        "waiting (bb h1 b) = waiting (bb h b) @ take k data"
        using W less.prems(2) k(1) by simp_all
      have lk: "length (waiting (bb h1 b)) = length (waiting (bb h b)) + k" unfolding w1(5) using k(3) by simp
      have room1: "bsize (bb h1 b) - length (waiting (bb h1 b)) = room - k" unfolding w1(4) lk room_def by simp
      have shorter: "length (drop k data) < length data" "length (drop k data) < 2 ^ 63" using k False less.prems(3) by auto
      obtain h' where h': "BIO_write_all (BIO_write M b) (drop k data) (length (drop k data)) h1 =
          Some (if length (drop k data) \<le> room - k then 1 else 0, h')"
        "pair_ok M h' b p" "untouched h1 h' p" "\<not> closed (bb h' b)" "bsize (bb h' b) = bsize (bb h1 b)"
        "waiting (bb h' b) = waiting (bb h1 b) @ take (room - k) (drop k data)"
        using less.hyps [OF shorter(1) w1(1,3) shorter(2)] unfolding room1 by blast
      have "length (drop k data) \<le> room - k \<longleftrightarrow> length data \<le> room" using k by auto
      moreover have "take k data @ take (room - k) (drop k data) = take room data" using k(4) by (simp flip: take_add)
      moreover have "BIO_write_all (BIO_write M b) data (length data) h = BIO_write_all (BIO_write M b) (drop k data) (length (drop k data)) h1"
        using loop k(1,2) unfolding sm by simp
      ultimately show ?thesis using h' w1 unfolding room_def [symmetric] by (auto simp: untouched_def)
    qed
  qed
qed

lemma stop_eq_0: "(if c then 0 else -1) = (0 :: int) \<longleftrightarrow> c"
  by simp

text \<open>A new pair, to one end of which some bytes have been written.\<close>

lemma demo_piped:
  assumes "0 < length data" "length data \<le> 17408"
  shows "\<exists>h. pair_run demo_methods 1 2 h ((\<lambda>_. [])(1 := data)) (\<lambda>_. [])"
proof -
  obtain h where h: "BIO_new_bio_pair (\<lambda>_. plenty) demo_methods 1 1 2 0 0 Map.empty = Some ((1, 2, True), h)"
    "pair_ok demo_methods h 1 2" "waiting (bb h 1) = []" "\<not> closed (bb h 1)" "bsize (bb h 1) = 17408"
    using new_pair_result [of 1 2 1 demo_methods plenty 0 0 Map.empty "\<lambda>_. plenty"] plentiful_plenty
    by (auto simp: demo_methods_def plentiful_def pair_allocations_def)
  have 0: "pair_run demo_methods 1 2 h (\<lambda>_. []) (\<lambda>_. [])"
    by (rule pair_run.start [OF h(1)]) (simp_all add: demo_methods_def)
  obtain ret h1 where w: "BIO_write demo_methods 1 data (int (length data)) h = (ret, h1)" by fastforce
  have "ret = int (length data)"
    using BIO_write_pair [OF h(2) _ _ _ w] h(3-5) assms by (simp add: waiting_Nil)
  then show ?thesis using pair_run.writing [OF 0 _ _ _ w] assms by auto
qed

section \<open>Properties\<close>

text \<open>C32: \<open>BIO_read_asn1\<close> on an end of a pair always returns. It returns an object exactly when the bytes the other end
  wrote go on with a DER element that has a one-byte tag, contents of at most \<open>INT_MAX\<close> bytes and \<open>max_len\<close> bytes
  in all, and then takes that element and nothing after it; or, once the other end has shut down writing, with an
  indefinite-length header, when all that is left is returned if it is shorter than \<open>max_len\<close>. It reports the
  error for an empty stream exactly at the end of the file.
\<close>

theorem BIO_read_asn1_pair:
  assumes "pair_run M b1 b2 h w r" "(e, p) \<in> {(b1, b2), (b2, b1)}" "plentiful a" "max_len < 2 ^ 63"
  shows "let c = drop (length (r e)) (w p) in \<exists>res h'. BIO_read_asn1 a (BIO_read M e) max_len h = Some (res, h') \<and>
    (res = Inl HEADER_TOO_LONG \<longleftrightarrow> c = [] \<and> closed (bb h p)) \<and>
    (\<forall>x. res = Inr x \<longleftrightarrow> definite_object max_len c x \<or> closed (bb h p) \<and> indefinite_object max_len c x) \<and>
    (\<forall>x. res = Inr x \<longrightarrow> waiting (bb h' p) = drop (length x) c)"
proof -
  note asn1 = pair_reader.read_asn1 [OF assms(3) run_end(1) [OF assms(1,2)] assms(4)]
  show ?thesis using asn1 unfolding run_end(3) [OF assms(1,2)] Let_def stop_eq_0 by blast
qed

theorem BIO_read_asn1_pair_witness:
  "\<exists>h h'. BIO_read_asn1 plenty (BIO_read demo_methods 2) 100 h = Some (Inr [2, 1, 5], h') \<and> waiting (bb h' 1) = [9]"
proof -
  obtain h where run: "pair_run demo_methods 1 2 h ((\<lambda>_. [])(1 := [2, 1, 5, 9])) (\<lambda>_. [])"
    using demo_piped [of "[2, 1, 5, 9]"] by auto
  have "definite_object 100 [2, 1, 5, 9] [2, 1, 5]" by (subst definite_short) simp_all
  moreover obtain res h' where "BIO_read_asn1 plenty (BIO_read demo_methods 2) 100 h = Some (res, h')"
    "\<forall>x. definite_object 100 [2, 1, 5, 9] x \<longrightarrow> res = Inr x" "\<forall>x. res = Inr x \<longrightarrow> waiting (bb h' 1) = drop (length x) [2, 1, 5, 9]"
    using BIO_read_asn1_pair [OF run _ plentiful_plenty, of 2 1 100] by (auto simp: Let_def)
  ultimately have "BIO_read_asn1 plenty (BIO_read demo_methods 2) 100 h = Some (Inr [2, 1, 5], h') \<and> waiting (bb h' 1) = [9]"
    by auto
  then show ?thesis by blast
qed

text \<open>C33: A DER document built with a CBB, written to one end of a pair whose ring is open, empty and large enough, is
  read back whole by \<open>BIO_read_asn1\<close> at the other end, and the tree reader gives the document again. The outer tag is
  one byte and the document at most \<open>INT_MAX\<close> bytes, which are the limits of \<open>BIO_read_asn1\<close>.
\<close>

theorem document_through_pair:
  assumes run: "pair_run M b1 b2 h w r" and ends: "(e, p) \<in> {(b1, b2), (b2, b1)}"
    and all_read: "w e = r p" and open': "\<not> closed (bb h e)"
    and doc: "plentiful a" "cap < 2 ^ 63" "well_formed t" "short_tag (tree_tag t)"
    and room: "length (encode t) \<le> bsize (bb h e)" "length (encode t) \<le> INT_MAX"
  shows "\<exists>c1 c2 c3 out h1 h2. CBB_init a x cap = (Some (), c1) \<and> write_tree a x t c1 = (Some (), c2) \<and>
    CBB_finish a x True True c2 = (Some out, c3) \<and>
    BIO_write_all (BIO_write M e) out (length out) h = Some (1, h1) \<and>
    BIO_read_asn1 a (BIO_read M p) INT_MAX h1 = Some (Inr out, h2) \<and> read_trees out = Some [t] \<and> waiting (bb h2 e) = []"
proof -
  have "length (encode t) < 2 ^ 62" "length (encode t) \<le> 0xfffffffe" using room(2) by simp_all
  then have "\<exists>c1 c2 c3 out. CBB_init a x cap = (Some (), c1) \<and> write_tree a x t c1 = (Some (), c2) \<and>
      CBB_finish a x True True c2 = (Some out, c3) \<and> out = encode t"
    using session [OF doc(1,2) _ write_tree_appends, of t x] by blast
  moreover note ok = run_end [OF run ends]
  have empty: "waiting (bb h e) = []" using ok(2) all_read by simp
  obtain h1 where h1: "BIO_write_all (BIO_write M e) (encode t) (length (encode t)) h = Some (1, h1)" "pair_ok M h1 e p"
    "waiting (bb h1 e) = encode t"
    using write_all_pair [OF ok(1) open', of "encode t"] room empty by auto
  have "definite_object INT_MAX (encode t) (encode t)"
    unfolding definite_object_def short_element_def encode_eq
    using doc(3,4) well_formed_length [OF doc(3)] room(2) length_der_element [of "tree_contents t" "tree_tag t"]
    by (intro exI [of _ "tree_contents t"] exI [of _ "[]"]) (auto simp: encode_eq)
  then obtain h2 where "BIO_read_asn1 a (BIO_read M p) INT_MAX h1 = Some (Inr (encode t), h2)" "waiting (bb h2 e) = []"
    using pair_reader.read_asn1 [OF doc(1) pair_ok_sym [OF h1(2)], of INT_MAX] unfolding h1(3) by auto
  moreover have "read_trees (encode t) = Some [t]" using doc(3) by (simp add: read_trees_iff)
  ultimately show ?thesis using h1(1) by blast
qed

theorem document_through_pair_witness:
  "\<exists>c1 c2 c3 out h h1 h2. CBB_init plenty 0 0 = (Some (), c1) \<and> write_tree plenty 0 demo_tree c1 = (Some (), c2) \<and>
    CBB_finish plenty 0 True True c2 = (Some out, c3) \<and>
    BIO_write_all (BIO_write demo_methods 2) out (length out) h = Some (1, h1) \<and>
    BIO_read_asn1 plenty (BIO_read demo_methods 1) INT_MAX h1 = Some (Inr out, h2) \<and> read_trees out = Some [demo_tree]"
proof -
  obtain h where run: "pair_run demo_methods 1 2 h ((\<lambda>_. [])(1 := [7, 8])) ((\<lambda>_. [])(2 := [7]))" and c: "\<not> closed (bb h 2)" "bsize (bb h 2) = 17408"
    using demo_run by blast
  have "length (encode demo_tree) \<le> 17408" "short_tag (tree_tag demo_tree)"
    by (simp_all add: demo_tree_def der_element_def der_header_def der_tag_def der_length_def short_tag_def)
  then show ?thesis
    using document_through_pair [OF run, of 2 1 plenty 0 demo_tree 0] c plentiful_plenty demo_tree_ok by (simp del: split_paired_Ex) blast
qed

section \<open>Errors other than -1\<close>

text \<open>A BIO whose second read fails with -2, after an indefinite-length header.\<close>

definition faulty_read :: "int \<Rightarrow> nat \<Rightarrow> (int \<times> bytes) \<times> nat" where
  "faulty_read n k = (if k = 0 then (2, [0x30, 0x80]) else if k = 1 then (-2, []) else if k = 2 then (1, [7]) else (0, []), k + 1)"

text \<open>Only -1 counts as an error in \<open>bio_read_all\<close>. When a read fails with -2, as the methods of a BIO may, the loop steps
  back two bytes: here the header that has been read is overwritten, and \<open>BIO_read_asn1\<close> reports success with a
  single byte that is no ASN.1 object.
\<close>

lemma read_all_takes_errors_for_lengths:
  "BIO_read_asn1 plenty faulty_read 4098 0 = Some (Inr [7], 4)"
proof -
  obtain f where f: "OPENSSL_malloc plenty 4098 = Some f" using plentiful_malloc [OF plentiful_plenty, of 4098] by auto
  define out where "out = store_at 0 [0x30, 0x80] (map f [0..<4098])"
  define out1 where "out1 = store_at 0 [7] (store_at 2 [] out)"
  have loop: "read_all_loop plenty faulty_read 4098 4098 2 out 1 = Some (Some (take 1 out1), 4)"
  proof -
    have "read_all_loop plenty faulty_read 4098 4098 1 out1 3 = Some (Some (take 1 out1), 4)"
      by (subst read_all_loop.simps) (simp add: faulty_read_def)
    then have "read_all_loop plenty faulty_read 4098 4098 0 (store_at 2 [] out) 2 = Some (Some (take 1 out1), 4)"
      by (subst read_all_loop.simps) (simp add: faulty_read_def size_minus_def out1_def)
    then show ?thesis by (subst read_all_loop.simps) (simp add: faulty_read_def size_minus_def flip: numeral_2_eq_2)
  qed
  have "take 1 out1 = [7]" by (simp add: out1_def store_at_def)
  then have all: "bio_read_all plenty faulty_read [0x30, 0x80] 4098 1 = Some (Some [7], 4)"
    using loop f by (simp add: bio_read_all_def kChunkSize_def size_wrap_def Let_def out_def flip: numeral_2_eq_2)
  have "bio_read_full faulty_read 2 0 = Some (Inr [0x30, 0x80], 1)"
    unfolding bio_read_full_def
    by (subst read_full_loop.simps, simp add: faulty_read_def size_minus_def, subst read_full_loop.simps, simp)
  then show ?thesis using all by (simp add: BIO_read_asn1_def Let_def)
qed

end
