(* ===== verification/Bio_Chain.thy ===== *)
theory Bio_Chain
  imports Pair_Runs
begin

text \<open>
  Chains of BIOs: \<open>BIO_push\<close>, \<open>BIO_pop\<close>, \<open>BIO_find_type\<close> and \<open>BIO_free\<close> on the list of the BIOs of a chain.
\<close>

definition first :: "nat list \<Rightarrow> nat" where
  "first bs = (case bs of [] \<Rightarrow> 0 | b # _ \<Rightarrow> b)"

lemma first_simps [simp]: "first [] = 0" "first (b # bs) = b"
  by (simp_all add: first_def)

text \<open>\<open>bs\<close> are the BIOs from \<open>first bs\<close> on, which ends in NULL.\<close>

fun chain :: "'p bios \<Rightarrow> nat list \<Rightarrow> bool" where
  "chain h [] \<longleftrightarrow> True"
| "chain h (b # bs) \<longleftrightarrow> b \<noteq> 0 \<and> h b \<noteq> None \<and> next_bio (the (h b)) = first bs \<and> b \<notin> set bs \<and> chain h bs"

lemma chain_cong:
  "(\<And>b. b \<in> set bs \<Longrightarrow> h' b \<noteq> None \<and> next_bio (the (h' b)) = next_bio (the (h b))) \<Longrightarrow> chain h bs \<Longrightarrow> chain h' bs"
  by (induction bs) auto

lemma chain_update: "b \<notin> set bs \<Longrightarrow> chain h bs \<Longrightarrow> chain (h(b := x)) bs"
  by (induction bs) auto

lemma chain_distinct: "chain h bs \<Longrightarrow> distinct bs"
  by (induction bs) auto

lemma first_not_0: "chain h (b # bs) \<Longrightarrow> bs \<noteq> [] \<Longrightarrow> first bs \<noteq> 0"
  by (cases bs) auto

section \<open>Joining\<close>

lemma last_bio_loop: "chain h (b # bs) \<Longrightarrow> last_bio_loop h b = Some (last (b # bs))"
proof (induction bs arbitrary: b)
  case Nil
  then show ?case by (subst last_bio_loop.simps) simp
next
  case (Cons c bs)
  then show ?case by (subst last_bio_loop.simps) simp
qed

lemma chain_append:
  "chain h bs \<Longrightarrow> bs \<noteq> [] \<Longrightarrow> chain h cs \<Longrightarrow> set bs \<inter> set cs = {} \<Longrightarrow>
   chain (update_bio (last bs) (\<lambda>x. x\<lparr>next_bio := first cs\<rparr>) h) (bs @ cs)"
proof (induction bs)
  case (Cons b bs)
  show ?case
  proof (cases "bs = []")
    case True
    have "chain (h(b \<mapsto> (the (h b))\<lparr>next_bio := first cs\<rparr>)) (b # cs)"
      using True Cons.prems chain_update [of b cs h] by simp
    then show ?thesis by (simp only: True last.simps append_Cons append_Nil if_True simp_thms)
  next
    case False
    then have "b \<noteq> last bs" "first (bs @ cs) = first bs" using Cons.prems(1) by (auto simp: first_def split: list.split)
    then show ?thesis using Cons False by auto
  qed
qed simp

lemma push_chain:
  assumes "chain h bs" "chain h cs" "set bs \<inter> set cs = {}"
  shows "\<exists>h'. BIO_push (first bs) (first cs) h = Some (first bs, h') \<and> (bs \<noteq> [] \<longrightarrow> chain h' (bs @ cs)) \<and>
    (\<forall>b. b \<notin> set bs \<longrightarrow> h' b = h b)"
proof (cases bs)
  case Nil
  then show ?thesis by (simp add: BIO_push_def)
next
  case (Cons b bs')
  then have "b \<noteq> 0" "last bs \<in> set bs" using assms(1) by auto
  then show ?thesis
    using Cons assms last_bio_loop [of h b bs'] chain_append [of h bs cs] by (auto simp: BIO_push_def)
qed

section \<open>Searching\<close>

text \<open>\<open>BIO_find_type\<close> takes a \<open>BIO_TYPE_*\<close> value with a nonzero low byte, or the flags of a class of types.\<close>

definition has_type :: "'p methods \<Rightarrow> 'p bios \<Rightarrow> u32 \<Rightarrow> nat \<Rightarrow> bool" where
  "has_type M h t b \<longleftrightarrow> bio_meth (the (h b)) \<noteq> 0 \<and>
     (if t AND 0xff = 0 then type_id (the_method M h b) AND t \<noteq> 0 else type_id (the_method M h b) = t)"

lemma find_type_loop: "chain h (b # bs) \<Longrightarrow> find_type_loop M t h b = Some (first (dropWhile (\<lambda>b. \<not> has_type M h t b) (b # bs)))"
proof (induction bs arbitrary: b)
  case Nil
  then show ?case by (subst find_type_loop.simps) (simp add: has_type_def Let_def)
next
  case (Cons c bs)
  then show ?case by (subst find_type_loop.simps) (simp add: has_type_def Let_def)
qed

lemma find_type_chain: "chain h bs \<Longrightarrow> BIO_find_type M (first bs) t h = Some (first (dropWhile (\<lambda>b. \<not> has_type M h t b) bs))"
  using find_type_loop [of h "hd bs" "tl bs" M t] by (cases bs) (auto simp: BIO_find_type_def)

section \<open>Freeing\<close>

text \<open>The parts of a BIO that chains and reference counts are about.\<close>

definition links :: "'p bios \<Rightarrow> nat \<Rightarrow> (nat \<times> nat \<times> nat) option" where
  "links h b = map_option (\<lambda>x. (bio_meth x, references x, next_bio x)) (h b)"

lemma links_next: "links h' b = links h b \<Longrightarrow> h b \<noteq> None \<Longrightarrow> h' b \<noteq> None \<and> next_bio (the (h' b)) = next_bio (the (h b))"
  by (auto simp: links_def)

lemma links_refs: "links h' b = links h b \<Longrightarrow> references (the (h' b)) = references (the (h b)) \<or> h b = None \<and> h' b = None"
  by (auto simp: links_def map_option_case split: option.splits)

text \<open>
  What \<open>BIO_free\<close> needs of the methods: when a BIO goes, its \<open>destroy\<close> function may change what other BIOs point at,
  and leaves their links and counts alone. \<open>good\<close> is what the methods rely on.
\<close>

locale bio_destroyer =
  fixes M :: "'p methods" and good :: "'p bios \<Rightarrow> bool"
  assumes good_cong: "good h \<Longrightarrow> (\<And>b. map_option (\<lambda>x. (ptr x, bio_meth x)) (h' b) = map_option (\<lambda>x. (ptr x, bio_meth x)) (h b)) \<Longrightarrow>
      good h'"
    and destroyed: "good h \<Longrightarrow> h b \<noteq> None \<Longrightarrow>
      h' = (if unsupported M h b destroy then h else the (destroy (the_method M h b)) b h) \<Longrightarrow>
      good (h'(b := None)) \<and> (\<forall>c. c \<noteq> b \<longrightarrow> links h' c = links h c)"
begin

text \<open>BIOs are freed up to the first one that someone else still refers to, whose count goes down.\<close>

lemma free_chain:
  "chain h bs \<Longrightarrow> good h \<Longrightarrow> (\<forall>b \<in> set bs. 0 < references (the (h b)) \<and> references (the (h b)) < CRYPTO_REFCOUNT_MAX) \<Longrightarrow>
   \<exists>h'. BIO_free M (first bs) h = Some (if \<forall>b \<in> set bs. references (the (h b)) = 1 then 1 else 0, h') \<and> good h' \<and>
     (let freed = takeWhile (\<lambda>b. references (the (h b)) = 1) bs; kept = dropWhile (\<lambda>b. references (the (h b)) = 1) bs in
       (\<forall>b \<in> set freed. h' b = None) \<and> chain h' kept \<and>
       (kept \<noteq> [] \<longrightarrow> references (the (h' (hd kept))) = references (the (h (hd kept))) - 1) \<and>
       (\<forall>b. b \<notin> set freed \<and> (kept = [] \<or> b \<noteq> hd kept) \<longrightarrow> links h' b = links h b))"
proof (induction bs arbitrary: h)
  case Nil
  then show ?case by (subst BIO_free.simps) simp
next
  case (Cons b bs)
  define x where "x = the (h b)"
  have b: "b \<noteq> 0" "h b = Some x" "next_bio x = first bs" "b \<notin> set bs" "chain h bs" "0 < references x" "references x < CRYPTO_REFCOUNT_MAX"
    using Cons.prems by (auto simp: x_def)
  show ?case
  proof (cases "references x = 1")
    case False
    define h' where "h' = h(b \<mapsto> x\<lparr>references := references x - 1\<rparr>)"
    have "BIO_free M b h = Some (0, h')"
      using b False by (subst BIO_free.simps) (simp add: CRYPTO_refcount_dec_and_test_zero_def h'_def Let_def)
    moreover have "good h'" using Cons.prems(2) b(2) by (auto intro!: good_cong [of h] simp: h'_def)
    moreover have "chain h' (b # bs)" using Cons.prems(1) b by (auto simp: h'_def chain_update)
    ultimately show ?thesis using b False by (auto simp: h'_def links_def Let_def)
  next
    case True
    define h1 where "h1 = h(b \<mapsto> x\<lparr>references := 0, next_bio := 0\<rparr>)"
    define h2 where "h2 = (if unsupported M h1 b destroy then h1 else the (destroy (the_method M h1 b)) b h1)"
    define h3 where "h3 = h2(b := None)"
    have step: "BIO_free M b h = BIO_free M (first bs) h3"
      using b True by (subst BIO_free.simps)
        (simp add: CRYPTO_refcount_dec_and_test_zero_def BIO_pop_def h3_def h2_def h1_def Let_def)
    have "good h1" using Cons.prems(2) b(2) by (auto intro!: good_cong [of h] simp: h1_def)
    then have h3: "good h3" "\<And>c. c \<noteq> b \<Longrightarrow> links h3 c = links h c"
      using destroyed [of h1 b h2] by (auto simp: h3_def h2_def h1_def links_def)
    have same: "h3 c \<noteq> None \<and> next_bio (the (h3 c)) = next_bio (the (h c)) \<and> references (the (h3 c)) = references (the (h c))"
      if "c \<in> set bs" for c
    proof -
      have "h c \<noteq> None" using that b(5) by (induction bs) auto
      moreover have "c \<noteq> b" using that b(4) by blast
      ultimately show ?thesis using h3(2) [of c] by (auto simp: links_def)
    qed
    have "chain h3 bs" using same b(5) by (intro chain_cong [of bs h3 h]) auto
    then obtain h' where h': "BIO_free M (first bs) h3 = Some (if \<forall>b \<in> set bs. references (the (h3 b)) = 1 then 1 else 0, h')" "good h'"
      "let freed = takeWhile (\<lambda>b. references (the (h3 b)) = 1) bs; kept = dropWhile (\<lambda>b. references (the (h3 b)) = 1) bs in
       (\<forall>b \<in> set freed. h' b = None) \<and> chain h' kept \<and>
       (kept \<noteq> [] \<longrightarrow> references (the (h' (hd kept))) = references (the (h3 (hd kept))) - 1) \<and>
       (\<forall>b. b \<notin> set freed \<and> (kept = [] \<or> b \<noteq> hd kept) \<longrightarrow> links h' b = links h3 b)"
      using Cons.IH [of h3] Cons.prems(3) h3(1) same by auto
    have tw: "takeWhile (\<lambda>b. references (the (h3 b)) = 1) bs = takeWhile (\<lambda>b. references (the (h b)) = 1) bs"
      "dropWhile (\<lambda>b. references (the (h3 b)) = 1) bs = dropWhile (\<lambda>b. references (the (h b)) = 1) bs"
      using same by (auto intro: takeWhile_cong dropWhile_cong)
    define freed kept where "freed = takeWhile (\<lambda>b. references (the (h b)) = 1) bs" and "kept = dropWhile (\<lambda>b. references (the (h b)) = 1) bs"
    have parts: "set freed \<subseteq> set bs" "set kept \<subseteq> set bs"
      unfolding freed_def kept_def by (auto dest: set_takeWhileD set_dropWhileD)
    have hkin: "kept \<noteq> [] \<Longrightarrow> hd kept \<in> set bs" using parts(2) hd_in_set [of kept] by blast
    have hk: "kept \<noteq> [] \<longrightarrow> references (the (h3 (hd kept))) = references (the (h (hd kept)))"
      using parts(2) hd_in_set [of kept] same [of "hd kept"] by blast
    have res: "\<forall>b \<in> set freed. h' b = None" "chain h' kept" "kept \<noteq> [] \<longrightarrow> references (the (h' (hd kept))) = references (the (h (hd kept))) - 1"
      "\<forall>b. b \<notin> set freed \<and> (kept = [] \<or> b \<noteq> hd kept) \<longrightarrow> links h' b = links h3 b"
      using h'(3) hk unfolding tw Let_def freed_def [symmetric] kept_def [symmetric] by auto
    have "b \<notin> set freed" "kept = [] \<or> b \<noteq> hd kept" using parts b(4) hkin by auto
    then have "links h' b = links h3 b" using res(4) by blast
    then have gone: "h' b = None" by (simp add: h3_def links_def)
    have "(\<forall>c \<in> set bs. references (the (h3 c)) = 1) \<longleftrightarrow> (\<forall>c \<in> set (b # bs). references (the (h c)) = 1)"
      using same True by (auto simp: x_def)
    then have "BIO_free M (first (b # bs)) h = Some (if \<forall>c \<in> set (b # bs). references (the (h c)) = 1 then 1 else 0, h')"
      using step h'(1) by simp
    moreover have "takeWhile (\<lambda>b. references (the (h b)) = 1) (b # bs) = b # freed" "dropWhile (\<lambda>b. references (the (h b)) = 1) (b # bs) = kept"
      using True by (simp_all add: freed_def kept_def x_def)
    moreover have "\<forall>c. c \<notin> set (b # freed) \<and> (kept = [] \<or> c \<noteq> hd kept) \<longrightarrow> links h' c = links h c"
      using res(4) h3(2) by auto
    ultimately show ?thesis using h'(2) res(1-3) gone unfolding Let_def by auto
  qed
qed

end

section \<open>Freeing pairs\<close>

text \<open>Every BIO is an end of a pair or has been one; those that have a peer are its peer.\<close>

definition paired :: "bio_bio bios \<Rightarrow> bool" where
  "paired h \<longleftrightarrow> h 0 = None \<and> (\<forall>b x. h b = Some x \<longrightarrow> bio_meth x \<noteq> 0 \<and>
     (peer (ptr x) \<noteq> 0 \<longrightarrow> peer (ptr x) \<noteq> b \<and> h (peer (ptr x)) \<noteq> None \<and> peer (bb h (peer (ptr x))) = b))"

lemma pairedD:
  "paired h \<Longrightarrow> h 0 = None"
  "paired h \<Longrightarrow> h b = Some x \<Longrightarrow> bio_meth x \<noteq> 0"
  "paired h \<Longrightarrow> h b = Some x \<Longrightarrow> peer (ptr x) \<noteq> 0 \<Longrightarrow>
    peer (ptr x) \<noteq> b \<and> h (peer (ptr x)) \<noteq> None \<and> peer (bb h (peer (ptr x))) = b"
  unfolding paired_def by blast+

lemma paired_cong:
  assumes "paired h" "\<And>b. map_option (\<lambda>x. (ptr x, bio_meth x)) (h' b) = map_option (\<lambda>x. (ptr x, bio_meth x)) (h b)"
  shows "paired h'"
proof -
  have eq: "h' b = Some x \<Longrightarrow> \<exists>y. h b = Some y \<and> ptr y = ptr x \<and> bio_meth y = bio_meth x" "h' b = None \<longleftrightarrow> h b = None" for b x
    using assms(2) [of b] by (auto simp: map_option_case split: option.splits)
  have bb: "bb h' b = bb h b" if "h b \<noteq> None" for b
    using eq that by (cases "h' b") fastforce+
  show ?thesis unfolding paired_def
  proof (intro conjI allI impI)
    show "h' 0 = None" using assms(1) eq(2) by (simp add: paired_def)
    fix b x
    assume "h' b = Some x"
    then obtain y where y: "h b = Some y" "ptr y = ptr x" "bio_meth y = bio_meth x" using eq(1) by blast
    have old: "bio_meth y \<noteq> 0" "peer (ptr y) \<noteq> 0 \<Longrightarrow> peer (ptr y) \<noteq> b \<and> h (peer (ptr y)) \<noteq> None \<and> peer (bb h (peer (ptr y))) = b"
      using assms(1) y(1) by (auto simp: paired_def)
    show "bio_meth x \<noteq> 0" using old y by simp
    assume "peer (ptr x) \<noteq> 0"
    then show "peer (ptr x) \<noteq> b" "h' (peer (ptr x)) \<noteq> None" "peer (bb h' (peer (ptr x))) = b"
      using old(2) y eq(2) bb by auto
  qed
qed

interpretation pair_free: bio_destroyer "\<lambda>_. methods_biop a" paired for a
proof
  fix h h' :: "bio_bio bios" and b :: nat
  show "paired h'" if "paired h" "\<And>b. map_option (\<lambda>x. (ptr x, bio_meth x)) (h' b) = map_option (\<lambda>x. (ptr x, bio_meth x)) (h b)"
    using that by (rule paired_cong)
  assume ok: "paired h" "h b \<noteq> None"
    and h': "h' = (if unsupported (\<lambda>_. methods_biop a) h b destroy then h else the (destroy (methods_biop a)) b h)"
  obtain x where x: "h b = Some x" "bio_meth x \<noteq> 0" "b \<noteq> 0" using ok by (fastforce simp: paired_def)
  then have h': "h' = bio_free b h" using h' by (simp add: unsupported_def methods_biop_def)
  have h0: "h 0 = None" using ok(1) unfolding paired_def by blast
  show "paired (h'(b := None)) \<and> (\<forall>c. c \<noteq> b \<longrightarrow> links h' c = links h c)"
  proof (cases "peer (ptr x) = 0")
    case True
    then have "h' = h" using h' x by (simp add: bio_free_def)
    moreover have "peer (ptr y) \<noteq> b" if "h c = Some y" for c y
      using ok(1) that x True by (fastforce simp: paired_def)
    ultimately show ?thesis using ok(1) by (auto simp: paired_def)
  next
    case False
    define p where "p = peer (ptr x)"
    obtain y where y: "h p = Some y" "peer (ptr y) = b" "p \<noteq> b" "p \<noteq> 0" "bio_meth y \<noteq> 0"
      using ok(1) x False unfolding paired_def p_def by fastforce
    have "h'(b := None) = h(p \<mapsto> y\<lparr>init := False, ptr := (ptr y)\<lparr>peer := 0, len := 0, offset := 0\<rparr>\<rparr>, b := None)"
      using h' x y by (auto simp: bio_free_def bio_destroy_pair_def Let_def p_def [symmetric] fun_eq_iff)
    moreover have "links h' c = links h c" if "c \<noteq> b" for c
      using h' x y that by (auto simp: bio_free_def bio_destroy_pair_def Let_def p_def [symmetric] links_def)
    moreover have "paired (h(p \<mapsto> y\<lparr>init := False, ptr := (ptr y)\<lparr>peer := 0, len := 0, offset := 0\<rparr>\<rparr>, b := None))"
      unfolding paired_def
    proof (intro conjI allI impI)
      fix c z
      assume z: "(h(p \<mapsto> y\<lparr>init := False, ptr := (ptr y)\<lparr>peer := 0, len := 0, offset := 0\<rparr>\<rparr>, b := None)) c = Some z"
      show "bio_meth z \<noteq> 0" using z y(5) pairedD(2) [OF ok(1)] by (auto split: if_split_asm)
      assume nz: "peer (ptr z) \<noteq> 0"
      then have c: "c \<noteq> b" "c \<noteq> p" "h c = Some z" using z y(3) by (auto split: if_split_asm)
      then have old: "peer (ptr z) \<noteq> c" "h (peer (ptr z)) \<noteq> None" "peer (bb h (peer (ptr z))) = c"
        using pairedD(3) [OF ok(1) c(3) nz] by blast+
      have "peer (bb h b) = p" "peer (bb h p) = b" using x(1) y(1,2) by (simp_all add: p_def)
      then have "peer (ptr z) \<noteq> b" "peer (ptr z) \<noteq> p" using old(3) c(1,2) by metis+
      moreover note old
      ultimately show "peer (ptr z) \<noteq> c"
        "(h(p \<mapsto> y\<lparr>init := False, ptr := (ptr y)\<lparr>peer := 0, len := 0, offset := 0\<rparr>\<rparr>, b := None)) (peer (ptr z)) \<noteq> None"
        "peer (bb (h(p \<mapsto> y\<lparr>init := False, ptr := (ptr y)\<lparr>peer := 0, len := 0, offset := 0\<rparr>\<rparr>, b := None)) (peer (ptr z))) = c"
        by simp_all
    qed (use h0 x(3) y(4) in simp)
    ultimately show ?thesis by simp
  qed
qed

section \<open>Links in runs\<close>

text \<open>Reading, writing and controlling a pair leaves links and reference counts alone.\<close>

definition linked :: "bio_bio bios \<Rightarrow> nat \<Rightarrow> nat \<times> nat" where
  "linked h b = (references (the (h b)), next_bio (the (h b)))"

lemma retry_links [simp]:
  "references (BIO_clear_retry_flags x) = references x" "next_bio (BIO_clear_retry_flags x) = next_bio x"
  "references (BIO_set_retry_read x) = references x" "next_bio (BIO_set_retry_read x) = next_bio x"
  "references (BIO_set_retry_write x) = references x" "next_bio (BIO_set_retry_write x) = next_bio x"
  by (simp_all add: BIO_clear_retry_flags_def BIO_set_retry_read_def BIO_set_retry_write_def)

lemma make_pair_linked: "bio_make_pair a1 a2 b1 b2 n1 n2 h = (ok, h') \<Longrightarrow> linked h' c = linked h c"
  by (auto simp: bio_make_pair_def Let_def linked_def split: if_split_asm prod.split_asm)

lemma new_pair_linked:
  assumes "BIO_new_bio_pair al M m b1 b2 n1 n2 h = Some ((b1, b2, True), h')" "b1 \<noteq> b2" "b1 \<noteq> 0" "b2 \<noteq> 0" "m \<noteq> 0"
    "M m = methods_biop a" "n1 < 2 ^ 63" "n2 < 2 ^ 63" "h b1 = None" "h b2 = None"
  shows "linked h' b1 = (1, 0)" "linked h' b2 = (1, 0)"
proof -
  define g where "g = h(b1 \<mapsto> fresh_bio m, b2 \<mapsto> fresh_bio m)"
  have "bio_make_pair (al 4) (al 5) b1 b2 n1 n2 g = (True, h')"
    using new_pair_cases [where h = h and M = M and m = m, OF assms(2-) g_def, of al] assms(1)
    by (auto split: if_split_asm prod.split_asm bool.split_asm option.split_asm)
  moreover have "linked g b1 = (1, 0)" "linked g b2 = (1, 0)" using assms(2) by (simp_all add: g_def linked_def fresh_bio_def)
  ultimately show "linked h' b1 = (1, 0)" "linked h' b2 = (1, 0)" using make_pair_linked by metis+
qed

lemma bio_read_linked:
  assumes "bio_read b n h = (res, h')" "ring_ok (bb h (peer (bb h b)))" "0 < n" "n < 2 ^ 31" "peer (bb h b) \<noteq> b"
  shows "linked h' c = linked h c"
proof -
  define q where "q = bb h (peer (bb h b))"
  have ret: "ring_read (q\<lparr>request := 0\<rparr>) k [] \<noteq> None" if "0 < k" "k \<le> len q" for k
    using ring_read_ok [of "q\<lparr>request := 0\<rparr>" k "[]"] assms(2) that by (auto simp: q_def)
  have k: "0 < nat n" using assms(3) by simp
  have "ring_read (q\<lparr>request := 0\<rparr>) (if len q < nat n then len q else nat n) [] \<noteq> None" if "len q \<noteq> 0"
    using ret k that by auto
  then show ?thesis using assms(1,5) unfolding bio_read_def Let_def size_of_int_pos [OF assms(3,4)]
    by (auto simp: linked_def q_def split: if_split_asm option.splits prod.splits)
qed

lemma bio_write_linked:
  assumes "bio_write b data n h = (res, h')" "ring_ok (bb h b)" "0 < n" "n < 2 ^ 31" "nat n \<le> length data"
  shows "linked h' c = linked h c"
proof -
  define q where "q = bb h b"
  have ret: "ring_write (q\<lparr>request := 0\<rparr>) k data \<noteq> None" if "0 < k" "len q + k \<le> bsize q" "k \<le> length data" for k
    using ring_write_ok [of "q\<lparr>request := 0\<rparr>" k data] assms(2) that by (auto simp: q_def)
  have k: "0 < nat n" "len q \<le> bsize q" using assms(2,3) by (simp_all add: ring_ok_def q_def)
  have "ring_write (q\<lparr>request := 0\<rparr>) (if bsize q - len q < nat n then bsize q - len q else nat n) data \<noteq> None"
    if "len q \<noteq> bsize q"
    using ret k that assms(5) by auto
  then show ?thesis using assms(1) unfolding bio_write_def Let_def size_of_int_pos [OF assms(3,4)]
    by (auto simp: linked_def q_def split: if_split_asm option.splits prod.splits)
qed

lemma bio_ctrl_linked: "bio_ctrl b cmd num arg h = (res, h') \<Longrightarrow> linked h' c = linked h c"
  unfolding bio_ctrl_def Let_def
  by (auto simp: linked_def split: if_split_asm)

lemma run_linked:
  assumes "pair_run M b1 b2 h w r"
  shows "linked h b1 = (1, 0) \<and> linked h b2 = (1, 0)"
  using assms
proof (induction rule: pair_run.induct)
  case (start a m n1 n2 h0 h)
  then show ?case using new_pair_linked by blast
next
  case (writing h w r e n data ret h')
  obtain p where ok: "pair_ok M h e p" using run_end(1) [OF writing.hyps(1)] writing.hyps(2) by blast
  then have "bwrite (the_method M h e) = Some bio_write" "ring_ok (bb h e)" by (auto simp: pair_ok_def end_ok_def methods_biop_def)
  then have "linked h' c = linked h c" for c
    using writing.hyps(3-5) bio_write_linked [of e data n h]
    by (auto simp: BIO_write_def linked_def split: if_split_asm prod.splits)
  then show ?case using writing.IH by simp
next
  case (reading h w r e n ret data h')
  obtain p where ok: "pair_ok M h e p" using run_end(1) [OF reading.hyps(1)] reading.hyps(2) by blast
  then have "bread (the_method M h e) = Some bio_read" "ring_ok (bb h (peer (bb h e)))" "peer (bb h e) \<noteq> e"
    by (auto simp: pair_ok_def end_ok_def methods_biop_def)
  then have "linked h' c = linked h c" for c
    using reading.hyps(3,4) bio_read_linked [of e n h]
    by (auto simp: BIO_read_def linked_def split: if_split_asm prod.splits)
  then show ?case using reading.IH by simp
next
  case (control h w r e cmd num arg ret h')
  obtain p where ok: "pair_ok M h e p" using run_end(1) [OF control.hyps(1)] control.hyps(2) by blast
  then have "ctrl (the_method M h e) = Some bio_ctrl" by (auto simp: pair_ok_def end_ok_def methods_biop_def)
  then have "linked h' c = linked h c" for c using control.hyps(3) bio_ctrl_linked [of e cmd num arg h]
    by (auto simp: BIO_ctrl_def split: if_split_asm)
  then show ?case using control.IH by simp
qed

section \<open>Properties\<close>

text \<open>\<open>BIO_push\<close> returns and joins two chains, changing nothing but the last link of the first, and \<open>BIO_find_type\<close>
  returns and finds the first BIO of a type in the joined chain, or NULL.
\<close>

lemma BIO_push_joins:
  assumes "chain h bs" "bs \<noteq> []" "chain h cs" "set bs \<inter> set cs = {}"
  shows "\<exists>h'. BIO_push (first bs) (first cs) h = Some (first bs, h') \<and> chain h' (bs @ cs) \<and>
    BIO_find_type M (first bs) t h' = Some (first (dropWhile (\<lambda>b. \<not> has_type M h t b) (bs @ cs))) \<and>
    h' = h(last bs \<mapsto> (the (h (last bs)))\<lparr>next_bio := first cs\<rparr>)"
proof -
  define h' where "h' = h(last bs \<mapsto> (the (h (last bs)))\<lparr>next_bio := first cs\<rparr>)"
  obtain b bs' where b: "bs = b # bs'" using assms(2) by (cases bs) auto
  have c: "chain h' (bs @ cs)" using chain_append [OF assms] by (simp add: h'_def)
  have "BIO_push (first bs) (first cs) h = Some (first bs, h')"
    using last_bio_loop [of h b bs'] assms(1) by (simp add: b BIO_push_def h'_def)
  moreover have "has_type M h' t = has_type M h t" by (auto simp: has_type_def h'_def fun_eq_iff)
  moreover have "first (bs @ cs) = first bs" by (simp add: b)
  ultimately show ?thesis using c find_type_chain [OF c, of M t] by (auto simp: h'_def)
qed

text \<open>A chain of two BIOs of which the second has another owner.\<close>

definition demo_chain :: "bio_bio bios" where
  "demo_chain = [1 \<mapsto> (fresh_bio 1)\<lparr>next_bio := 2\<rparr>, 2 \<mapsto> (fresh_bio 1)\<lparr>references := 2\<rparr>, 3 \<mapsto> fresh_bio 1]"

text \<open>C34: \<open>BIO_free\<close> returns on every chain (of ends of pairs, whose method reaches into their peers). It frees the
  BIOs that nobody else refers to, up to the first one with other owners, which loses one reference; that one and
  what follows stay a chain. It returns 1 exactly when the whole chain has been freed.
\<close>

theorem BIO_free_chain:
  assumes "chain h bs" "paired h" "\<forall>b \<in> set bs. 0 < references (the (h b)) \<and> references (the (h b)) < CRYPTO_REFCOUNT_MAX"
  shows "\<exists>h'. BIO_free (\<lambda>_. methods_biop a) (first bs) h = Some (if \<forall>b \<in> set bs. references (the (h b)) = 1 then 1 else 0, h') \<and>
    paired h' \<and>
    (let freed = takeWhile (\<lambda>b. references (the (h b)) = 1) bs; kept = dropWhile (\<lambda>b. references (the (h b)) = 1) bs in
      (\<forall>b \<in> set freed. h' b = None) \<and> chain h' kept \<and>
      (kept \<noteq> [] \<longrightarrow> references (the (h' (hd kept))) = references (the (h (hd kept))) - 1) \<and>
      (\<forall>b. b \<notin> set freed \<and> (kept = [] \<or> b \<noteq> hd kept) \<longrightarrow> links h' b = links h b))"
  by (rule pair_free.free_chain [OF assms])

theorem BIO_free_chain_witness:
  "\<exists>h'. BIO_free (\<lambda>_. methods_biop plenty) 1 demo_chain = Some (0, h') \<and> h' 1 = None \<and> references (the (h' 2)) = 1"
proof -
  have "chain demo_chain [1, 2]" "paired demo_chain"
    by (auto simp: demo_chain_def fresh_bio_def paired_def zero_bio_bio_def)
  moreover have "\<forall>b \<in> set [1, 2]. 0 < references (the (demo_chain b)) \<and> references (the (demo_chain b)) < CRYPTO_REFCOUNT_MAX"
    "references (the (demo_chain 1)) = 1" "references (the (demo_chain 2)) = 2"
    by (auto simp: demo_chain_def fresh_bio_def)
  ultimately show ?thesis using BIO_free_chain [of demo_chain "[1, 2]" plenty] by (auto simp: Let_def)
qed

text \<open>C35: At any point of a run, an end can be freed with no harm to the other: the other end forgets its peer, reads
  and writes there fail with -2 and change nothing, and it can be freed in turn.
\<close>

theorem BIO_free_one_end:
  assumes run: "pair_run M b1 b2 h w r" and ends: "(e, p) \<in> {(b1, b2), (b2, b1)}"
  shows "\<exists>h1 h2. BIO_free M e h = Some (1, h1) \<and> h1 e = None \<and>
    (\<forall>n data. BIO_read M p n h1 = ((-2, []), h1) \<and> BIO_write M p data n h1 = (-2, h1)) \<and>
    BIO_free M p h1 = Some (1, h2) \<and> h2 = h(b1 := None, b2 := None)"
proof -
  have ok: "pair_ok M h e p" by (rule run_end(1) [OF run ends])
  then have e: "e \<noteq> 0" "p \<noteq> 0" "e \<noteq> p" "peer (bb h e) = p" "bio_meth (the (h e)) \<noteq> 0" "bio_meth (the (h p)) \<noteq> 0"
    by (auto simp: pair_ok_def end_ok_def)
  obtain a1 a2 where m: "the_method M h e = methods_biop a1" "the_method M h p = methods_biop a2"
    using ok by (auto simp: pair_ok_def end_ok_def)
  have l: "references (the (h e)) = 1" "next_bio (the (h e)) = 0" "references (the (h p)) = 1" "next_bio (the (h p)) = 0"
    using run_linked [OF run] ends by (auto simp: linked_def)
  define y where "y = (the (h p))\<lparr>init := False, ptr := (bb h p)\<lparr>peer := 0, len := 0, offset := 0\<rparr>\<rparr>"
  define h1 where "h1 = h(p \<mapsto> y, e := None)"
  have 1: "BIO_free M e h = Some (1, h1)"
    using e l m by (subst BIO_free.simps)
      (simp add: CRYPTO_refcount_dec_and_test_zero_def BIO_pop_def unsupported_def methods_biop_def bio_free_def bio_destroy_pair_def
        Let_def h1_def y_def fun_upd_twist)
  have y: "h1 p = Some y" "\<not> init y" "bio_meth y \<noteq> 0" "M (bio_meth y) = methods_biop a2" "references y = 1" "next_bio y = 0" "peer (ptr y) = 0"
    using e l m by (simp_all add: h1_def y_def)
  have 2: "BIO_read M p n h1 = ((-2, []), h1)" "BIO_write M p data n h1 = (-2, h1)" for n data
    using y e(2) by (simp_all add: BIO_read_def BIO_write_def)
  have "h1 = h1(p \<mapsto> y)" using y(1) by auto
  then have "BIO_free M p h1 = Some (1, h1(p := None))" using BIO_free_end [of M y a2 p h1] y e(2) by simp
  moreover have "h1(p := None) = h(b1 := None, b2 := None)" using ends e(3) by (auto simp: h1_def fun_eq_iff)
  ultimately show ?thesis using 1 2 by (auto simp: h1_def)
qed

theorem BIO_free_one_end_witness:
  "\<exists>h h1. BIO_free demo_methods 1 h = Some (1, h1) \<and> fst (BIO_read demo_methods 2 1 h1) = (-2, [])"
proof -
  obtain h where run: "pair_run demo_methods 1 2 h ((\<lambda>_. [])(1 := [7, 8])) ((\<lambda>_. [])(2 := [7]))" using demo_run by blast
  show ?thesis using BIO_free_one_end [OF run, of 1 2] by fastforce
qed

end
