(* ===== verification/Buf.thy ===== *)
theory Buf
  imports Mem
begin

text \<open>
  Growing buffers (\<open>crypto/buf/buf.c\<close>). The memory at \<open>data\<close> is a list of \<open>max\<close> bytes, empty for NULL.
\<close>

section \<open>The code\<close>

record buf_mem =
  buf_length :: nat
  buf_data :: bytes
  buf_max :: nat

definition BUF_MEM_new :: "allocator \<Rightarrow> buf_mem option" where
  "BUF_MEM_new a =
     (case OPENSSL_malloc a 24 of None \<Rightarrow> None | Some _ \<Rightarrow> Some \<lparr>buf_length = 0, buf_data = [], buf_max = 0\<rparr>)"

definition BUF_MEM_reserve :: "allocator \<Rightarrow> 'a buf_mem_scheme \<Rightarrow> nat \<Rightarrow> bool \<times> 'a buf_mem_scheme" where
  "BUF_MEM_reserve a b cap =
     (if buf_max b \<ge> cap then (True, b)
      else
        let n = size_wrap (cap + 3) in
        if n < cap then (False, b)
        else
          let n = n div 3; alloc_size = size_wrap (n * 4) in
          if alloc_size div 4 \<noteq> n then (False, b)
          else
            (case OPENSSL_realloc a (if buf_data b = [] then None else Some (\<lambda>i. buf_data b ! i, length (buf_data b))) alloc_size of
               None \<Rightarrow> (False, b)
             | Some new_buf \<Rightarrow> (True, b\<lparr>buf_data := map new_buf [0..<alloc_size], buf_max := alloc_size\<rparr>)))"

text \<open>The bytes from \<open>i\<close> on become \<open>xs\<close>.\<close>

definition put_bytes :: "nat \<Rightarrow> bytes \<Rightarrow> bytes \<Rightarrow> bytes" where
  "put_bytes i xs d = take i d @ xs @ drop (i + length xs) d"

definition BUF_MEM_grow :: "allocator \<Rightarrow> 'a buf_mem_scheme \<Rightarrow> nat \<Rightarrow> nat \<times> 'a buf_mem_scheme" where
  "BUF_MEM_grow a b n =
     (case BUF_MEM_reserve a b n of
        (False, b) \<Rightarrow> (0, b)
      | (True, b) \<Rightarrow>
          let b = (if buf_length b < n
            then b\<lparr>buf_data := put_bytes (buf_length b) (replicate (n - buf_length b) 0) (buf_data b)\<rparr> else b) in
          (n, b\<lparr>buf_length := n\<rparr>))"

definition BUF_MEM_grow_clean :: "allocator \<Rightarrow> 'a buf_mem_scheme \<Rightarrow> nat \<Rightarrow> nat \<times> 'a buf_mem_scheme" where
  "BUF_MEM_grow_clean a b n = BUF_MEM_grow a b n"

definition BUF_MEM_append :: "allocator \<Rightarrow> 'a buf_mem_scheme \<Rightarrow> bytes \<Rightarrow> bool \<times> 'a buf_mem_scheme" where
  "BUF_MEM_append a b inp =
     (if length inp = 0 then (True, b)
      else
        let new_len = size_wrap (buf_length b + length inp) in
        if new_len < length inp then (False, b)
        else
          (case BUF_MEM_reserve a b new_len of
             (False, b) \<Rightarrow> (False, b)
           | (True, b) \<Rightarrow> (True, b\<lparr>buf_data := put_bytes (buf_length b) inp (buf_data b), buf_length := new_len\<rparr>)))"

section \<open>What they do\<close>

definition bufm_ok :: "'a buf_mem_scheme \<Rightarrow> bool" where
  "bufm_ok b \<longleftrightarrow> length (buf_data b) = buf_max b \<and> buf_length b \<le> buf_max b \<and> buf_max b < 2 ^ 64"

text \<open>The bytes in use.\<close>

definition buf_contents :: "'a buf_mem_scheme \<Rightarrow> bytes" where
  "buf_contents b = take (buf_length b) (buf_data b)"

lemma length_put_bytes [simp]: "i + length xs \<le> length d \<Longrightarrow> length (put_bytes i xs d) = length d"
  by (simp add: put_bytes_def)

lemma take_put_bytes: "i + length xs \<le> length d \<Longrightarrow> n \<le> i \<Longrightarrow> take n (put_bytes i xs d) = take n d"
  by (simp add: put_bytes_def min_def)

lemma take_put_bytes_end: "i + length xs \<le> length d \<Longrightarrow> take (i + length xs) (put_bytes i xs d) = take i d @ xs"
  by (simp add: put_bytes_def)

lemma BUF_MEM_new_ok: "BUF_MEM_new a = Some b \<Longrightarrow> bufm_ok b \<and> buf_length b = 0"
  by (auto simp: BUF_MEM_new_def bufm_ok_def split: option.split_asm)

lemma BUF_MEM_reserve_ok:
  assumes ok: "bufm_ok b" and n: "n < 2 ^ 64" and r: "BUF_MEM_reserve a b n = (ok', b')"
  shows "bufm_ok b' \<and> buf_length b' = buf_length b \<and> take (buf_max b) (buf_data b') = buf_data b \<and> buf_max b \<le> buf_max b' \<and>
    buf_mem.more b' = buf_mem.more b \<and>
    (if ok' then n \<le> buf_max b' else b' = b \<and> (plentiful a \<longrightarrow> 2 ^ 62 \<le> n))"
proof (cases "buf_max b \<ge> n")
  case True
  then show ?thesis using r ok by (auto simp: BUF_MEM_reserve_def bufm_ok_def)
next
  case big: False
  define n1 where "n1 = size_wrap (n + 3)"
  define sz where "sz = size_wrap (n1 div 3 * 4)"
  define old where "old = (if buf_data b = [] then None else Some (\<lambda>i. buf_data b ! i, length (buf_data b)))"
  have run: "BUF_MEM_reserve a b n = (if n1 < n \<or> sz div 4 \<noteq> n1 div 3 then (False, b) else
      (case OPENSSL_realloc a old sz of None \<Rightarrow> (False, b)
       | Some new_buf \<Rightarrow> (True, b\<lparr>buf_data := map new_buf [0..<sz], buf_max := sz\<rparr>)))"
    unfolding BUF_MEM_reserve_def Let_def n1_def sz_def old_def using big by simp
  have small: "n1 = n + 3 \<and> sz = (n + 3) div 3 * 4 \<and> sz < 2 ^ 63" if "n < 2 ^ 62"
  proof -
    have "n1 = n + 3" using that by (simp add: n1_def size_wrap_def)
    moreover have "(n + 3) div 3 * 4 < 2 ^ 63" using that by simp
    ultimately show ?thesis by (simp add: sz_def size_wrap_def)
  qed
  show ?thesis
  proof (cases "n1 < n \<or> sz div 4 \<noteq> n1 div 3")
    case True
    then have "\<not> n < 2 ^ 62" using small by auto
    then show ?thesis using True r ok by (simp add: run bufm_ok_def)
  next
    case False
    have n1: "n1 = n + 3"
    proof (cases "n + 3 < 2 ^ 64")
      case big: False
      then have "n1 = n + 3 - 2 ^ 64" using n by (simp add: n1_def size_wrap_def le_mod_geq)
      moreover have "n \<le> n1" using False by simp
      ultimately show ?thesis using big n by simp
    qed (simp add: n1_def size_wrap_def)
    have "sz div 4 * 4 \<le> sz" by (rule div_times_less_eq_dividend)
    then have sz: "n \<le> sz" using False n1 by simp
    have sz64: "sz < 2 ^ 64" by (simp add: sz_def size_wrap_def)
    show ?thesis
    proof (cases "OPENSSL_realloc a old sz")
      case None
      have "2 ^ 62 \<le> n" if "plentiful a"
      proof (rule ccontr)
        assume "\<not> 2 ^ 62 \<le> n"
        then have "sz < 2 ^ 63" using small by simp
        then have "OPENSSL_realloc a old sz \<noteq> None"
          using that plentiful_malloc [OF that, of sz] by (auto simp: OPENSSL_realloc_def Let_def split: option.split)
        then show False using None by simp
      qed
      then show ?thesis using None False r ok by (simp add: run bufm_ok_def)
    next
      case (Some f)
      have "take (buf_max b) (map f [0..<sz]) = buf_data b"
      proof (cases "buf_data b = []")
        case True
        then show ?thesis using ok by (simp add: bufm_ok_def)
      next
        case ne: False
        show ?thesis
        proof (rule nth_equalityI)
          show "length (take (buf_max b) (map f [0..<sz])) = length (buf_data b)" using ok big sz by (simp add: bufm_ok_def)
          fix i assume "i < length (take (buf_max b) (map f [0..<sz]))"
          then show "take (buf_max b) (map f [0..<sz]) ! i = buf_data b ! i"
            using ok big sz Some ne realloc_prefix [of a _ "length (buf_data b)" sz f i] by (simp add: bufm_ok_def old_def)
        qed
      qed
      then show ?thesis using Some False r ok big sz sz64 by (auto simp: run bufm_ok_def)
    qed
  qed
qed

lemma BUF_MEM_grow_ok:
  assumes ok: "bufm_ok b" and n: "n < 2 ^ 64" and r: "BUF_MEM_grow a b n = (m, b')"
  shows "m = n \<and> bufm_ok b' \<and> buf_length b' = n \<and> buf_mem.more b' = buf_mem.more b \<and> buf_max b \<le> buf_max b' \<and>
      (\<forall>k \<le> buf_length b. take k (buf_data b') = take k (buf_data b)) \<and>
      (buf_length b \<le> n \<longrightarrow> buf_contents b' = buf_contents b @ replicate (n - buf_length b) 0) \<or>
    m = 0 \<and> b' = b \<and> (plentiful a \<longrightarrow> 2 ^ 62 \<le> n)"
proof -
  obtain ok' b1 where res: "BUF_MEM_reserve a b n = (ok', b1)" by fastforce
  note R = BUF_MEM_reserve_ok [OF ok n res]
  show ?thesis
  proof (cases ok')
    case False
    then show ?thesis using r res R by (simp add: BUF_MEM_grow_def)
  next
    case True
    define z where "z = replicate (n - buf_length b1) (0 :: u8)"
    define d where "d = (if buf_length b1 < n then put_bytes (buf_length b1) z (buf_data b1) else buf_data b1)"
    have b': "m = n" "b' = b1\<lparr>buf_data := d, buf_length := n\<rparr>"
      using r res True by (auto simp: BUF_MEM_grow_def d_def z_def Let_def)
    have fits: "buf_length b1 + length z \<le> length (buf_data b1)" using R True ok by (auto simp: bufm_ok_def z_def)
    have ld: "length d = length (buf_data b1)" using fits by (simp add: d_def)
    have tk: "take k d = take k (buf_data b)" if "k \<le> buf_length b" for k
    proof -
      have "take k d = take k (buf_data b1)" using that fits R by (simp add: d_def take_put_bytes)
      also have "\<dots> = take k (buf_data b)"
        using R ok that by (metis bufm_ok_def min.absorb1 order_trans take_take)
      finally show ?thesis .
    qed
    have "take n d = buf_contents b @ replicate (n - buf_length b) 0" if "buf_length b \<le> n"
    proof (cases "buf_length b < n")
      case True
      then have "take n d = take (buf_length b1) (buf_data b1) @ z"
        using take_put_bytes_end [OF fits] R by (simp add: d_def z_def)
      moreover have "take (buf_length b) (buf_data b1) = take (buf_length b) (buf_data b)"
        using R ok by (metis bufm_ok_def min.absorb1 take_take)
      ultimately show ?thesis using R by (simp add: buf_contents_def z_def)
    qed (use that tk [of n] in \<open>simp add: buf_contents_def\<close>)
    then show ?thesis using R True b' ld tk by (auto simp: bufm_ok_def buf_contents_def)
  qed
qed

lemma BUF_MEM_append_ok:
  assumes ok: "bufm_ok b" and n: "buf_length b + length xs < 2 ^ 64" and r: "BUF_MEM_append a b xs = (ok', b')"
  shows "bufm_ok b' \<and> buf_mem.more b' = buf_mem.more b \<and>
    (if ok' then buf_contents b' = buf_contents b @ xs else b' = b \<and> (plentiful a \<longrightarrow> 2 ^ 62 \<le> buf_length b + length xs))"
proof (cases "xs = []")
  case True
  then show ?thesis using r ok by (simp add: BUF_MEM_append_def)
next
  case ne: False
  have w: "size_wrap (buf_length b + length xs) = buf_length b + length xs" using n by (simp add: size_wrap_def)
  obtain ok1 b1 where res: "BUF_MEM_reserve a b (buf_length b + length xs) = (ok1, b1)" by fastforce
  note R = BUF_MEM_reserve_ok [OF ok n res]
  show ?thesis
  proof (cases ok1)
    case False
    then show ?thesis using r res R ne ok by (simp add: BUF_MEM_append_def w)
  next
    case True
    then have fits: "buf_length b1 + length xs \<le> length (buf_data b1)" using R by (simp add: bufm_ok_def)
    have "take (buf_length b) (buf_data b1) = take (buf_length b) (buf_data b)"
      using R ok by (metis bufm_ok_def min.absorb1 take_take)
    then show ?thesis using r res R True ne fits take_put_bytes_end [OF fits] n
      by (auto simp: BUF_MEM_append_def w bufm_ok_def buf_contents_def)
  qed
qed

end
