(* ===== verification/Bio_Mem.thy ===== *)
theory Bio_Mem
  imports Buf Bio_Read
begin

text \<open>
  Memory BIOs (\<open>crypto/bio/bio_mem.c\<close>): a growing buffer that is written at its end and read at its start, or a
  read-only view of memory of the caller.
\<close>

section \<open>The code\<close>

text \<open>\<open>b->data\<close> is \<open>buf_start\<close> bytes into the memory \<open>buf_data\<close>, which only the read-only BIOs make use of.\<close>

record mem_buf = buf_mem +
  buf_start :: nat

type_synonym mem_bios = "mem_buf option bios"

abbreviation mb :: "mem_bios \<Rightarrow> nat \<Rightarrow> mem_buf" where
  "mb h b \<equiv> the (ptr (the (h b)))"

definition BIO_FLAGS_MEM_RDONLY :: u32 where "BIO_FLAGS_MEM_RDONLY = 0x200"

abbreviation rdonly :: "mem_buf option bio \<Rightarrow> bool" where
  "rdonly x \<equiv> flags x AND BIO_FLAGS_MEM_RDONLY \<noteq> 0"

definition mem_new :: "allocator \<Rightarrow> nat \<Rightarrow> mem_bios \<Rightarrow> bool \<times> mem_bios" where
  "mem_new a b h =
     (case BUF_MEM_new a of
        None \<Rightarrow> (False, h)
      | Some m \<Rightarrow>
          (True, update_bio b (\<lambda>x. x\<lparr>shutdown := 1, init := True, bio_num := -1, ptr := Some (buf_mem.extend m \<lparr>buf_start = 0\<rparr>)\<rparr>) h))"

definition mem_free :: "nat \<Rightarrow> mem_bios \<Rightarrow> mem_bios" where
  "mem_free b h =
     (if shutdown (the (h b)) = 0 \<or> \<not> init (the (h b)) \<or> ptr (the (h b)) = None then h
      else update_bio b (\<lambda>x. x\<lparr>ptr := None\<rparr>) h)"

definition mem_read :: "nat \<Rightarrow> int \<Rightarrow> mem_bios \<Rightarrow> (int \<times> bytes) \<times> mem_bios" where
  "mem_read b outl h =
     (let h = update_bio b BIO_clear_retry_flags h; m = mb h b;
          ret = (if buf_length m < INT_MAX \<and> outl > int_of_size (buf_length m) then int_of_size (buf_length m) else outl) in
      if ret > 0 then
        let out = take (nat ret) (drop (buf_start m) (buf_data m)); m = m\<lparr>buf_length := size_minus (buf_length m) ret\<rparr>;
            m = (if rdonly (the (h b)) then m\<lparr>buf_start := buf_start m + nat ret\<rparr>
                 else m\<lparr>buf_data := put_bytes 0 (take (buf_length m) (drop (nat ret) (buf_data m))) (buf_data m)\<rparr>) in
        ((ret, out), update_bio b (\<lambda>x. x\<lparr>ptr := Some m\<rparr>) h)
      else if buf_length m = 0 then
        let ret = bio_num (the (h b)) in ((ret, []), if ret \<noteq> 0 then update_bio b BIO_set_retry_read h else h)
      else ((ret, []), h))"

definition mem_write :: "allocator \<Rightarrow> nat \<Rightarrow> bytes \<Rightarrow> int \<Rightarrow> mem_bios \<Rightarrow> int \<times> mem_bios" where
  "mem_write a b inp inl h =
     (if rdonly (the (h b)) then (-1, h)
      else
        let h = update_bio b BIO_clear_retry_flags h; m = mb h b; blen = int_of_size (buf_length m) in
        if int INT_MAX - blen < inl then (-1, h)
        else
          (case BUF_MEM_grow_clean a m (size_of_int (blen + inl)) of
             (n, m) \<Rightarrow>
               let h = update_bio b (\<lambda>x. x\<lparr>ptr := Some m\<rparr>) h in
               if n \<noteq> size_of_int (blen + inl) then (-1, h)
               else (inl, update_bio b (\<lambda>x. x\<lparr>ptr :=
                 Some (m\<lparr>buf_data := put_bytes (size_of_int blen) (take (nat inl) inp) (buf_data m)\<rparr>)\<rparr>) h)))"

function newline_loop :: "bytes \<Rightarrow> nat \<Rightarrow> nat \<Rightarrow> nat" where
  "newline_loop p i j = (if i < j then (if p ! i = 10 then i + 1 else newline_loop p (i + 1) j) else i)"
  by pat_completeness auto
termination
  by (relation "measure (\<lambda>(_, i, j). j - i)") auto

declare newline_loop.simps [simp del]

definition mem_gets :: "nat \<Rightarrow> int \<Rightarrow> mem_bios \<Rightarrow> (int \<times> bytes) \<times> mem_bios" where
  "mem_gets b sz h =
     (let h = update_bio b BIO_clear_retry_flags h; m = mb h b; j = int_of_size (buf_length m);
          j = (if sz - 1 < j then sz - 1 else j) in
      if j \<le> 0 then ((0, if sz > 0 then [0] else []), h)
      else
        (case mem_read b (int (newline_loop (drop (buf_start m) (buf_data m)) 0 (nat j))) h of
           ((i, out), h) \<Rightarrow> ((i, if i > 0 then out @ [0] else out), h)))"

abbreviation (input) BIO_CTRL_INFO :: int where "BIO_CTRL_INFO \<equiv> 3"
abbreviation (input) BIO_C_SET_BUF_MEM :: int where "BIO_C_SET_BUF_MEM \<equiv> 114"
abbreviation (input) BIO_C_GET_BUF_MEM_PTR :: int where "BIO_C_GET_BUF_MEM_PTR \<equiv> 115"
abbreviation (input) BIO_C_SET_BUF_MEM_EOF_RETURN :: int where "BIO_C_SET_BUF_MEM_EOF_RETURN \<equiv> 130"

text \<open>
  \<open>ext\<close> has the buffers of the caller by their addresses. What the code stores through \<open>ptr\<close> is the address of the
  buffer or its data, for a caller to read what is in the state here.
\<close>

definition mem_ctrl :: "(nat \<Rightarrow> mem_buf) \<Rightarrow> nat \<Rightarrow> int \<Rightarrow> int \<Rightarrow> nat \<Rightarrow> mem_bios \<Rightarrow> int \<times> mem_bios" where
  "mem_ctrl ext b cmd num p h =
     (let m = mb h b in
      if cmd = BIO_CTRL_RESET then
        (1, if buf_data m \<noteq> [] then
              update_bio b (\<lambda>x. x\<lparr>ptr := Some
                (if rdonly x then m\<lparr>buf_start := buf_start m - (buf_max m - buf_length m), buf_length := buf_max m\<rparr>
                 else m\<lparr>buf_data := replicate (buf_max m) 0, buf_length := 0\<rparr>)\<rparr>) h
            else h)
      else if cmd = BIO_CTRL_EOF then (if buf_length m = 0 then 1 else 0, h)
      else if cmd = BIO_C_SET_BUF_MEM_EOF_RETURN then (1, update_bio b (\<lambda>x. x\<lparr>bio_num := int_of_long num\<rparr>) h)
      else if cmd = BIO_CTRL_INFO then (long_of_size (buf_length m), h)
      else if cmd = BIO_C_SET_BUF_MEM then
        (1, update_bio b (\<lambda>x. x\<lparr>shutdown := int_of_long num, ptr := (if p = 0 then None else Some (ext p))\<rparr>) (mem_free b h))
      else if cmd = BIO_C_GET_BUF_MEM_PTR then (1, h)
      else if cmd = BIO_CTRL_GET_CLOSE then (shutdown (the (h b)), h)
      else if cmd = BIO_CTRL_SET_CLOSE then (1, update_bio b (\<lambda>x. x\<lparr>shutdown := int_of_long num\<rparr>) h)
      else if cmd = BIO_CTRL_WPENDING then (0, h)
      else if cmd = BIO_CTRL_PENDING then (long_of_size (buf_length m), h)
      else if cmd = BIO_CTRL_FLUSH then (1, h)
      else (0, h))"

definition mem_method :: "allocator \<Rightarrow> (nat \<Rightarrow> mem_buf) \<Rightarrow> mem_buf option bio_method" where
  "mem_method a ext = \<lparr>type_id = 1 OR 0x0400, bwrite = Some (mem_write a), bread = Some mem_read, bgets = Some mem_gets,
     ctrl = Some (mem_ctrl ext), create = Some (mem_new a), destroy = Some mem_free\<rparr>"

text \<open>
  \<open>m\<close> is the method of memory BIOs, \<open>addr\<close> where the BIO goes. Undefined, which is \<open>None\<close>, when the length of a string
  at NULL is asked for: the code measures it before it checks for NULL.
\<close>

definition BIO_new_mem_buf ::
  "allocator \<Rightarrow> mem_buf option methods \<Rightarrow> nat \<Rightarrow> nat \<Rightarrow> bytes option \<Rightarrow> int \<Rightarrow> mem_bios \<Rightarrow> (nat \<times> mem_bios) option" where
  "BIO_new_mem_buf a M m addr dat n h =
     (if n < 0 \<and> dat = None then None
      else
        let sz = (if n < 0 then strlen (the dat) else nat n) in
        if dat = None \<and> n \<noteq> 0 then Some (0, h)
        else
          (case BIO_new a M None addr m h of
             (ret, h) \<Rightarrow>
               if ret = 0 then Some (0, h)
               else
                 Some (ret, update_bio ret (\<lambda>x. x\<lparr>
                   ptr := Some \<lparr>buf_length = sz, buf_data = (case dat of None \<Rightarrow> [] | Some d \<Rightarrow> take sz d), buf_max = sz, buf_start = 0\<rparr>,
                   flags := flags x OR BIO_FLAGS_MEM_RDONLY, bio_num := 0\<rparr>) h)))"

text \<open>\<open>m\<close> is the method of memory BIOs. The contents, where the code answers 1.\<close>

definition BIO_mem_contents :: "nat \<Rightarrow> mem_buf option bio \<Rightarrow> bytes option" where
  "BIO_mem_contents m x =
     (if bio_meth x \<noteq> m then None else Some (take (buf_length (the (ptr x))) (drop (buf_start (the (ptr x))) (buf_data (the (ptr x))))))"

definition BIO_get_mem_data :: "mem_buf option methods \<Rightarrow> nat \<Rightarrow> nat \<Rightarrow> mem_bios \<Rightarrow> int \<times> mem_bios" where
  "BIO_get_mem_data M b p = BIO_ctrl M b BIO_CTRL_INFO 0 p"

definition BIO_get_mem_ptr :: "mem_buf option methods \<Rightarrow> nat \<Rightarrow> nat \<Rightarrow> mem_bios \<Rightarrow> int \<times> mem_bios" where
  "BIO_get_mem_ptr M b p = BIO_ctrl M b BIO_C_GET_BUF_MEM_PTR 0 p"

definition BIO_set_mem_buf :: "mem_buf option methods \<Rightarrow> nat \<Rightarrow> nat \<Rightarrow> int \<Rightarrow> mem_bios \<Rightarrow> int \<times> mem_bios" where
  "BIO_set_mem_buf M b m take_ownership = BIO_ctrl M b BIO_C_SET_BUF_MEM take_ownership m"

definition BIO_set_mem_eof_return :: "mem_buf option methods \<Rightarrow> nat \<Rightarrow> int \<Rightarrow> mem_bios \<Rightarrow> int \<times> mem_bios" where
  "BIO_set_mem_eof_return M b eof_value = BIO_ctrl M b BIO_C_SET_BUF_MEM_EOF_RETURN eof_value 0"

section \<open>Reading\<close>

definition mem_content :: "mem_buf \<Rightarrow> bytes" where
  "mem_content m = take (buf_length m) (drop (buf_start m) (buf_data m))"

definition mem_ok :: "mem_buf option methods \<Rightarrow> mem_bios \<Rightarrow> nat \<Rightarrow> bool" where
  "mem_ok M h b \<longleftrightarrow> b \<noteq> 0 \<and> bio_meth (the (h b)) \<noteq> 0 \<and> (\<exists>a ext. the_method M h b = mem_method a ext) \<and> init (the (h b)) \<and>
     ptr (the (h b)) \<noteq> None \<and> length (buf_data (mb h b)) = buf_max (mb h b) \<and> buf_max (mb h b) < 2 ^ 64 \<and>
     buf_length (mb h b) \<le> buf_max (mb h b) \<and>
     buf_start (mb h b) = (if rdonly (the (h b)) then buf_max (mb h b) - buf_length (mb h b) else 0) \<and>
     (bio_num (the (h b)) = 0 \<or> bio_num (the (h b)) = -1)"

lemma mem_ok_length: "mem_ok M h b \<Longrightarrow> length (mem_content (mb h b)) = buf_length (mb h b)"
  by (auto simp: mem_ok_def mem_content_def)

lemma rdonly_clear [simp]: "rdonly (BIO_clear_retry_flags x) = rdonly x"
  by (simp add: BIO_clear_retry_flags_def kRetryFlags_def BIO_FLAGS_RWS_def BIO_FLAGS_READ_def BIO_FLAGS_WRITE_def
      BIO_FLAGS_IO_SPECIAL_def BIO_FLAGS_SHOULD_RETRY_def BIO_FLAGS_MEM_RDONLY_def and.assoc)

lemma rdonly_retry [simp]: "rdonly (BIO_set_retry_read x) = rdonly x"
  by (simp add: BIO_set_retry_read_def BIO_FLAGS_READ_def BIO_FLAGS_SHOULD_RETRY_def BIO_FLAGS_MEM_RDONLY_def bit.conj_disj_distrib2)

lemma clear_retry_fields [simp]:
  "bio_meth (BIO_clear_retry_flags x) = bio_meth x" "init (BIO_clear_retry_flags x) = init x" "ptr (BIO_clear_retry_flags x) = ptr x"
  "bio_num (BIO_clear_retry_flags x) = bio_num x"
  "bio_meth (BIO_set_retry_read x) = bio_meth x" "init (BIO_set_retry_read x) = init x" "ptr (BIO_set_retry_read x) = ptr x"
  "bio_num (BIO_set_retry_read x) = bio_num x"
  by (simp_all add: BIO_clear_retry_flags_def BIO_set_retry_read_def)

text \<open>A read takes from the front of the contents.\<close>

definition read_off :: "mem_buf option methods \<Rightarrow> nat \<Rightarrow> nat \<Rightarrow> mem_bios \<Rightarrow> mem_bios \<Rightarrow> bool" where
  "read_off M b k h h' \<longleftrightarrow> mem_ok M h' b \<and> mem_content (mb h' b) = drop k (mem_content (mb h b)) \<and>
     bio_num (the (h' b)) = bio_num (the (h b))"

lemma mem_read_some:
  assumes ok: "mem_ok M h b" and n: "0 < n" "n < 2 ^ 31" and ne: "mem_content (mb h b) \<noteq> []"
  shows "\<exists>h'. mem_read b n h = ((int (min (nat n) (length (mem_content (mb h b)))), take (nat n) (mem_content (mb h b))), h') \<and>
    read_off M b (nat n) h h'"
proof -
  define x where "x = BIO_clear_retry_flags (the (h b))"
  define m where "m = mb h b"
  define h1 where "h1 = h(b \<mapsto> x)"
  have h1: "mb h1 b = m" "the (h1 b) = x" and px: "the (ptr x) = m" by (simp_all add: h1_def x_def m_def)
  have o: "length (buf_data m) = buf_max m" "buf_max m < 2 ^ 64" "buf_length m \<le> buf_max m"
    "buf_start m = (if rdonly x then buf_max m - buf_length m else 0)"
    using ok by (simp_all add: mem_ok_def m_def x_def)
  have len: "length (mem_content m) = buf_length m" using mem_ok_length [OF ok] by (simp add: m_def)
  define k where "k = min (nat n) (buf_length m)"
  have "0 < buf_length m" using ne len unfolding m_def by (metis length_greater_0_conv)
  then have k: "0 < k" "k \<le> buf_length m" "k \<le> nat n" using n by (auto simp: k_def)
  have ret: "(if buf_length m < INT_MAX \<and> n > int_of_size (buf_length m) then int_of_size (buf_length m) else n) = int k"
    using n by (auto simp: k_def int_of_size)
  have sm: "size_minus (buf_length m) (int k) = buf_length m - k"
    using k(2) o by (simp add: size_minus_def flip: of_nat_diff)
  define m' where "m' = (let m = m\<lparr>buf_length := buf_length m - k\<rparr> in
    if rdonly x then m\<lparr>buf_start := buf_start m + k\<rparr> else m\<lparr>buf_data := put_bytes 0 (take (buf_length m) (drop k (buf_data m))) (buf_data m)\<rparr>)"
  define h' where "h' = h1(b \<mapsto> x\<lparr>ptr := Some m'\<rparr>)"
  have run: "mem_read b n h = ((int k, take k (drop (buf_start m) (buf_data m))), h')"
    using k(1) unfolding mem_read_def Let_def x_def [symmetric] unfolding h1_def [symmetric] unfolding h1(2) px unfolding ret sm h'_def m'_def
    by simp
  have tk: "take k (drop (buf_start m) (buf_data m)) = take (nat n) (mem_content m)" unfolding mem_content_def k_def
    by (simp add: min.commute)
  have fits: "length (take (buf_length m - k) (drop k (buf_data m))) \<le> length (buf_data m)" using o by simp
  have "mem_content m' = drop k (mem_content m)"
  proof (cases "rdonly x")
    case True
    then show ?thesis by (simp add: m'_def mem_content_def Let_def drop_take add.commute)
  next
    case False
    have "length (take (buf_length m - k) (drop k (buf_data m))) = buf_length m - k" using o k by simp
    then show ?thesis using False o by (simp add: m'_def mem_content_def Let_def drop_take put_bytes_def)
  qed
  also have "\<dots> = drop (nat n) (mem_content m)" using len by (simp add: k_def min_def)
  finally have c: "mem_content m' = drop (nat n) (mem_content m)" .
  have m': "length (buf_data m') = buf_max m'" "buf_max m' = buf_max m" "buf_length m' = buf_length m - k"
    "buf_length m' \<le> buf_max m'" "buf_start m' = (if rdonly x then buf_max m' - buf_length m' else 0)"
    using o k fits by (simp_all add: m'_def Let_def)
  have "the (h' b) = x\<lparr>ptr := Some m'\<rparr>" "bio_meth x = bio_meth (the (h b))" "init x = init (the (h b))" "bio_num x = bio_num (the (h b))"
    by (simp_all add: h'_def x_def)
  then have "mem_ok M h' b" using ok m' o(2) k(2) unfolding mem_ok_def by simp
  then have "read_off M b (nat n) h h'" using c by (simp add: read_off_def h'_def m_def x_def)
  moreover have "int k = int (min (nat n) (length (mem_content (mb h b))))" using len by (simp add: k_def m_def)
  ultimately show ?thesis using run tk by (intro exI [of _ h']) (simp add: m_def)
qed

lemma mem_read_none:
  assumes ok: "mem_ok M h b" and n: "0 < n" "n < 2 ^ 31" and e: "mem_content (mb h b) = []"
  shows "\<exists>h'. mem_read b n h = ((bio_num (the (h b)), []), h') \<and> read_off M b 0 h h'"
proof -
  have z: "buf_length (mb h b) = 0" using mem_ok_length [OF ok] e by simp
  have z0: "int_of_size 0 = 0" by (simp add: int_of_size_def)
  show ?thesis using ok z n unfolding mem_read_def Let_def
    by (cases "bio_num (the (h b)) = 0") (auto simp: z0 read_off_def mem_ok_def mem_content_def)
qed


lemma BIO_read_mem:
  assumes "mem_ok M h b" "0 < n"
  shows "BIO_read M b n h = (case mem_read b n h of ((ret, d), h) \<Rightarrow>
    ((ret, d), if ret > 0 then update_bio b (\<lambda>x. x\<lparr>num_read := num_read x + of_int ret\<rparr>) h else h))"
  using assms by (auto simp: BIO_read_def unsupported_def mem_ok_def mem_method_def)

lemma read_off_count [simp]: "read_off M b k h (update_bio b (\<lambda>x. x\<lparr>num_read := w\<rparr>) h') = read_off M b k h h'"
  by (simp add: read_off_def mem_ok_def)

text \<open>Memory BIOs are byte sources too, so \<open>BIO_read_asn1\<close> reads documents from them.\<close>

interpretation mem_reader: byte_source "BIO_read M b" "\<lambda>h. mem_content (mb h b)" "\<lambda>h. bio_num (the (h b))" "\<lambda>h. mem_ok M h b" for M b
proof
  fix h n
  assume ok: "mem_ok M h b" and n: "(0 :: int) < n" "n < 2 ^ 31"
  show "\<exists>h'. BIO_read M b n h = ((int (min (nat n) (length (mem_content (mb h b)))), take (nat n) (mem_content (mb h b))), h') \<and>
      mem_ok M h' b \<and> mem_content (mb h' b) = drop (nat n) (mem_content (mb h b)) \<and> bio_num (the (h' b)) = bio_num (the (h b))"
    if ne: "mem_content (mb h b) \<noteq> []"
  proof -
    obtain h' where h': "mem_read b n h = ((int (min (nat n) (length (mem_content (mb h b)))), take (nat n) (mem_content (mb h b))), h')"
      "read_off M b (nat n) h h'" using mem_read_some [OF ok n ne] by blast
    then have "read_off M b (nat n) h (snd (BIO_read M b n h))"
      "fst (BIO_read M b n h) = (int (min (nat n) (length (mem_content (mb h b)))), take (nat n) (mem_content (mb h b)))"
      by (simp_all add: BIO_read_mem [OF ok n(1)])
    then show ?thesis unfolding read_off_def by (intro exI [of _ "snd (BIO_read M b n h)"]) (auto simp: prod_eq_iff)
  qed
  show "\<exists>h'. BIO_read M b n h = ((bio_num (the (h b)), []), h') \<and> mem_ok M h' b \<and> mem_content (mb h' b) = [] \<and>
      bio_num (the (h' b)) = bio_num (the (h b))"
    if e: "mem_content (mb h b) = []"
  proof -
    obtain h' where h': "mem_read b n h = ((bio_num (the (h b)), []), h')" "read_off M b 0 h h'" using mem_read_none [OF ok n e] by blast
    moreover have "\<not> bio_num (the (h b)) > 0" using ok by (auto simp: mem_ok_def)
    ultimately show ?thesis using e by (auto simp: BIO_read_mem [OF ok n(1)] read_off_def)
  qed
qed (auto simp: mem_ok_def)

section \<open>Lines\<close>

definition first_line :: "bytes \<Rightarrow> bytes" where
  "first_line c = takeWhile (\<lambda>x. x \<noteq> 10) c @ (if 10 \<in> set c then [10] else [])"

lemma first_line_simps [simp]:
  "first_line [] = []" "first_line (x # c) = (if x = 10 then [10] else x # first_line c)"
  by (auto simp: first_line_def)

lemma first_line_prefix: "take (length (first_line c)) c = first_line c"
  by (induction c) auto

lemma first_line_length: "length (first_line c) \<le> length c"
  by (induction c) auto

lemma newline_loop:
  "i \<le> j \<Longrightarrow> j \<le> length p \<Longrightarrow> newline_loop p i j = i + length (first_line (take (j - i) (drop i p)))"
proof (induction p i j rule: newline_loop.induct)
  case (1 p i j)
  show ?case
  proof (cases "i < j")
    case True
    then have "take (j - i) (drop i p) = p ! i # take (j - Suc i) (drop (Suc i) p)"
      using "1.prems" by (metis Cons_nth_drop_Suc Suc_diff_Suc less_le_trans take_Suc_Cons)
    then show ?thesis using "1.IH" "1.prems" True by (subst newline_loop.simps) auto
  next
    case False
    then show ?thesis using "1.prems" by (subst newline_loop.simps) simp
  qed
qed

text \<open>
  What a reader of lines needs of \<open>gets\<close>: the next line with its newline, or what fits of it, followed by NUL; at the end
  the buffer may stay as it is.
\<close>

locale line_source =
  fixes gets :: "int \<Rightarrow> 's \<Rightarrow> (int \<times> bytes) \<times> 's" and content :: "'s \<Rightarrow> bytes" and live :: "'s \<Rightarrow> bool"
  assumes gets_line: "live s \<Longrightarrow> 1 < n \<Longrightarrow> n < 2 ^ 31 \<Longrightarrow>
    \<exists>r d s'. gets n s = ((r, d), s') \<and> live s' \<and>
      (let l = first_line (take (nat n - 1) (content s)) in
       (if l = [] then r \<le> 0 \<and> (d = [] \<or> d = [0]) else r = int (length l) \<and> d = l @ [0]) \<and>
       content s' = drop (length l) (content s))"

text \<open>\<open>mem_gets\<close> keeps its lengths in an \<open>int\<close>.\<close>

definition mem_lines_ok :: "mem_buf option methods \<Rightarrow> mem_bios \<Rightarrow> nat \<Rightarrow> bool" where
  "mem_lines_ok M h b \<longleftrightarrow> mem_ok M h b \<and> buf_length (mb h b) \<le> INT_MAX"

interpretation mem_lines: line_source "BIO_gets M b" "\<lambda>h. mem_content (mb h b)" "\<lambda>h. mem_lines_ok M h b" for M b
proof
  fix h n
  assume live: "mem_lines_ok M h b" and n: "(1 :: int) < n" "n < 2 ^ 31"
  define c where "c = mem_content (mb h b)"
  define h1 where "h1 = update_bio b BIO_clear_retry_flags h"
  have ok: "mem_ok M h b" and short: "length c \<le> INT_MAX" and len: "length c = buf_length (mb h b)"
    using live mem_ok_length [of M h b] by (simp_all add: mem_lines_ok_def c_def)
  have ok1: "mem_ok M h1 b" and c1: "mem_content (mb h1 b) = c" and m1: "mb h1 b = mb h b"
    using ok by (simp_all add: mem_ok_def h1_def c_def)
  define l where "l = first_line (take (nat n - 1) c)"
  have isz: "int_of_size (buf_length (mb h b)) = int (length c)" using short len by (simp add: int_of_size)
  have gets: "mem_gets b n h = (if c = [] then ((0, [0]), h1) else
      (case mem_read b (int (length l)) h1 of ((i, out), h) \<Rightarrow> ((i, if i > 0 then out @ [0] else out), h)))"
  proof -
    define j where "j = (if n - 1 < int (length c) then n - 1 else int (length c))"
    have j: "j \<le> 0 \<longleftrightarrow> c = []" "nat j = min (nat n - 1) (length c)" using n by (auto simp: j_def)
    define p where "p = drop (buf_start (mb h b)) (buf_data (mb h b))"
    have c: "c = take (buf_length (mb h b)) p" by (simp add: c_def mem_content_def p_def)
    have p: "take (length c) p = c" unfolding len using c by simp
    have "length (take (buf_length (mb h b)) p) \<le> length p" by simp
    then have "length c \<le> length p" unfolding c [symmetric] .
    note p = p this
    have "take (nat j) p = take (nat n - 1) c" using take_take [of "nat n - 1" "length c" p] p(1) j(2) by simp
    then have "newline_loop p 0 (nat j) = length l" using newline_loop [of 0 "nat j" p] j(2) p(2) by (simp add: l_def)
    then show ?thesis using j(1) n
      unfolding mem_gets_def Let_def h1_def [symmetric] m1 isz j_def [symmetric] p_def [symmetric] by simp
  qed
  have run: "BIO_gets M b n h = (case mem_gets b n h of ((ret, d), h) \<Rightarrow>
      ((ret, d), if ret > 0 then update_bio b (\<lambda>x. x\<lparr>num_read := num_read x + of_int ret\<rparr>) h else h))"
    using ok n by (auto simp: BIO_gets_def unsupported_def mem_ok_def mem_method_def)
  show "\<exists>r d h'. BIO_gets M b n h = ((r, d), h') \<and> mem_lines_ok M h' b \<and>
    (let l = first_line (take (nat n - 1) (mem_content (mb h b))) in
     (if l = [] then r \<le> 0 \<and> (d = [] \<or> d = [0]) else r = int (length l) \<and> d = l @ [0]) \<and>
     mem_content (mb h' b) = drop (length l) (mem_content (mb h b)))"
  proof (cases "c = []")
    case True
    then show ?thesis using run gets ok1 c1 short m1 len by (simp add: mem_lines_ok_def c_def [symmetric])
  next
    case False
    have ll: "length l \<le> nat n - 1" "length l \<le> length c" unfolding l_def using first_line_length [of "take (nat n - 1) c"] by simp_all
    have "l \<noteq> []" using False n by (cases c; cases "nat n - 1") (auto simp: l_def)
    then have pos: "0 < int (length l)" "int (length l) < 2 ^ 31" using ll n by simp_all
    have lc: "take (length l) c = l"
      using first_line_prefix [of "take (nat n - 1) c"] ll by (simp add: l_def min_def)
    have ne: "mem_content (mb h1 b) \<noteq> []" using False c1 by simp
    obtain h2 where h2: "mem_read b (int (length l)) h1 = ((int (length l), l), h2)" "read_off M b (length l) h1 h2"
      using mem_read_some [OF ok1 pos ne] ll lc unfolding c1 by (auto simp: min_def)
    define h3 where "h3 = update_bio b (\<lambda>x. x\<lparr>num_read := num_read x + of_int (int (length l))\<rparr>) h2"
    have "BIO_gets M b n h = ((int (length l), l @ [0]), h3)" using pos False h2 by (simp add: run gets h3_def)
    moreover have r3: "read_off M b (length l) h1 h3" unfolding h3_def using h2(2) by simp
    moreover have "mem_lines_ok M h3 b"
      using r3 mem_ok_length [of M h3 b] short c1 by (auto simp: read_off_def mem_lines_ok_def)
    ultimately show ?thesis unfolding c_def [symmetric] Let_def l_def [symmetric] using c1 \<open>l \<noteq> []\<close>
      by (intro exI [of _ "int (length l)"] exI [of _ "l @ [0]"] exI [of _ h3]) (simp add: read_off_def)
  qed
qed


text \<open>From 2 GB on the length is negative as an \<open>int\<close>, and \<open>mem_gets\<close> takes the buffer for empty.\<close>

lemma mem_gets_large:
  assumes ok: "mem_ok M h b" and big: "2 ^ 31 \<le> buf_length (mb h b)" "buf_length (mb h b) < 2 ^ 32" and n: "1 < n" "n < 2 ^ 31"
  shows "fst (BIO_gets M b n h) = (0, [0])"
proof -
  define k where "k = int (buf_length (mb h b))"
  have k: "2 ^ 31 \<le> k" "k < 2 ^ 32" using big by (simp_all add: k_def)
  have "(k + 2 ^ 31) mod 2 ^ 32 = (k + 2 ^ 31 - 2 ^ 32) mod 2 ^ 32" by (rule minus_mod_self2 [symmetric])
  also have "\<dots> = k + 2 ^ 31 - 2 ^ 32" by (rule mod_pos_pos_trivial) (use k in simp_all)
  finally have "int_of_size (buf_length (mb h b)) = k - 2 ^ 32"
    by (simp add: int_of_size_def signed_of_nat signed_take_bit_eq_take_bit_shift take_bit_eq_mod k_def [symmetric])
  then have "int_of_size (buf_length (mb h b)) < 0" using k by simp
  then have "fst (mem_gets b n h) = (0, [0])" using n by (simp add: mem_gets_def Let_def)
  then show ?thesis using ok n
    by (cases "mem_gets b n h") (auto simp: BIO_gets_def unsupported_def mem_ok_def mem_method_def)
qed

section \<open>Writing\<close>

lemma BIO_write_mem:
  assumes live: "mem_lines_ok M h b" and n: "0 < n" "n < 2 ^ 31" "nat n \<le> length inp" and run: "BIO_write M b inp n h = (k, h')"
  shows "mem_lines_ok M h' b \<and> rdonly (the (h' b)) = rdonly (the (h b)) \<and>
    (k = n \<and> \<not> rdonly (the (h b)) \<and> mem_content (mb h' b) = mem_content (mb h b) @ take (nat n) inp \<or>
     k = -1 \<and> mem_content (mb h' b) = mem_content (mb h b))"
proof -
  have ok: "mem_ok M h b" and short: "buf_length (mb h b) \<le> INT_MAX" using live by (simp_all add: mem_lines_ok_def)
  obtain a ext where meth: "the_method M h b = mem_method a ext" using ok by (auto simp: mem_ok_def)
  define x where "x = BIO_clear_retry_flags (the (h b))"
  define m where "m = mb h b"
  define h1 where "h1 = h(b \<mapsto> x)"
  have x: "the (h1 b) = x" "the (ptr x) = m" "rdonly x = rdonly (the (h b))" "bio_meth x = bio_meth (the (h b))" "init x"
    "bio_num x = bio_num (the (h b))" "ptr x \<noteq> None"
    using ok by (simp_all add: h1_def x_def m_def mem_ok_def)
  obtain k1 h2 where w: "mem_write a b inp n h = (k1, h2)" by fastforce
  have k: "k = k1" "h' = (if k1 > 0 then update_bio b (\<lambda>x. x\<lparr>num_write := num_write x + of_int k1\<rparr>) h2 else h2)"
    using run w ok meth n by (auto simp: BIO_write_def unsupported_def mem_ok_def mem_method_def)
  have count: "mem_lines_ok M (update_bio b (\<lambda>x. x\<lparr>num_write := c\<rparr>) g) b = mem_lines_ok M g b"
    "mem_content (mb (update_bio b (\<lambda>x. x\<lparr>num_write := c\<rparr>) g) b) = mem_content (mb g b)"
    "rdonly (the ((update_bio b (\<lambda>x. x\<lparr>num_write := c\<rparr>) g) b)) = rdonly (the (g b))" for c g
    by (simp_all add: mem_lines_ok_def mem_ok_def)
  have blen: "int_of_size (buf_length m) = int (buf_length m)" using short by (simp add: int_of_size m_def)
  have "mem_lines_ok M h2 b \<and> rdonly (the (h2 b)) = rdonly x \<and> (k1 = n \<and> \<not> rdonly x \<and> mem_content (mb h2 b) = mem_content m @ take (nat n) inp \<or>
     k1 = -1 \<and> mem_content (mb h2 b) = mem_content m)"
  proof (cases "rdonly x")
    case True
    then have "k1 = -1" "h2 = h" using w x(3) by (auto simp: mem_write_def)
    then show ?thesis using live x(3) by (simp add: m_def)
  next
    case wr: False
    have f: "length (buf_data m) = buf_max m" "buf_max m < 2 ^ 64" "buf_length m \<le> buf_max m" "buf_start m = 0"
      using ok wr x(3) by (simp_all add: mem_ok_def m_def)
    have cm: "mem_content m = buf_contents m" by (simp add: mem_content_def buf_contents_def f)
    define t where "t = buf_length m + nat n"
    define n2 m2 where nm: "n2 = fst (BUF_MEM_grow_clean a m t)" "m2 = snd (BUF_MEM_grow_clean a m t)"
    have si: "size_of_int (int (buf_length m) + n) = t" "size_of_int (int (buf_length m)) = buf_length m"
      using n short by (simp_all add: size_of_int_def t_def m_def nat_add_distrib)
    have mw: "mem_write a b inp n h = (if int INT_MAX - int (buf_length m) < n then (-1, h1)
      else if n2 \<noteq> t then (-1, h1(b \<mapsto> x\<lparr>ptr := Some m2\<rparr>))
      else (n, h1(b \<mapsto> x\<lparr>ptr := Some (m2\<lparr>buf_data := put_bytes (buf_length m) (take (nat n) inp) (buf_data m2)\<rparr>)\<rparr>)))"
      using wr x(3) unfolding mem_write_def Let_def x_def [symmetric] unfolding h1_def [symmetric] unfolding x(1,2) blen si nm
      by (simp add: case_prod_beta x(1))
    have keep: "mem_lines_ok M (h1(b \<mapsto> x\<lparr>ptr := Some m'\<rparr>)) b"
      if "length (buf_data m') = buf_max m'" "buf_max m' < 2 ^ 64" "buf_length m' \<le> buf_max m'" "buf_start m' = 0" "buf_length m' \<le> INT_MAX" for m'
      using that ok wr x unfolding mem_lines_ok_def mem_ok_def by simp
    show ?thesis
    proof (cases "int INT_MAX - int (buf_length m) < n")
      case True
      then have "k1 = -1" "h2 = h1" using w mw by auto
      moreover have "h1 = h1(b \<mapsto> x\<lparr>ptr := Some m\<rparr>)" using x by (auto simp: h1_def)
      ultimately show ?thesis using keep [of m] f short x by (simp add: m_def)
    next
      case False
      then have t: "t \<le> INT_MAX" using n(1) unfolding t_def by linarith
      have grow: "BUF_MEM_grow a m t = (n2, m2)" by (simp add: nm BUF_MEM_grow_clean_def)
      have bok: "bufm_ok m" using f by (simp add: bufm_ok_def)
      have t64: "t < 2 ^ 64" using t by simp
      have tn: "0 < t" using n by (simp add: t_def)
      have st: "buf_start m2 = buf_start m" if "buf_mem.more m2 = buf_mem.more m" using that by (cases m; cases m2) simp
      have "n2 = t \<and> bufm_ok m2 \<and> buf_length m2 = t \<and> buf_mem.more m2 = buf_mem.more m \<and>
          take (buf_length m) (buf_data m2) = take (buf_length m) (buf_data m) \<or> n2 = 0 \<and> m2 = m"
        using BUF_MEM_grow_ok [OF bok t64 grow] by blast
      then show ?thesis
      proof (elim disjE conjE)
        assume g: "n2 = 0" "m2 = m"
        then have "k1 = -1" "h2 = h1(b \<mapsto> x\<lparr>ptr := Some m\<rparr>)" using w mw False tn by auto
        then show ?thesis using keep [of m] f short x by (simp add: m_def)
      next
        assume g: "n2 = t" "bufm_ok m2" "buf_length m2 = t" "buf_mem.more m2 = buf_mem.more m"
          "take (buf_length m) (buf_data m2) = take (buf_length m) (buf_data m)"
        define m3 where "m3 = m2\<lparr>buf_data := put_bytes (buf_length m) (take (nat n) inp) (buf_data m2)\<rparr>"
        have r: "k1 = n" "h2 = h1(b \<mapsto> x\<lparr>ptr := Some m3\<rparr>)" using w mw False g by (auto simp: m3_def)
        have li: "length (take (nat n) inp) = nat n" using n(3) by simp
        have fit: "buf_length m + length (take (nat n) inp) \<le> length (buf_data m2)" unfolding li using g by (simp add: bufm_ok_def t_def)
        have "mem_content m3 = take t (put_bytes (buf_length m) (take (nat n) inp) (buf_data m2))"
          using st g f by (simp add: mem_content_def m3_def)
        also have "\<dots> = mem_content m @ take (nat n) inp"
          using take_put_bytes_end [OF fit] g(5) li by (simp add: t_def cm buf_contents_def)
        finally have c: "mem_content m3 = mem_content m @ take (nat n) inp" .
        have "mem_lines_ok M h2 b" unfolding r(2)
          by (rule keep) (use g st f fit t in \<open>simp_all add: m3_def bufm_ok_def\<close>)
        then show ?thesis using r c wr by simp
      qed
    qed
  qed
  then show ?thesis using k count x(3) by (auto simp: m_def)
qed


section \<open>Runs\<close>

text \<open>
  What a program does with a memory BIO at \<open>b\<close>: \<open>w\<close> is what it was given or has had written to it, \<open>r\<close> what has been read.
\<close>

inductive mem_run :: "mem_buf option methods \<Rightarrow> nat \<Rightarrow> mem_bios \<Rightarrow> bytes \<Rightarrow> bytes \<Rightarrow> bool" for M b where
  made: "M m = mem_method a ext \<Longrightarrow> m \<noteq> 0 \<Longrightarrow> b \<noteq> 0 \<Longrightarrow> BIO_new a M None b m h0 = (b, h) \<Longrightarrow> mem_run M b h [] []"
| view: "M m = mem_method a ext \<Longrightarrow> m \<noteq> 0 \<Longrightarrow> b \<noteq> 0 \<Longrightarrow> 0 \<le> n \<Longrightarrow> n < 2 ^ 31 \<Longrightarrow> nat n \<le> length d \<Longrightarrow>
    BIO_new_mem_buf a M m b (Some d) n h0 = Some (b, h) \<Longrightarrow> mem_run M b h (take (nat n) d) []"
| wrote: "mem_run M b h w r \<Longrightarrow> n < 2 ^ 31 \<Longrightarrow> nat n \<le> length d \<Longrightarrow> BIO_write M b d n h = (k, h') \<Longrightarrow>
    mem_run M b h' (w @ take (nat k) d) r"
| read: "mem_run M b h w r \<Longrightarrow> n < 2 ^ 31 \<Longrightarrow> BIO_read M b n h = ((k, d), h') \<Longrightarrow> mem_run M b h' w (r @ take (nat k) d)"
| got: "mem_run M b h w r \<Longrightarrow> 1 < n \<Longrightarrow> n < 2 ^ 31 \<Longrightarrow> BIO_gets M b n h = ((k, d), h') \<Longrightarrow> mem_run M b h' w (r @ take (nat k) d)"


lemma mem_method_simps [simp]:
  "create (mem_method a ext) = Some (mem_new a)" "\<exists>a' ext'. mem_method a ext = mem_method a' ext'"
  by (simp add: mem_method_def) blast

lemma mem_run_ok: "mem_run M b h w r \<Longrightarrow> mem_lines_ok M h b \<and> w = r @ mem_content (mb h b)"
proof (induction rule: mem_run.induct)
  case (made m a ext h0 h)
  obtain z where "OPENSSL_malloc a 64 = Some z" using made(3,4) by (cases "OPENSSL_malloc a 64") (auto simp: BIO_new_def)
  moreover obtain y where "OPENSSL_malloc a 24 = Some y"
    using made(1,3,4) calculation by (cases "OPENSSL_malloc a 24") (auto simp: BIO_new_def mem_new_def BUF_MEM_new_def)
  ultimately show ?case using made
    by (auto simp: BIO_new_def mem_new_def BUF_MEM_new_def mem_lines_ok_def mem_ok_def mem_content_def buf_mem.extend_def Let_def)
next
  case (view m a ext n d h0 h)
  obtain z where z: "OPENSSL_malloc a 64 = Some z" using view(3,4,7) by (cases "OPENSSL_malloc a 64") (auto simp: BIO_new_mem_buf_def BIO_new_def)
  obtain y where y: "OPENSSL_malloc a 24 = Some y"
    using view(1,3,4,7) z by (cases "OPENSSL_malloc a 24") (auto simp: BIO_new_mem_buf_def BIO_new_def mem_new_def BUF_MEM_new_def)
  show ?case using view z y
    by (auto simp: BIO_new_mem_buf_def BIO_new_def mem_new_def BUF_MEM_new_def mem_lines_ok_def mem_ok_def mem_content_def
        BIO_FLAGS_MEM_RDONLY_def Let_def)
next
  case (wrote h w r n d k h')
  show ?case
  proof (cases "0 < n")
    case True
    show ?thesis using BIO_write_mem [OF _ True wrote(2,3,4)] wrote(5) by auto
  next
    case False
    then have "k \<le> 0 \<and> h' = h" using wrote(4) by (auto simp: BIO_write_def split: if_split_asm)
    then show ?thesis using wrote(5) by simp
  qed
next
  case (read h w r n k d h')
  have ok: "mem_ok M h b" using read(4) by (simp add: mem_lines_ok_def)
  have short: "mem_lines_ok M g b" if "mem_ok M g b" "length (mem_content (mb g b)) \<le> length (mem_content (mb h b))" for g
    using that read(4) mem_ok_length [OF ok] mem_ok_length [OF that(1)] by (simp add: mem_lines_ok_def)
  show ?case
  proof (cases "0 < n")
    case True
    show ?thesis
    proof (cases "mem_content (mb h b) = []")
      case e: True
      then have "k = bio_num (the (h b)) \<and> d = [] \<and> mem_ok M h' b \<and> mem_content (mb h' b) = []"
        using mem_reader.none [OF ok True read(2) e] read(3) by auto
      then show ?thesis using short [of h'] read(4) e by simp
    next
      case ne: False
      then have "k = int (min (nat n) (length (mem_content (mb h b)))) \<and> d = take (nat n) (mem_content (mb h b)) \<and>
          mem_ok M h' b \<and> mem_content (mb h' b) = drop (nat n) (mem_content (mb h b))"
        using mem_reader.some [OF ok True read(2) ne] read(3) by auto
      moreover have "take (min (nat n) (length (mem_content (mb h b)))) (mem_content (mb h b)) = take (nat n) (mem_content (mb h b))"
        by (simp add: min_def)
      ultimately show ?thesis using short [of h'] read(4) by simp
    qed
  next
    case False
    then have "k \<le> 0 \<and> h' = h" using read(3) by (auto simp: BIO_read_def split: if_split_asm)
    then show ?thesis using read(4) by simp
  qed
next
  case (got h w r n k d h')
  define l where "l = first_line (take (nat n - 1) (mem_content (mb h b)))"
  have "mem_lines_ok M h' b \<and> (if l = [] then k \<le> 0 else k = int (length l) \<and> d = l @ [0]) \<and>
      mem_content (mb h' b) = drop (length l) (mem_content (mb h b))"
    using mem_lines.gets_line [OF conjunct1 [OF got(5)] got(2,3)] got(4) unfolding Let_def l_def [symmetric] by auto
  moreover have "take (length l) (mem_content (mb h b)) = l"
    using first_line_prefix [of "take (nat n - 1) (mem_content (mb h b))"] first_line_length [of "take (nat n - 1) (mem_content (mb h b))"]
    by (simp add: l_def min_def split: if_split_asm)
  ultimately show ?case using got(5) append_take_drop_id [of "length l" "mem_content (mb h b)"] by (cases "l = []") auto
qed


section \<open>Properties\<close>

text \<open>C36: In every run of reads and writes on a memory BIO, what is read is what the BIO was given or had written to it, in
  order; \<open>BIO_pending\<close> counts the rest, and \<open>BIO_gets\<close> hands out its next line, with the newline, cut to the size
  of the caller's buffer and terminated by NUL.\<close>

theorem mem_bio_lines:
  assumes "mem_run M b h w r"
  shows "\<exists>rest. w = r @ rest \<and> fst (BIO_pending M b h) = length rest \<and>
    (\<forall>n. 1 < n \<and> n < 2 ^ 31 \<and> rest \<noteq> [] \<longrightarrow>
      (let l = first_line (take (nat n - 1) rest) in fst (BIO_gets M b n h) = (int (length l), l @ [0]) \<and> l \<noteq> []))"
proof -
  define rest where "rest = mem_content (mb h b)"
  have live: "mem_lines_ok M h b" and w: "w = r @ rest" using mem_run_ok [OF assms] by (simp_all add: rest_def)
  then obtain a ext where meth: "the_method M h b = mem_method a ext" "b \<noteq> 0" "bio_meth (the (h b)) \<noteq> 0" by (auto simp: mem_lines_ok_def mem_ok_def)
  have len: "length rest = buf_length (mb h b)" "length rest < 2 ^ 31"
    using live mem_ok_length [of M h b] by (simp_all add: mem_lines_ok_def rest_def)
  have "fst (BIO_pending M b h) = length rest"
    using meth len by (simp add: BIO_pending_def BIO_ctrl_def mem_method_def mem_ctrl_def Let_def long_of_size)
  moreover have "fst (BIO_gets M b n h) = (int (length (first_line (take (nat n - 1) rest))), first_line (take (nat n - 1) rest) @ [0]) \<and>
      first_line (take (nat n - 1) rest) \<noteq> []"
    if n: "1 < n" "n < 2 ^ 31" "rest \<noteq> []" for n
  proof -
    have "first_line (take (nat n - 1) rest) \<noteq> []" using n by (cases rest; cases "nat n - 1") auto
    then show ?thesis using mem_lines.gets_line [OF live n(1,2)] by (auto simp: rest_def [symmetric] Let_def)
  qed
  ultimately show ?thesis using w by (intro exI [of _ rest]) (simp add: Let_def)
qed

text \<open>Two lines, of which the first has been read.\<close>

definition demo_mem_methods :: "mem_buf option methods" where
  "demo_mem_methods = (\<lambda>_. mem_method plenty (\<lambda>_. undefined))"

theorem mem_bio_lines_witness:
  "\<exists>h. mem_run demo_mem_methods 1 h [97, 10, 98] [97, 10] \<and> fst (BIO_gets demo_mem_methods 1 512 h) = (1, [98, 0])"
proof -
  obtain h where h: "BIO_new_mem_buf plenty demo_mem_methods 1 1 (Some [97, 10, 98]) 3 Map.empty = Some (1, h)"
    by (simp add: BIO_new_mem_buf_def BIO_new_def demo_mem_methods_def mem_new_def BUF_MEM_new_def OPENSSL_malloc_def plenty_def
        size_wrap_def OPENSSL_MALLOC_PREFIX_def)
  have "mem_run demo_mem_methods 1 h (take (nat 3) [97, 10, 98]) []"
    by (rule mem_run.view [OF _ _ _ _ _ _ h]) (simp_all add: demo_mem_methods_def)
  then have r0: "mem_run demo_mem_methods 1 h [97, 10, 98] []" by simp
  obtain x h1 where g: "BIO_gets demo_mem_methods 1 512 h = (x, h1)" by fastforce
  have "x = (2, [97, 10, 0])"
    using mem_bio_lines [OF r0] g by (auto dest!: spec [of _ 512])
  then have r1: "mem_run demo_mem_methods 1 h1 [97, 10, 98] [97, 10]"
    using mem_run.got [OF r0 _ _ g [unfolded \<open>x = _\<close>]] by simp
  then show ?thesis using mem_bio_lines [OF r1] by (intro exI [of _ h1]) (auto dest!: spec [of _ 512])
qed

end
