(* ===== verification/Conf.thy ===== *)
theory Conf
  imports Stack Lhash
begin

text \<open>
  The store of configuration values (\<open>crypto/conf/conf.c\<close>): a hash table of all values under section and name,
  which also holds one entry without a name per section, with the stack of the section's values. Values and
  stacks are shared, so they live on a heap; a string is its bytes and \<open>None\<close> for NULL.
\<close>

section \<open>The code\<close>

text \<open>\<open>value\<close> is a string, or a stack cast to \<open>char*\<close>.\<close>

datatype conf_data = NoData | Text bytes | Members nat

record conf_value =
  v_section :: "bytes option"
  v_name :: "bytes option"
  v_value :: conf_data

text \<open>\<open>strcmp\<close> of the C library.\<close>

definition strcmp :: "bytes \<Rightarrow> bytes \<Rightarrow> int" where
  "strcmp a b = memcmp (cstr a @ [0]) (cstr b @ [0])"

definition conf_value_hash :: "conf_value \<Rightarrow> u32" where
  "conf_value_hash v =
     (let section_hash = (case v_section v of None \<Rightarrow> 0 | Some s \<Rightarrow> OPENSSL_strhash s);
          name_hash = (case v_name v of None \<Rightarrow> 0 | Some s \<Rightarrow> OPENSSL_strhash s) in
      push_bit 2 section_hash XOR name_hash)"

text \<open>
  \<open>a\<close> and \<open>b\<close> have sections wherever the code calls this; a NULL section against another would be dereferenced
  by \<open>strcmp\<close>, for which the definition has NULL come first.
\<close>

definition conf_value_cmp :: "conf_value \<Rightarrow> conf_value \<Rightarrow> int" where
  "conf_value_cmp a b =
     (let i = (case (v_section a, v_section b) of
                 (Some s, Some t) \<Rightarrow> strcmp s t
               | (None, None) \<Rightarrow> 0
               | (None, Some _) \<Rightarrow> -1
               | (Some _, None) \<Rightarrow> 1) in
      if i \<noteq> 0 then i
      else
        (case (v_name a, v_name b) of
           (Some s, Some t) \<Rightarrow> strcmp s t
         | (None, None) \<Rightarrow> 0
         | (None, Some _) \<Rightarrow> -1
         | (Some _, None) \<Rightarrow> 1))"

text \<open>A \<open>CONF\<close> is its table, with the heap of the values and stacks.\<close>

record conf =
  conf_table :: lhash
  vals :: "nat \<rightharpoonup> conf_value"
  stks :: "nat \<rightharpoonup> stack"

abbreviation val_at :: "conf \<Rightarrow> nat \<Rightarrow> conf_value" where
  "val_at s p \<equiv> the (vals s p)"

text \<open>The calls the table makes on the values at two addresses, whatever the addresses of the functions.\<close>

definition call_hash :: "(nat \<Rightarrow> conf_value) \<Rightarrow> nat \<Rightarrow> nat \<Rightarrow> u32" where
  "call_hash V h = conf_value_hash \<circ> V"

definition call_cmp :: "(nat \<Rightarrow> conf_value) \<Rightarrow> nat \<Rightarrow> nat \<Rightarrow> nat \<Rightarrow> int" where
  "call_cmp V c = (\<lambda>p q. conf_value_cmp (V p) (V q))"

definition NCONF_new :: "allocator \<Rightarrow> bool \<Rightarrow> conf option" where
  "NCONF_new a has_method =
     (if has_method then None
      else
        (case OPENSSL_malloc a 8 of
           None \<Rightarrow> None
         | Some _ \<Rightarrow> map_option (\<lambda>lh. \<lparr>conf_table = lh, vals = Map.empty, stks = Map.empty\<rparr>) (OPENSSL_lh_new a 1 2)))"

text \<open>The memory is at \<open>p\<close>.\<close>

definition CONF_VALUE_new :: "allocator \<Rightarrow> nat \<Rightarrow> conf \<Rightarrow> nat \<times> conf" where
  "CONF_VALUE_new a p s =
     (case OPENSSL_malloc a 24 of
        None \<Rightarrow> (0, s)
      | Some _ \<Rightarrow> (p, s\<lparr>vals := (vals s)(p \<mapsto> \<lparr>v_section = None, v_name = None, v_value = NoData\<rparr>)\<rparr>))"

definition value_free_contents :: "nat \<Rightarrow> conf \<Rightarrow> conf" where
  "value_free_contents p s =
     (if v_name (val_at s p) \<noteq> None then s
      else (case v_value (val_at s p) of Members k \<Rightarrow> s\<lparr>stks := (stks s)(k := None)\<rparr> | _ \<Rightarrow> s))"

definition value_free :: "nat \<Rightarrow> conf \<Rightarrow> conf" where
  "value_free p s = (let s = value_free_contents p s in s\<lparr>vals := (vals s)(p := None)\<rparr>)"

definition NCONF_free :: "allocator \<Rightarrow> conf \<Rightarrow> conf" where
  "NCONF_free a s =
     snd (OPENSSL_lh_doall_arg a (Some (conf_table s)) (\<lambda>p (lh, s). (lh, value_free p s)) s)"

text \<open>The value is at \<open>p\<close>, its stack at \<open>k\<close>.\<close>

definition NCONF_new_section :: "allocator \<Rightarrow> nat \<Rightarrow> nat \<Rightarrow> bytes \<Rightarrow> conf \<Rightarrow> nat \<times> conf" where
  "NCONF_new_section a p k sec s =
     (let sk = sk_new_null a; (v, s) = CONF_VALUE_new a p s;
          err = (0, if v \<noteq> 0 then s\<lparr>vals := (vals s)(v := None)\<rparr> else s) in
      if sk = None \<or> v = 0 then err
      else
        (case OPENSSL_strdup a sec of
           None \<Rightarrow> err
         | Some sec \<Rightarrow>
             let V = (vals s)(v \<mapsto> \<lparr>v_section = Some sec, v_name = None, v_value = Members k\<rparr>); f = (\<lambda>p. the (V p)) in
             (case OPENSSL_lh_insert (call_hash f) (call_cmp f) a (conf_table s) v of
                (False, _, _) \<Rightarrow> err
              | (True, old_value, lh) \<Rightarrow>
                  let s = s\<lparr>conf_table := lh, vals := V, stks := (stks s)(k := sk)\<rparr> in
                  (v, if old_value \<noteq> 0 then value_free old_value s else s))))"

text \<open>The template is a local variable; its address is written 0 here, which is no address of a value.\<close>

definition retrieve :: "conf_value \<Rightarrow> conf \<Rightarrow> nat" where
  "retrieve template s =
     (let f = (\<lambda>p. the (((vals s)(0 \<mapsto> template)) p)) in OPENSSL_lh_retrieve (call_hash f) (call_cmp f) (conf_table s) 0)"

definition get_section :: "conf \<Rightarrow> bytes \<Rightarrow> nat" where
  "get_section s sec = retrieve \<lparr>v_section = Some sec, v_name = None, v_value = NoData\<rparr> s"

text \<open>
  The pointer in \<open>value\<close> as a stack, and as a string. \<open>NCONF_get_section\<close> takes a section that is not NULL: the code
  does not put the default section in its place, as \<open>conf.h\<close> says and as \<open>NCONF_get_string\<close> does.
\<close>

definition stack_of :: "conf_data \<Rightarrow> nat" where
  "stack_of d = (case d of Members k \<Rightarrow> k | _ \<Rightarrow> 0)"

definition string_of :: "conf_data \<Rightarrow> bytes option" where
  "string_of d = (case d of Text t \<Rightarrow> Some t | _ \<Rightarrow> None)"

definition NCONF_get_section :: "conf \<Rightarrow> bytes \<Rightarrow> nat" where
  "NCONF_get_section s sec =
     (let section_value = get_section s sec in if section_value = 0 then 0 else stack_of (v_value (val_at s section_value)))"

text \<open>\<open>default\<close>\<close>

definition kDefaultSectionName :: bytes where
  "kDefaultSectionName = [100, 101, 102, 97, 117, 108, 116, 0]"

definition NCONF_get_string :: "conf \<Rightarrow> bytes option \<Rightarrow> bytes \<Rightarrow> bytes option" where
  "NCONF_get_string s sec nam =
     (let sec = (case sec of None \<Rightarrow> kDefaultSectionName | Some sec \<Rightarrow> sec);
          p = retrieve \<lparr>v_section = Some sec, v_name = Some nam, v_value = NoData\<rparr> s in
      if p = 0 then None else string_of (v_value (val_at s p)))"

text \<open>\<open>sv\<close> is the section, \<open>v\<close> the value to be added; \<open>strdup\<close> may fail, which is not checked.\<close>

definition add_string :: "allocator \<Rightarrow> conf \<Rightarrow> nat \<Rightarrow> nat \<Rightarrow> bool \<times> conf" where
  "add_string a s sv v =
     (let k = stack_of (v_value (val_at s sv));
          s = s\<lparr>vals := (vals s)(v \<mapsto> (val_at s v)\<lparr>v_section := OPENSSL_strdup a (the (v_section (val_at s sv)))\<rparr>)\<rparr> in
      (case sk_push a (stks s k) v of
         (n, sk) \<Rightarrow>
           let s = s\<lparr>stks := (stks s)(k := sk)\<rparr> in
           if n = 0 then (False, s)
           else
             (case OPENSSL_lh_insert (call_hash (val_at s)) (call_cmp (val_at s)) a (conf_table s) v of
                (False, _, _) \<Rightarrow> (False, s)
              | (True, old_value, lh) \<Rightarrow>
                  let s = s\<lparr>conf_table := lh\<rparr> in
                  (True,
                   if old_value \<noteq> 0 then
                     value_free old_value (s\<lparr>stks := (stks s)(k := snd (sk_delete_ptr (stks s k) old_value))\<rparr>)
                   else s))))"

section \<open>The contract with the hash table\<close>

text \<open>What values are looked up by.\<close>

definition key :: "conf_value \<Rightarrow> bytes option \<times> bytes option" where
  "key v = (map_option cstr (v_section v), map_option cstr (v_name v))"

lemma memcmp_terminated:
  "0 \<notin> set x \<Longrightarrow> 0 \<notin> set y \<Longrightarrow> memcmp (x @ [0]) (y @ [0]) = 0 \<longleftrightarrow> x = y"
proof (induction x arbitrary: y)
  case Nil
  show ?case
  proof (cases y)
    case (Cons c ys)
    then have "0 < c" using Nil.prems by (simp add: word_gt_0)
    then show ?thesis by (simp add: Cons)
  qed simp
next
  case (Cons b x)
  show ?case
  proof (cases y)
    case Nil
    have "0 < b" using Cons.prems by (simp add: word_gt_0)
    then show ?thesis by (simp add: Nil)
  next
    case y: (Cons c ys)
    then show ?thesis using Cons by (cases b c rule: linorder_cases) auto
  qed
qed

lemma strcmp_0: "strcmp a b = 0 \<longleftrightarrow> cstr a = cstr b"
proof -
  have "0 \<notin> set (cstr s)" for s by (auto simp: cstr_def dest: set_takeWhileD)
  then show ?thesis by (simp add: strcmp_def memcmp_terminated)
qed

lemma conf_value_cmp_0: "conf_value_cmp a b = 0 \<longleftrightarrow> key a = key b"
  by (auto simp: conf_value_cmp_def key_def strcmp_0 Let_def split: option.splits)

lemma conf_value_hash_key: "key a = key b \<Longrightarrow> conf_value_hash a = conf_value_hash b"
  by (auto simp: conf_value_hash_def key_def OPENSSL_strhash_def split: option.splits)

interpretation conf: hash_contract conf_value_hash conf_value_cmp
  by unfold_locales (auto simp: conf_value_cmp_0 intro: conf_value_hash_key)

section \<open>Stores\<close>

definition named :: "conf \<Rightarrow> nat set" where
  "named s = {p \<in> contents (conf_table s). v_name (val_at s p) \<noteq> None}"

definition sections :: "conf \<Rightarrow> nat set" where
  "sections s = {p \<in> contents (conf_table s). v_name (val_at s p) = None}"

abbreviation same_section :: "conf \<Rightarrow> nat \<Rightarrow> nat \<Rightarrow> bool" where
  "same_section s p q \<equiv> fst (key (val_at s p)) = fst (key (val_at s q))"

text \<open>The stack \<open>k\<close> of the section at \<open>p\<close>.\<close>

definition section_ok :: "conf \<Rightarrow> nat \<Rightarrow> bool" where
  "section_ok s p \<longleftrightarrow> (\<exists>k st. v_value (val_at s p) = Members k \<and> stks s k = Some st \<and> stack_ok (\<lambda>_ _ _. 0) st \<and> distinct (elems st) \<and>
     set (elems st) = {q \<in> named s. same_section s p q})"

text \<open>
  The table holds values that are on the heap and have a section; there is an entry for the section of every named value,
  and its stack holds the named values of the section; no two sections share a stack.
\<close>

definition store_ok :: "conf \<Rightarrow> bool" where
  "store_ok s \<longleftrightarrow> conf.table (val_at s) (conf_table s) \<and>
     (\<forall>p \<in> contents (conf_table s). p \<noteq> 0 \<and> vals s p \<noteq> None \<and> v_section (val_at s p) \<noteq> None) \<and>
     (\<forall>p \<in> sections s. section_ok s p) \<and>
     (\<forall>p \<in> sections s. \<forall>q \<in> sections s. v_value (val_at s p) = v_value (val_at s q) \<longrightarrow> p = q) \<and>
     (\<forall>q \<in> named s. (\<exists>p \<in> sections s. same_section s p q) \<and> (\<exists>t. v_value (val_at s q) = Text t))"

text \<open>The table depends on the values it holds only.\<close>

lemma table_cong:
  assumes "conf.table f lh" "\<And>p. p \<in> contents lh \<Longrightarrow> f p = g p"
  shows "conf.table g lh"
proof -
  have "placed (conf_value_hash \<circ> g) (num_buckets lh) (buckets lh)"
  proof -
    have "placed_at (conf_value_hash \<circ> g) (num_buckets lh) i it"
      if "i < num_buckets lh" "it \<in> set (buckets lh ! i)" for i it
    proof -
      have pl: "length (buckets lh) = num_buckets lh" "placed_at (conf_value_hash \<circ> f) (num_buckets lh) i it"
        using assms(1) that by (simp_all add: lh_ok_def placed_def)
      have "buckets lh ! i \<in> set (buckets lh)" using that(1) pl(1) by simp
      then have "data it \<in> contents lh" using that(2) by (auto simp: contents_def)
      then show ?thesis using pl(2) assms(2) [of "data it"] by (auto simp: placed_at_def)
    qed
    then show ?thesis using assms(1) by (simp add: lh_ok_def placed_def)
  qed
  then show ?thesis using assms unfolding lh_ok_def by simp
qed

lemma retrieve_eq:
  assumes ok: "store_ok s"
  shows "q \<in> contents (conf_table s) \<Longrightarrow> key (val_at s q) = key t \<Longrightarrow> retrieve t s = q"
    and "\<forall>q \<in> contents (conf_table s). key (val_at s q) \<noteq> key t \<Longrightarrow> retrieve t s = 0"
proof -
  define f where "f = (\<lambda>p. the (((vals s)(0 \<mapsto> t)) p))"
  have same: "f p = val_at s p" if "p \<in> contents (conf_table s)" for p
    using ok that by (auto simp: store_ok_def f_def)
  have tab: "conf.table f (conf_table s)"
    by (rule table_cong [of "val_at s"]) (use ok same in \<open>auto simp: store_ok_def\<close>)
  have r: "retrieve t s = OPENSSL_lh_retrieve (call_hash f) (call_cmp f) (conf_table s) 0"
    by (simp add: retrieve_def Let_def f_def)
  have f0: "f 0 = t" by (simp add: f_def)
  note ret = conf.retrieve_ok [where f = f and ch = "call_hash f" and cc = "call_cmp f" and x = 0 and lh = "conf_table s", OF tab]
  show "q \<in> contents (conf_table s) \<Longrightarrow> key (val_at s q) = key t \<Longrightarrow> retrieve t s = q"
    unfolding r by (rule ret(1)) (auto simp: call_hash_def call_cmp_def conf_value_cmp_0 f0 same)
  show "\<forall>q \<in> contents (conf_table s). key (val_at s q) \<noteq> key t \<Longrightarrow> retrieve t s = 0"
    unfolding r by (rule ret(2)) (auto simp: call_hash_def call_cmp_def conf_value_cmp_0 f0 same)
qed

lemma key_unique:
  assumes "store_ok s" "p \<in> contents (conf_table s)" "q \<in> contents (conf_table s)" "key (val_at s p) = key (val_at s q)"
  shows "p = q"
  using assms by (auto simp: store_ok_def lh_ok_def conf_value_cmp_0)

text \<open>A lookup finds the value with the key of the template, or NULL.\<close>

lemma retrieve_iff:
  assumes "store_ok s" "p \<noteq> 0"
  shows "retrieve t s = p \<longleftrightarrow> p \<in> contents (conf_table s) \<and> key (val_at s p) = key t"
  using retrieve_eq(1) [OF assms(1), where t = t] retrieve_eq(2) [OF assms(1), where t = t] assms(2) by metis

lemma retrieve_0:
  assumes "store_ok s"
  shows "retrieve t s = 0 \<longleftrightarrow> (\<forall>p \<in> contents (conf_table s). key (val_at s p) \<noteq> key t)"
  using retrieve_eq(1) [OF assms, where t = t] retrieve_eq(2) [OF assms, where t = t] assms unfolding store_ok_def by metis

lemma get_section_iff:
  assumes "store_ok s" "p \<noteq> 0"
  shows "get_section s sec = p \<longleftrightarrow> p \<in> sections s \<and> fst (key (val_at s p)) = Some (cstr sec)"
  unfolding get_section_def retrieve_iff [OF assms] by (auto simp: key_def sections_def)

lemma NCONF_get_string_iff:
  assumes "store_ok s"
  shows "NCONF_get_string s (Some sec) nam = Some t \<longleftrightarrow>
    (\<exists>q \<in> contents (conf_table s). key (val_at s q) = (Some (cstr sec), Some (cstr nam)) \<and> v_value (val_at s q) = Text t)"
proof -
  define tm where "tm = \<lparr>v_section = Some sec, v_name = Some nam, v_value = NoData\<rparr>"
  have k: "key tm = (Some (cstr sec), Some (cstr nam))" by (simp add: tm_def key_def)
  have "NCONF_get_string s (Some sec) nam = (if retrieve tm s = 0 then None else string_of (v_value (val_at s (retrieve tm s))))"
    by (simp add: NCONF_get_string_def tm_def Let_def)
  moreover have "string_of d = Some t \<longleftrightarrow> d = Text t" for d by (cases d) (auto simp: string_of_def)
  ultimately show ?thesis
    using retrieve_iff [OF assms, of "retrieve tm s" tm] retrieve_0 [OF assms, of tm] key_unique [OF assms] k
    by (metis (no_types, lifting) option.distinct(1))
qed

section \<open>New sections and new values\<close>

lemma cstr_terminated [simp]: "cstr (cstr s @ [0]) = cstr s"
  by (induction s) auto

lemma strdup_Some: "OPENSSL_strdup a s = Some t \<Longrightarrow> t = cstr s @ [0]"
  by (auto simp: OPENSSL_strdup_def Let_def split: option.splits)

lemma strdup_plentiful: "plentiful a \<Longrightarrow> strlen s < 2 ^ 62 \<Longrightarrow> OPENSSL_strdup a s = Some (cstr s @ [0])"
  using plentiful_malloc [of a "strlen s + 1"] by (auto simp: OPENSSL_strdup_def)

lemma store_okD:
  assumes "store_ok s"
  shows "conf.table (val_at s) (conf_table s)"
    "p \<in> contents (conf_table s) \<Longrightarrow> p \<noteq> 0 \<and> vals s p \<noteq> None \<and> v_section (val_at s p) \<noteq> None"
    "p \<in> sections s \<Longrightarrow> section_ok s p"
    "p \<in> sections s \<Longrightarrow> q \<in> sections s \<Longrightarrow> v_value (val_at s p) = v_value (val_at s q) \<Longrightarrow> p = q"
    "q \<in> named s \<Longrightarrow> \<exists>p \<in> sections s. same_section s p q" "q \<in> named s \<Longrightarrow> \<exists>t. v_value (val_at s q) = Text t"
  using assms unfolding store_ok_def by blast+

lemma contents_finite [simp]: "finite (contents lh)"
  by (simp add: contents_def)

lemma contents_split: "contents (conf_table s) = named s \<union> sections s"
  by (auto simp: named_def sections_def)

text \<open>What a store looks like after an insertion that replaces nothing or one value.\<close>

lemma insert_value:
  assumes ok: "store_ok s" and f: "\<forall>q \<in> contents (conf_table s). f q = val_at s q"
    and few: "num_items (conf_table s) + 1 < 2 ^ 60"
    and ins: "OPENSSL_lh_insert (call_hash f) (call_cmp f) a (conf_table s) p = (True, old, lh)"
  shows "conf.table f lh" "contents lh = insert p (contents (conf_table s) - {q. key (val_at s q) = key (f p)})"
    "num_items lh \<le> num_items (conf_table s) + 1"
    "old = 0 \<and> (\<forall>q \<in> contents (conf_table s). key (val_at s q) \<noteq> key (f p)) \<or>
     old \<in> contents (conf_table s) \<and> key (val_at s old) = key (f p)"
proof -
  have tab: "conf.table f (conf_table s)" by (rule table_cong [of "val_at s"]) (use store_okD(1) [OF ok] f in auto)
  have "num_items (conf_table s) + 1 < 2 ^ 64" using few by simp
  note I = conf.insert_ok [where f = f and ch = "call_hash f" and cc = "call_cmp f" and lh = "conf_table s" and a = a and x = p,
      OF tab _ _ this ins]
  have I: "conf.table f lh" "contents lh = insert p (contents (conf_table s) - {y. conf_value_cmp (f y) (f p) = 0})"
    "\<forall>y \<in> contents (conf_table s). conf_value_cmp (f y) (f p) = 0 \<longrightarrow> old = y"
    "(\<forall>y \<in> contents (conf_table s). conf_value_cmp (f y) (f p) \<noteq> 0) \<longrightarrow> old = 0"
    using I by (simp_all add: call_hash_def call_cmp_def)
  show "conf.table f lh" by (rule I(1))
  show c: "contents lh = insert p (contents (conf_table s) - {q. key (val_at s q) = key (f p)})"
    using I(2) f by (auto simp: conf_value_cmp_0)
  show "old = 0 \<and> (\<forall>q \<in> contents (conf_table s). key (val_at s q) \<noteq> key (f p)) \<or>
     old \<in> contents (conf_table s) \<and> key (val_at s old) = key (f p)"
    using I(3,4) f unfolding conf_value_cmp_0 by metis
  define X where "X = contents (conf_table s) - {q. key (val_at s q) = key (f p)}"
  have "card (insert p X) \<le> card X + 1" by (simp add: card_insert_if X_def)
  moreover have "card X \<le> card (contents (conf_table s))" by (simp add: X_def card_mono)
  ultimately show "num_items lh \<le> num_items (conf_table s) + 1"
    using lh_ok_card [OF I(1)] lh_ok_card [OF tab] c by (simp add: X_def)
qed

lemma new_section_ok:
  assumes ok: "store_ok s" and fresh: "p \<noteq> 0" "stks s k = None" "p \<notin> contents (conf_table s)"
    and new: "get_section s sec = 0" and few: "num_items (conf_table s) + 1 < 2 ^ 60"
    and r: "NCONF_new_section a p k sec s = (v, s')" "v \<noteq> 0"
  shows "v = p \<and> store_ok s' \<and> contents (conf_table s') = insert p (contents (conf_table s)) \<and>
    (\<forall>q \<in> contents (conf_table s). val_at s' q = val_at s q) \<and> (\<forall>i. i \<noteq> k \<longrightarrow> stks s' i = stks s i) \<and>
    v_name (val_at s' p) = None \<and> fst (key (val_at s' p)) = Some (cstr sec) \<and> v_value (val_at s' p) = Members k \<and>
    (\<exists>st. stks s' k = Some st \<and> elems st = [] \<and> num_alloc st = 4) \<and> num_items (conf_table s') \<le> num_items (conf_table s) + 1"
proof -
  obtain st where st: "sk_new_null a = Some st" using r by (auto simp: NCONF_new_section_def Let_def split: if_split_asm prod.splits)
  have m: "OPENSSL_malloc a 24 \<noteq> None"
    by (rule notI) (use r st in \<open>simp add: NCONF_new_section_def CONF_VALUE_new_def\<close>)
  define e where "e = \<lparr>v_section = Some (cstr sec @ [0]), v_name = None, v_value = Members k\<rparr>"
  define V where "V = (vals s)(p \<mapsto> e)"
  define f where "f = (\<lambda>q. the (V q))"
  obtain z where z: "OPENSSL_malloc a 24 = Some z" using m by blast
  have "OPENSSL_strdup a sec \<noteq> None"
    by (rule notI) (use r st z fresh(1) in \<open>simp add: NCONF_new_section_def CONF_VALUE_new_def\<close>)
  then obtain sec' where sd: "OPENSSL_strdup a sec = Some sec'" by blast
  obtain b old lh where i: "OPENSSL_lh_insert (call_hash f) (call_cmp f) a (conf_table s) p = (b, old, lh)"
    by (metis prod.exhaust)
  define S where "S = s\<lparr>conf_table := lh, vals := V, stks := (stks s)(k \<mapsto> st)\<rparr>"
  have "NCONF_new_section a p k sec s = (if b then (p, if old \<noteq> 0 then value_free old S else S) else (0, s\<lparr>vals := (vals s)(p := None)\<rparr>))"
    using i st z sd strdup_Some [OF sd] fresh(1)
    by (simp add: NCONF_new_section_def CONF_VALUE_new_def Let_def f_def V_def e_def S_def)
  then have s': "b" "v = p" "s' = (if old \<noteq> 0 then value_free old S else S)" using r by (auto split: if_split_asm)
  have ins: "OPENSSL_lh_insert (call_hash f) (call_cmp f) a (conf_table s) p = (True, old, lh)" using i s'(1) by simp
  have f: "\<forall>q \<in> contents (conf_table s). f q = val_at s q" using fresh(3) by (auto simp: f_def V_def)
  have fp: "f p = e" "key e = (Some (cstr sec), None)" by (simp_all add: f_def V_def e_def key_def)
  have absent: "key (val_at s q) \<noteq> (Some (cstr sec), None)" if "q \<in> contents (conf_table s)" for q
    using new retrieve_0 [OF ok] that by (auto simp: get_section_def key_def)
  note I = insert_value [OF ok f few ins, unfolded fp]
  have old: "old = 0" using I(4) absent by auto
  have c: "contents lh = insert p (contents (conf_table s))" using I(2) absent by auto
  have s'': "s' = s\<lparr>conf_table := lh, vals := V, stks := (stks s)(k \<mapsto> st)\<rparr>" using s'(3) old by (simp add: S_def)
  have V': "val_at s' q = f q" for q by (simp add: s'' f_def)
  have val: "val_at s' q = val_at s q" if "q \<in> contents (conf_table s)" for q using that f by (simp add: V')
  have valp: "val_at s' p = e" by (simp add: V' fp)
  have sec: "sections s' = insert p (sections s)" and nam: "named s' = named s"
    using val valp fresh(3) by (auto simp: sections_def named_def s'' c e_def simp del: fun_upd_apply)
  have none: "fst (key (val_at s q)) \<noteq> Some (cstr sec)" if nm: "q \<in> named s" for q
  proof
    assume q: "fst (key (val_at s q)) = Some (cstr sec)"
    obtain q' where "q' \<in> sections s" "same_section s q' q" using store_okD(5) [OF ok nm] by blast
    then show False using absent [of q'] q by (auto simp: sections_def key_def)
  qed
  have stacks: "section_ok s' q" if sq: "q \<in> sections s" for q
  proof -
    obtain k' st' where k': "v_value (val_at s q) = Members k'" "stks s k' = Some st'" "stack_ok (\<lambda>_ _ _. 0) st'" "distinct (elems st')"
      "set (elems st') = {r \<in> named s. same_section s q r}"
      using store_okD(3) [OF ok sq] by (auto simp: section_ok_def)
    moreover have "q \<in> contents (conf_table s)" "\<And>r. r \<in> named s \<Longrightarrow> r \<in> contents (conf_table s)"
      using sq by (auto simp: sections_def named_def)
    ultimately show ?thesis
      using val fresh(2) unfolding section_ok_def nam by (intro exI [of _ k'] exI [of _ st']) (auto simp: s'')
  qed
  have tab: "conf.table (val_at s') lh"
    by (rule table_cong [OF I(1)]) (rule V' [symmetric])
  have ink: "v_value (val_at s q) \<noteq> Members k" if "q \<in> sections s" for q
    using store_okD(3) [OF ok that] fresh(2) by (auto simp: section_ok_def)
  have old': "q \<in> contents (conf_table s)" if "q \<in> sections s \<or> q \<in> named s" for q
    using that by (auto simp: sections_def named_def)
  have ct: "conf_table s' = lh" by (simp add: s'')
  have "store_ok s'" unfolding store_ok_def ct c sec nam
  proof (intro conjI ballI impI)
    show "conf.table (val_at s') lh" by (rule tab)
    fix q assume "q \<in> insert p (contents (conf_table s))"
    then show "q \<noteq> 0" "vals s' q \<noteq> None" "v_section (val_at s' q) \<noteq> None"
      using store_okD(2) [OF ok, of q] val valp fresh(1) by (auto simp: e_def s'' V_def)
  next
    fix q assume q: "q \<in> insert p (sections s)"
    show "section_ok s' q"
    proof (cases "q = p")
      case True
      have "stack_ok (\<lambda>_ _ _. 0) st" "elems st = []" using sk_new_ok [of a 0 st] st by (auto simp: sk_new_null_def)
      moreover have "same_section s' p q \<longleftrightarrow> fst (key (val_at s q)) = Some (cstr sec)" if "q \<in> named s" for q
        using that old' val valp fp(2) by auto
      ultimately show ?thesis using True none valp unfolding section_ok_def nam
        by (intro exI [of _ k] exI [of _ st]) (auto simp: e_def s'')
    qed (use stacks q in simp)
    fix r assume "r \<in> insert p (sections s)" "v_value (val_at s' q) = v_value (val_at s' r)"
    then show "q = r" using q valp val old' ink [of q] ink [of r] store_okD(4) [OF ok, of q r] by (auto simp: e_def)
  next
    fix q assume q: "q \<in> named s"
    then show "\<exists>p \<in> insert p (sections s). same_section s' p q" using store_okD(5) [OF ok q] val old' by auto
    show "\<exists>t. v_value (val_at s' q) = Text t" using store_okD(6) [OF ok q] val old' q by simp
  qed
  moreover have "num_alloc st = 4" using st by (auto simp: sk_new_null_def sk_new_def kMinSize_def split: option.split_asm)
  ultimately show ?thesis using s'(2) val valp c fp I(3) sk_new_ok [of a 0 st] st
    by (auto simp: ct e_def s'' sk_new_null_def)
qed


lemma sk_push_spec:
  assumes ok: "stack_ok c st" and r: "sk_push a (Some st) p = (n, s')"
  shows "n = 0 \<and> s' = Some st \<and> (plentiful a \<longrightarrow> 2 ^ 59 \<le> num_alloc st) \<or>
    n \<noteq> 0 \<and> (\<exists>t. s' = Some t \<and> elems t = elems st @ [p] \<and> stack_ok c t \<and> num_alloc t \<le> max (num_alloc st) (2 * (num st + 1)))"
proof -
  have n: "num st = length (elems st)" using length_elems [OF ok] by simp
  note S = sk_insert_spec [OF ok, of a p "num st" n s']
  have ok': "num st < num_alloc st" "num_alloc st * 8 < 2 ^ 64" using ok by (simp_all add: stack_ok_def)
  then have two: "size_wrap (num_alloc st * 2) = num_alloc st * 2" "size_wrap (num_alloc st + 1) = num_alloc st + 1"
    by (simp_all add: size_wrap_def)
  have "2 ^ 59 \<le> num_alloc st" if "n = 0" "plentiful a"
    using sk_insert_fails(2) [OF ok] r that by (fastforce simp: sk_push_def)
  moreover have "num_alloc t \<le> max (num_alloc st) (2 * (num st + 1))" if "s' = Some t" for t
    using r that ok' two by (auto simp: sk_push_def sk_insert_def Let_def split: if_split_asm option.split_asm)
  ultimately show ?thesis using S r n by (auto simp: sk_push_def)
qed

lemma sk_delete_alloc: "sk_delete (Some st) i = (q, Some t) \<Longrightarrow> num_alloc t = num_alloc st"
  by (auto simp: sk_delete_def Let_def split: if_split_asm)

lemma sk_delete_ptr_spec:
  assumes ok: "stack_ok c st"
  shows "\<exists>t. snd (sk_delete_ptr (Some st) p) = Some t \<and> elems t = remove1 p (elems st) \<and> stack_ok c t \<and> num_alloc t = num_alloc st"
proof -
  have l: "length (elems st) = num st" by (rule length_elems [OF ok])
  have e: "first_index (\<lambda>i. cells st ! i = p) (num st) = first_index (\<lambda>i. elems st ! i = p) (num st)"
    by (rule first_index_cong) (simp add: nth_elems)
  show ?thesis
  proof (cases "first_index (\<lambda>i. elems st ! i = p) (num st)")
    case None
    then have "p \<notin> set (elems st)" using l by (auto simp: first_index_None in_set_conv_nth)
    then show ?thesis using None ok e by (simp add: sk_delete_ptr_def remove1_idem)
  next
    case (Some i)
    then have i: "i < num st" "elems st ! i = p" "\<forall>j < i. elems st ! j \<noteq> p" by (auto simp: first_index_Some)
    have "elems st = take i (elems st) @ p # drop (i + 1) (elems st)" using i l id_take_nth_drop [of i "elems st"] by simp
    moreover have "p \<notin> set (take i (elems st))" using i l by (auto simp: in_set_conv_nth)
    ultimately have "remove1 p (elems st) = take i (elems st) @ drop (i + 1) (elems st)"
      by (metis remove1_append remove1.simps(2))
    then show ?thesis using sk_delete_spec [OF ok, of i] i l e Some
      by (cases "sk_delete (Some st) i") (auto simp: sk_delete_ptr_def dest: sk_delete_alloc)
  qed
qed


text \<open>What adding the value \<open>v\<close> to the section at \<open>sv\<close> makes of the store: \<open>K\<close> is the key that \<open>v\<close> gets.\<close>

definition added :: "conf \<Rightarrow> nat \<Rightarrow> nat \<Rightarrow> conf \<Rightarrow> bool" where
  "added s sv v s' \<longleftrightarrow>
     (let sec = cstr (the (v_section (val_at s sv))) @ [0]; e = (val_at s v)\<lparr>v_section := Some sec\<rparr>;
          k = stack_of (v_value (val_at s sv)) in
      contents (conf_table s') = insert v {q \<in> contents (conf_table s). key (val_at s q) \<noteq> key e} \<and>
      conf.table (val_at s') (conf_table s') \<and> num_items (conf_table s') \<le> num_items (conf_table s) + 1 \<and>
      vals s' v = Some e \<and> (\<forall>q \<in> contents (conf_table s) - {v}. key (val_at s q) \<noteq> key e \<longrightarrow> vals s' q = vals s q) \<and>
      (\<exists>st. stks s' k = Some st \<and> stack_ok (\<lambda>_ _ _. 0) st \<and>
         elems st = filter (\<lambda>q. key (val_at s q) \<noteq> key e) (elems (the (stks s k))) @ [v] \<and>
         num_alloc st \<le> max (num_alloc (the (stks s k))) (2 * (num (the (stks s k)) + 1))) \<and>
      (\<forall>i. i \<noteq> k \<longrightarrow> stks s' i = stks s i))"

lemma filter_remove1:
  assumes "distinct xs" "\<And>q. q \<in> set xs \<Longrightarrow> P q \<longleftrightarrow> q \<noteq> p"
  shows "filter P xs = remove1 p xs"
proof -
  have "filter P xs = filter (\<lambda>q. p \<noteq> q) xs" by (rule filter_cong) (use assms(2) in auto)
  then show ?thesis by (simp add: distinct_remove1_removeAll [OF assms(1)] removeAll_filter_not_eq)
qed

lemma add_string_added:
  assumes ok: "store_ok s" and sv: "sv \<in> sections s" and v: "v \<notin> contents (conf_table s)"
    and nm: "v_name (val_at s v) = Some nm" and few: "num_items (conf_table s) + 1 < 2 ^ 60"
    and a: "plentiful a" and short: "strlen (the (v_section (val_at s sv))) < 2 ^ 62"
    and r: "add_string a s sv v = (r, s')"
  shows "r \<and> added s sv v s' \<or>
    \<not> r \<and> conf_table s' = conf_table s \<and> stks s' = stks s \<and> (\<forall>q. q \<noteq> v \<longrightarrow> vals s' q = vals s q) \<and>
      2 ^ 59 \<le> num_alloc (the (stks s (stack_of (v_value (val_at s sv)))))"
proof -
  define sec where "sec = cstr (the (v_section (val_at s sv))) @ [0]"
  define e where "e = (val_at s v)\<lparr>v_section := Some sec\<rparr>"
  have sd: "OPENSSL_strdup a (the (v_section (val_at s sv))) = Some sec" using strdup_plentiful [OF a short] by (simp add: sec_def)
  obtain k st where k: "v_value (val_at s sv) = Members k" "stks s k = Some st" "stack_ok (\<lambda>_ _ _. 0) st" "distinct (elems st)"
    "set (elems st) = {r \<in> named s. same_section s sv r}"
    using store_okD(3) [OF ok sv] by (auto simp: section_ok_def)
  define V where "V = (vals s)(v \<mapsto> e)"
  define f where "f = (\<lambda>q. the (V q))"
  obtain n sk where push: "sk_push a (Some st) v = (n, sk)" by fastforce
  obtain b old lh where i: "OPENSSL_lh_insert (call_hash f) (call_cmp f) a (conf_table s) v = (b, old, lh)"
    by (metis prod.exhaust)
  define S where "S = s\<lparr>vals := V, stks := (stks s)(k := sk)\<rparr>"
  have "add_string a s sv v = (if n = 0 then (False, S) else if b then
      (True, if old \<noteq> 0 then value_free old (S\<lparr>conf_table := lh, stks := (stks s)(k := snd (sk_delete_ptr sk old))\<rparr>)
         else S\<lparr>conf_table := lh\<rparr>) else (False, S))"
    using i push sd k(1,2) by (simp add: add_string_def Let_def stack_of_def S_def V_def f_def e_def)
  then have r: "(r, s') = (if n = 0 then (False, S) else if b then
      (True, if old \<noteq> 0 then value_free old (S\<lparr>conf_table := lh, stks := (stks s)(k := snd (sk_delete_ptr sk old))\<rparr>)
         else S\<lparr>conf_table := lh\<rparr>) else (False, S))" using r by simp
  show ?thesis
  proof (cases "n = 0")
    case True
    then have "sk = Some st" "2 ^ 59 \<le> num_alloc st" using sk_push_spec [OF k(3) push] a by simp_all
    then show ?thesis using True r k(1,2) by (auto simp: S_def V_def stack_of_def)
  next
    case False
    then obtain st1 where st1: "sk = Some st1" "elems st1 = elems st @ [v]" "stack_ok (\<lambda>_ _ _. 0) st1"
      "num_alloc st1 \<le> max (num_alloc st) (2 * (num st + 1))"
      using sk_push_spec [OF k(3) push] by auto
    have same: "\<forall>q \<in> contents (conf_table s). f q = val_at s q" using v by (auto simp: f_def V_def)
    have fv: "f v = e" by (simp add: f_def V_def)
    have b: b
    proof (rule ccontr)
      assume nb: "\<not> b"
      have "conf.table f (conf_table s)" by (rule table_cong [OF store_okD(1) [OF ok]]) (use same in simp)
      moreover have "num_items (conf_table s) + 1 < 2 ^ 64" using few by simp
      ultimately show False using conf.insert_ok [where f = f and ch = "call_hash f" and cc = "call_cmp f", OF _ _ _ _ i] nb a
        by (simp add: call_hash_def call_cmp_def)
    qed
    have i: "OPENSSL_lh_insert (call_hash f) (call_cmp f) a (conf_table s) v = (True, old, lh)" using i b by simp
    note I = insert_value [OF ok same few i, unfolded fv]
    have kst: "stack_of (v_value (val_at s sv)) = k" "the (stks s k) = st" using k by (simp_all add: stack_of_def)
    have cs: "contents lh = insert v {q \<in> contents (conf_table s). key (val_at s q) \<noteq> key e}" using I(2) by auto
    have inst: "set (elems st) \<subseteq> contents (conf_table s)" using k(5) by (auto simp: named_def)
    have fin: "added s sv v s'"
      if s': "conf_table s' = lh" "\<forall>q \<in> contents lh. vals s' q = V q" "stks s' = (stks s)(k := Some st2)"
        and st2: "stack_ok (\<lambda>_ _ _. 0) st2" "elems st2 = filter (\<lambda>q. key (val_at s q) \<noteq> key e) (elems st) @ [v]"
        "num_alloc st2 \<le> max (num_alloc st) (2 * (num st + 1))" for st2
    proof -
      have t: "conf.table (val_at s') lh" by (rule table_cong [OF I(1)]) (use s'(2) in \<open>simp add: f_def\<close>)
      then show ?thesis using s' st2 I(3)
        unfolding added_def Let_def kst sec_def [symmetric] e_def [symmetric] by (simp add: cs V_def)
    qed
    show ?thesis
    proof (cases "old = 0")
      case True
      then have s': r "s' = S\<lparr>conf_table := lh\<rparr>" using r False b by auto
      have "\<forall>q \<in> contents (conf_table s). key (val_at s q) \<noteq> key e" using I(4) True store_okD(2) [OF ok] by auto
      then have "filter (\<lambda>q. key (val_at s q) \<noteq> key e) (elems st) = elems st" using inst by (simp add: filter_id_conv subset_iff)
      then have "added s sv v s'" by (intro fin [of st1]) (use s' st1 in \<open>auto simp: S_def\<close>)
      then show ?thesis using s'(1) by simp
    next
      case old: False
      then have o: "old \<in> contents (conf_table s)" "key (val_at s old) = key e" using I(4) by auto
      have ov: "old \<noteq> v" using o(1) v by auto
      obtain st2 where st2: "snd (sk_delete_ptr (Some st1) old) = Some st2" "elems st2 = remove1 old (elems st1)"
        "stack_ok (\<lambda>_ _ _. 0) st2" "num_alloc st2 = num_alloc st1" using sk_delete_ptr_spec [OF st1(3), of old] by blast
      have "v_name (val_at s old) \<noteq> None" using o(2) nm by (auto simp: key_def e_def)
      then have s': r "s' = S\<lparr>conf_table := lh, stks := (stks s)(k := Some st2), vals := V(old := None)\<rparr>"
        using r False b old st1(1) st2(1) ov by (auto simp: value_free_def value_free_contents_def S_def V_def)
      have "filter (\<lambda>q. key (val_at s q) \<noteq> key e) (elems st) = remove1 old (elems st)"
        by (rule filter_remove1 [OF k(4)]) (use o inst key_unique [OF ok o(1)] in \<open>metis subsetD\<close>)
      moreover have "elems st2 = remove1 old (elems st) @ [v]" using st2(2) st1(2) ov by (auto simp: remove1_append remove1_idem)
      moreover have "old \<notin> contents lh" using cs o ov by auto
      ultimately have "added s sv v s'" by (intro fin [of st2]) (use s' st2 st1(4) in \<open>auto simp: S_def\<close>)
      then show ?thesis using s'(1) by simp
    qed
  qed
qed


lemma added_ok:
  assumes ok: "store_ok s" and sv: "sv \<in> sections s" and v: "v \<notin> contents (conf_table s)" "v \<noteq> 0"
    and nm: "v_name (val_at s v) = Some nm" and tx: "v_value (val_at s v) = Text t" and ad: "added s sv v s'"
  shows "store_ok s' \<and> sections s' = sections s \<and> (\<forall>q \<in> sections s. val_at s' q = val_at s q) \<and>
    key (val_at s' v) = (fst (key (val_at s sv)), Some (cstr nm)) \<and> v_value (val_at s' v) = Text t \<and>
    named s' = insert v {q \<in> named s. key (val_at s q) \<noteq> (fst (key (val_at s sv)), Some (cstr nm))} \<and>
    (\<forall>q \<in> named s' - {v}. val_at s' q = val_at s q)"
proof -
  define sec where "sec = cstr (the (v_section (val_at s sv))) @ [0]"
  define e where "e = (val_at s v)\<lparr>v_section := Some sec\<rparr>"
  obtain k st where k: "v_value (val_at s sv) = Members k" "stks s k = Some st" "distinct (elems st)"
    "set (elems st) = {r \<in> named s. same_section s sv r}"
    using store_okD(3) [OF ok sv] by (auto simp: section_ok_def)
  have kst: "stack_of (v_value (val_at s sv)) = k" "the (stks s k) = st" using k by (simp_all add: stack_of_def)
  have c: "contents (conf_table s') = insert v {q \<in> contents (conf_table s). key (val_at s q) \<noteq> key e}"
    and tab: "conf.table (val_at s') (conf_table s')" and vv: "vals s' v = Some e"
    and same: "\<forall>q \<in> contents (conf_table s) - {v}. key (val_at s q) \<noteq> key e \<longrightarrow> vals s' q = vals s q"
    and other: "\<forall>i. i \<noteq> k \<longrightarrow> stks s' i = stks s i"
    and "\<exists>st'. stks s' k = Some st' \<and> stack_ok (\<lambda>_ _ _. 0) st' \<and> elems st' = filter (\<lambda>q. key (val_at s q) \<noteq> key e) (elems st) @ [v]"
    using ad unfolding added_def Let_def kst sec_def [symmetric] e_def [symmetric] by blast+
  then obtain st' where st': "stks s' k = Some st'" "stack_ok (\<lambda>_ _ _. 0) st'"
    "elems st' = filter (\<lambda>q. key (val_at s q) \<noteq> key e) (elems st) @ [v]" by blast
  have svs: "v_section (val_at s sv) \<noteq> None" using store_okD(2) [OF ok, of sv] sv by (auto simp: sections_def)
  have ke: "key e = (fst (key (val_at s sv)), Some (cstr nm))" using svs nm by (auto simp: e_def key_def sec_def)
  have e: "v_name e = Some nm" "v_value e = Text t" "v_section e = Some sec" using nm tx by (simp_all add: e_def)
  have ev: "val_at s' v = e" using vv by simp
  have sk: "key (val_at s q) \<noteq> key e" if "q \<in> sections s" for q using that ke by (auto simp: sections_def key_def)
  have val: "vals s' q = vals s q" if "q \<in> contents (conf_table s)" "key (val_at s q) \<noteq> key e" for q
    using same that v(1) by auto
  have secs: "sections s' = sections s"
    using c sk val ev e(1) by (auto simp: sections_def)
  have nam: "named s' = insert v {q \<in> named s. key (val_at s q) \<noteq> key e}"
    using c val ev e(1) by (auto simp: named_def)
  have vs: "val_at s' q = val_at s q" if "q \<in> sections s" for q using val sk that by (simp add: sections_def)
  have vn: "val_at s' q = val_at s q" if "q \<in> named s' - {v}" for q using val nam that by (auto simp: named_def)
  have sse: "fst (key (val_at s' r)) = fst (key (val_at s r))" if "r \<in> named s" "key (val_at s r) \<noteq> key e" for r
    using val [of r] that by (simp add: named_def)
  have members: "{r \<in> named s'. S = fst (key (val_at s' r))} =
      (if S = fst (key e) then {v} else {}) \<union> {r \<in> named s. key (val_at s r) \<noteq> key e \<and> S = fst (key (val_at s r))}" for S
    unfolding nam using sse ev by auto
  have "store_ok s'" unfolding store_ok_def secs nam
  proof (intro conjI ballI impI)
    show "conf.table (val_at s') (conf_table s')" by (rule tab)
    fix q assume "q \<in> contents (conf_table s')"
    then show "q \<noteq> 0" "vals s' q \<noteq> None" "v_section (val_at s' q) \<noteq> None"
      using store_okD(2) [OF ok, of q] c v(2) vv e(3) val [of q] by auto
  next
    fix q assume q: "q \<in> sections s"
    show "section_ok s' q"
    proof (cases "q = sv")
      case True
      have "v \<notin> set (elems st)" using k(4) v(1) by (auto simp: named_def)
      moreover have "set (elems st') = {r \<in> named s'. same_section s' sv r}"
        unfolding members vs [OF sv] using k(4) ke unfolding st'(3) by auto
      ultimately show ?thesis using st' k True vs [OF sv] unfolding section_ok_def
        by (intro exI [of _ k] exI [of _ st']) auto
    next
      case False
      obtain k' st2 where k': "v_value (val_at s q) = Members k'" "stks s k' = Some st2" "stack_ok (\<lambda>_ _ _. 0) st2" "distinct (elems st2)"
        "set (elems st2) = {r \<in> named s. same_section s q r}"
        using store_okD(3) [OF ok q] by (auto simp: section_ok_def)
      have "k' \<noteq> k" using store_okD(4) [OF ok q sv] False k k' by auto
      have "key (val_at s q) \<noteq> key (val_at s sv)"
        using False key_unique [OF ok, of q sv] q sv by (auto simp: sections_def)
      then have d: "fst (key (val_at s q)) \<noteq> fst (key (val_at s sv))" using q sv by (auto simp: sections_def key_def)
      have "{r \<in> named s'. same_section s' q r} = {r \<in> named s. same_section s q r}"
        unfolding members vs [OF q] using d ke by auto
      then show ?thesis using k' vs [OF q] other \<open>k' \<noteq> k\<close> unfolding section_ok_def
        by (intro exI [of _ k'] exI [of _ st2]) simp
    qed
    fix r assume "r \<in> sections s" "v_value (val_at s' q) = v_value (val_at s' r)"
    then show "q = r" using store_okD(4) [OF ok q] vs q by simp
  next
    fix q assume q: "q \<in> insert v {q \<in> named s. key (val_at s q) \<noteq> key e}"
    show "\<exists>t. v_value (val_at s' q) = Text t" using q ev e(2) vn [of q] store_okD(6) [OF ok, of q] nam by (cases "q = v") auto
    show "\<exists>p \<in> sections s. same_section s' p q"
    proof (cases "q = v")
      case True
      then show ?thesis using sv ev ke vs [OF sv] by (intro bexI [of _ sv]) simp_all
    next
      case False
      then obtain p where "p \<in> sections s" "same_section s p q" using store_okD(5) [OF ok, of q] q by auto
      then show ?thesis using False vn [of q] vs [of p] q nam by (intro bexI [of _ p]) simp_all
    qed
  qed
  then show ?thesis using secs vs vn nam ke ev e(2) by simp
qed


section \<open>The store as a database\<close>

text \<open>A database has a list of names and values per section, in the order they were set last.\<close>

type_synonym database = "bytes \<rightharpoonup> (bytes \<times> bytes) list"

definition db_section :: "bytes \<Rightarrow> database \<Rightarrow> database" where
  "db_section sec db = (if db sec = None then db(sec \<mapsto> []) else db)"

definition db_set :: "bytes \<Rightarrow> bytes \<Rightarrow> bytes \<Rightarrow> database \<Rightarrow> database" where
  "db_set sec nam t db = db(sec \<mapsto> filter (\<lambda>(n, _). n \<noteq> nam) (the (db sec)) @ [(nam, t)])"

definition pair_of :: "conf_value \<Rightarrow> bytes \<times> bytes" where
  "pair_of v = (cstr (the (v_name v)), the (string_of (v_value v)))"

text \<open>The stack of the section at \<open>p\<close>, and its names and values.\<close>

definition stack_at :: "conf \<Rightarrow> nat \<Rightarrow> nat list" where
  "stack_at s p = elems (the (stks s (stack_of (v_value (val_at s p)))))"

definition members :: "conf \<Rightarrow> nat \<Rightarrow> (bytes \<times> bytes) list" where
  "members s p = map (pair_of \<circ> val_at s) (stack_at s p)"

definition section_of :: "conf \<Rightarrow> nat \<Rightarrow> bytes" where
  "section_of s p = cstr (the (v_section (val_at s p)))"

definition represents :: "conf \<Rightarrow> database \<Rightarrow> bool" where
  "represents s db \<longleftrightarrow> store_ok s \<and> dom db = section_of s ` sections s \<and> (\<forall>p \<in> sections s. db (section_of s p) = Some (members s p))"

lemma key_section: "store_ok s \<Longrightarrow> p \<in> contents (conf_table s) \<Longrightarrow> fst (key (val_at s p)) = Some (section_of s p)"
  using store_okD(2) [of s p] by (auto simp: key_def section_of_def)

lemma in_contents: "p \<in> sections s \<Longrightarrow> p \<in> contents (conf_table s)" "p \<in> named s \<Longrightarrow> p \<in> contents (conf_table s)"
  by (auto simp: sections_def named_def)

lemma stack_at_ok:
  assumes "store_ok s" "p \<in> sections s"
  shows "set (stack_at s p) = {q \<in> named s. section_of s q = section_of s p}" "distinct (stack_at s p)"
proof -
  obtain k st where k: "v_value (val_at s p) = Members k" "stks s k = Some st" "distinct (elems st)"
    "set (elems st) = {q \<in> named s. same_section s p q}"
    using store_okD(3) [OF assms] by (auto simp: section_ok_def)
  then show "set (stack_at s p) = {q \<in> named s. section_of s q = section_of s p}" "distinct (stack_at s p)"
    using key_section [OF assms(1) in_contents(1) [OF assms(2)]] key_section [OF assms(1) in_contents(2)]
    by (auto simp: stack_at_def stack_of_def)
qed

lemma members_distinct:
  assumes "store_ok s" "p \<in> sections s"
  shows "distinct (map fst (members s p))"
proof -
  have "inj_on (\<lambda>q. cstr (the (v_name (val_at s q)))) (set (stack_at s p))"
  proof (rule inj_onI)
    fix q r assume q: "q \<in> set (stack_at s p)" "r \<in> set (stack_at s p)" "cstr (the (v_name (val_at s q))) = cstr (the (v_name (val_at s r)))"
    then have qr: "q \<in> named s" "r \<in> named s" "section_of s q = section_of s r" using stack_at_ok [OF assms] by auto
    then have "key (val_at s q) = key (val_at s r)"
      using q(3) key_section [OF assms(1) in_contents(2) [OF qr(1)]] key_section [OF assms(1) in_contents(2) [OF qr(2)]]
      by (auto simp: named_def key_def)
    then show "q = r" using key_unique [OF assms(1)] in_contents qr by blast
  qed
  then show ?thesis using stack_at_ok(2) [OF assms] by (simp add: members_def distinct_map) (simp add: inj_on_def pair_of_def)
qed

lemma represents_get_section:
  assumes "represents s db"
  shows "get_section s sec = 0 \<longleftrightarrow> db (cstr sec) = None"
    "get_section s sec \<noteq> 0 \<Longrightarrow> get_section s sec \<in> sections s \<and> section_of s (get_section s sec) = cstr sec"
proof -
  have ok: "store_ok s" and d: "dom db = section_of s ` sections s" using assms by (simp_all add: represents_def)
  have iff: "p \<noteq> 0 \<Longrightarrow> get_section s sec = p \<longleftrightarrow> p \<in> sections s \<and> section_of s p = cstr sec" for p
    using get_section_iff [OF ok, of p sec] key_section [OF ok in_contents(1)] by auto
  show s: "get_section s sec \<noteq> 0 \<Longrightarrow> get_section s sec \<in> sections s \<and> section_of s (get_section s sec) = cstr sec"
    using iff [of "get_section s sec"] by simp
  have nz: "p \<noteq> 0" if "p \<in> sections s" for p using store_okD(2) [OF ok in_contents(1) [OF that]] by simp
  have "get_section s sec \<noteq> 0 \<longleftrightarrow> (\<exists>p \<in> sections s. section_of s p = cstr sec)"
  proof
    assume "\<exists>p \<in> sections s. section_of s p = cstr sec"
    then obtain p where "p \<in> sections s" "section_of s p = cstr sec" by blast
    then have "get_section s sec = p" "p \<noteq> 0" using iff [of p] nz [of p] by simp_all
    then show "get_section s sec \<noteq> 0" by simp
  qed (use s in blast)
  then have "get_section s sec \<noteq> 0 \<longleftrightarrow> cstr sec \<in> dom db" unfolding d by (metis image_iff)
  then show "get_section s sec = 0 \<longleftrightarrow> db (cstr sec) = None" by auto
qed

lemma option_eqI: "(\<And>t. x = Some t \<longleftrightarrow> y = Some t) \<Longrightarrow> x = y"
  by (cases x; cases y) auto

lemma represents_get_string:
  assumes "represents s db"
  shows "NCONF_get_string s (Some sec) nam = Option.bind (db (cstr sec)) (\<lambda>l. map_of l (cstr nam))"
proof -
  have ok: "store_ok s" and d: "dom db = section_of s ` sections s" and m: "\<forall>p \<in> sections s. db (section_of s p) = Some (members s p)"
    using assms by (simp_all add: represents_def)
  have "NCONF_get_string s (Some sec) nam = Some t \<longleftrightarrow> Option.bind (db (cstr sec)) (\<lambda>l. map_of l (cstr nam)) = Some t" for t
  proof -
    have "(\<exists>q \<in> contents (conf_table s). key (val_at s q) = (Some (cstr sec), Some (cstr nam)) \<and> v_value (val_at s q) = Text t) \<longleftrightarrow>
      (\<exists>q \<in> named s. section_of s q = cstr sec \<and> pair_of (val_at s q) = (cstr nam, t))" (is "?l \<longleftrightarrow> ?r")
    proof
      assume ?l
      then obtain q where "q \<in> contents (conf_table s)" "key (val_at s q) = (Some (cstr sec), Some (cstr nam))" "v_value (val_at s q) = Text t" by blast
      then show ?r by (intro bexI [of _ q]) (auto simp: named_def key_def section_of_def pair_of_def string_of_def)
    next
      assume ?r
      then obtain q where q: "q \<in> named s" "section_of s q = cstr sec" "pair_of (val_at s q) = (cstr nam, t)" by blast
      obtain t' where "v_value (val_at s q) = Text t'" using store_okD(6) [OF ok q(1)] by blast
      moreover obtain x y where "v_name (val_at s q) = Some x" "v_section (val_at s q) = Some y"
        using store_okD(2) [OF ok in_contents(2) [OF q(1)]] q(1) by (auto simp: named_def)
      ultimately show ?l using q by (intro bexI [of _ q]) (auto simp: in_contents pair_of_def string_of_def key_def section_of_def)
    qed
    also have "\<dots> \<longleftrightarrow> (\<exists>p \<in> sections s. section_of s p = cstr sec \<and> (cstr nam, t) \<in> set (members s p))" (is "?l \<longleftrightarrow> ?r")
    proof
      assume ?l
      then obtain q where q: "q \<in> named s" "section_of s q = cstr sec" "pair_of (val_at s q) = (cstr nam, t)" by blast
      obtain p where p: "p \<in> sections s" "same_section s p q" using store_okD(5) [OF ok q(1)] by blast
      then have "section_of s p = cstr sec" using q key_section [OF ok] in_contents by (metis option.inject)
      moreover have "q \<in> set (stack_at s p)" using stack_at_ok(1) [OF ok p(1)] q calculation by simp
      ultimately show ?r using p(1) q(3) by (intro bexI [of _ p]) (auto simp: members_def intro: rev_image_eqI)
    next
      assume ?r
      then obtain p where p: "p \<in> sections s" "section_of s p = cstr sec" "(cstr nam, t) \<in> set (members s p)" by blast
      then obtain q where "q \<in> set (stack_at s p)" "pair_of (val_at s q) = (cstr nam, t)" by (auto simp: members_def)
      then show ?l using stack_at_ok(1) [OF ok p(1)] p(2) by auto
    qed
    also have "\<dots> \<longleftrightarrow> (\<exists>p \<in> sections s. section_of s p = cstr sec \<and> map_of (members s p) (cstr nam) = Some t)"
      using members_distinct [OF ok] by (metis map_of_eq_Some_iff)
    also have "\<dots> \<longleftrightarrow> Option.bind (db (cstr sec)) (\<lambda>l. map_of l (cstr nam)) = Some t" (is "?l \<longleftrightarrow> ?r")
    proof
      assume ?l
      then obtain p where p: "p \<in> sections s" "section_of s p = cstr sec" "map_of (members s p) (cstr nam) = Some t" by blast
      then show ?r using m by (metis Option.bind.bind_lunit)
    next
      assume r: ?r
      then have "cstr sec \<in> dom db" by (cases "db (cstr sec)") auto
      then obtain p where p: "p \<in> sections s" "section_of s p = cstr sec" unfolding d by auto
      then show ?l using r m by (metis Option.bind.bind_lunit)
    qed
    finally show ?thesis unfolding NCONF_get_string_iff [OF ok] .
  qed
  then show ?thesis by (rule option_eqI)
qed


lemma represents_new:
  assumes "NCONF_new a False = Some s"
  shows "represents s Map.empty \<and> contents (conf_table s) = {} \<and> num_items (conf_table s) = 0"
proof -
  obtain lh where lh: "OPENSSL_lh_new a 1 2 = Some lh" "s = \<lparr>conf_table = lh, vals = Map.empty, stks = Map.empty\<rparr>"
    using assms by (auto simp: NCONF_new_def split: option.split_asm)
  have t: "lh_ok H C lh \<and> contents lh = {}" for H C using lh_new_ok [OF lh(1)] by simp
  show ?thesis using t lh lh_ok_card [OF conjunct1 [OF t]] by (simp add: represents_def store_ok_def sections_def named_def)
qed

lemma represents_new_section:
  assumes r: "represents s db" and new: "db (cstr sec) = None" and fresh: "p \<noteq> 0" "stks s k = None" "p \<notin> contents (conf_table s)"
    and few: "num_items (conf_table s) + 1 < 2 ^ 60" and run: "NCONF_new_section a p k sec s = (v, s')" "v \<noteq> 0"
  shows "v = p \<and> represents s' (db(cstr sec \<mapsto> [])) \<and> contents (conf_table s') = insert p (contents (conf_table s)) \<and>
    p \<in> sections s' \<and> section_of s' p = cstr sec \<and> num_items (conf_table s') \<le> num_items (conf_table s) + 1 \<and>
    (\<exists>st. stks s' k = Some st \<and> num_alloc st = 4) \<and> (\<forall>i. i \<noteq> k \<longrightarrow> stks s' i = stks s i)"
proof -
  have ok: "store_ok s" and d: "dom db = section_of s ` sections s" and m: "\<forall>p \<in> sections s. db (section_of s p) = Some (members s p)"
    using r by (simp_all add: represents_def)
  have "get_section s sec = 0" using represents_get_section(1) [OF r] new by simp
  note N = new_section_ok [OF ok fresh this few run]
  have ok': "store_ok s'" and c: "contents (conf_table s') = insert p (contents (conf_table s))"
    and val: "\<forall>q \<in> contents (conf_table s). val_at s' q = val_at s q" and stk: "\<forall>i. i \<noteq> k \<longrightarrow> stks s' i = stks s i"
    and p: "v_name (val_at s' p) = None" "fst (key (val_at s' p)) = Some (cstr sec)" "v_value (val_at s' p) = Members k"
    and e: "\<exists>st. stks s' k = Some st \<and> elems st = [] \<and> num_alloc st = 4"
    using N by blast+
  have secs: "sections s' = insert p (sections s)" unfolding sections_def c using val p(1) by auto
  have vs: "val_at s' q = val_at s q" if "q \<in> sections s" for q using val in_contents(1) [OF that] by simp
  have so: "section_of s' q = section_of s q" if "q \<in> sections s" for q using vs [OF that] by (simp add: section_of_def)
  have sp: "section_of s' p = cstr sec" using key_section [OF ok', of p] c p(2) by simp
  have mp: "members s' p = []" using e p(3) by (auto simp: members_def stack_at_def stack_of_def)
  have ms: "members s' q = members s q" if q: "q \<in> sections s" for q
  proof -
    obtain k' st where k': "v_value (val_at s q) = Members k'" "stks s k' = Some st"
      using store_okD(3) [OF ok q] by (auto simp: section_ok_def)
    then have "k' \<noteq> k" using fresh(2) by auto
    then have "stack_at s' q = stack_at s q" using vs [OF q] stk k' by (simp add: stack_at_def stack_of_def)
    moreover have "val_at s' r = val_at s r" if "r \<in> set (stack_at s q)" for r
      using stack_at_ok(1) [OF ok q] that val in_contents(2) [of r s] by simp
    ultimately show ?thesis by (simp add: members_def)
  qed
  have "represents s' (db(cstr sec \<mapsto> []))" unfolding represents_def secs
  proof (intro conjI ballI)
    show "dom (db(cstr sec \<mapsto> [])) = section_of s' ` insert p (sections s)" using d so sp by simp
    fix q assume "q \<in> insert p (sections s)"
    then show "(db(cstr sec \<mapsto> [])) (section_of s' q) = Some (members s' q)"
      using m new so sp mp ms by (cases "q = p") auto
  qed (rule ok')
  then show ?thesis using N secs sp e by auto
qed

lemma represents_add:
  assumes r: "represents s db" and sv: "sv \<in> sections s" and v: "v \<notin> contents (conf_table s)" "v \<noteq> 0"
    and nm: "v_name (val_at s v) = Some nm" and tx: "v_value (val_at s v) = Text t" and ad: "added s sv v s'"
  shows "represents s' (db_set (section_of s sv) (cstr nm) t db)"
proof -
  have ok: "store_ok s" and d: "dom db = section_of s ` sections s" and m: "\<forall>p \<in> sections s. db (section_of s p) = Some (members s p)"
    using r by (simp_all add: represents_def)
  define K where "K = (fst (key (val_at s sv)), Some (cstr nm))"
  note A = added_ok [OF ok sv v nm tx ad, folded K_def]
  have ok': "store_ok s'" and secs: "sections s' = sections s" and vs: "\<forall>q \<in> sections s. val_at s' q = val_at s q"
    and kv: "key (val_at s' v) = K" and tv: "v_value (val_at s' v) = Text t"
    and nam: "named s' = insert v {q \<in> named s. key (val_at s q) \<noteq> K}"
    and vn: "\<forall>q \<in> named s' - {v}. val_at s' q = val_at s q"
    using A by blast+
  have so: "section_of s' q = section_of s q" if "q \<in> sections s" for q using vs that by (simp add: section_of_def)
  have ks: "fst (key (val_at s q)) = Some (section_of s q)" if "q \<in> contents (conf_table s)" for q by (rule key_section [OF ok that])
  have st: "stack_at s' sv = filter (\<lambda>q. key (val_at s q) \<noteq> K) (stack_at s sv) @ [v]"
    and other: "\<forall>i. i \<noteq> stack_of (v_value (val_at s sv)) \<longrightarrow> stks s' i = stks s i"
    using ad kv bspec [OF vs sv] by (auto simp: added_def Let_def stack_at_def)
  have pv: "pair_of (val_at s' v) = (cstr nm, t)" using kv tv by (auto simp: pair_of_def string_of_def key_def K_def)
  have K: "K = (Some (section_of s sv), Some (cstr nm))" using ks [OF in_contents(1) [OF sv]] by (simp add: K_def)
  have old: "val_at s' q = val_at s q" if "q \<in> named s" "key (val_at s q) \<noteq> K" for q
    using vn nam that in_contents(2) v(1) by auto
  have keyn: "key (val_at s q) = (Some (section_of s q), Some (fst (pair_of (val_at s q))))" if "q \<in> named s" for q
    using ks [OF in_contents(2) [OF that]] that by (auto simp: named_def pair_of_def key_def)
  have uniq: "p = sv" if p: "p \<in> sections s" "section_of s p = section_of s sv" for p
  proof (rule key_unique [OF ok])
    show "key (val_at s p) = key (val_at s sv)"
      using ks [OF in_contents(1) [OF p(1)]] ks [OF in_contents(1) [OF sv]] p sv by (auto simp: sections_def key_def)
  qed (use p sv in_contents in auto)
  have "filter (\<lambda>q. key (val_at s q) \<noteq> K) (stack_at s sv) = filter (\<lambda>q. fst (pair_of (val_at s q)) \<noteq> cstr nm) (stack_at s sv)"
    using stack_at_ok(1) [OF ok sv] keyn K by (intro filter_cong) auto
  moreover have "map (pair_of \<circ> val_at s') (filter (\<lambda>q. key (val_at s q) \<noteq> K) (stack_at s sv)) =
      map (pair_of \<circ> val_at s) (filter (\<lambda>q. key (val_at s q) \<noteq> K) (stack_at s sv))"
    using stack_at_ok(1) [OF ok sv] old by (intro map_cong) auto
  ultimately have msv: "members s' sv = filter (\<lambda>(n, _). n \<noteq> cstr nm) (members s sv) @ [(cstr nm, t)]"
    unfolding members_def st by (simp add: filter_map pv o_def case_prod_beta)
  have ms: "members s' p = members s p" if p: "p \<in> sections s" "p \<noteq> sv" for p
  proof -
    obtain k k' where k: "v_value (val_at s p) = Members k" "v_value (val_at s sv) = Members k'"
      using store_okD(3) [OF ok p(1)] store_okD(3) [OF ok sv] by (auto simp: section_ok_def)
    then have "k \<noteq> k'" using store_okD(4) [OF ok p(1) sv] p(2) by auto
    then have same: "stack_at s' p = stack_at s p" using other vs p(1) k by (simp add: stack_at_def stack_of_def)
    have "val_at s' q = val_at s q" if "q \<in> set (stack_at s p)" for q
      using old [of q] keyn [of q] K stack_at_ok(1) [OF ok p(1)] that uniq [OF p(1)] p(2) by auto
    then show ?thesis by (simp add: members_def same)
  qed
  show ?thesis unfolding represents_def secs db_set_def
  proof (intro conjI ballI)
    show "dom (db(section_of s sv \<mapsto> filter (\<lambda>(n, _). n \<noteq> cstr nm) (the (db (section_of s sv))) @ [(cstr nm, t)])) =
        section_of s' ` sections s"
      using d so sv by (auto simp: insert_absorb)
    fix p assume p: "p \<in> sections s"
    show "(db(section_of s sv \<mapsto> filter (\<lambda>(n, _). n \<noteq> cstr nm) (the (db (section_of s sv))) @ [(cstr nm, t)])) (section_of s' p) =
        Some (members s' p)"
      using m so [OF p] sv msv ms [OF p] uniq [OF p] p by (cases "p = sv") auto
  qed (rule ok')
qed


text \<open>A value that is not in the table does not matter.\<close>

lemma represents_fresh:
  assumes "represents s db" "v \<notin> contents (conf_table s)"
  shows "represents (s\<lparr>vals := (vals s)(v \<mapsto> e)\<rparr>) db"
proof -
  define s1 where "s1 = s\<lparr>vals := (vals s)(v \<mapsto> e)\<rparr>"
  have same: "conf_table s1 = conf_table s" "stks s1 = stks s" by (simp_all add: s1_def)
  have ok: "store_ok s" using assms(1) by (simp add: represents_def)
  have val: "vals s1 q = vals s q" if "q \<in> contents (conf_table s)" for q using that assms(2) by (auto simp: s1_def)
  have sets: "sections s1 = sections s" "named s1 = named s" using val by (auto simp: sections_def named_def same)
  have vs: "val_at s1 p = val_at s p" if "p \<in> sections s \<or> p \<in> named s" for p using that in_contents val by metis
  have so: "section_ok s1 p" if "p \<in> sections s" for p
  proof -
    have "{q \<in> named s. same_section s1 p q} = {q \<in> named s. same_section s p q}" using that vs by auto
    then show ?thesis using vs that store_okD(3) [OF ok that] by (simp add: section_ok_def sets same)
  qed
  have tab: "conf.table (val_at s1) (conf_table s)"
    by (rule table_cong [OF store_okD(1) [OF ok]]) (use val in simp)
  have "store_ok s1" unfolding store_ok_def sets same
  proof (intro conjI ballI impI)
    fix q assume q: "q \<in> named s"
    show "\<exists>p \<in> sections s. same_section s1 p q" "\<exists>t. v_value (val_at s1 q) = Text t"
      using store_okD(5,6) [OF ok q] vs q by auto
  qed (use tab so store_okD(2,4) [OF ok] val vs in \<open>auto simp: same\<close>)
  moreover have "members s1 p = members s p" if "p \<in> sections s" for p
    using vs that stack_at_ok(1) [OF ok that] by (simp add: members_def stack_at_def same)
  moreover have "section_of s1 p = section_of s p" if "p \<in> sections s" for p using vs that by (simp add: section_of_def)
  ultimately show ?thesis using assms(1) unfolding s1_def [symmetric] by (simp add: represents_def sets)
qed

text \<open>
  Room for more: no stack has outgrown twice the number \<open>n\<close> of steps so far, so an allocator that delivers lets the
  next step succeed.
\<close>

definition roomy_store :: "nat \<Rightarrow> conf \<Rightarrow> bool" where
  "roomy_store n s \<longleftrightarrow> num_items (conf_table s) \<le> n \<and> (\<forall>k st. stks s k = Some st \<longrightarrow> num_alloc st \<le> 4 + 2 * n)"

lemma roomy_add:
  assumes ok: "store_ok s" and sv: "sv \<in> sections s" and room: "roomy_store n s" and ad: "added s sv v s'"
  shows "roomy_store (Suc n) s'"
proof -
  obtain k st where k: "v_value (val_at s sv) = Members k" "stks s k = Some st" "stack_ok (\<lambda>_ _ _. 0) st" "distinct (elems st)"
    "set (elems st) = {q \<in> named s. same_section s sv q}"
    using store_okD(3) [OF ok sv] by (auto simp: section_ok_def)
  have kst: "stack_of (v_value (val_at s sv)) = k" "the (stks s k) = st" using k by (simp_all add: stack_of_def)
  have "num st = card (set (elems st))" using length_elems [OF k(3)] distinct_card [OF k(4)] by simp
  also have "\<dots> \<le> card (contents (conf_table s))" unfolding k(5) by (rule card_mono) (auto simp: in_contents)
  also have "\<dots> \<le> n" using lh_ok_card [OF store_okD(1) [OF ok]] room by (simp add: roomy_store_def)
  finally have "num st \<le> n" .
  moreover have "num_alloc st \<le> 4 + 2 * n" using room k(2) by (auto simp: roomy_store_def)
  moreover obtain st' where st': "stks s' k = Some st'" "num_alloc st' \<le> max (num_alloc st) (2 * (num st + 1))"
    using ad unfolding added_def Let_def kst by blast
  ultimately have a: "num_alloc st' \<le> 4 + 2 * Suc n" by simp
  have "num_alloc st2 \<le> 4 + 2 * Suc n" if "stks s' i = Some st2" for i st2
  proof (cases "i = k")
    case False
    then have "stks s i = Some st2" using ad that unfolding added_def Let_def kst by auto
    then show ?thesis using room by (fastforce simp: roomy_store_def)
  qed (use that st' a in simp)
  moreover have "num_items (conf_table s') \<le> Suc n" using ad room by (simp add: added_def Let_def roomy_store_def)
  ultimately show ?thesis by (simp add: roomy_store_def)
qed

lemma new_section_succeeds:
  assumes ok: "store_ok s" and p: "p \<noteq> 0" "p \<notin> contents (conf_table s)" and few: "num_items (conf_table s) + 1 < 2 ^ 60"
    and a: "plentiful a" "strlen sec < 2 ^ 62"
  shows "\<exists>s'. NCONF_new_section a p k sec s = (p, s')"
proof -
  obtain x y z where "OPENSSL_malloc a 24 = Some x" "OPENSSL_malloc a 40 = Some y" "OPENSSL_malloc a 32 = Some z"
    using plentiful_malloc [OF a(1), of 24] plentiful_malloc [OF a(1), of 40] plentiful_malloc [OF a(1), of 32] by auto
  then obtain st where st: "sk_new_null a = Some st" and m: "OPENSSL_malloc a 24 = Some x"
    by (auto simp: sk_new_null_def sk_new_def kMinSize_def)
  define f where "f = (\<lambda>q. the (((vals s)(p \<mapsto> \<lparr>v_section = Some (cstr sec @ [0]), v_name = None, v_value = Members k\<rparr>)) q))"
  obtain b old lh where i: "OPENSSL_lh_insert (call_hash f) (call_cmp f) a (conf_table s) p = (b, old, lh)"
    by (metis prod.exhaust)
  have b
  proof (rule ccontr)
    assume nb: "\<not> b"
    have "conf.table f (conf_table s)" by (rule table_cong [OF store_okD(1) [OF ok]]) (use p(2) in \<open>auto simp: f_def\<close>)
    moreover have "num_items (conf_table s) + 1 < 2 ^ 64" using few by simp
    ultimately show False using conf.insert_ok [where f = f and ch = "call_hash f" and cc = "call_cmp f", OF _ _ _ _ i] nb a(1)
      by (simp add: call_hash_def call_cmp_def)
  qed
  then show ?thesis using i st m strdup_plentiful [OF a] p(1)
    by (simp add: NCONF_new_section_def CONF_VALUE_new_def Let_def f_def)
qed

text \<open>
  What the parser does to a store, in \<open>n\<close> steps. The memory of a value is fresh, and the parser fills in name and
  value before it adds it to the section it looked up.
\<close>

definition with_value :: "nat \<Rightarrow> bytes \<Rightarrow> bytes \<Rightarrow> conf \<Rightarrow> conf" where
  "with_value v nm t s = s\<lparr>vals := (vals s)(v \<mapsto> \<lparr>v_section = None, v_name = Some nm, v_value = Text t\<rparr>)\<rparr>"

inductive conf_run :: "nat \<Rightarrow> conf \<Rightarrow> database \<Rightarrow> bool" where
  new: "NCONF_new a False = Some s \<Longrightarrow> conf_run 0 s Map.empty"
| section_added: "conf_run n s db \<Longrightarrow> get_section s sec = 0 \<Longrightarrow> p \<noteq> 0 \<Longrightarrow> vals s p = None \<Longrightarrow> stks s k = None \<Longrightarrow>
    NCONF_new_section a p k sec s = (v, s') \<Longrightarrow> v \<noteq> 0 \<Longrightarrow> conf_run (Suc n) s' (db_section (cstr sec) db)"
| value_set: "conf_run n s db \<Longrightarrow> get_section s sec = sv \<Longrightarrow> sv \<noteq> 0 \<Longrightarrow> v \<noteq> 0 \<Longrightarrow> vals s v = None \<Longrightarrow>
    plentiful a \<Longrightarrow> strlen sec < 2 ^ 62 \<Longrightarrow> add_string a (with_value v nm t s) sv v = (True, s') \<Longrightarrow>
    conf_run (Suc n) s' (db_set (cstr sec) (cstr nm) t db)"

lemma not_in_table: "store_ok s \<Longrightarrow> vals s p = None \<Longrightarrow> p \<notin> contents (conf_table s)"
  by (auto dest: store_okD(2))

text \<open>A value for a section of the store.\<close>

lemma with_value_ok:
  assumes r: "represents s db" and sv: "get_section s sec = sv" "sv \<noteq> 0" and v: "v \<notin> contents (conf_table s)" and room: "roomy_store n s"
  shows "represents (with_value v nm t s) db" "sv \<in> sections (with_value v nm t s)" "section_of (with_value v nm t s) sv = cstr sec"
    "v \<notin> contents (conf_table (with_value v nm t s))" "roomy_store n (with_value v nm t s)" "store_ok (with_value v nm t s)"
proof -
  have sv: "sv \<in> sections s \<and> section_of s sv = cstr sec" using represents_get_section(2) [OF r, of sec] sv by simp
  then have "sv \<noteq> v" using in_contents(1) v by auto
  then show "sv \<in> sections (with_value v nm t s)" "section_of (with_value v nm t s) sv = cstr sec"
    using sv by (auto simp: with_value_def sections_def section_of_def)
  show "represents (with_value v nm t s) db" unfolding with_value_def by (rule represents_fresh [OF r v])
  then show "store_ok (with_value v nm t s)" by (simp add: represents_def)
  show "v \<notin> contents (conf_table (with_value v nm t s))" "roomy_store n (with_value v nm t s)"
    using v room by (simp_all add: with_value_def roomy_store_def)
qed

lemma value_added:
  assumes r: "represents s db" and sv: "get_section s sec = sv" "sv \<noteq> 0" and v: "v \<notin> contents (conf_table s)" "v \<noteq> 0"
    and room: "roomy_store n s" "n < 2 ^ 57" and a: "plentiful a" "strlen sec < 2 ^ 62"
  shows "\<exists>s'. add_string a (with_value v nm t s) sv v = (True, s') \<and> represents s' (db_set (cstr sec) (cstr nm) t db) \<and>
    roomy_store (Suc n) s' \<and> get_section s' sec = sv \<and> (\<forall>i. stks s i = None \<longrightarrow> stks s' i = None)"
proof -
  note W = with_value_ok [OF r sv v(1) room(1), of nm t]
  obtain b s' where run: "add_string a (with_value v nm t s) sv v = (b, s')" by fastforce
  have short: "strlen (the (v_section (val_at (with_value v nm t s) sv))) < 2 ^ 62"
    using W(3) a(2) by (simp add: section_of_def strlen_def)
  obtain k st where k: "v_value (val_at (with_value v nm t s) sv) = Members k" "stks (with_value v nm t s) k = Some st"
    using store_okD(3) [OF W(6,2)] by (auto simp: section_ok_def)
  have "num_alloc st \<le> 4 + 2 * n" using W(5) k(2) by (auto simp: roomy_store_def)
  moreover have "num_items (conf_table (with_value v nm t s)) + 1 < 2 ^ 60" using W(5) room(2) by (simp add: roomy_store_def)
  moreover have "v_name (val_at (with_value v nm t s) v) = Some nm" "v_value (val_at (with_value v nm t s) v) = Text t"
    by (simp_all add: with_value_def)
  ultimately have "b" "added (with_value v nm t s) sv v s'"
    using add_string_added [OF W(6,2,4) _ _ a(1) short run] k room(2) by (auto simp: stack_of_def)
  have nm: "v_name (val_at (with_value v nm t s) v) = Some nm" "v_value (val_at (with_value v nm t s) v) = Text t"
    by (simp_all add: with_value_def)
  note A = added_ok [OF W(6,2,4) v(2) nm \<open>added _ _ _ _\<close>]
  have "get_section s' sec = sv"
  proof -
    have "sv \<in> sections s'" "val_at s' sv = val_at (with_value v nm t s) sv" "store_ok s'" using A W(2) by auto
    moreover have "fst (key (val_at (with_value v nm t s) sv)) = Some (cstr sec)"
      using key_section [OF W(6) in_contents(1) [OF W(2)]] W(3) by simp
    ultimately show ?thesis using get_section_iff [of s' sv sec] sv(2) by simp
  qed
  moreover have "stks s' i = None" if "stks s i = None" for i
  proof -
    have "i \<noteq> k" using that k(2) by (auto simp: with_value_def)
    then show ?thesis using \<open>added _ _ _ _\<close> k(1) that by (auto simp: added_def Let_def stack_of_def with_value_def)
  qed
  ultimately show ?thesis
    using represents_add [OF W(1,2,4) v(2) nm \<open>added _ _ _ _\<close>] roomy_add [OF W(6,2,5) \<open>added _ _ _ _\<close>] run W(3) \<open>b\<close> by auto
qed

lemma section_added:
  assumes r: "represents s db" and new: "get_section s sec = 0" and fresh: "p \<noteq> 0" "vals s p = None" "stks s k = None"
    and room: "roomy_store n s" "n < 2 ^ 57" and run: "NCONF_new_section a p k sec s = (v, s')" "v \<noteq> 0"
  shows "represents s' (db_section (cstr sec) db) \<and> roomy_store (Suc n) s' \<and> v = p \<and> get_section s' sec = p \<and>
    contents (conf_table s') = insert p (contents (conf_table s)) \<and> (\<forall>i. i \<noteq> k \<longrightarrow> stks s' i = stks s i)"
proof -
  have nv: "p \<notin> contents (conf_table s)" using r fresh(2) not_in_table by (auto simp: represents_def)
  have none: "db (cstr sec) = None" using represents_get_section(1) [OF r] new by simp
  have "num_items (conf_table s) + 1 < 2 ^ 60" using room by (simp add: roomy_store_def)
  note N = represents_new_section [OF r none fresh(1,3) nv this run]
  have "num_alloc st \<le> 4 + 2 * Suc n" if st: "stks s' i = Some st" for i st
  proof (cases "i = k")
    case False
    then have "stks s i = Some st" using N st by simp
    then show ?thesis using room(1) by (fastforce simp: roomy_store_def)
  qed (use N st in auto)
  then have "roomy_store (Suc n) s'" using N room(1) by (simp add: roomy_store_def)
  moreover have "get_section s' sec = p"
    using N fresh(1) get_section_iff [of s' p sec] key_section [of s' p] in_contents(1) [of p s'] by (auto simp: represents_def)
  ultimately show ?thesis using N none by (simp add: db_section_def fun_upd_def)
qed

lemma conf_run_represents: "conf_run n s db \<Longrightarrow> n \<le> 2 ^ 57 \<Longrightarrow> represents s db \<and> roomy_store n s"
proof (induction rule: conf_run.induct)
  case (new a s)
  then have "roomy_store 0 s" using represents_new [OF new(1)] by (auto simp: NCONF_new_def roomy_store_def split: option.split_asm)
  then show ?case using represents_new [OF new(1)] by simp
next
  case (section_added n s db sec p k a v s')
  then show ?case using Conf.section_added [of s db sec p k n a v s'] by simp
next
  case (value_set n s db sec sv v a nm t s')
  then show ?case using value_added [of s db sec sv v n a nm t] not_in_table [of s v] by (simp add: represents_def)
qed


lemma add_string_vals:
  assumes "add_string a s sv v = (r, s')" "q \<noteq> v" "vals s q = None"
  shows "vals s' q = None"
  using assms by (auto simp: add_string_def Let_def value_free_def value_free_contents_def
      split: prod.split_asm if_split_asm bool.split_asm conf_data.split_asm)

lemma new_section_vals:
  assumes "NCONF_new_section a p k sec s = (v, s')" "q \<noteq> p" "vals s q = None"
  shows "vals s' q = None"
  using assms by (auto simp: NCONF_new_section_def CONF_VALUE_new_def value_free_def value_free_contents_def Let_def
      split: option.split_asm if_split_asm prod.split_asm bool.split_asm conf_data.split_asm)

section \<open>Freeing a store\<close>

lemma doall_chain_fold: "doall_chain (\<lambda>p (lh, s). (lh, g p s)) c (lh, s) = (lh, fold g (map data c) s)"
  by (induction c arbitrary: s) simp_all

lemma doall_buckets_fold:
  "doall_buckets (\<lambda>p (lh, s). (lh, g p s)) n i (lh, s) = (lh, fold (\<lambda>i. fold g (map data (buckets lh ! i))) [i..<n] s)"
proof (induction "n - i" arbitrary: i s)
  case (Suc m)
  then have "m = n - Suc i" "i < n" by simp_all
  then show ?case using Suc(1) [of "Suc i"] by (subst doall_buckets.simps) (simp add: doall_chain_fold upt_conv_Cons)
qed (simp add: doall_buckets.simps)

lemma fold_concat: "fold (\<lambda>i. fold g (f (xs ! i))) [0..<length xs] s = fold g (concat (map f xs)) s"
proof (induction xs arbitrary: s)
  case (Cons x xs)
  have "[0..<length (x # xs)] = 0 # map Suc [0..<length xs]" by (simp add: map_Suc_upt upt_conv_Cons del: upt_Suc)
  then show ?case using Cons by (simp add: fold_map o_def del: upt_Suc)
qed simp

lemma fold_value_free:
  assumes "distinct ps" "\<forall>p \<in> set ps. vals s p \<noteq> None"
  shows "vals (fold value_free ps s) = (\<lambda>q. if q \<in> set ps then None else vals s q) \<and>
    stks (fold value_free ps s) = (\<lambda>k. if \<exists>p \<in> set ps. v_name (val_at s p) = None \<and> v_value (val_at s p) = Members k then None else stks s k) \<and>
    conf_table (fold value_free ps s) = conf_table s"
  using assms
proof (induction ps arbitrary: s)
  case (Cons p ps)
  define s1 where "s1 = value_free p s"
  have v1: "vals s1 = (vals s)(p := None)" and t1: "conf_table s1 = conf_table s"
    and k1: "stks s1 = (\<lambda>k. if v_name (val_at s p) = None \<and> v_value (val_at s p) = Members k then None else stks s k)"
    by (auto simp: s1_def value_free_def value_free_contents_def split: conf_data.split)
  have "\<forall>q \<in> set ps. vals s1 q = vals s q" using Cons.prems v1 by auto
  then show ?case using Cons.IH [of s1] Cons.prems v1 t1 k1 by (auto simp: s1_def [symmetric] fun_eq_iff)
qed simp

text \<open>\<open>NCONF_free\<close> frees every value and every stack of the store, once, and nothing else.\<close>

lemma NCONF_free_all:
  assumes "store_ok s"
  shows "vals (NCONF_free a s) q = (if q \<in> contents (conf_table s) then None else vals s q)"
    "stks (NCONF_free a s) k = (if \<exists>p \<in> sections s. v_value (val_at s p) = Members k then None else stks s k)"
proof -
  define f where "f = (\<lambda>p. \<lambda>(lh :: lhash, s). (lh, value_free p s))"
  define lh where "lh = (if callback_depth (conf_table s) < UINT_MAX
    then conf_table s\<lparr>callback_depth := callback_depth (conf_table s) + 1\<rparr> else conf_table s)"
  define ps where "ps = map data (concat (buckets (conf_table s)))"
  have b: "buckets lh = buckets (conf_table s)" "num_buckets lh = num_buckets (conf_table s)" by (simp_all add: lh_def)
  have tab: "conf.table (val_at s) (conf_table s)" by (rule store_okD(1) [OF assms])
  then have l: "length (buckets lh) = num_buckets lh" unfolding b by (simp add: lh_ok_def placed_def)
  have "doall_buckets f (num_buckets lh) 0 (lh, s) = (lh, fold value_free ps s)"
    unfolding f_def doall_buckets_fold using fold_concat [where xs = "buckets lh" and f = "map data" and g = value_free and s = s]
    unfolding l by (simp add: ps_def b map_concat)
  then have free: "NCONF_free a s = fold value_free ps s"
    by (simp add: NCONF_free_def OPENSSL_lh_doall_arg_def Let_def f_def lh_def)
  have "distinct ps" using tab by (simp add: ps_def lh_ok_def)
  moreover have ps: "set ps = contents (conf_table s)" by (simp add: ps_def contents_def)
  moreover have "\<forall>p \<in> set ps. vals s p \<noteq> None" unfolding ps using store_okD(2) [OF assms] by blast
  ultimately have F: "vals (fold value_free ps s) = (\<lambda>q. if q \<in> contents (conf_table s) then None else vals s q)"
    "stks (fold value_free ps s) = (\<lambda>k. if \<exists>p \<in> contents (conf_table s). v_name (val_at s p) = None \<and> v_value (val_at s p) = Members k then None else stks s k)"
    using fold_value_free [of ps s] unfolding ps by blast+
  show "vals (NCONF_free a s) q = (if q \<in> contents (conf_table s) then None else vals s q)"
    "stks (NCONF_free a s) k = (if \<exists>p \<in> sections s. v_value (val_at s p) = Members k then None else stks s k)"
    unfolding free F by (auto simp: sections_def)
qed

text \<open>
  The copy of the section's name may fail, which \<open>add_string\<close> does not look at: it can answer success and leave a value
  without a section.
\<close>

lemma add_string_unchecked_strdup:
  assumes "OPENSSL_strdup a (the (v_section (val_at s sv))) = None" "add_string a s sv v = (True, s')" "vals s' v \<noteq> None"
  shows "v_section (val_at s' v) = None"
  using assms by (auto simp: add_string_def Let_def value_free_def value_free_contents_def
      split: prod.split_asm if_split_asm bool.split_asm conf_data.split_asm)

lemma represents_NCONF_get_section:
  assumes r: "represents s db"
  shows "case db (cstr sec) of None \<Rightarrow> NCONF_get_section s sec = 0
      | Some l \<Rightarrow> (\<exists>st. stks s (NCONF_get_section s sec) = Some st \<and> map (pair_of \<circ> val_at s) (elems st) = l)"
proof (cases "get_section s sec = 0")
  case True
  then show ?thesis using represents_get_section(1) [OF r, of sec] by (simp add: NCONF_get_section_def)
next
  case False
  define p where "p = get_section s sec"
  have ok: "store_ok s" using r by (simp add: represents_def)
  have p: "p \<in> sections s" "section_of s p = cstr sec" using represents_get_section(2) [OF r False] by (simp_all add: p_def)
  obtain k st where k: "v_value (val_at s p) = Members k" "stks s k = Some st" using store_okD(3) [OF ok p(1)] by (auto simp: section_ok_def)
  have "NCONF_get_section s sec = k" using False k(1) by (simp add: NCONF_get_section_def p_def [symmetric] stack_of_def)
  moreover have "db (cstr sec) = Some (members s p)" using r p by (auto simp: represents_def)
  ultimately show ?thesis using k by (simp add: members_def stack_at_def stack_of_def)
qed

section \<open>Properties\<close>

text \<open>C37: A store that sections and values were added to answers from a database: \<open>NCONF_get_string\<close> gives the value
  set last under section and name, in the section \<open>default\<close> for NULL, and nothing otherwise; \<open>NCONF_get_section\<close> gives
  NULL or the stack of the section's values, in the order they were set. With memory, the next section or value can be
  added: an addition fails for lack of memory only.\<close>

theorem conf_store_is_database:
  assumes "conf_run n s db" "n < 2 ^ 57"
  shows "(\<forall>sec nam. NCONF_get_string s (Some sec) nam = Option.bind (db (cstr sec)) (\<lambda>l. map_of l (cstr nam))) \<and>
    (\<forall>nam. NCONF_get_string s None nam = Option.bind (db [100, 101, 102, 97, 117, 108, 116]) (\<lambda>l. map_of l (cstr nam))) \<and>
    (\<forall>sec. case db (cstr sec) of None \<Rightarrow> NCONF_get_section s sec = 0
      | Some l \<Rightarrow> (\<exists>st. stks s (NCONF_get_section s sec) = Some st \<and> map (pair_of \<circ> val_at s) (elems st) = l)) \<and>
    (\<forall>a sec p k. plentiful a \<and> strlen sec < 2 ^ 62 \<and> p \<noteq> 0 \<and> vals s p = None \<longrightarrow>
      (if get_section s sec = 0 then fst (NCONF_new_section a p k sec s) = p
       else \<forall>nm t. fst (add_string a (with_value p nm t s) (get_section s sec) p)))"
proof -
  have r: "represents s db" and room: "roomy_store n s" using conf_run_represents [OF assms(1)] assms(2) by simp_all
  have ok: "store_ok s" using r by (simp add: represents_def)
  note str = represents_get_string [OF r]
  have nul: "NCONF_get_string s None nam = NCONF_get_string s (Some kDefaultSectionName) nam" for nam
    by (simp add: NCONF_get_string_def)
  note sec = represents_NCONF_get_section [OF r]
  have more: "if get_section s sec = 0 then fst (NCONF_new_section a p k sec s) = p
       else \<forall>nm t. fst (add_string a (with_value p nm t s) (get_section s sec) p)"
    if a: "plentiful a \<and> strlen sec < 2 ^ 62 \<and> p \<noteq> 0 \<and> vals s p = None" for a sec p k
  proof (cases "get_section s sec = 0")
    case True
    have "num_items (conf_table s) + 1 < 2 ^ 60" using room assms(2) by (simp add: roomy_store_def)
    then obtain s' where "NCONF_new_section a p k sec s = (p, s')"
      using new_section_succeeds [OF ok _ not_in_table [OF ok]] a by blast
    then show ?thesis using True by simp
  next
    case False
    have "fst (add_string a (with_value p nm t s) (get_section s sec) p)" for nm t
      using value_added [OF r refl False, of p n a nm t] not_in_table [OF ok, of p] a room assms(2) by auto
    then show ?thesis using False by simp
  qed
  show ?thesis using str nul sec more by (simp add: kDefaultSectionName_def)
qed

text \<open>One section \<open>a\<close> with one value, \<open>k = v\<close>.\<close>

lemma demo_conf_new: "\<exists>s. NCONF_new plenty False = Some s"
  by (simp add: NCONF_new_def OPENSSL_lh_new_def OPENSSL_malloc_def plenty_def size_wrap_def OPENSSL_MALLOC_PREFIX_def kMinNumBuckets_def)

lemma demo_store: "\<exists>s. conf_run 2 s [[97] \<mapsto> [([107], [118, 0])]]"
proof -
  obtain s0 where s0: "NCONF_new plenty False = Some s0" using demo_conf_new by blast
  have r0: "conf_run 0 s0 Map.empty" by (rule conf_run.new [OF s0])
  have i0: "represents s0 Map.empty" "roomy_store 0 s0" using conf_run_represents [OF r0] by simp_all
  have e0: "vals s0 = Map.empty" "stks s0 = Map.empty" using s0 by (auto simp: NCONF_new_def split: option.split_asm)
  have ok0: "store_ok s0" "num_items (conf_table s0) + 1 < 2 ^ 60" using i0 by (simp_all add: represents_def roomy_store_def)
  have g0: "get_section s0 [97] = 0" using represents_get_section(1) [OF i0(1), of "[97]"] by simp
  have "\<exists>s1. NCONF_new_section plenty 1 1 [97] s0 = (1, s1)"
    by (rule new_section_succeeds [OF ok0(1) _ not_in_table [OF ok0(1)] ok0(2) plentiful_plenty]) (simp_all add: e0)
  then obtain s1 where s1: "NCONF_new_section plenty 1 1 [97] s0 = (1, s1)" by blast
  have r1: "conf_run 1 s1 [[97] \<mapsto> []]"
    using conf_run.section_added [OF r0 g0 _ _ _ s1] e0 by (simp add: db_section_def fun_upd_def)
  have i1: "represents s1 [[97] \<mapsto> []]" "roomy_store 1 s1" using conf_run_represents [OF r1] by simp_all
  have e1: "vals s1 2 = None" by (rule new_section_vals [OF s1]) (simp_all add: e0)
  define sv where "sv = get_section s1 [97]"
  have g1: "sv \<noteq> 0" using represents_get_section(1) [OF i1(1), of "[97]"] by (simp add: sv_def)
  have n1: "2 \<notin> contents (conf_table s1)" using i1(1) e1 not_in_table by (auto simp: represents_def)
  have "\<exists>s2. add_string plenty (with_value 2 [107] [118, 0] s1) sv 2 = (True, s2)"
    using value_added [OF i1(1) sv_def [symmetric] g1 n1 _ i1(2) _ plentiful_plenty] by fastforce
  then obtain s2 where s2: "add_string plenty (with_value 2 [107] [118, 0] s1) sv 2 = (True, s2)" by blast
  have "conf_run (Suc 1) s2 (db_set (cstr [97]) (cstr [107]) [118, 0] [[97] \<mapsto> []])"
    by (rule conf_run.value_set [OF r1 sv_def [symmetric] g1 _ e1 plentiful_plenty _ s2]) simp_all
  then have "conf_run 2 s2 [[97] \<mapsto> [([107], [118, 0])]]"
    unfolding Suc_1 by (simp add: db_set_def)
  then show ?thesis by blast
qed

theorem conf_store_is_database_witness:
  "\<exists>s. conf_run 2 s [[97] \<mapsto> [([107], [118, 0])]] \<and> NCONF_get_string s (Some [97]) [107] = Some [118, 0]"
proof -
  obtain s where s: "conf_run 2 s [[97] \<mapsto> [([107], [118, 0])]]" using demo_store by blast
  then show ?thesis using conf_store_is_database [OF s] by (intro exI [of _ s]) simp
qed

text \<open>C38: The type of what a value points at is what the code casts it to: as long as nothing but \<open>NCONF_new_section\<close> and
  \<open>add_string\<close> touches a store, \<open>NCONF_get_section\<close> returns NULL or a stack and every element of the stack is a value with
  a name and a string, so that neither function takes a stack for a string or a string for a stack.\<close>

theorem conf_casts_sound:
  assumes "conf_run n s db" "n < 2 ^ 57"
  shows "\<forall>p \<in> contents (conf_table s). case v_name (val_at s p) of
      None \<Rightarrow> (\<exists>k st. v_value (val_at s p) = Members k \<and> stks s k = Some st \<and>
        (\<forall>q \<in> set (elems st). q \<in> contents (conf_table s) \<and> v_name (val_at s q) \<noteq> None))
    | Some _ \<Rightarrow> (\<exists>t. v_value (val_at s p) = Text t)"
proof -
  have ok: "store_ok s" using conf_run_represents [OF assms(1)] assms(2) by (simp add: represents_def)
  show ?thesis
  proof
    fix p assume p: "p \<in> contents (conf_table s)"
    show "case v_name (val_at s p) of
      None \<Rightarrow> (\<exists>k st. v_value (val_at s p) = Members k \<and> stks s k = Some st \<and>
        (\<forall>q \<in> set (elems st). q \<in> contents (conf_table s) \<and> v_name (val_at s q) \<noteq> None))
    | Some _ \<Rightarrow> (\<exists>t. v_value (val_at s p) = Text t)"
    proof (cases "v_name (val_at s p)")
      case None
      then have "p \<in> sections s" using p by (simp add: sections_def)
      then obtain k st where k: "v_value (val_at s p) = Members k" "stks s k = Some st" "set (elems st) \<subseteq> named s"
        using store_okD(3) [OF ok, of p] by (auto simp: section_ok_def)
      then show ?thesis using None by (auto simp: named_def)
    next
      case (Some x)
      then have "p \<in> named s" using p by (simp add: named_def)
      then show ?thesis using Some store_okD(6) [OF ok] by simp
    qed
  qed
qed

theorem conf_casts_sound_witness:
  "\<exists>s p t. conf_run 2 s [[97] \<mapsto> [([107], [118, 0])]] \<and> p \<in> named s \<and> v_value (val_at s p) = Text t"
proof -
  obtain s where s: "conf_run 2 s [[97] \<mapsto> [([107], [118, 0])]]" using demo_store by blast
  have r: "represents s [[97] \<mapsto> [([107], [118, 0])]]" using conf_run_represents [OF s] by simp
  then have "{[97]} = section_of s ` sections s" by (simp add: represents_def)
  then obtain sv where sv: "sv \<in> sections s" "section_of s sv = [97]" by (metis imageE singletonI)
  then have "members s sv = [([107], [118, 0])]" using r by (auto simp: represents_def)
  then obtain p where "p \<in> set (stack_at s sv)" by (cases "stack_at s sv") (auto simp: members_def)
  then have p: "p \<in> named s" using stack_at_ok(1) [OF _ sv(1)] r by (auto simp: represents_def)
  then obtain x where "v_name (val_at s p) = Some x" by (auto simp: named_def)
  then show ?thesis using conf_casts_sound [OF s] p s in_contents(2) [OF p] by fastforce
qed

end
