(* ===== verification/Conf_Chars.thy ===== *)
theory Conf_Chars
  imports Mem
begin

text \<open>
  The classes of characters in configuration files (\<open>crypto/conf/conf_def.h\<close>): the table the macros look into, and what
  it says about each character.
\<close>

section \<open>Classes of characters\<close>

abbreviation (input) CONF_NUMBER :: "16 word" where "CONF_NUMBER \<equiv> 1"
abbreviation (input) CONF_UPPER :: "16 word" where "CONF_UPPER \<equiv> 2"
abbreviation (input) CONF_LOWER :: "16 word" where "CONF_LOWER \<equiv> 4"
abbreviation (input) CONF_UNDER :: "16 word" where "CONF_UNDER \<equiv> 256"
abbreviation (input) CONF_PUNCTUATION :: "16 word" where "CONF_PUNCTUATION \<equiv> 512"
abbreviation (input) CONF_WS :: "16 word" where "CONF_WS \<equiv> 16"
abbreviation (input) CONF_ESC :: "16 word" where "CONF_ESC \<equiv> 32"
abbreviation (input) CONF_QUOTE :: "16 word" where "CONF_QUOTE \<equiv> 64"
abbreviation (input) CONF_DQUOTE :: "16 word" where "CONF_DQUOTE \<equiv> 1024"
abbreviation (input) CONF_COMMENT :: "16 word" where "CONF_COMMENT \<equiv> 128"
abbreviation (input) CONF_FCOMMENT :: "16 word" where "CONF_FCOMMENT \<equiv> 2048"
abbreviation (input) CONF_EOF :: "16 word" where "CONF_EOF \<equiv> 8"

definition CONF_ALPHA_NUMERIC :: "16 word" where
  "CONF_ALPHA_NUMERIC = (CONF_UPPER OR CONF_LOWER) OR CONF_NUMBER OR CONF_UNDER"

definition CONF_ALPHA_NUMERIC_PUNCT :: "16 word" where
  "CONF_ALPHA_NUMERIC_PUNCT = (CONF_UPPER OR CONF_LOWER) OR CONF_NUMBER OR CONF_UNDER OR CONF_PUNCTUATION"

definition CONF_type_default :: "16 word list" where
  "CONF_type_default =
     [0x8, 0, 0, 0, 0, 0, 0, 0, 0, 0x10, 0x10, 0, 0, 0x10, 0, 0,
      0, 0, 0, 0, 0, 0, 0, 0, 0, 0, 0, 0, 0, 0, 0, 0,
      0x10, 0x200, 0x40, 0x80, 0, 0x200, 0x200, 0x40, 0, 0, 0x200, 0x200, 0x200, 0x200, 0x200, 0x200,
      0x1, 0x1, 0x1, 0x1, 0x1, 0x1, 0x1, 0x1, 0x1, 0x1, 0, 0x200, 0, 0, 0, 0x200,
      0x200, 0x2, 0x2, 0x2, 0x2, 0x2, 0x2, 0x2, 0x2, 0x2, 0x2, 0x2, 0x2, 0x2, 0x2, 0x2,
      0x2, 0x2, 0x2, 0x2, 0x2, 0x2, 0x2, 0x2, 0x2, 0x2, 0x2, 0, 0x20, 0, 0x200, 0x100,
      0x40, 0x4, 0x4, 0x4, 0x4, 0x4, 0x4, 0x4, 0x4, 0x4, 0x4, 0x4, 0x4, 0x4, 0x4, 0x4,
      0x4, 0x4, 0x4, 0x4, 0x4, 0x4, 0x4, 0x4, 0x4, 0x4, 0x4, 0, 0x200, 0, 0x200, 0] @ replicate 128 0x1000"

definition IS_COMMENT :: "u8 \<Rightarrow> bool" where "IS_COMMENT a = (CONF_type_default ! unat a AND CONF_COMMENT \<noteq> 0)"
definition IS_FCOMMENT :: "u8 \<Rightarrow> bool" where "IS_FCOMMENT a = (CONF_type_default ! unat a AND CONF_FCOMMENT \<noteq> 0)"
definition IS_EOF :: "u8 \<Rightarrow> bool" where "IS_EOF a = (CONF_type_default ! unat a AND CONF_EOF \<noteq> 0)"
definition IS_ESC :: "u8 \<Rightarrow> bool" where "IS_ESC a = (CONF_type_default ! unat a AND CONF_ESC \<noteq> 0)"
definition IS_WS :: "u8 \<Rightarrow> bool" where "IS_WS a = (CONF_type_default ! unat a AND CONF_WS \<noteq> 0)"
definition IS_ALPHA_NUMERIC :: "u8 \<Rightarrow> bool" where
  "IS_ALPHA_NUMERIC a = (CONF_type_default ! unat a AND CONF_ALPHA_NUMERIC \<noteq> 0)"
definition IS_ALPHA_NUMERIC_PUNCT :: "u8 \<Rightarrow> bool" where
  "IS_ALPHA_NUMERIC_PUNCT a = (CONF_type_default ! unat a AND CONF_ALPHA_NUMERIC_PUNCT \<noteq> 0)"
definition IS_QUOTE :: "u8 \<Rightarrow> bool" where "IS_QUOTE a = (CONF_type_default ! unat a AND CONF_QUOTE \<noteq> 0)"
definition IS_DQUOTE :: "u8 \<Rightarrow> bool" where "IS_DQUOTE a = (CONF_type_default ! unat a AND CONF_DQUOTE \<noteq> 0)"

text \<open>What the table says.\<close>

definition alnum :: "int \<Rightarrow> bool" where
  "alnum n \<longleftrightarrow> 48 \<le> n \<and> n \<le> 57 \<or> 65 \<le> n \<and> n \<le> 90 \<or> 97 \<le> n \<and> n \<le> 122 \<or> n = 95"

definition type_ok :: "int \<Rightarrow> 16 word \<Rightarrow> bool" where
  "type_ok n t \<longleftrightarrow>
     (t AND CONF_COMMENT \<noteq> 0) = (n = 35) \<and> t AND CONF_FCOMMENT = 0 \<and> (t AND CONF_EOF \<noteq> 0) = (n = 0) \<and> (t AND CONF_ESC \<noteq> 0) = (n = 92) \<and>
     (t AND CONF_WS \<noteq> 0) = (n = 9 \<or> n = 10 \<or> n = 13 \<or> n = 32) \<and> (t AND CONF_ALPHA_NUMERIC \<noteq> 0) = alnum n \<and>
     (t AND CONF_ALPHA_NUMERIC_PUNCT \<noteq> 0) =
       (alnum n \<or> n \<in> set [33, 37, 38, 42, 43, 44, 45, 46, 47, 59, 63, 64, 94, 124, 126]) \<and>
     (t AND CONF_QUOTE \<noteq> 0) = (n = 34 \<or> n = 39 \<or> n = 96) \<and> t AND CONF_DQUOTE = 0"

lemma types_ok: "list_all (\<lambda>(n, t). type_ok n t) (zip [0..255] CONF_type_default)"
  by code_simp


lemma type_at: "type_ok (int (unat a)) (CONF_type_default ! unat (a :: u8))"
proof -
  have "unat a < 256" using unsigned_less [of a] by simp
  moreover have "length CONF_type_default = 256" by (simp add: CONF_type_default_def)
  moreover have "length [0..255 :: int] = 256" by simp
  moreover have "[0..255] ! unat a = int (unat a)" using nth_upto [of 0 "unat a" 255] uint_bounded [of a] by simp
  ultimately have "(int (unat a), CONF_type_default ! unat a) \<in> set (zip [0..255] CONF_type_default)"
    by (auto simp: in_set_zip intro!: exI [of _ "unat a"])
  then show ?thesis using types_ok by (auto simp: list_all_iff)
qed

lemma uint_is: "uint (a :: u8) = n \<longleftrightarrow> 0 \<le> n \<and> n < 256 \<and> a = of_int n"
  using uint_bounded [of a] by (auto simp: uint_word_of_int)

lemma types [simp]:
  "IS_COMMENT a = (a = 35)" "IS_FCOMMENT a = False" "IS_EOF a = (a = 0)" "IS_ESC a = (a = 92)"
  "IS_WS a = (a \<in> {9, 10, 13, 32})" "IS_QUOTE a = (a \<in> {34, 39, 96})" "IS_DQUOTE a = False"
  using type_at [of a] unfolding type_ok_def IS_COMMENT_def IS_FCOMMENT_def IS_EOF_def IS_ESC_def IS_WS_def IS_QUOTE_def IS_DQUOTE_def
  by (simp_all add: uint_is)

text \<open>Letters, digits and the underscore, and with the punctuation of names.\<close>

lemma alpha_numeric:
  "IS_ALPHA_NUMERIC a = alnum (int (unat a))"
  "IS_ALPHA_NUMERIC_PUNCT a = (alnum (int (unat a)) \<or> a \<in> {33, 37, 38, 42, 43, 44, 45, 46, 47, 59, 63, 64, 94, 124, 126})"
  using type_at [of a] unfolding type_ok_def IS_ALPHA_NUMERIC_def IS_ALPHA_NUMERIC_PUNCT_def by (simp_all add: uint_is)

end
