(* ===== verification/Conf_Text.thy ===== *)
theory Conf_Text
  imports Conf Buf Conf_Chars
begin

text \<open>
  The texts of configuration files (\<open>crypto/conf/conf.c\<close>): the scanners that move over a line, and \<open>str_copy\<close>, which takes
  the quotes off a value and puts in the values of variables.
\<close>

section \<open>Scanners\<close>

text \<open>A pointer into a line is the rest of the line from there on.\<close>

fun eat_ws :: "bytes \<Rightarrow> bytes" where
  "eat_ws [] = []"
| "eat_ws (c # p) = (if IS_WS c \<and> \<not> IS_EOF c then eat_ws p else c # p)"

definition scan_esc :: "bytes \<Rightarrow> bytes" where
  "scan_esc p = (if IS_EOF (c_head (tl p)) then tl p else tl (tl p))"

function eat_alpha_numeric :: "bytes \<Rightarrow> bytes" where
  "eat_alpha_numeric [] = []"
| "eat_alpha_numeric (c # p) =
     (if IS_ESC c then eat_alpha_numeric (scan_esc (c # p))
      else if \<not> IS_ALPHA_NUMERIC_PUNCT c then c # p
      else eat_alpha_numeric p)"
  by pat_completeness auto
termination
  by (relation "measure length") (auto simp: scan_esc_def)

text \<open>The loop of \<open>scan_quote\<close>, and whether it returns from the function.\<close>

fun scan_quote_loop :: "u8 \<Rightarrow> bytes \<Rightarrow> bool \<times> bytes" where
  "scan_quote_loop q [] = (False, [])"
| "scan_quote_loop q (c # p) =
     (if IS_EOF c \<or> c = q then (False, c # p)
      else if IS_ESC c then
        (case p of [] \<Rightarrow> (True, [])
         | d # p' \<Rightarrow> if IS_EOF d then (True, d # p') else scan_quote_loop q p')
      else scan_quote_loop q p)"

definition scan_quote :: "bytes \<Rightarrow> bytes" where
  "scan_quote p =
     (let q = c_head p in
      case scan_quote_loop q (tl p) of
        (True, p) \<Rightarrow> p
      | (False, p) \<Rightarrow> if c_head p = q then tl p else p)"

function scan_dquote_loop :: "u8 \<Rightarrow> bytes \<Rightarrow> bytes" where
  "scan_dquote_loop q [] = []"
| "scan_dquote_loop q (c # p) =
     (if IS_EOF c then c # p
      else if c = q then (if c_head p = q then scan_dquote_loop q (tl p) else c # p)
      else scan_dquote_loop q p)"
  by pat_completeness auto
termination
  by (relation "measure (length \<circ> snd)") auto

definition scan_dquote :: "bytes \<Rightarrow> bytes" where
  "scan_dquote p =
     (let q = c_head p; p = scan_dquote_loop q (tl p) in if c_head p = q then tl p else p)"

lemma scan_quote_loop_length: "length (snd (scan_quote_loop q p)) \<le> length p"
proof (induction q p rule: scan_quote_loop.induct)
  case (2 q c p)
  then show ?case by (cases p) (auto intro: le_SucI)
qed simp

lemma scan_quote_shorter: "length (scan_quote (c # p)) < Suc (length p)"
  using scan_quote_loop_length [of c p]
  by (auto simp: scan_quote_def Let_def c_head_def split: prod.split bool.split)

lemma scan_dquote_shorter: "length (scan_dquote (c # p)) < Suc (length p)"
proof -
  have "length (scan_dquote_loop q p) \<le> length p" for q p
    by (induction q p rule: scan_dquote_loop.induct) auto
  from this [of c p] show ?thesis by (auto simp: scan_dquote_def Let_def c_head_def)
qed

text \<open>The text from \<open>s\<close> up to \<open>e\<close>: what a string at \<open>s\<close> is after \<open>*e = 0\<close>.\<close>

definition between :: "bytes \<Rightarrow> bytes \<Rightarrow> bytes" where
  "between s e = take (length s - length e) s"

text \<open>The line as \<open>clear_comments\<close> leaves it: the part up to the comment.\<close>

function clear_comments_loop :: "bytes \<Rightarrow> bytes" where
  "clear_comments_loop [] = []"
| "clear_comments_loop (c # p) =
     (if IS_COMMENT c then []
      else if IS_DQUOTE c then between (c # p) (scan_dquote (c # p)) @ clear_comments_loop (scan_dquote (c # p))
      else if IS_QUOTE c then between (c # p) (scan_quote (c # p)) @ clear_comments_loop (scan_quote (c # p))
      else if IS_ESC c then between (c # p) (scan_esc (c # p)) @ clear_comments_loop (scan_esc (c # p))
      else if IS_EOF c then c # p
      else c # clear_comments_loop p)"
  by pat_completeness auto
termination
  by (relation "measure length") (auto simp: scan_quote_shorter scan_dquote_shorter scan_esc_def)

fun clear_comments :: "bytes \<Rightarrow> bytes" where
  "clear_comments [] = []"
| "clear_comments (c # p) =
     (if IS_FCOMMENT c then []
      else if \<not> IS_WS c then clear_comments_loop (c # p)
      else c # clear_comments p)"


section \<open>Values\<close>

text \<open>
  Writing \<open>buf->data[to] = c\<close>; \<open>None\<close>, here and in what follows, is a write outside of the buffer.
\<close>

definition put :: "nat \<Rightarrow> u8 \<Rightarrow> buf_mem \<Rightarrow> buf_mem option" where
  "put to c b = (if to < length (buf_data b) then Some (b\<lparr>buf_data := (buf_data b)[to := c]\<rparr>) else None)"

text \<open>The loops of \<open>str_copy\<close> that copy what is quoted: \<open>from\<close>, \<open>to\<close> and the buffer afterwards.\<close>

fun copy_quote :: "u8 \<Rightarrow> bytes \<Rightarrow> nat \<Rightarrow> buf_mem \<Rightarrow> (bytes \<times> nat \<times> buf_mem) option" where
  "copy_quote q [] to b = Some ([], to, b)"
| "copy_quote q (c # from) to b =
     (if IS_EOF c \<or> c = q then Some (c # from, to, b)
      else if IS_ESC c then
        (case from of
           [] \<Rightarrow> Some ([], to, b)
         | d # from' \<Rightarrow>
             if IS_EOF d then Some (d # from', to, b)
             else (case put to d b of None \<Rightarrow> None | Some b \<Rightarrow> copy_quote q from' (to + 1) b))
      else (case put to c b of None \<Rightarrow> None | Some b \<Rightarrow> copy_quote q from (to + 1) b))"

function copy_dquote :: "u8 \<Rightarrow> bytes \<Rightarrow> nat \<Rightarrow> buf_mem \<Rightarrow> (bytes \<times> nat \<times> buf_mem) option" where
  "copy_dquote q [] to b = Some ([], to, b)"
| "copy_dquote q (c # from) to b =
     (if IS_EOF c then Some (c # from, to, b)
      else if c = q then
        (if c_head from = q then (case put to q b of None \<Rightarrow> None | Some b \<Rightarrow> copy_dquote q (tl from) (to + 1) b)
         else Some (c # from, to, b))
      else (case put to c b of None \<Rightarrow> None | Some b \<Rightarrow> copy_dquote q from (to + 1) b))"
  by pat_completeness auto
termination
  by (relation "measure (\<lambda>(_, from, _). length from)") auto

fun copy_value :: "bytes \<Rightarrow> nat \<Rightarrow> buf_mem \<Rightarrow> (nat \<times> buf_mem) option" where
  "copy_value [] to b = Some (to, b)"
| "copy_value (c # p) to b =
     (if c = 0 then Some (to, b) else (case put to c b of None \<Rightarrow> None | Some b \<Rightarrow> copy_value p (to + 1) b))"

fun skip_alpha_numeric :: "bytes \<Rightarrow> bytes" where
  "skip_alpha_numeric [] = []"
| "skip_alpha_numeric (c # e) = (if IS_ALPHA_NUMERIC c then skip_alpha_numeric e else c # e)"

definition MAX_CONF_VALUE_LENGTH :: nat where
  "MAX_CONF_VALUE_LENGTH = 65536"

text \<open>
  The variable at \<open>from\<close>, behind the dollar sign: section and name, and where it ends; \<open>None\<close> when the brace or parenthesis
  is not closed. The NULs that the code puts behind the section and the name for the lookup are taken away again.
\<close>

definition variable :: "bytes option \<Rightarrow> bytes \<Rightarrow> (bytes option \<times> bytes \<times> bytes) option" where
  "variable section_name from =
     (let q = (if c_head from = 123 then 125 else if c_head from = 40 then 41 else 0);
          s = (if q \<noteq> 0 then tl from else from);
          e = skip_alpha_numeric s;
          (cp, np, e) =
            (if c_head e = 58 \<and> c_head (tl e) = 58 then (Some (between s e), tl (tl e), skip_alpha_numeric (tl (tl e)))
             else (section_name, s, e));
          r = c_head e in
      if q \<noteq> 0 \<and> r \<noteq> q then None
      else Some (cp, between np e, if q \<noteq> 0 then tl e else e))"

text \<open>\<open>c\<close> behind a backslash.\<close>

definition unescape :: "u8 \<Rightarrow> u8" where
  "unescape v = (if v = 114 then 13 else if v = 110 then 10 else if v = 98 then 8 else if v = 116 then 9 else v)"

text \<open>
  The loop of \<open>str_copy\<close>, for a lookup of variables \<open>get\<close>: \<open>Inl\<close> for the errors, else \<open>to\<close> and the buffer. A line is shorter
  than \<open>INT_MAX\<close>, so the code's \<open>int\<close>s are numbers.
\<close>

datatype conf_error = NO_CLOSE_BRACE | VARIABLE_HAS_NO_VALUE | VARIABLE_EXPANSION_TOO_LONG | MALLOC_FAILURE

lemma skip_alpha_numeric_length: "length (skip_alpha_numeric p) \<le> length p"
  by (induction p) auto

lemma variable_shorter: "variable sn p = Some (cp, np, e) \<Longrightarrow> length e \<le> length p"
proof -
  define s where "s = (if c_head p = 123 \<or> c_head p = 40 then tl p else p)"
  define f where "f = skip_alpha_numeric s"
  define f2 where "f2 = skip_alpha_numeric (tl (tl f))"
  have "length s \<le> length p" "length f \<le> length s" "length f2 \<le> length f"
    using skip_alpha_numeric_length [of s] skip_alpha_numeric_length [of "tl (tl f)"] by (auto simp: s_def f_def f2_def)
  moreover assume "variable sn p = Some (cp, np, e)"
  then have "e \<in> {f, tl f, f2, tl f2}"
    by (auto simp: variable_def Let_def s_def f_def f2_def split: if_split_asm)
  ultimately show ?thesis by auto
qed

lemma copy_quote_length: "copy_quote q from to b = Some (rest, to', b') \<Longrightarrow> length rest \<le> length from"
proof (induction q "from" to b rule: copy_quote.induct)
  case (2 q c "from" to b)
  then show ?case by (cases "from") (fastforce split: if_split_asm option.split_asm)+
qed simp

lemma copy_dquote_length: "copy_dquote q from to b = Some (rest, to', b') \<Longrightarrow> length rest \<le> length from"
  by (induction q "from" to b rule: copy_dquote.induct) (fastforce split: if_split_asm option.split_asm)+

function str_copy_loop ::
  "allocator \<Rightarrow> (bytes option \<Rightarrow> bytes \<Rightarrow> bytes option) \<Rightarrow> bytes option \<Rightarrow> bytes \<Rightarrow> nat \<Rightarrow> buf_mem \<Rightarrow>
   (conf_error + nat \<times> buf_mem) option" where
  "str_copy_loop a get sn from to b =
     (let c = c_head from in
      if IS_QUOTE c then
        (case copy_quote c (tl from) to b of
           None \<Rightarrow> None
         | Some (from, to, b) \<Rightarrow> str_copy_loop a get sn (if c_head from = c then tl from else from) to b)
      else if IS_DQUOTE c then
        (case copy_dquote c (tl from) to b of
           None \<Rightarrow> None
         | Some (from, to, b) \<Rightarrow> str_copy_loop a get sn (if c_head from = c then tl from else from) to b)
      else if IS_ESC c then
        (let v = c_head (tl from) in
         if IS_EOF v then Some (Inr (to, b))
         else
           (case put to (unescape v) b of
              None \<Rightarrow> None
            | Some b \<Rightarrow> str_copy_loop a get sn (tl (tl from)) (to + 1) b))
      else if IS_EOF c then Some (Inr (to, b))
      else if c = 36 then
        (case variable sn (tl from) of
           None \<Rightarrow> Some (Inl NO_CLOSE_BRACE)
         | Some (cp, np, e) \<Rightarrow>
             (case get cp np of
                None \<Rightarrow> Some (Inl VARIABLE_HAS_NO_VALUE)
              | Some p \<Rightarrow>
                  let newsize = nat ((int (strlen p) + int (buf_length b) - int (length from - length e)) mod 2 ^ 64) in
                  if newsize > MAX_CONF_VALUE_LENGTH then Some (Inl VARIABLE_EXPANSION_TOO_LONG)
                  else
                    (case BUF_MEM_grow_clean a b newsize of
                       (n, b) \<Rightarrow>
                         if n = 0 then Some (Inl MALLOC_FAILURE)
                         else
                           (case copy_value p to b of
                              None \<Rightarrow> None
                            | Some (to, b) \<Rightarrow> str_copy_loop a get sn e to b))))
      else (case put to c b of None \<Rightarrow> None | Some b \<Rightarrow> str_copy_loop a get sn (tl from) (to + 1) b))"
  by pat_completeness auto
termination
proof (relation "measure (\<lambda>(a, get, sn, from, to, b). length from)", goal_cases)
  case 1 then show ?case by simp
next
  case (2 a get sn "from" to b c r rest y to' b')
  then have "from \<noteq> []" by (auto simp: c_head_def)
  moreover have "length rest \<le> length (tl from)" using 2 copy_quote_length [of c "tl from" to b rest to' b'] by simp
  ultimately show ?case by (cases "from") auto
next
  case (3 a get sn "from" to b c r rest y to' b')
  then show ?case by simp
next
  case (4 a get sn "from" to b c v b')
  then have "from \<noteq> []" by (auto simp: c_head_def)
  then show ?case by (cases "from") auto
next
  case (5 a get sn "from" to b c r cp y np e p newsize n b' z to' b'')
  then have "from \<noteq> []" by (auto simp: c_head_def)
  moreover have "length e \<le> length (tl from)" using 5 variable_shorter [of sn "tl from" cp np e] by simp
  ultimately show ?case by (cases "from") auto
next
  case (6 a get sn "from" to b c b')
  then have "from \<noteq> []" by (auto simp: c_head_def)
  then show ?case by (cases "from") auto
qed

declare str_copy_loop.simps [simp del]

text \<open>\<open>*pto\<close> becomes the memory of the buffer.\<close>

definition str_copy :: "allocator \<Rightarrow> conf \<Rightarrow> bytes option \<Rightarrow> bytes \<Rightarrow> (conf_error + bytes) option" where
  "str_copy a s sn from =
     (case BUF_MEM_new a of
        None \<Rightarrow> Some (Inl MALLOC_FAILURE)
      | Some b \<Rightarrow>
          (case BUF_MEM_grow a b (strlen from + 1) of
             (n, b) \<Rightarrow>
               if n = 0 then Some (Inl MALLOC_FAILURE)
               else
                 (case str_copy_loop a (NCONF_get_string s) sn from 0 b of
                    None \<Rightarrow> None
                  | Some (Inl e) \<Rightarrow> Some (Inl e)
                  | Some (Inr (to, b)) \<Rightarrow> map_option (\<lambda>b. Inr (buf_data b)) (put to 0 b))))"

section \<open>What a value stands for\<close>

text \<open>What is between quotes, and the rest.\<close>

fun quoted :: "u8 \<Rightarrow> bytes \<Rightarrow> bytes \<times> bytes" where
  "quoted q [] = ([], [])"
| "quoted q (c # t) =
     (if c = 0 \<or> c = q then ([], c # t)
      else if c = 92 then
        (case t of [] \<Rightarrow> ([], []) | d # t \<Rightarrow> if d = 0 then ([], d # t) else apfst ((#) d) (quoted q t))
      else apfst ((#) c) (quoted q t))"

lemma quoted_length: "length (snd (quoted q t)) \<le> length t"
proof (induction q t rule: quoted.induct)
  case (2 q c t)
  then show ?case by (cases t) (auto intro: le_SucI)
qed simp

text \<open>
  The value of a text, or what is wrong with it; \<open>n\<close> is the size of the text so far, with all variables that have been
  replaced, and the terminating NUL.
\<close>

function value_text :: "(bytes option \<Rightarrow> bytes \<Rightarrow> bytes option) \<Rightarrow> bytes option \<Rightarrow> nat \<Rightarrow> bytes \<Rightarrow> conf_error + bytes" where
  "value_text get sn n [] = Inr []"
| "value_text get sn n (c # t) =
     (if c = 0 then Inr []
      else if c \<in> {34, 39, 96} then
        (let (xs, rest) = quoted c t in map_sum id ((@) xs) (value_text get sn n (if c_head rest = c then tl rest else rest)))
      else if c = 92 then
        (if c_head t = 0 then Inr [] else map_sum id ((#) (unescape (c_head t))) (value_text get sn n (tl t)))
      else if c = 36 then
        (case variable sn t of
           None \<Rightarrow> Inl NO_CLOSE_BRACE
         | Some (cp, np, e) \<Rightarrow>
             (case get cp np of
                None \<Rightarrow> Inl VARIABLE_HAS_NO_VALUE
              | Some p \<Rightarrow>
                  let n = strlen p + n - (Suc (length t) - length e) in
                  if n > MAX_CONF_VALUE_LENGTH then Inl VARIABLE_EXPANSION_TOO_LONG
                  else map_sum id ((@) (cstr p)) (value_text get sn n e)))
      else map_sum id ((#) c) (value_text get sn n t))"
  by pat_completeness auto
termination
proof (relation "measure (\<lambda>(get, sn, n, t). length t)", goal_cases)
  case (2 get sn n c t x xs rest)
  have "length (snd (quoted c t)) \<le> length t" by (rule quoted_length)
  then have "length rest \<le> length t" using 2 by (metis snd_conv)
  then show ?case by auto
next
  case (4 get sn n c t x cp y np e p m)
  then show ?case using variable_shorter [of sn t cp np e] by simp
qed auto

section \<open>The loops against the meaning\<close>

text \<open>\<open>xs\<close> has been written at \<open>to\<close>.\<close>

definition written :: "buf_mem \<Rightarrow> nat \<Rightarrow> bytes \<Rightarrow> buf_mem \<Rightarrow> bool" where
  "written b to xs b' \<longleftrightarrow> buf_length b' = buf_length b \<and> buf_max b' = buf_max b \<and> length (buf_data b') = length (buf_data b) \<and>
     take (to + length xs) (buf_data b') = take to (buf_data b) @ xs"

lemma written_Nil [simp]: "written b to [] b"
  by (simp add: written_def)

lemma written_append: "written b to xs b1 \<Longrightarrow> written b1 (to + length xs) ys b2 \<Longrightarrow> written b to (xs @ ys) b2"
  by (simp add: written_def add.assoc)

lemma written_bufm_ok: "written b to xs b' \<Longrightarrow> bufm_ok b' = bufm_ok b"
  by (simp add: written_def bufm_ok_def)

lemma put_written:
  assumes "to < length (buf_data b)"
  shows "\<exists>b'. put to c b = Some b' \<and> written b to [c] b'"
  using assms by (simp add: put_def written_def take_Suc_conv_app_nth)

lemma put_Cons:
  assumes "written b to [c] b1" "written b1 (Suc to) xs b2"
  shows "written b to (c # xs) b2"
  using written_append [of b to "[c]" b1 xs b2] assms by simp

lemma copy_quote_ok:
  assumes "to + strlen from \<le> length (buf_data b)"
  shows "\<exists>b'. copy_quote q from to b = Some (snd (quoted q from), to + length (fst (quoted q from)), b') \<and>
    written b to (fst (quoted q from)) b' \<and> length (fst (quoted q from)) + strlen (snd (quoted q from)) \<le> strlen from"
  using assms
proof (induction q "from" arbitrary: to b rule: quoted.induct)
  case (2 q c t)
  show ?case
  proof (cases "c = 0 \<or> c = q")
    case True
    then show ?thesis by auto
  next
    case False
    show ?thesis
    proof (cases "c = 92")
      case esc: True
      show ?thesis
      proof (cases t)
        case (Cons d t')
        show ?thesis
        proof (cases "d = 0")
          case True
          then show ?thesis using False esc Cons by simp
        next
          case nz: False
          then have "to < length (buf_data b)" using "2.prems" False esc Cons by simp
          then obtain b1 where b1: "put to d b = Some b1" "written b to [d] b1" using put_written by blast
          have l: "length (buf_data b1) = length (buf_data b)" using b1(2) by (simp add: written_def)
          have "Suc to + strlen t' \<le> length (buf_data b1)" using "2.prems" False esc Cons nz l by simp
          then obtain b' where "copy_quote q t' (Suc to) b1 = Some (snd (quoted q t'), Suc to + length (fst (quoted q t')), b')"
            "written b1 (Suc to) (fst (quoted q t')) b'" "length (fst (quoted q t')) + strlen (snd (quoted q t')) \<le> strlen t'"
            using "2.IH"(1) [OF False esc Cons nz] by blast
          then show ?thesis using False esc Cons nz b1 put_Cons [OF b1(2)] by simp
        qed
      qed (use False esc in simp)
    next
      case nesc: False
      then have "to < length (buf_data b)" using "2.prems" False by simp
      then obtain b1 where b1: "put to c b = Some b1" "written b to [c] b1" using put_written by blast
      have l: "length (buf_data b1) = length (buf_data b)" using b1(2) by (simp add: written_def)
      have "Suc to + strlen t \<le> length (buf_data b1)" using "2.prems" False l by simp
      then obtain b' where "copy_quote q t (Suc to) b1 = Some (snd (quoted q t), Suc to + length (fst (quoted q t)), b')"
        "written b1 (Suc to) (fst (quoted q t)) b'" "length (fst (quoted q t)) + strlen (snd (quoted q t)) \<le> strlen t"
        using "2.IH"(2) [OF False nesc] by blast
      then show ?thesis using False nesc b1 put_Cons [OF b1(2)] by simp
    qed
  qed
qed simp

lemma copy_value_ok:
  "to + strlen p \<le> length (buf_data b) \<Longrightarrow> \<exists>b'. copy_value p to b = Some (to + strlen p, b') \<and> written b to (cstr p) b'"
proof (induction p arbitrary: to b)
  case (Cons c p)
  show ?case
  proof (cases "c = 0")
    case False
    then obtain b1 where b1: "put to c b = Some b1" "written b to [c] b1" using put_written [of to b c] Cons.prems by auto
    have "Suc to + strlen p \<le> length (buf_data b1)" using Cons.prems False b1(2) by (simp add: written_def)
    then obtain b' where "copy_value p (Suc to) b1 = Some (Suc to + strlen p, b')" "written b1 (Suc to) (cstr p) b'" using Cons.IH by blast
    then show ?thesis using False b1 put_Cons [OF b1(2)] by simp
  qed simp
qed simp


lemma skip_alpha_numeric_split: "\<exists>pre. p = pre @ skip_alpha_numeric p \<and> 0 \<notin> set pre"
proof (induction p)
  case (Cons c p)
  then obtain pre where "p = pre @ skip_alpha_numeric p \<and> 0 \<notin> set pre" by blast
  then show ?case by (intro exI [of _ "if IS_ALPHA_NUMERIC c then c # pre else []"]) (auto simp: alpha_numeric alnum_def)
qed simp

lemma skip_head: "c_head p = c \<Longrightarrow> c \<noteq> 0 \<Longrightarrow> p = c # tl p"
  by (cases p) (auto simp: c_head_def)

text \<open>A variable ends before the string does.\<close>

lemma variable_split:
  assumes "variable sn p = Some (cp, np, e)"
  shows "\<exists>pre. p = pre @ e \<and> 0 \<notin> set pre"
proof -
  define q where "q = (if c_head p = 123 then 125 else if c_head p = 40 then 41 else (0 :: u8))"
  define s where "s = (if q \<noteq> 0 then tl p else p)"
  define f where "f = skip_alpha_numeric s"
  define g where "g = (if c_head f = 58 \<and> c_head (tl f) = 58 then skip_alpha_numeric (tl (tl f)) else f)"
  have e: "q \<noteq> 0 \<longrightarrow> c_head g = q" "e = (if q \<noteq> 0 then tl g else g)"
    using assms unfolding variable_def Let_def q_def [symmetric] s_def [symmetric] f_def [symmetric]
    by (auto simp: g_def split: if_split_asm)
  obtain p1 where p1: "p = p1 @ s" "0 \<notin> set p1"
  proof (cases "q \<noteq> 0")
    case True
    then have "c_head p = 123 \<or> c_head p = 40" by (auto simp: q_def split: if_split_asm)
    then have "p = c_head p # s" "c_head p \<noteq> 0" using True skip_head [of p] by (auto simp: s_def)
    then show thesis by (intro that [of "[c_head p]"]) auto
  qed (use that [of "[]"] s_def in simp)
  obtain p2 where p2: "s = p2 @ f" "0 \<notin> set p2" using skip_alpha_numeric_split [of s] unfolding f_def by blast
  obtain p3 where p3: "f = p3 @ g" "0 \<notin> set p3"
  proof (cases "c_head f = 58 \<and> c_head (tl f) = 58")
    case True
    then have "f = 58 # 58 # tl (tl f)" using skip_head [of f 58] skip_head [of "tl f" 58] by simp
    moreover obtain p4 where "tl (tl f) = p4 @ g" "0 \<notin> set p4"
      using skip_alpha_numeric_split [of "tl (tl f)"] True by (auto simp: g_def)
    ultimately show thesis by (intro that [of "58 # 58 # p4"]) auto
  qed (use that [of "[]"] g_def in auto)
  obtain p4 where p4: "g = p4 @ e" "0 \<notin> set p4"
  proof (cases "q \<noteq> 0")
    case True
    then have "g = q # e" using e skip_head [of g q] by simp
    then show thesis using True by (intro that [of "[q]"]) auto
  qed (use that [of "[]"] e in simp)
  have "p = (p1 @ p2 @ p3 @ p4) @ e" using p1(1) p2(1) p3(1) p4(1) by simp
  then show ?thesis using p1(2) p2(2) p3(2) p4(2) by (intro exI [of _ "p1 @ p2 @ p3 @ p4"]) simp
qed

lemma strlen_append: "0 \<notin> set pre \<Longrightarrow> strlen (pre @ s) = length pre + strlen s"
  by (induction pre) auto

lemma strlen_tl: "c \<noteq> 0 \<Longrightarrow> strlen (if c_head s = c then tl s else s) \<le> strlen s"
  by (cases s) (auto simp: c_head_def)

text \<open>\<open>r\<close> is what the loop makes of a text with the value \<open>v\<close>.\<close>

definition outcome :: "allocator \<Rightarrow> buf_mem \<Rightarrow> nat \<Rightarrow> conf_error + nat \<times> buf_mem \<Rightarrow> conf_error + bytes \<Rightarrow> bool" where
  "outcome a b to r v \<longleftrightarrow> r = Inl MALLOC_FAILURE \<and> \<not> plentiful a \<or>
     (case v of
        Inl e \<Rightarrow> r = Inl e
      | Inr t \<Rightarrow> \<exists>b'. r = Inr (to + length t, b') \<and> bufm_ok b' \<and> to + length t < buf_length b' \<and>
          take (to + length t) (buf_data b') = take to (buf_data b) @ t)"

lemma outcome_append:
  assumes "outcome a b1 (to + length xs) r v" "take (to + length xs) (buf_data b1) = take to (buf_data b) @ xs"
  shows "outcome a b to r (map_sum id ((@) xs) v)"
  using assms by (cases v) (auto simp: outcome_def add.assoc)

lemma outcome_written: "outcome a b1 (to + length xs) r v \<Longrightarrow> written b to xs b1 \<Longrightarrow> outcome a b to r (map_sum id ((@) xs) v)"
  by (erule outcome_append) (simp add: written_def)

lemma outcome_Cons:
  assumes "outcome a b1 (Suc to) r v" "written b to [c] b1"
  shows "outcome a b to r (map_sum id ((#) c) v)"
proof -
  have "map_sum id ((@) [c]) v = map_sum id ((#) c) v" by (cases v) auto
  then show ?thesis using outcome_written [of a b1 to "[c]" r v b] assms by simp
qed

lemma str_copy_loop_ok:
  assumes "n = buf_length b" "bufm_ok b" "to + strlen from < n" "n < 2 ^ 62"
    "\<forall>cp np p. get cp np = Some p \<longrightarrow> strlen p < 2 ^ 62"
  shows "\<exists>r. str_copy_loop a get sn from to b = Some r \<and> outcome a b to r (value_text get sn n from)"
  using assms
proof (induction get sn n "from" arbitrary: to b rule: value_text.induct)
  case (1 get sn n to b)
  then show ?case by (subst str_copy_loop.simps) (auto simp: c_head_def outcome_def)
next
  case (2 get sn n c t to b)
  have len: "length (buf_data b) = buf_max b" "n \<le> buf_max b" using "2.prems"(1,2) by (simp_all add: bufm_ok_def)
  have ch: "c_head (x # y) = x" for x y by (simp add: c_head_def)
  consider "c = 0" | "c \<in> {34, 39, 96}" | "c = 92" "c_head t = 0" | "c = 92" "c_head t \<noteq> 0" | "c = 36"
    | "c \<noteq> 0" "c \<notin> {34, 39, 96}" "c \<noteq> 92" "c \<noteq> 36" by auto
  then show ?case
  proof cases
    case 1
    then show ?thesis using "2.prems" by (subst str_copy_loop.simps) (simp add: ch outcome_def)
  next
    case q: 2
    obtain xs rest where qt: "quoted c t = (xs, rest)" by fastforce
    have c0: "c \<noteq> 0" using q by auto
    have "to + strlen t \<le> length (buf_data b)" using "2.prems"(3) c0 len by simp
    then obtain b1 where b1: "copy_quote c t to b = Some (rest, to + length xs, b1)" "written b to xs b1" "length xs + strlen rest \<le> strlen t"
      using copy_quote_ok [of to t b c] by (auto simp: qt)
    define u where "u = (if c_head rest = c then tl rest else rest)"
    have "strlen u \<le> strlen rest" using strlen_tl [OF c0] by (simp add: u_def)
    then have "to + length xs + strlen u < n" using "2.prems"(3) b1(3) c0 by simp
    moreover have "n = buf_length b1" "bufm_ok b1" using b1(2) "2.prems"(1,2) written_bufm_ok [OF b1(2)] by (simp_all add: written_def)
    ultimately obtain r where "str_copy_loop a get sn u (to + length xs) b1 = Some r" "outcome a b1 (to + length xs) r (value_text get sn n u)"
      using "2.IH"(1) [OF c0 q qt [symmetric] refl, folded u_def] "2.prems"(4,5) by blast
    then show ?thesis using q outcome_written [OF _ b1(2)]
      by (subst str_copy_loop.simps) (auto simp: ch b1(1) qt u_def)
  next
    case 3
    then show ?thesis using "2.prems" by (subst str_copy_loop.simps) (simp add: ch outcome_def)
  next
    case 4
    have t: "t = c_head t # tl t" using 4(2) skip_head by blast
    have st: "strlen t = Suc (strlen (tl t))" using 4(2) by (subst t) simp
    then have "to < length (buf_data b)" using "2.prems"(3) 4(1) len by simp
    then obtain b1 where b1: "put to (unescape (c_head t)) b = Some b1" "written b to [unescape (c_head t)] b1" using put_written by blast
    have "Suc to + strlen (tl t) < n" using "2.prems"(3) 4(1) st by simp
    moreover have "n = buf_length b1" "bufm_ok b1" using b1(2) "2.prems"(1,2) written_bufm_ok [OF b1(2)] by (simp_all add: written_def)
    ultimately obtain r where "str_copy_loop a get sn (tl t) (Suc to) b1 = Some r" "outcome a b1 (Suc to) r (value_text get sn n (tl t))"
      using "2.IH"(2) [of b1 "Suc to"] "2.prems"(4,5) 4 by auto
    then show ?thesis using 4 outcome_Cons [OF _ b1(2)] by (subst str_copy_loop.simps) (simp add: ch b1(1))
  next
    case 5
    show ?thesis
    proof (cases "variable sn t")
      case None
      then show ?thesis using 5 by (subst str_copy_loop.simps) (simp add: ch outcome_def)
    next
      case (Some v)
      then obtain cp np e where v: "variable sn t = Some (cp, np, e)" by (cases v) auto
      show ?thesis
      proof (cases "get cp np")
        case None
        then show ?thesis using 5 v by (subst str_copy_loop.simps) (simp add: ch outcome_def)
      next
        case p: (Some p)
        obtain pre where pre: "t = pre @ e" "0 \<notin> set pre" using variable_split [OF v] by blast
        have st: "strlen (c # t) = Suc (length pre) + strlen e" using 5 pre strlen_append [OF pre(2), of e] by simp
        define m where "m = strlen p + n - Suc (length pre)"
        have pb: "strlen p < 2 ^ 62" using "2.prems"(5) p by blast
        have np: "Suc (length pre) \<le> n" using st "2.prems"(3) by simp
        have d: "length (c # t) - length e = Suc (length pre)" "Suc (length t) - length e = Suc (length pre)" using pre(1) by simp_all
        have "int (strlen p) + int (buf_length b) - int (length (c # t) - length e) = int m"
          unfolding d(1) "2.prems"(1) [symmetric] using np by (simp add: m_def of_nat_diff)
        moreover have "int m mod 2 ^ 64 = int m"
          by (rule mod_pos_pos_trivial) (use pb "2.prems"(4) in \<open>simp_all add: m_def\<close>)
        ultimately have nat_m: "nat ((int (strlen p) + int (buf_length b) - int (length (c # t) - length e)) mod 2 ^ 64) = m"
          by (simp only: nat_int)
        show ?thesis
        proof (cases "m > MAX_CONF_VALUE_LENGTH")
          case True
          then have "str_copy_loop a get sn (c # t) to b = Some (Inl VARIABLE_EXPANSION_TOO_LONG)"
            using 5 v p by (subst str_copy_loop.simps) (simp add: ch nat_m [simplified])
          moreover have "value_text get sn n (c # t) = Inl VARIABLE_EXPANSION_TOO_LONG"
            using True 5 v p d(2) by (simp add: m_def)
          ultimately show ?thesis by (auto simp: outcome_def)
        next
          case False
          obtain k b1 where grow: "BUF_MEM_grow a b m = (k, b1)" by fastforce
          have fit: "to + strlen p + strlen e < m" using "2.prems"(3) st np by (simp add: m_def)
          have m64: "m < 2 ^ 64" "m < 2 ^ 62" using False by (simp_all add: MAX_CONF_VALUE_LENGTH_def)
          have val: "value_text get sn n (c # t) = map_sum id ((@) (cstr p)) (value_text get sn m e)"
            using False 5 v p d(2) by (simp add: m_def)
          have run: "str_copy_loop a get sn (c # t) to b = (if k = 0 then Some (Inl MALLOC_FAILURE) else
              (case copy_value p to b1 of None \<Rightarrow> None | Some (to, b) \<Rightarrow> str_copy_loop a get sn e to b))"
            using False 5 v p grow by (subst str_copy_loop.simps) (simp add: ch nat_m [simplified] BUF_MEM_grow_clean_def)
          note G = BUF_MEM_grow_ok [OF "2.prems"(2) m64(1) grow]
          show ?thesis
          proof (cases "k = 0")
            case True
            then have "\<not> plentiful a" using G m64 fit by auto
            then show ?thesis using True run by (auto simp: outcome_def)
          next
            case k: False
            then have b1: "bufm_ok b1" "buf_length b1 = m" "take to (buf_data b1) = take to (buf_data b)"
              using G "2.prems"(1,3) by auto
            then have "to + strlen p \<le> length (buf_data b1)" using fit by (simp add: bufm_ok_def)
            then obtain b2 where b2: "copy_value p to b1 = Some (to + strlen p, b2)" "written b1 to (cstr p) b2"
              using copy_value_ok by blast
            have "m = buf_length b2" "bufm_ok b2" using b2(2) b1 written_bufm_ok [OF b2(2)] by (simp_all add: written_def)
            then obtain r where r: "str_copy_loop a get sn e (to + strlen p) b2 = Some r" "outcome a b2 (to + strlen p) r (value_text get sn m e)"
              using "2.IH"(3) [of "(cp, np, e)" cp "(np, e)" np e p m b2 "to + strlen p"] 5 v p d(2) False fit m64(2) "2.prems"(5)
              by (auto simp: m_def)
            have "take (to + length (cstr p)) (buf_data b2) = take to (buf_data b) @ cstr p" using b2(2) b1(3) by (simp add: written_def)
            then have "outcome a b to r (map_sum id ((@) (cstr p)) (value_text get sn m e))"
              using r(2) outcome_append [of a b2 to "cstr p" r] by (simp add: strlen_def)
            then show ?thesis using k run b2(1) r(1) val by simp
          qed
        qed
      qed
    qed
  next
    case 6
    then have "to < length (buf_data b)" using "2.prems"(3) len by simp
    then obtain b1 where b1: "put to c b = Some b1" "written b to [c] b1" using put_written by blast
    have "Suc to + strlen t < n" using "2.prems"(3) 6(1) by simp
    moreover have "n = buf_length b1" "bufm_ok b1" using b1(2) "2.prems"(1,2) written_bufm_ok [OF b1(2)] by (simp_all add: written_def)
    ultimately obtain r where "str_copy_loop a get sn t (Suc to) b1 = Some r" "outcome a b1 (Suc to) r (value_text get sn n t)"
      using "2.IH"(4) [of b1 "Suc to"] "2.prems"(4,5) 6 by auto
    then show ?thesis using 6 outcome_Cons [OF _ b1(2)] by (subst str_copy_loop.simps) (simp add: ch b1(1))
  qed
qed


lemma quoted_nonzero: "0 \<notin> set (fst (quoted q t))"
proof (induction q t rule: quoted.induct)
  case (2 q c t)
  then show ?case by (cases t) auto
qed simp

lemma unescape_nonzero: "c \<noteq> 0 \<Longrightarrow> unescape c \<noteq> 0"
  by (simp add: unescape_def)

lemma cstr_nonzero [simp]: "0 \<notin> set (cstr s)"
  by (induction s) auto

lemma value_text_nonzero: "value_text get sn n t = Inr x \<Longrightarrow> 0 \<notin> set x"
proof (induction get sn n t arbitrary: x rule: value_text.induct)
  case (2 get sn n c t)
  have ms: "map_sum id f y = Inr z \<longleftrightarrow> (\<exists>w. y = Inr w \<and> z = f w)" for f :: "bytes \<Rightarrow> bytes" and y :: "conf_error + bytes" and z
    by (cases y) auto
  consider "c = 0" | "c \<in> {34, 39, 96}" | "c = 92" "c_head t = 0" | "c = 92" "c_head t \<noteq> 0" | "c = 36"
    | "c \<noteq> 0" "c \<notin> {34, 39, 96}" "c \<noteq> 92" "c \<noteq> 36" by auto
  then show ?case
  proof cases
    case q: 2
    obtain xs rest where qt: "quoted c t = (xs, rest)" by fastforce
    then obtain w where "value_text get sn n (if c_head rest = c then tl rest else rest) = Inr w" "x = xs @ w"
      using "2.prems" q by (auto simp: ms)
    then show ?thesis using "2.IH"(1) [of "(xs, rest)" xs rest w] q qt quoted_nonzero [of c t] by auto
  next
    case 4
    then obtain w where "value_text get sn n (tl t) = Inr w" "x = unescape (c_head t) # w" using "2.prems" by (auto simp: ms)
    then show ?thesis using "2.IH"(2) 4 unescape_nonzero [of "c_head t"] by auto
  next
    case 5
    obtain cp np e p where v: "variable sn t = Some (cp, np, e)" "get cp np = Some p"
      using "2.prems" 5 by (auto split: option.split_asm)
    define m where "m = strlen p + n - (Suc (length t) - length e)"
    have m: "\<not> m > MAX_CONF_VALUE_LENGTH" using "2.prems" 5 v by (auto simp: m_def split: if_split_asm)
    then obtain w where "value_text get sn m e = Inr w" "x = cstr p @ w" using "2.prems" 5 v by (auto simp: ms m_def)
    then show ?thesis using "2.IH"(3) [of "(cp, np, e)" cp "(np, e)" np e p m w] 5 v m by (auto simp: m_def)
  next
    case 6
    then obtain w where "value_text get sn n t = Inr w" "x = c # w" using "2.prems" by (auto simp: ms)
    then show ?thesis using "2.IH"(4) 6 by auto
  qed (use "2.prems" in auto)
qed simp

lemma str_copy_ok:
  assumes "strlen from < 2 ^ 31" "\<forall>sec nam p. NCONF_get_string s sec nam = Some p \<longrightarrow> strlen p < 2 ^ 62"
  shows "\<exists>r. str_copy a s sn from = Some r \<and>
    (r = Inl MALLOC_FAILURE \<and> \<not> plentiful a \<or>
     (case value_text (NCONF_get_string s) sn (strlen from + 1) from of
        Inl e \<Rightarrow> r = Inl e
      | Inr t \<Rightarrow> \<exists>d. r = Inr d \<and> cstr d = t))"
proof (cases "BUF_MEM_new a")
  case None
  then have "\<not> plentiful a" using plentiful_malloc [of a 24] by (auto simp: BUF_MEM_new_def split: option.split_asm)
  then show ?thesis using None by (auto simp: str_copy_def)
next
  case (Some b)
  define n where "n = strlen from + 1"
  have n: "n < 2 ^ 64" "n < 2 ^ 62" "0 < n" using assms(1) by (simp_all add: n_def)
  obtain k b1 where grow: "BUF_MEM_grow a b n = (k, b1)" by fastforce
  have b: "bufm_ok b" using BUF_MEM_new_ok [OF Some] by simp
  note G = BUF_MEM_grow_ok [OF b n(1) grow]
  show ?thesis
  proof (cases "k = 0")
    case True
    then have "\<not> plentiful a" using G n by auto
    then show ?thesis using True Some grow by (auto simp: str_copy_def n_def)
  next
    case False
    then have b1: "bufm_ok b1" "n = buf_length b1" using G by auto
    obtain r where r: "str_copy_loop a (NCONF_get_string s) sn from 0 b1 = Some r"
      "outcome a b1 0 r (value_text (NCONF_get_string s) sn n from)"
      using str_copy_loop_ok [OF b1(2,1) _ n(2) assms(2), of 0 "from" a sn] by (auto simp: n_def)
    have run: "str_copy a s sn from = (case r of Inl e \<Rightarrow> Some (Inl e) | Inr (to, b) \<Rightarrow> map_option (\<lambda>b. Inr (buf_data b)) (put to 0 b))"
      using Some grow False r(1) by (simp add: str_copy_def n_def split: sum.split)
    show ?thesis
    proof (cases "value_text (NCONF_get_string s) sn n from")
      case (Inl e)
      then show ?thesis using r(2) run by (auto simp: outcome_def n_def)
    next
      case (Inr t)
      show ?thesis
      proof (cases "r = Inl MALLOC_FAILURE \<and> \<not> plentiful a")
        case True
        then show ?thesis using run by auto
      next
        case nm: False
        then obtain b2 where b2: "r = Inr (length t, b2)" "bufm_ok b2" "length t < buf_length b2" "take (length t) (buf_data b2) = t"
          using r(2) Inr by (auto simp: outcome_def)
        then have l: "length t < length (buf_data b2)" by (simp add: bufm_ok_def)
        then have p: "put (length t) 0 b2 = Some (b2\<lparr>buf_data := (buf_data b2)[length t := 0]\<rparr>)" by (simp add: put_def)
        have "(buf_data b2)[length t := 0] = t @ 0 # drop (Suc (length t)) (buf_data b2)"
          using l b2(4) by (simp add: upd_conv_take_nth_drop)
        moreover have "cstr (t @ 0 # x) = t" for x
          using value_text_nonzero [OF Inr] by (induction t) auto
        ultimately show ?thesis using run b2(1) p Inr by (auto simp: n_def)
      qed
    qed
  qed
qed

section \<open>Properties\<close>

text \<open>C39: \<open>str_copy\<close> never writes outside of its buffer, whatever it expands, and without running out of memory it finds the
  value that the text stands for: quotes and backslashes taken off, variables replaced; or it refuses the text for
  the brace, the variable or the size that \<open>value_text\<close> refuses.\<close>

theorem str_copy_correct:
  assumes "strlen from < 2 ^ 31" "\<forall>sec nam p. NCONF_get_string s sec nam = Some p \<longrightarrow> strlen p < 2 ^ 62"
  shows "\<exists>r. str_copy a s sn from = Some r \<and>
    (r = Inl MALLOC_FAILURE \<and> \<not> plentiful a \<or>
     (case value_text (NCONF_get_string s) sn (strlen from + 1) from of
        Inl e \<Rightarrow> r = Inl e
      | Inr t \<Rightarrow> \<exists>d. r = Inr d \<and> cstr d = t))"
  by (rule str_copy_ok [OF assms])

text \<open>The text \<open>x$k'y z'\<close> where \<open>k\<close> is \<open>v\<close>.\<close>

theorem str_copy_correct_witness:
  "\<exists>s d. str_copy plenty s (Some [97]) [120, 36, 107, 39, 121, 32, 122, 39] = Some (Inr d) \<and> cstr d = [120, 118, 121, 32, 122]"
proof -
  obtain s where s: "conf_run 2 s [[97] \<mapsto> [([107], [118, 0])]]" using demo_store by blast
  have r: "represents s [[97] \<mapsto> [([107], [118, 0])]]" using conf_run_represents [OF s] by simp
  define g where "g = NCONF_get_string s"
  have get: "g (Some sec) nam = (if cstr sec = [97] \<and> cstr nam = [107] then Some [118, 0] else None)" for sec nam
    using represents_get_string [OF r] by (simp add: g_def)
  have "g None nam = g (Some kDefaultSectionName) nam" for nam by (simp add: g_def NCONF_get_string_def)
  then have getn: "g None nam = None" for nam by (simp add: get kDefaultSectionName_def)
  have short: "\<forall>sec nam p. g sec nam = Some p \<longrightarrow> strlen p < 2 ^ 62"
  proof (intro allI impI)
    fix sec nam p assume "g sec nam = Some p"
    then show "strlen p < 2 ^ 62" by (cases sec) (auto simp: get getn split: if_split_asm)
  qed
  define x :: bytes where "x = [120, 36, 107, 39, 121, 32, 122, 39]"
  have an: "IS_ALPHA_NUMERIC 107" "\<not> IS_ALPHA_NUMERIC 39" by (simp_all add: alpha_numeric alnum_def)
  have var: "variable (Some [97]) [107, 39, 121, 32, 122, 39] = Some (Some [97], [107], [39, 121, 32, 122, 39])"
    by (simp add: variable_def an Let_def c_head_def between_def)
  have n: "strlen x + 1 = 9" by (simp add: x_def)
  have "value_text g (Some [97]) 9 x = Inr [120, 118, 121, 32, 122]"
    by (simp add: x_def var get MAX_CONF_VALUE_LENGTH_def c_head_def)
  moreover have "strlen x < 2 ^ 31" by (simp add: x_def)
  ultimately obtain d where "str_copy plenty s (Some [97]) x = Some (Inr d)" "cstr d = [120, 118, 121, 32, 122]"
    using str_copy_correct [of x s plenty "Some [97]"] short plentiful_plenty n unfolding g_def by auto
  then show ?thesis unfolding x_def by blast
qed

end
