(* ===== verification/Conf_Load.thy ===== *)
theory Conf_Load
  imports Conf_Text Bio_Mem
begin

text \<open>
  Loading a configuration file (\<open>crypto/conf/conf.c\<close>): \<open>def_load_bio\<close> puts lines together from what \<open>BIO_gets\<close> hands out, and
  enters the sections and values it finds into the store.
\<close>

section \<open>One line\<close>

datatype load_error = NO_MEMORY | UNABLE_TO_CREATE_NEW_SECTION | MISSING_CLOSE_SQUARE_BRACKET | MISSING_EQUAL_SIGN
  | NO_VALUE conf_error

text \<open>The variables of \<open>def_load_bio\<close> that live from line to line; from \<open>l_next\<close> on, addresses are free.\<close>

record load_state =
  l_conf :: conf
  l_section :: bytes
  l_sv :: nat
  l_next :: nat

text \<open>The lookup of a section, which is made when it is not there.\<close>

definition find_section :: "allocator \<Rightarrow> bytes \<Rightarrow> nat \<Rightarrow> conf \<Rightarrow> nat \<times> conf" where
  "find_section a sec p s =
     (let sv = get_section s sec in if sv = 0 then NCONF_new_section a p p sec s else (sv, s))"

text \<open>Scanners only move forward.\<close>

lemma eat_ws_split: "\<exists>pre. p = pre @ eat_ws p"
proof (induction p)
  case (Cons c p)
  then obtain pre where "p = pre @ eat_ws p" by blast
  then show ?case by (intro exI [of _ "if c \<in> {9, 10, 13, 32} then c # pre else []"]) auto
qed simp

lemma scan_esc_split: "\<exists>pre. c # p = c # pre @ scan_esc (c # p)"
  by (cases p) (auto simp: scan_esc_def intro: exI [of _ "[]"] exI [of _ "[c]" for c])

lemma eat_alpha_numeric_split: "\<exists>pre. p = pre @ eat_alpha_numeric p"
proof (induction p rule: eat_alpha_numeric.induct)
  case (2 c p)
  show ?case
  proof (cases "IS_ESC c")
    case True
    then obtain pre where "scan_esc (c # p) = pre @ eat_alpha_numeric (scan_esc (c # p))" using "2.IH"(1) by blast
    moreover obtain pre' where "c # p = c # pre' @ scan_esc (c # p)" using scan_esc_split by blast
    ultimately show ?thesis using True by (intro exI [of _ "c # pre' @ pre"]) simp
  next
    case False
    show ?thesis
    proof (cases "IS_ALPHA_NUMERIC_PUNCT c")
      case True
      then obtain pre where "p = pre @ eat_alpha_numeric p" using "2.IH"(2) False by blast
      then show ?thesis using True False by (intro exI [of _ "c # pre"]) simp
    qed (use False in \<open>auto intro: exI [of _ "[]"]\<close>)
  qed
qed simp

text \<open>Where the name in brackets ends, over all the parts that \<open>goto again\<close> goes through.\<close>

function section_end :: "bytes \<Rightarrow> bytes option" where
  "section_end ss =
     (let e = eat_alpha_numeric ss; p = eat_ws e in
      if c_head p \<noteq> 93 then (if c_head p \<noteq> 0 \<and> ss \<noteq> p then section_end p else None)
      else Some e)"
  by pat_completeness auto
termination
proof (relation "measure length", goal_cases)
  case (2 ss e p)
  obtain x y where "ss = x @ e" "e = y @ p"
    using eat_alpha_numeric_split [of ss] eat_ws_split [of "eat_alpha_numeric ss"] 2 by auto
  then have "length p < length ss \<or> p = ss" by (cases x; cases y) auto
  then show ?case using 2 by auto
qed simp

declare section_end.simps [simp del]

definition load_section :: "allocator \<Rightarrow> bytes \<Rightarrow> load_state \<Rightarrow> (load_error option \<times> load_state) option" where
  "load_section a s st =
     (let start = eat_ws (tl s) in
      case section_end start of
        None \<Rightarrow> Some (Some MISSING_CLOSE_SQUARE_BRACKET, st)
      | Some e \<Rightarrow>
          (case str_copy a (l_conf st) None (between start e) of
             None \<Rightarrow> None
           | Some (Inl err) \<Rightarrow> Some (Some (NO_VALUE err), st)
           | Some (Inr sec) \<Rightarrow>
               (case find_section a sec (l_next st) (l_conf st) of
                  (sv, s) \<Rightarrow>
                    let st = st\<lparr>l_conf := s, l_section := sec, l_sv := sv, l_next := l_next st + 1\<rparr> in
                    Some (if sv = 0 then Some UNABLE_TO_CREATE_NEW_SECTION else None, st))))"

text \<open>
  The end of a value: \<open>l\<close> is the line from the equal sign on, \<open>st\<close> where the value starts; the equal sign itself is no
  white space.
\<close>

fun trim_loop :: "bytes \<Rightarrow> nat \<Rightarrow> nat \<Rightarrow> nat" where
  "trim_loop l st 0 = 0"
| "trim_loop l st (Suc j) = (if Suc j \<noteq> st \<and> IS_WS (l ! Suc j) then trim_loop l st j else Suc j)"

text \<open>The value is at \<open>l_next\<close>, a section that it needs right behind it.\<close>

definition load_value :: "allocator \<Rightarrow> bytes \<Rightarrow> load_state \<Rightarrow> (load_error option \<times> load_state) option" where
  "load_value a s st =
     (let e = eat_alpha_numeric s;
          (psection, pname, e) =
            (if c_head e = 58 \<and> c_head (tl e) = 58 then (Some (between s e), tl (tl e), eat_alpha_numeric (tl (tl e)))
             else (None, s, e));
          p = eat_ws e in
      if c_head p \<noteq> 61 then Some (Some MISSING_EQUAL_SIGN, st)
      else
        let pname = between pname e; l = cstr p; start = eat_ws (tl l); i = length l - length start;
            p = trim_loop l i (length l - 1) + 1; start = take (p - i) start;
            v = l_next st; conf = l_conf st; err = (\<lambda>e conf. Some (Some e, st\<lparr>l_conf := conf\<lparr>vals := (vals conf)(v := None)\<rparr>\<rparr>)) in
        (case CONF_VALUE_new a v conf of
           (v', conf) \<Rightarrow>
             if v' = 0 then Some (Some NO_MEMORY, st\<lparr>l_conf := conf\<rparr>)
             else
               let psection = (case psection of None \<Rightarrow> l_section st | Some psection \<Rightarrow> psection) in
               (case OPENSSL_strdup a pname of
                  None \<Rightarrow> err NO_MEMORY conf
                | Some nm \<Rightarrow>
                    let conf = conf\<lparr>vals := (vals conf)(v \<mapsto> (val_at conf v)\<lparr>v_name := Some nm\<rparr>)\<rparr> in
                    (case str_copy a conf (Some psection) start of
                       None \<Rightarrow> None
                     | Some (Inl e) \<Rightarrow> err (NO_VALUE e) conf
                     | Some (Inr t) \<Rightarrow>
                         let conf = conf\<lparr>vals := (vals conf)(v \<mapsto> (val_at conf v)\<lparr>v_value := Text t\<rparr>)\<rparr> in
                         (case (if strcmp psection (l_section st) \<noteq> 0 then find_section a psection (v + 1) conf else (l_sv st, conf)) of
                            (tv, conf) \<Rightarrow>
                              if tv = 0 then err UNABLE_TO_CREATE_NEW_SECTION conf
                              else
                                (case add_string a conf tv v of
                                   (False, conf) \<Rightarrow> err NO_MEMORY conf
                                 | (True, conf) \<Rightarrow> Some (None, st\<lparr>l_conf := conf, l_next := v + 2\<rparr>)))))))"

definition load_line :: "allocator \<Rightarrow> bytes \<Rightarrow> load_state \<Rightarrow> (load_error option \<times> load_state) option" where
  "load_line a ln st =
     (let ln = clear_comments ln; s = eat_ws ln in
      if IS_EOF (c_head s) then Some (None, st)
      else if c_head s = 91 then load_section a s st
      else load_value a s st)"

section \<open>The file\<close>

definition CONFBUFSIZE :: nat where "CONFBUFSIZE = 512"

text \<open>\<open>i\<close> without the line ends before it.\<close>

fun strip_newlines :: "bytes \<Rightarrow> nat \<Rightarrow> nat" where
  "strip_newlines p 0 = 0"
| "strip_newlines p (Suc i) = (if p ! i \<noteq> 13 \<and> p ! i \<noteq> 10 then Suc i else strip_newlines p i)"

text \<open>
  One round of the loop up to the check for \<open>again\<close>: what \<open>BIO_gets\<close> has stored is \<open>d\<close>. \<open>Inl\<close> at the end of the file, else
  \<open>data\<close>, \<open>bufnum\<close>, \<open>again\<close> and \<open>eline\<close>.
\<close>

definition load_part :: "bytes \<Rightarrow> bytes \<Rightarrow> nat \<Rightarrow> bool \<Rightarrow> nat \<Rightarrow> unit + bytes \<times> nat \<times> bool \<times> nat" where
  "load_part d dat bufnum again eline =
     (let dat = dat[bufnum := 0]; dat = put_bytes bufnum d dat; dat = dat[bufnum + CONFBUFSIZE - 1 := 0];
          p = drop bufnum dat; ii = strlen p in
      if ii = 0 \<and> \<not> again then Inl ()
      else
        let i = strip_newlines p ii;
            (again, dat, eline) = (if ii \<noteq> 0 \<and> i = ii then (True, dat, eline) else (False, dat[bufnum + i := 0], eline + 1));
            bufnum = bufnum + i;
            (bufnum, again) =
              (if bufnum \<ge> 1 \<and> IS_ESC (dat ! (bufnum - 1)) \<and> (bufnum \<le> 1 \<or> \<not> IS_ESC (dat ! (bufnum - 2)))
               then (bufnum - 1, True) else (bufnum, again)) in
        Inr (dat, bufnum, again, eline))"

text \<open>\<open>gets\<close> is \<open>BIO_gets\<close> on the file. The error, with the line it is in; the state of the load; and the file.\<close>

partial_function (option) load_loop ::
  "allocator \<Rightarrow> (int \<Rightarrow> 's \<Rightarrow> (int \<times> bytes) \<times> 's) \<Rightarrow> buf_mem \<Rightarrow> nat \<Rightarrow> bool \<Rightarrow> nat \<Rightarrow> load_state \<Rightarrow> 's \<Rightarrow>
   ((load_error \<times> nat) option \<times> load_state \<times> 's) option" where
  "load_loop a gets buff bufnum again eline st h =
     (case BUF_MEM_grow a buff (bufnum + CONFBUFSIZE) of
        (n, buff) \<Rightarrow>
          if n = 0 then Some (Some (NO_MEMORY, eline), st, h)
          else
            (case gets (int CONFBUFSIZE - 1) h of
               ((_, d), h) \<Rightarrow>
                 (case load_part d (buf_data buff) bufnum again eline of
                    Inl _ \<Rightarrow> Some (None, st, h)
                  | Inr (dat, bufnum, again, eline) \<Rightarrow>
                      let buff = buff\<lparr>buf_data := dat\<rparr> in
                      if again then load_loop a gets buff bufnum again eline st h
                      else
                        (case load_line a (cstr dat) st of
                           None \<Rightarrow> None
                         | Some (Some e, st) \<Rightarrow> Some (Some (e, eline), st, h)
                         | Some (None, st) \<Rightarrow> load_loop a gets buff 0 again eline st h))))"

text \<open>\<open>None\<close> when the code does not return, or writes outside of a buffer.\<close>

definition def_load_bio ::
  "allocator \<Rightarrow> (int \<Rightarrow> 's \<Rightarrow> (int \<times> bytes) \<times> 's) \<Rightarrow> nat \<Rightarrow> conf \<Rightarrow> 's \<Rightarrow> ((load_error \<times> nat) option \<times> conf \<times> 's) option" where
  "def_load_bio a gets p conf h =
     (case BUF_MEM_new a of
        None \<Rightarrow> Some (Some (NO_MEMORY, 0), conf, h)
      | Some buff \<Rightarrow>
          (case OPENSSL_strdup a kDefaultSectionName of
             None \<Rightarrow> Some (Some (NO_MEMORY, 0), conf, h)
           | Some sec \<Rightarrow>
               (case NCONF_new_section a p p sec conf of
                  (sv, conf) \<Rightarrow>
                    if sv = 0 then Some (Some (UNABLE_TO_CREATE_NEW_SECTION, 0), conf, h)
                    else
                      map_option (\<lambda>(r, st, h). (r, l_conf st, h))
                        (load_loop a gets buff 0 False 0 \<lparr>l_conf = conf, l_section = sec, l_sv = sv, l_next = p + 1\<rparr> h))))"

definition NCONF_load_bio ::
  "allocator \<Rightarrow> (int \<Rightarrow> 's \<Rightarrow> (int \<times> bytes) \<times> 's) \<Rightarrow> nat \<Rightarrow> conf \<Rightarrow> 's \<Rightarrow> ((load_error \<times> nat) option \<times> conf \<times> 's) option" where
  "NCONF_load_bio a gets p conf h = def_load_bio a gets p conf h"

section \<open>Writing a file\<close>

text \<open>A character of a value, so that it is read as itself.\<close>

definition escape :: "u8 \<Rightarrow> bytes" where
  "escape c =
     (if c = 10 then [92, 110] else if c = 13 then [92, 114] else if c = 9 then [92, 116]
      else if c = 32 then [39, 32, 39]
      else if c \<in> {34, 35, 36, 39, 92, 96} then [92, c]
      else [c])"

abbreviation escapes :: "bytes \<Rightarrow> bytes" where
  "escapes v \<equiv> concat (map escape v)"

datatype conf_entry = Section bytes | Value bytes bytes | Remark bytes

fun entry_text :: "conf_entry \<Rightarrow> bytes" where
  "entry_text (Section sec) = 91 # sec @ [93]"
| "entry_text (Value n v) = n @ 61 # escapes v"
| "entry_text (Remark c) = 35 # c"

definition name_chars :: "bytes \<Rightarrow> bool" where
  "name_chars n \<longleftrightarrow> list_all IS_ALPHA_NUMERIC_PUNCT n"

fun entry_ok :: "conf_entry \<Rightarrow> bool" where
  "entry_ok (Section sec) = (name_chars sec \<and> length sec + 2 < 510)"
| "entry_ok (Value n v) = (name_chars n \<and> 0 \<notin> set v \<and> length (entry_text (Value n v)) < 510)"
| "entry_ok (Remark c) = (set c \<inter> {0, 10, 13, 92} = {} \<and> length c + 1 < 510)"

definition file_text :: "conf_entry list \<Rightarrow> bytes" where
  "file_text es = concat (map (\<lambda>e. entry_text e @ [10]) es)"

text \<open>What the file means: the section it is in, and the database so far.\<close>

fun enter :: "conf_entry \<Rightarrow> bytes \<times> database \<Rightarrow> bytes \<times> database" where
  "enter (Section sec) (cur, db) = (sec, db_section sec db)"
| "enter (Value n v) (cur, db) = (cur, db_set cur n v db)"
| "enter (Remark c) (cur, db) = (cur, db)"

abbreviation default_section :: bytes where
  "default_section \<equiv> [100, 101, 102, 97, 117, 108, 116]"

definition file_db :: "conf_entry list \<Rightarrow> database" where
  "file_db es = snd (fold enter es (default_section, [default_section \<mapsto> []]))"

section \<open>Reading the lines of such a file\<close>

lemma name_char:
  assumes "IS_ALPHA_NUMERIC_PUNCT c"
  shows "c \<notin> {0, 9, 10, 13, 32, 34, 35, 36, 39, 58, 61, 91, 92, 93, 96}"
  using assms by (auto simp: alpha_numeric alnum_def)

lemma name_charsD: "name_chars n \<Longrightarrow> c \<in> set n \<Longrightarrow> IS_ALPHA_NUMERIC_PUNCT c"
  by (simp add: name_chars_def list_all_iff)

lemma name_chars_plain: "name_chars n \<Longrightarrow> c \<in> {0, 9, 10, 13, 32, 34, 35, 36, 39, 58, 61, 91, 92, 93, 96} \<Longrightarrow> c \<notin> set n"
  using name_char name_charsD by blast

lemma clear_comments_plain:
  "set n \<inter> {0, 34, 35, 39, 92, 96} = {} \<Longrightarrow> clear_comments_loop (n @ s) = n @ clear_comments_loop s"
  by (induction n) auto

lemma escape_cases:
  obtains d where "escape c = [92, d]" "d \<noteq> 0" "d \<noteq> 10" "d \<noteq> 13" "d \<noteq> 9" "d \<noteq> 32" "unescape d = c" "d = 92 \<or> c \<noteq> 92"
  | "escape c = [39, 32, 39]" "c = 32"
  | "escape c = [c]" "c \<notin> {9, 10, 13, 32, 34, 35, 36, 39, 92, 96}"
  unfolding escape_def unescape_def by (cases "c = 10"; cases "c = 13"; cases "c = 9"; cases "c = 32"; cases "c \<in> {34, 35, 36, 39, 92, 96}") auto

lemma between_take: "s = pre @ e \<Longrightarrow> between s e = pre"
  by (simp add: between_def)

lemma scan_quote_space: "scan_quote (39 # 32 # 39 # s) = s"
  by (simp add: scan_quote_def Let_def c_head_def)

lemma clear_comments_escapes:
  "0 \<notin> set v \<Longrightarrow> clear_comments_loop (escapes v) = escapes v"
proof (induction v)
  case (Cons c v)
  then have ih: "clear_comments_loop (escapes v) = escapes v" and c0: "c \<noteq> 0" by auto
  show ?case
  proof (cases c rule: escape_cases)
    case (1 d)
    have "scan_esc (92 # d # escapes v) = escapes v" using 1(2) by (simp add: scan_esc_def c_head_def)
    then show ?thesis using 1(1) ih by (simp add: between_def)
  next
    case 2
    then show ?thesis using ih by (simp add: scan_quote_space between_def)
  next
    case 3
    then show ?thesis using ih c0 by simp
  qed
qed simp

lemma value_text_plain:
  "set n \<inter> {0, 34, 36, 39, 92, 96} = {} \<Longrightarrow> value_text get sn k (n @ s) = map_sum id ((@) n) (value_text get sn k s)"
proof (induction n)
  case Nil
  then show ?case by (cases "value_text get sn k s") simp_all
next
  case (Cons c n)
  then show ?case by (cases "value_text get sn k s") auto
qed

lemma value_text_escapes: "0 \<notin> set v \<Longrightarrow> value_text get sn k (escapes v) = Inr v"
proof (induction v)
  case (Cons c v)
  then have ih: "value_text get sn k (escapes v) = Inr v" and c0: "c \<noteq> 0" by auto
  show ?case
  proof (cases c rule: escape_cases)
    case (1 d)
    then show ?thesis using ih by (simp add: c_head_def)
  next
    case 2
    then show ?thesis using ih by (simp add: c_head_def)
  next
    case 3
    then show ?thesis using ih c0 by simp
  qed
qed simp

lemma escapes_head: "escapes v = [] \<or> (\<exists>c s. escapes v = c # s \<and> c \<notin> {9, 10, 13, 32})"
proof (cases v)
  case (Cons c w)
  then show ?thesis by (cases c rule: escape_cases) auto
qed simp

lemma escapes_last:
  "escapes v = [] \<or> (\<exists>s c. escapes v = s @ [c] \<and> c \<notin> {9, 10, 13, 32} \<and> (c = 92 \<longrightarrow> (\<exists>s'. s = s' @ [92])))"
proof (cases v rule: rev_cases)
  case (snoc w c)
  then show ?thesis by (cases c rule: escape_cases) auto
qed simp

lemma escapes_nonzero: "0 \<notin> set v \<Longrightarrow> 0 \<notin> set (escapes v)"
  by (auto simp: escape_def split: if_split_asm)

lemma escapes_no_newline: "10 \<notin> set (escapes v)"
  by (auto simp: escape_def split: if_split_asm)

lemma eat_name: "name_chars n \<Longrightarrow> c \<in> {61, 93} \<Longrightarrow> eat_alpha_numeric (n @ c # s) = c # s"
proof (induction n)
  case Nil
  then show ?case by (auto simp: alpha_numeric alnum_def)
next
  case (Cons d n)
  then have "IS_ALPHA_NUMERIC_PUNCT d" "name_chars n" by (simp_all add: name_chars_def)
  then show ?case using Cons name_char [of d] by simp
qed

lemma trim_escapes: "trim_loop (61 # escapes v) 1 (length (escapes v)) = length (escapes v)"
proof -
  define w where "w = escapes v"
  have "w = [] \<or> (\<exists>s c. w = s @ [c] \<and> c \<notin> {9, 10, 13, 32})" using escapes_last [of v] unfolding w_def by blast
  then have "trim_loop (61 # w) 1 (length w) = length w"
  proof (elim disjE exE conjE)
    fix s c assume w: "w = s @ [c]" "c \<notin> {9, 10, 13, 32}"
    then have "(61 # w) ! Suc (length s) = c" by simp
    then show ?thesis using w by simp
  qed simp
  then show ?thesis by (simp add: w_def)
qed

lemma cstr_id: "0 \<notin> set s \<Longrightarrow> cstr s = s"
  by (induction s) auto

lemma eat_ws_escapes: "eat_ws (escapes v) = escapes v"
proof -
  define w where "w = escapes v"
  have "w = [] \<or> (\<exists>c s. w = c # s \<and> c \<notin> {9, 10, 13, 32})" using escapes_head [of v] by (simp only: w_def)
  then have "eat_ws w = w" by auto
  then show ?thesis by (simp add: w_def)
qed

text \<open>The state between two lines: \<open>cur\<close> is the section, \<open>db\<close> what is in the store, with its values as C strings.\<close>

definition db_text :: "database \<Rightarrow> database" where
  "db_text db = (\<lambda>sec. map_option (map (\<lambda>(n, t). (n, cstr t))) (db sec))"

definition loaded :: "nat \<Rightarrow> load_state \<Rightarrow> bytes \<Rightarrow> database \<Rightarrow> bool" where
  "loaded n st cur db \<longleftrightarrow>
     (\<exists>db'. represents (l_conf st) db' \<and> db_text db' = db) \<and> roomy_store n (l_conf st) \<and>
     get_section (l_conf st) (l_section st) = l_sv st \<and> l_sv st \<noteq> 0 \<and> cstr (l_section st) = cur \<and> l_next st \<noteq> 0 \<and>
     (\<forall>q \<ge> l_next st. vals (l_conf st) q = None \<and> stks (l_conf st) q = None) \<and>
     (\<forall>sec l. db sec = Some l \<longrightarrow> (\<forall>(n, t) \<in> set l. length t < 510)) \<and> length cur < 510"

lemma db_text_set:
  assumes "db sec = Some l"
  shows "db_text (db_set sec n t db) = db_set sec n (cstr t) (db_text db)"
proof
  fix x
  have "map (\<lambda>(n, t). (n, cstr t)) (filter (\<lambda>(m, _). m \<noteq> n) l) = filter (\<lambda>(m, _). m \<noteq> n) (map (\<lambda>(n, t). (n, cstr t)) l)"
    by (induction l) auto
  then show "db_text (db_set sec n t db) x = db_set sec n (cstr t) (db_text db) x"
    using assms by (simp add: db_text_def db_set_def)
qed

lemma db_text_section: "db_text (db_section sec db) = db_section sec (db_text db)"
  by (auto simp: db_text_def db_section_def)

text \<open>The texts of a loaded store are short enough for \<open>str_copy\<close>.\<close>

lemma short_texts:
  assumes r: "represents s db" and short: "\<forall>sec l. db_text db sec = Some l \<longrightarrow> (\<forall>(n, t) \<in> set l. length t < 510)"
  shows "\<forall>sec nam p. NCONF_get_string s sec nam = Some p \<longrightarrow> strlen p < 2 ^ 62"
proof -
  have some: "strlen p < 2 ^ 62" if g: "NCONF_get_string s (Some sec) nam = Some p" for sec nam p
  proof -
    obtain l where l: "db (cstr sec) = Some l" "map_of l (cstr nam) = Some p"
      using g represents_get_string [OF r] by (auto simp: bind_eq_Some_conv)
    then have "db_text db (cstr sec) = Some (map (\<lambda>(n, t). (n, cstr t)) l)" "(cstr nam, cstr p) \<in> set (map (\<lambda>(n, t). (n, cstr t)) l)"
      using map_of_SomeD [OF l(2)] by (auto simp: db_text_def intro!: rev_image_eqI)
    then have "length (cstr p) < 510" using short by fastforce
    then show ?thesis by (simp add: strlen_def)
  qed
  have "NCONF_get_string s None nam = NCONF_get_string s (Some kDefaultSectionName) nam" for nam
    by (simp add: NCONF_get_string_def)
  then show ?thesis using some by (metis option.exhaust)
qed

lemma loaded_short:
  assumes "loaded n st cur db"
  shows "\<forall>sec nam p. NCONF_get_string (l_conf st) sec nam = Some p \<longrightarrow> strlen p < 2 ^ 62"
  using assms short_texts by (auto simp: loaded_def)

lemma find_section_ok:
  assumes r: "represents s db" and room: "roomy_store n s" "n < 2 ^ 57"
    and fresh: "p \<noteq> 0" "\<forall>q \<ge> p. vals s q = None \<and> stks s q = None" and a: "plentiful a" "strlen sec < 2 ^ 62"
  shows "\<exists>sv s'. find_section a sec p s = (sv, s') \<and> sv \<noteq> 0 \<and> get_section s' sec = sv \<and> represents s' (db_section (cstr sec) db) \<and>
    roomy_store (Suc n) s' \<and> (\<forall>q > p. vals s' q = None \<and> stks s' q = None)"
proof (cases "get_section s sec = 0")
  case True
  have ok: "store_ok s" "num_items (conf_table s) + 1 < 2 ^ 60" using r room by (simp_all add: represents_def roomy_store_def)
  obtain s' where s': "NCONF_new_section a p p sec s = (p, s')"
    using new_section_succeeds [OF ok(1) fresh(1) not_in_table [OF ok(1)] ok(2) a] fresh(2) by blast
  note N = section_added [OF r True fresh(1) _ _ room s' fresh(1)]
  have "vals s' q = None \<and> stks s' q = None" if "q > p" for q
    using new_section_vals [OF s', of q] N that fresh(2) by auto
  then show ?thesis using N fresh True s' by (intro exI [of _ p] exI [of _ s']) (simp add: find_section_def)
next
  case False
  then have "db (cstr sec) \<noteq> None" using represents_get_section(1) [OF r, of sec] by simp
  moreover have "roomy_store (Suc n) s" using room by (fastforce simp: roomy_store_def)
  ultimately show ?thesis using False r fresh(2) by (auto simp: find_section_def db_section_def Let_def)
qed


lemma between_prefix [simp]: "between (n @ s) s = n"
  by (simp add: between_def)

lemma str_copy_value:
  assumes "value_text (NCONF_get_string s) sn (strlen from + 1) from = Inr v" "strlen from < 2 ^ 31"
    "\<forall>sec nam p. NCONF_get_string s sec nam = Some p \<longrightarrow> strlen p < 2 ^ 62" "plentiful a"
  shows "\<exists>d. str_copy a s sn from = Some (Inr d) \<and> cstr d = v"
  using str_copy_ok [OF assms(2,3), of a sn] assms(1,4) by auto

lemma load_section_ok:
  assumes st: "loaded n st cur db" and n: "n < 2 ^ 57" and a: "plentiful a" and sec: "name_chars sec" "length sec < 509"
  shows "\<exists>st'. load_line a (91 # sec @ [93]) st = Some (None, st') \<and> loaded (Suc n) st' sec (db_section sec db)"
proof -
  obtain db' where r: "represents (l_conf st) db'" "db_text db' = db" using st by (auto simp: loaded_def)
  have "clear_comments_loop (sec @ [93]) = sec @ clear_comments_loop [93]"
    by (rule clear_comments_plain) (use name_chars_plain [OF sec(1)] in blast)
  then have cc: "clear_comments_loop (sec @ [93]) = sec @ [93]" by simp
  have start: "eat_ws (sec @ [93]) = sec @ [93]"
    using name_chars_plain [OF sec(1)] by (cases sec) auto
  have e: "section_end (sec @ [93]) = Some [93]"
    using eat_name [OF sec(1), of 93 "[]"] by (subst section_end.simps) (simp add: c_head_def)
  have vt: "value_text g None k (sec @ []) = Inr (sec @ [])" for g k
  proof -
    have "set sec \<inter> {0, 34, 36, 39, 92, 96} = {}" using name_chars_plain [OF sec(1)] by blast
    then show ?thesis using value_text_plain [of sec g None k "[]"] by simp
  qed
  have z: "0 \<notin> set sec" using name_chars_plain [OF sec(1)] by blast
  have "strlen sec < 2 ^ 31" using sec(2) z by (simp add: strlen_def cstr_id)
  then obtain d where d: "str_copy a (l_conf st) None sec = Some (Inr d)" "cstr d = sec"
    using str_copy_value [OF _ _ loaded_short [OF st] a] vt by fastforce
  have sl: "strlen d < 2 ^ 62" using d(2) sec(2) by (simp add: strlen_def)
  have L: "roomy_store n (l_conf st)" "l_next st \<noteq> 0" "\<forall>q \<ge> l_next st. vals (l_conf st) q = None \<and> stks (l_conf st) q = None"
    using st by (simp_all add: loaded_def)
  obtain sv s' where f: "find_section a d (l_next st) (l_conf st) = (sv, s')" "sv \<noteq> 0" "get_section s' d = sv"
    "represents s' (db_section (cstr d) db')" "roomy_store (Suc n) s'" "\<forall>q > l_next st. vals s' q = None \<and> stks s' q = None"
    using find_section_ok [OF r(1) L(1) n L(2,3) a sl] by blast
  define st' where "st' = st\<lparr>l_conf := s', l_section := d, l_sv := sv, l_next := l_next st + 1\<rparr>"
  have "load_line a (91 # sec @ [93]) st = Some (None, st')"
    using d f by (simp add: load_line_def cc c_head_def load_section_def Let_def start e st'_def)
  moreover have "loaded (Suc n) st' sec (db_section sec db)"
  proof -
    have "db_text (db_section sec db') = db_section sec db" by (simp add: db_text_section r(2))
    moreover have "\<forall>x l. db_section sec db x = Some l \<longrightarrow> (\<forall>(n, t) \<in> set l. length t < 510)"
      using st by (auto simp: loaded_def db_section_def)
    ultimately show ?thesis using f d sec(2) by (auto simp: loaded_def st'_def)
  qed
  ultimately show ?thesis by blast
qed


lemma load_value_ok:
  assumes st: "loaded n st cur db" and n: "n < 2 ^ 57" and a: "plentiful a"
    and nm: "name_chars nm" and v: "0 \<notin> set v" and len: "length (nm @ 61 # escapes v) < 510" "length v < 510"
  shows "\<exists>st'. load_line a (nm @ 61 # escapes v) st = Some (None, st') \<and> loaded (Suc n) st' cur (db_set cur nm v db)"
proof -
  define w where "w = escapes v"
  define X where "X = nm @ 61 # w"
  define s where "s = l_conf st"
  define x where "x = l_next st"
  define sec where "sec = l_section st"
  obtain db' where r: "represents s db'" "db_text db' = db" using st by (auto simp: loaded_def s_def)
  have L: "roomy_store n s" "get_section s sec = l_sv st" "l_sv st \<noteq> 0" "cstr sec = cur" "x \<noteq> 0" "length cur < 510"
    "\<forall>q \<ge> x. vals s q = None \<and> stks s q = None" "\<forall>y l. db y = Some l \<longrightarrow> (\<forall>(n, t) \<in> set l. length t < 510)"
    using st by (simp_all add: loaded_def s_def x_def sec_def)
  have w: "0 \<notin> set w" "eat_ws w = w" "trim_loop (61 # w) 1 (length w) = length w" "value_text g sn k w = Inr v" for g sn k
    unfolding w_def by (rule escapes_nonzero [OF v], rule eat_ws_escapes, rule trim_escapes, rule value_text_escapes [OF v])
  have z: "0 \<notin> set nm" using name_chars_plain [OF nm] by blast
  have "clear_comments_loop ((nm @ [61]) @ w) = (nm @ [61]) @ clear_comments_loop w"
    by (rule clear_comments_plain) (use name_chars_plain [OF nm] in auto)
  then have "clear_comments_loop X = X" using clear_comments_escapes [OF v] by (simp add: X_def w_def)
  moreover obtain c Y where X: "X = c # Y" "c \<notin> {0, 9, 10, 13, 32, 91}"
    using name_chars_plain [OF nm] by (cases nm) (auto simp: X_def)
  ultimately have cc: "clear_comments X = X" "eat_ws X = X" "c_head X \<noteq> 0" "c_head X \<noteq> 91" by (auto simp: c_head_def)
  have e: "eat_alpha_numeric X = 61 # w" "eat_ws (61 # w) = 61 # w" "cstr (61 # w) = 61 # w" "between X (61 # w) = nm"
    using eat_name [OF nm, of 61 w] w(1) by (simp_all add: X_def cstr_id)
  obtain y where m: "OPENSSL_malloc a 24 = Some y" using plentiful_malloc [OF a, of 24] by auto
  have sd: "OPENSSL_strdup a nm = Some (nm @ [0])"
    using strdup_plentiful [OF a, of nm] len(1) z by (simp add: strlen_def cstr_id)
  define s2 where "s2 = s\<lparr>vals := (vals s)(x \<mapsto> \<lparr>v_section = None, v_name = Some (nm @ [0]), v_value = NoData\<rparr>)\<rparr>"
  have ok: "store_ok s" using r(1) by (simp add: represents_def)
  have nx: "x \<notin> contents (conf_table s)" using not_in_table [OF ok, of x] L(7) by simp
  have "represents s2 db'" unfolding s2_def by (rule represents_fresh [OF r(1) nx])
  then have short: "\<forall>sec nam p. NCONF_get_string s2 sec nam = Some p \<longrightarrow> strlen p < 2 ^ 62"
    by (rule short_texts) (use L(8) r(2) in simp)
  have "strlen w < 2 ^ 31" using len(1) w(1) by (simp add: strlen_def cstr_id w_def [symmetric])
  then obtain d where d: "str_copy a s2 (Some sec) w = Some (Inr d)" "cstr d = v"
    using str_copy_value [OF w(4) _ short a] by blast
  have sl: "strlen sec < 2 ^ 62" using L(4,6) by (simp add: strlen_def)
  obtain s' where s': "add_string a (with_value x (nm @ [0]) d s) (l_sv st) x = (True, s')"
    "represents s' (db_set (cstr sec) (cstr (nm @ [0])) d db')" "roomy_store (Suc n) s'" "get_section s' sec = l_sv st"
    "\<forall>i. stks s i = None \<longrightarrow> stks s' i = None"
    using value_added [OF r(1) L(2,3) nx L(5,1) n a sl, of "nm @ [0]" d] by blast
  have sc: "strcmp sec sec = 0" by (simp add: strcmp_0)
  define st' where "st' = st\<lparr>l_conf := s', l_next := x + 2\<rparr>"
  have "load_value a X st = Some (None, st')"
    using e m sd d(1) s'(1) w(2,3) L(3,5) sc
    by (simp add: load_value_def Let_def c_head_def s_def [symmetric] x_def [symmetric] sec_def [symmetric] CONF_VALUE_new_def
        s2_def with_value_def st'_def)
  then have "load_line a X st = Some (None, st')" using cc by (simp add: load_line_def Let_def)
  moreover have "loaded (Suc n) st' cur (db_set cur nm v db)"
  proof -
    obtain l where l: "db' cur = Some l" using represents_get_section(1) [OF r(1), of sec] L(2-4) by auto
    have c: "cstr (nm @ [0]) = nm" using z by (induction nm) auto
    have "db_text (db_set cur nm d db') = db_set cur nm v db" using db_text_set [of db' cur l nm d] l d(2) r(2) by simp
    moreover have "\<forall>(n, t) \<in> set k. length t < 510" if k: "db_set cur nm v db y = Some k" for y k
    proof (cases "y = cur")
      case True
      obtain l0 where l0: "db cur = Some l0" using l r(2) by (auto simp: db_text_def)
      then have "\<forall>(n, t) \<in> set l0. length t < 510" using L(8) by simp
      then show ?thesis using True k l0 len(2) by (auto simp: db_set_def)
    qed (use k L(8) in \<open>simp add: db_set_def\<close>)
    moreover have "vals s' q = None" if "x + 2 \<le> q" for q
      using add_string_vals [OF s'(1), of q] that L(7) by (simp add: with_value_def)
    ultimately show ?thesis using s' L c unfolding loaded_def st'_def sec_def by auto
  qed
  ultimately show ?thesis by (auto simp: X_def w_def)
qed

section \<open>Lines and files\<close>

text \<open>What the check for a continued line needs.\<close>

definition complete_line :: "bytes \<Rightarrow> bool" where
  "complete_line ln \<longleftrightarrow> 0 \<notin> set ln \<and> 10 \<notin> set ln \<and> (\<exists>s c. ln = s @ [c] \<and> c \<noteq> 13 \<and> (c = 92 \<longrightarrow> (\<exists>s'. s = s' @ [92])))"

lemma entry_complete: "entry_ok e \<Longrightarrow> complete_line (entry_text e)"
proof (cases e)
  case (Section sec)
  assume ok: "entry_ok e"
  then have "complete_line (91 # sec @ [93])"
    using name_chars_plain [of sec] Section by (auto simp: complete_line_def intro!: exI [of _ "91 # sec"] exI [of _ 93])
  then show ?thesis by (simp add: Section)
next
  case (Value n v)
  assume ok: "entry_ok e"
  define w where "w = escapes v"
  have w: "0 \<notin> set w" "10 \<notin> set w" unfolding w_def using ok Value escapes_nonzero [of v] escapes_no_newline [of v] by simp_all
  have "w = [] \<or> (\<exists>s c. w = s @ [c] \<and> c \<notin> {9, 10, 13, 32} \<and> (c = 92 \<longrightarrow> (\<exists>s'. s = s' @ [92])))"
    unfolding w_def by (rule escapes_last)
  then have "\<exists>s c. n @ 61 # w = s @ [c] \<and> c \<noteq> 13 \<and> (c = 92 \<longrightarrow> (\<exists>s'. s = s' @ [92]))"
  proof (elim disjE exE conjE)
    fix s c assume s: "w = s @ [c]" "c \<notin> {9, 10, 13, 32}" "c = 92 \<longrightarrow> (\<exists>s'. s = s' @ [92])"
    show ?thesis
    proof (rule exI [of _ "n @ 61 # s"], rule exI [of _ c], intro conjI impI)
      show "n @ 61 # w = (n @ 61 # s) @ [c]" using s by simp
      show "c \<noteq> 13" using s by simp
      assume "c = 92"
      then obtain s' where "n @ 61 # s = (n @ 61 # s') @ [92]" using s by auto
      then show "\<exists>s'. n @ 61 # s = s' @ [92]" by blast
    qed
  qed (auto intro!: exI [of _ n] exI [of _ 61])
  then show ?thesis using w ok Value name_chars_plain [of n] by (auto simp: complete_line_def w_def [symmetric])
next
  case (Remark c)
  assume ok: "entry_ok e"
  have "\<exists>s d. 35 # c = s @ [d] \<and> d \<noteq> 13 \<and> d \<noteq> 92"
    using ok Remark by (cases c rule: rev_cases) (auto intro: exI [of _ "[]"] exI [of _ "35 # s" for s])
  then have "\<exists>s d. 35 # c = s @ [d] \<and> d \<noteq> 13 \<and> (d = 92 \<longrightarrow> (\<exists>s'. s = s' @ [92]))" by blast
  then show ?thesis using ok Remark by (simp add: complete_line_def)
qed

lemma cstr_stop: "0 \<notin> set s \<Longrightarrow> cstr (s @ 0 # t) = s"
  by (induction s) auto

lemma load_part_line:
  assumes ln: "complete_line ln" "length ln < 510" and dat: "CONFBUFSIZE \<le> length dat"
  shows "\<exists>dat'. load_part (ln @ [10, 0]) dat 0 False eline = Inr (dat', length ln, False, Suc eline) \<and> cstr dat' = ln \<and>
    length dat' = length dat"
proof -
  obtain s c where s: "ln = s @ [c]" "c \<noteq> 13" "c \<noteq> 10" "c = 92 \<longrightarrow> (\<exists>s'. s = s' @ [92])" "0 \<notin> set ln" "10 \<notin> set ln"
    using ln(1) by (auto simp: complete_line_def)
  define rest where "rest = drop (length ln + 2) (dat[0 := 0])"
  define dat2 where "dat2 = ln @ 10 # 0 # rest[511 - (length ln + 2) := 0]"
  have "put_bytes 0 (ln @ [10, 0]) (dat[0 := 0]) = ln @ 10 # 0 # rest" by (simp add: put_bytes_def rest_def)
  moreover have "(ln @ 10 # 0 # rest)[511 := 0] = dat2"
  proof -
    have "(ln @ 10 # 0 # rest) = (ln @ [10, 0]) @ rest" by simp
    moreover have "\<not> 511 < length (ln @ [10, 0 :: u8])" using ln(2) by simp
    ultimately have "(ln @ 10 # 0 # rest)[511 := 0] = (ln @ [10, 0]) @ rest[511 - length (ln @ [10, 0 :: u8]) := 0]"
      by (simp only: list_update_append if_False)
    then show ?thesis by (simp add: dat2_def)
  qed
  ultimately have d2: "(put_bytes 0 (ln @ [10, 0]) (dat[0 := 0]))[0 + CONFBUFSIZE - 1 := 0] = dat2" by (simp add: CONFBUFSIZE_def)
  have l2: "length dat2 = length dat" using ln(2) dat by (simp add: dat2_def rest_def CONFBUFSIZE_def)
  have sl: "strlen dat2 = Suc (length ln)"
    using strlen_append [OF s(5), of "10 # 0 # rest[511 - (length ln + 2) := 0]"] by (simp add: dat2_def)
  have n1: "dat2 ! length ln = 10" by (simp add: dat2_def)
  have n2: "dat2 ! length s = c" by (simp add: dat2_def s(1) nth_append)
  have strip: "strip_newlines dat2 (Suc (length ln)) = length ln" using n1 n2 s(1-3) by simp
  define dat3 where "dat3 = dat2[length ln := 0]"
  have d3: "dat3 = ln @ 0 # 0 # rest[511 - (length ln + 2) := 0]" by (simp add: dat3_def dat2_def)
  have noesc: "\<not> (length ln \<ge> 1 \<and> IS_ESC (dat3 ! (length ln - 1)) \<and> (length ln \<le> 1 \<or> \<not> IS_ESC (dat3 ! (length ln - 2))))"
  proof (cases "c = 92")
    case True
    then obtain s' where "ln = s' @ [92, 92]" using s(1,4) by auto
    then have "dat3 ! (length ln - 2) = 92" "\<not> length ln \<le> 1" unfolding d3 by (simp_all add: nth_append)
    then show ?thesis by simp
  next
    case False
    then have "dat3 ! (length ln - 1) \<noteq> 92" unfolding d3 using s(1) by (simp add: nth_append)
    then show ?thesis by simp
  qed
  have "load_part (ln @ [10, 0]) dat 0 False eline = Inr (dat3, length ln, False, Suc eline)"
    unfolding load_part_def Let_def unfolding d2 unfolding drop_0 sl strip add_0
    using noesc by (simp add: dat3_def [symmetric])
  moreover have "cstr dat3 = ln"
    unfolding d3 using s(5) cstr_stop by blast
  moreover have "length dat3 = length dat" using l2 by (simp add: dat3_def)
  ultimately show ?thesis by blast
qed

text \<open>
  The check for a continued line does not ask whether the line was cut: a backslash that is the last of the 510 bytes that
  fit is taken for a continuation, and the rest of the line is put over it.
\<close>

lemma load_part_drops_escape:
  assumes s: "length s = 509" "0 \<notin> set s" "last s \<noteq> 92" and dat: "CONFBUFSIZE \<le> length dat"
  shows "\<exists>dat'. load_part (s @ [92, 0]) dat 0 False eline = Inr (dat', 509, True, eline)"
proof -
  define rest where "rest = drop 511 (dat[0 := 0])"
  have "put_bytes 0 (s @ [92, 0]) (dat[0 := 0]) = s @ 92 # 0 # rest" by (simp add: put_bytes_def rest_def s(1))
  moreover have "(s @ 92 # 0 # rest)[511 := 0] = s @ 92 # 0 # rest[0 := 0]" by (simp add: list_update_append s(1) numeral_eq_Suc)
  ultimately have d: "(put_bytes 0 (s @ [92, 0]) (dat[0 := 0]))[0 + CONFBUFSIZE - 1 := 0] = s @ 92 # 0 # rest[0 := 0]"
    by (simp add: CONFBUFSIZE_def)
  have sl: "strlen (s @ 92 # 0 # rest[0 := 0]) = 510" using strlen_append [OF s(2)] s(1) by simp
  have n: "(s @ 92 # 0 # rest[0 := 0]) ! 509 = 92" by (simp add: nth_append s(1))
  have "(510 :: nat) = Suc 509" by simp
  then have strip: "strip_newlines (s @ 92 # 0 # rest[0 := 0]) 510 = 510" using n by (simp only: strip_newlines.simps) simp
  have m: "(s @ 92 # 0 # rest[0 := 0]) ! 508 \<noteq> 92"
    using s(1,3) last_conv_nth [of s] by (cases "s = []") (simp_all add: nth_append)
  have "load_part (s @ [92, 0]) dat 0 False eline = Inr (s @ 92 # 0 # rest[0 := 0], 509, True, eline)"
    unfolding load_part_def Let_def unfolding d unfolding drop_0 sl strip add_0 using n m by simp
  then show ?thesis by blast
qed

lemma load_part_end:
  assumes "d \<in> {[], [0]}" "CONFBUFSIZE \<le> length dat"
  shows "load_part d dat 0 False eline = Inl ()"
proof -
  obtain x xs where x: "dat = x # xs" using assms(2) by (cases dat) (auto simp: CONFBUFSIZE_def)
  have "strlen ((put_bytes 0 d (dat[0 := 0]))[0 + CONFBUFSIZE - 1 := 0]) = 0"
    using assms(1) by (auto simp: x put_bytes_def CONFBUFSIZE_def)
  then show ?thesis unfolding load_part_def Let_def drop_0 by simp
qed

lemma first_line_append: "10 \<notin> set ln \<Longrightarrow> first_line (ln @ 10 # x) = ln @ [10]"
  by (induction ln) auto

lemma load_remark: "load_line a (35 # c) st = Some (None, st)"
  by (simp add: load_line_def c_head_def)

lemma length_escapes: "length v \<le> length (escapes v)"
proof (induction v)
  case (Cons c v)
  then show ?case by (cases c rule: escape_cases) simp_all
qed simp

lemma load_entry_ok:
  assumes st: "loaded n st cur db" and n: "n < 2 ^ 57" and a: "plentiful a" and e: "entry_ok e"
  shows "\<exists>st'. load_line a (entry_text e) st = Some (None, st') \<and> loaded (Suc n) st' (fst (enter e (cur, db))) (snd (enter e (cur, db)))"
proof (cases e)
  case (Section sec)
  then show ?thesis using load_section_ok [OF st n a] e by simp
next
  case (Value nm v)
  then have "length v < 510" using e length_escapes [of v] by simp
  then show ?thesis using load_value_ok [OF st n a, of nm v] e Value by simp
next
  case (Remark c)
  have "loaded (Suc n) st cur db" using st by (fastforce simp: loaded_def roomy_store_def)
  then show ?thesis by (simp add: Remark load_remark)
qed

lemma entry_text_short: "entry_ok e \<Longrightarrow> length (entry_text e) < 510"
  by (cases e) simp_all

text \<open>The buffer of the load is large enough in every round.\<close>

lemma grown:
  assumes "bufm_ok (buff :: buf_mem)" "plentiful a"
  obtains buff' where "BUF_MEM_grow a buff (0 + CONFBUFSIZE) = (CONFBUFSIZE, buff')" "CONFBUFSIZE \<le> length (buf_data buff')" "bufm_ok buff'"
proof -
  obtain m buff' where g: "BUF_MEM_grow a buff CONFBUFSIZE = (m, buff')" by fastforce
  have "m = CONFBUFSIZE \<and> bufm_ok buff' \<and> buf_length buff' = CONFBUFSIZE"
    using BUF_MEM_grow_ok [OF assms(1) _ g] assms(2) by (auto simp: CONFBUFSIZE_def)
  then show ?thesis using g that [of buff'] by (simp add: bufm_ok_def)
qed

lemma file_text_Cons: "file_text (e # es) = entry_text e @ 10 # file_text es"
  by (simp add: file_text_def)

lemma first_line_entry:
  assumes "entry_ok e"
  shows "first_line (take 510 (file_text (e # es))) = entry_text e @ [10]"
proof -
  have "take 510 (file_text (e # es)) = entry_text e @ 10 # take (509 - length (entry_text e)) (file_text es)"
  proof -
    have "510 - length (entry_text e) = Suc (509 - length (entry_text e))" using entry_text_short [OF assms] by simp
    then show ?thesis using entry_text_short [OF assms] by (simp add: file_text_Cons)
  qed
  moreover have "10 \<notin> set (entry_text e)" using entry_complete [OF assms] by (simp add: complete_line_def)
  ultimately show ?thesis by (simp add: first_line_append)
qed

context line_source
begin

lemma load_loop_ok:
  assumes "live s" "content s = file_text es" "bufm_ok buff" "loaded n st cur db" "n + length es < 2 ^ 57" "plentiful a"
    "list_all entry_ok es"
  shows "\<exists>st' s'. load_loop a gets buff 0 False eline st s = Some (None, st', s') \<and>
    loaded (n + length es) st' (fst (fold enter es (cur, db))) (snd (fold enter es (cur, db)))"
  using assms
proof (induction es arbitrary: s buff n st cur db eline)
  case Nil
  obtain buff' where b: "BUF_MEM_grow a buff (0 + CONFBUFSIZE) = (CONFBUFSIZE, buff')" "CONFBUFSIZE \<le> length (buf_data buff')"
    using grown [OF Nil(3,6)] by metis
  obtain r d s' where g: "gets (int CONFBUFSIZE - 1) s = ((r, d), s')" "d \<in> {[], [0]}"
    using gets_line [OF Nil(1), of "int CONFBUFSIZE - 1"] Nil(2) by (auto simp: CONFBUFSIZE_def file_text_def)
  have "load_loop a gets buff 0 False eline st s = Some (None, st, s')"
    by (subst load_loop.simps) (simp only: b g load_part_end [OF g(2) b(2)] prod.case sum.case, simp add: CONFBUFSIZE_def)
  then show ?case using Nil(4) by simp
next
  case (Cons e es)
  have e: "entry_ok e" using Cons.prems(7) by simp
  obtain buff' where b: "BUF_MEM_grow a buff (0 + CONFBUFSIZE) = (CONFBUFSIZE, buff')" "CONFBUFSIZE \<le> length (buf_data buff')"
    "bufm_ok buff'" using grown [OF Cons.prems(3,6)] by metis
  have fl: "first_line (take (nat (int CONFBUFSIZE - 1) - 1) (content s)) = entry_text e @ [10]"
    using first_line_entry [OF e, of es] Cons.prems(2) by (simp add: CONFBUFSIZE_def)
  obtain r s' where g: "gets (int CONFBUFSIZE - 1) s = ((r, entry_text e @ [10, 0]), s')" "live s'" "content s' = file_text es"
    using gets_line [OF Cons.prems(1), of "int CONFBUFSIZE - 1"] Cons.prems(2) unfolding Let_def fl
    by (auto simp: CONFBUFSIZE_def file_text_Cons)
  obtain dat where d: "load_part (entry_text e @ [10, 0]) (buf_data buff') 0 False eline = Inr (dat, length (entry_text e), False, Suc eline)"
    "cstr dat = entry_text e" "length dat = length (buf_data buff')"
    using load_part_line [OF entry_complete [OF e] entry_text_short [OF e] b(2)] by blast
  obtain st1 where l: "load_line a (entry_text e) st = Some (None, st1)"
    "loaded (Suc n) st1 (fst (enter e (cur, db))) (snd (enter e (cur, db)))"
    using load_entry_ok [OF Cons.prems(4) _ Cons.prems(6) e] Cons.prems(5) by auto
  have "bufm_ok (buff'\<lparr>buf_data := dat\<rparr>)" using b(3) d(3) by (simp add: bufm_ok_def)
  then obtain st' s'' where ih: "load_loop a gets (buff'\<lparr>buf_data := dat\<rparr>) 0 False (Suc eline) st1 s' = Some (None, st', s'')"
    "loaded (Suc n + length es) st' (fst (fold enter es (enter e (cur, db)))) (snd (fold enter es (enter e (cur, db))))"
    using Cons.IH [OF g(2,3) _ l(2)] Cons.prems(5-7) by fastforce
  have "load_loop a gets buff 0 False eline st s = Some (None, st', s'')"
    by (subst load_loop.simps) (simp only: b g d l(1) ih(1) Let_def prod.case sum.case option.case, simp add: CONFBUFSIZE_def ih(1))
  then show ?case using ih(2) by simp
qed

lemma load_bio_ok:
  assumes s: "live s" "content s = file_text es" and es: "list_all entry_ok es" "length es < 2 ^ 56" and a: "plentiful a"
    and c: "NCONF_new a' False = Some c" and p: "p \<noteq> 0"
  shows "\<exists>c' db s'. NCONF_load_bio a gets p c s = Some (None, c', s') \<and> represents c' db \<and> db_text db = file_db es"
proof -
  obtain b where b: "BUF_MEM_new a = Some b" using plentiful_malloc [OF a, of 24] by (auto simp: BUF_MEM_new_def)
  have sl: "strlen kDefaultSectionName = 7" "cstr kDefaultSectionName = default_section" by (simp_all add: kDefaultSectionName_def)
  have sd: "OPENSSL_strdup a kDefaultSectionName = Some kDefaultSectionName"
    using strdup_plentiful [OF a, of kDefaultSectionName] sl by (simp add: kDefaultSectionName_def)
  have r: "represents c Map.empty" and room: "roomy_store 0 c" using conf_run_represents [OF conf_run.new [OF c]] by simp_all
  have e: "vals c = Map.empty" "stks c = Map.empty" using c by (auto simp: NCONF_new_def split: option.split_asm)
  have "get_section c kDefaultSectionName = 0" using represents_get_section(1) [OF r] by simp
  then have "find_section a kDefaultSectionName p c = NCONF_new_section a p p kDefaultSectionName c" by (simp add: find_section_def)
  moreover obtain sv c1 where f: "find_section a kDefaultSectionName p c = (sv, c1)" "sv \<noteq> 0" "get_section c1 kDefaultSectionName = sv"
    "represents c1 (db_section (cstr kDefaultSectionName) Map.empty)" "roomy_store (Suc 0) c1" "\<forall>q > p. vals c1 q = None \<and> stks c1 q = None"
    using find_section_ok [OF r room _ p _ a, of kDefaultSectionName] sl e by auto
  ultimately have new: "NCONF_new_section a p p kDefaultSectionName c = (sv, c1)" by simp
  define st where "st = \<lparr>l_conf = c1, l_section = kDefaultSectionName, l_sv = sv, l_next = p + 1\<rparr>"
  have "loaded 1 st default_section [default_section \<mapsto> []]"
  proof -
    have "db_text (db_section default_section Map.empty) = [default_section \<mapsto> []]" by (auto simp: db_text_def db_section_def)
    then show ?thesis using f sl by (auto simp: loaded_def st_def split: if_split_asm)
  qed
  then obtain st' s' where l: "load_loop a gets b 0 False 0 st s = Some (None, st', s')"
    "loaded (1 + length es) st' (fst (fold enter es (default_section, [default_section \<mapsto> []]))) (file_db es)"
    using load_loop_ok [OF s _ _ _ a es(1)] BUF_MEM_new_ok [OF b] es(2) unfolding file_db_def by fastforce
  then have "NCONF_load_bio a gets p c s = Some (None, l_conf st', s')"
    using f(2) by (simp add: NCONF_load_bio_def def_load_bio_def b sd new st_def)
  then show ?thesis using l(2) by (auto simp: loaded_def)
qed

end

section \<open>Properties\<close>

text \<open>C40: A configuration file written line by line, with sections, escaped values and remarks, in a memory BIO, is loaded
  into a new store without an error, given memory: \<open>NCONF_get_string\<close> then gives back every value unescaped, the last one
  under its section and name; \<open>NCONF_get_section\<close> gives the sections of the file, with \<open>default\<close>, and their values in
  order.\<close>

theorem conf_file_roundtrip:
  assumes "mem_run M b h (file_text es) []" "list_all entry_ok es" "length es < 2 ^ 56"
    "plentiful a" "NCONF_new a' False = Some c" "p \<noteq> 0"
  shows "\<exists>c' h'. NCONF_load_bio a (BIO_gets M b) p c h = Some (None, c', h') \<and>
    (\<forall>sec nam. map_option cstr (NCONF_get_string c' (Some sec) nam) = Option.bind (file_db es (cstr sec)) (\<lambda>l. map_of l (cstr nam))) \<and>
    (\<forall>sec. case file_db es (cstr sec) of None \<Rightarrow> NCONF_get_section c' sec = 0
      | Some l \<Rightarrow> (\<exists>st. stks c' (NCONF_get_section c' sec) = Some st \<and>
          map ((\<lambda>(n, t). (n, cstr t)) \<circ> pair_of \<circ> val_at c') (elems st) = l))"
proof -
  have "mem_lines_ok M h b" "mem_content (mb h b) = file_text es" using mem_run_ok [OF assms(1)] by simp_all
  then obtain c' db h' where c': "NCONF_load_bio a (BIO_gets M b) p c h = Some (None, c', h')" "represents c' db"
      and db: "db_text db = file_db es"
    using mem_lines.load_bio_ok [OF _ _ assms(2-)] by blast
  have look: "file_db es x = map_option (map (\<lambda>(n, t). (n, cstr t))) (db x)" for x by (simp add: db_text_def flip: db)
  have "map_of (map (\<lambda>(n, t). (n, cstr t)) l) x = map_option cstr (map_of l x)" for l :: "(bytes \<times> bytes) list" and x
    by (induction l) auto
  then have "map_option cstr (NCONF_get_string c' (Some sec) nam) = Option.bind (file_db es (cstr sec)) (\<lambda>l. map_of l (cstr nam))" for sec nam
    by (cases "db (cstr sec)") (simp_all add: represents_get_string [OF c'(2)] look)
  moreover have "case file_db es (cstr sec) of None \<Rightarrow> NCONF_get_section c' sec = 0
      | Some l \<Rightarrow> (\<exists>st. stks c' (NCONF_get_section c' sec) = Some st \<and>
          map ((\<lambda>(n, t). (n, cstr t)) \<circ> pair_of \<circ> val_at c') (elems st) = l)" for sec
    using represents_NCONF_get_section [OF c'(2), of sec] by (cases "db (cstr sec)") (auto simp: look)
  ultimately show ?thesis using c'(1) by blast
qed

text \<open>The section \<open>a\<close> with the value \<open>x #\<close> under \<open>k\<close>.\<close>

theorem conf_file_roundtrip_witness:
  "\<exists>h c c' h' t. NCONF_new plenty False = Some c \<and>
    NCONF_load_bio plenty (BIO_gets demo_mem_methods 1) 1 c h = Some (None, c', h') \<and>
    NCONF_get_string c' (Some [97]) [107] = Some t \<and> cstr t = [120, 32, 35]"
proof -
  define es where "es = [Remark [104, 105], Section [97], Value [107] [120, 32, 35]]"
  have ft: "file_text es = [35, 104, 105, 10, 91, 97, 93, 10, 107, 61, 120, 39, 32, 39, 92, 35, 10]"
    by (simp add: es_def file_text_def escape_def)
  obtain h where h: "BIO_new_mem_buf plenty demo_mem_methods 1 1 (Some (file_text es)) 17 Map.empty = Some (1, h)"
    by (simp add: BIO_new_mem_buf_def BIO_new_def demo_mem_methods_def mem_new_def BUF_MEM_new_def OPENSSL_malloc_def plenty_def
        size_wrap_def OPENSSL_MALLOC_PREFIX_def)
  have "mem_run demo_mem_methods 1 h (take (nat 17) (file_text es)) []"
    by (rule mem_run.view [OF _ _ _ _ _ _ h]) (simp_all add: demo_mem_methods_def ft)
  then have run: "mem_run demo_mem_methods 1 h (file_text es) []" by (simp add: ft)
  obtain c where c: "NCONF_new plenty False = Some c" using demo_conf_new by blast
  have ok: "list_all entry_ok es" "length es < 2 ^ 56"
    by (simp_all add: es_def name_chars_def alpha_numeric alnum_def escape_def)
  have "file_db es = [default_section \<mapsto> [], [97] \<mapsto> [([107], [120, 32, 35])]]"
    by (simp add: es_def file_db_def db_section_def db_set_def)
  then have db: "Option.bind (file_db es (cstr [97])) (\<lambda>l. map_of l (cstr [107])) = Some [120, 32, 35]" by simp
  obtain c' h' where l: "NCONF_load_bio plenty (BIO_gets demo_mem_methods 1) 1 c h = Some (None, c', h')"
    "\<forall>sec nam. map_option cstr (NCONF_get_string c' (Some sec) nam) = Option.bind (file_db es (cstr sec)) (\<lambda>l. map_of l (cstr nam))"
    using conf_file_roundtrip [OF run ok plentiful_plenty c, of 1] by auto
  have "map_option cstr (NCONF_get_string c' (Some [97]) [107]) = Some [120, 32, 35]" using l(2) db by presburger
  then obtain t where "NCONF_get_string c' (Some [97]) [107] = Some t" "cstr t = [120, 32, 35]" by blast
  then show ?thesis using c l(1) by blast
qed

end
