(* ===== verification/Conf_List.thy ===== *)
theory Conf_List
  imports Conf_Text
begin

text \<open>
  \<open>CONF_parse_list\<close> of \<open>crypto/conf/conf.c\<close>: a list like \<open>a, b, c\<close>, whose elements go to a callback one by one, and the
  same as a split followed by calls. The callback gets the rest of the list from its element on, and the element's length.
\<close>

text \<open>C's \<open>isspace\<close>, in the \<open>C\<close> locale.\<close>

definition isspace :: "u8 \<Rightarrow> bool" where
  "isspace c \<longleftrightarrow> c \<in> {9, 10, 11, 12, 13, 32}"

definition strchr :: "bytes \<Rightarrow> u8 \<Rightarrow> nat option" where
  "strchr l sep = (let n = length (takeWhile (\<lambda>c. c \<noteq> sep) l) in if n < length l \<or> sep = 0 then Some n else None)"

text \<open>Where the white space at the end starts: \<open>tmpend + 1\<close>.\<close>

fun trim_end :: "bytes \<Rightarrow> nat \<Rightarrow> nat" where
  "trim_end l 0 = 0"
| "trim_end l (Suc k) = (if isspace (l ! k) then trim_end l k else Suc k)"

text \<open>\<open>None\<close> when the code goes on behind the end of the list, which the separator NUL makes it do.\<close>

function parse_list_loop ::
  "(bytes option \<Rightarrow> nat \<Rightarrow> 'u \<Rightarrow> int \<times> 'u) \<Rightarrow> u8 \<Rightarrow> bool \<Rightarrow> bytes \<Rightarrow> 'u \<Rightarrow> (int \<times> 'u) option" where
  "parse_list_loop cb sep ws lstart arg =
     (let lstart = (if ws then dropWhile isspace lstart else lstart); p = strchr lstart sep in
      case (if p = Some 0 \<or> lstart = [] then cb None 0 arg
            else
              let k = (case p of Some i \<Rightarrow> i | None \<Rightarrow> length lstart) in
              cb (Some lstart) (if ws then trim_end lstart k else k) arg) of
        (ret, arg) \<Rightarrow>
          if ret \<le> 0 then Some (ret, arg)
          else (case p of None \<Rightarrow> Some (1, arg)
                | Some i \<Rightarrow> if length lstart \<le> i then None else parse_list_loop cb sep ws (drop (i + 1) lstart) arg))"
  by pat_completeness auto
termination
proof (relation "measure (\<lambda>(cb, sep, ws, l, arg). length l)")
  fix l l' :: bytes and ws i and cb :: "bytes option \<Rightarrow> nat \<Rightarrow> 'u \<Rightarrow> int \<times> 'u" and sep arg arg'
  assume "l' = (if ws then dropWhile isspace l else l)" "\<not> length l' \<le> i"
  moreover from this(1) have "length l' \<le> length l" using length_dropWhile_le [of isspace l] by simp
  ultimately have "length (drop (i + 1) l') < length l" unfolding length_drop by linarith
  then show "((cb, sep, ws, drop (i + 1) l', arg'), cb, sep, ws, l, arg) \<in> measure (\<lambda>(cb, sep, ws, l, arg). length l)" by simp
qed simp

declare parse_list_loop.simps [simp del]

definition CONF_parse_list ::
  "bytes option \<Rightarrow> u8 \<Rightarrow> bool \<Rightarrow> (bytes option \<Rightarrow> nat \<Rightarrow> 'u \<Rightarrow> int \<times> 'u) \<Rightarrow> 'u \<Rightarrow> (int \<times> 'u) option" where
  "CONF_parse_list l sep ws cb arg = (case l of None \<Rightarrow> Some (0, arg) | Some l \<Rightarrow> parse_list_loop cb sep ws (cstr l) arg)"

section \<open>The list as its elements\<close>

function pieces :: "u8 \<Rightarrow> bytes \<Rightarrow> bytes list" where
  "pieces sep l =
     (case dropWhile (\<lambda>c. c \<noteq> sep) l of [] \<Rightarrow> [l] | _ # r \<Rightarrow> takeWhile (\<lambda>c. c \<noteq> sep) l # pieces sep r)"
  by pat_completeness auto
termination
proof (relation "measure (length \<circ> snd)", simp, goal_cases)
  case (1 sep l c r)
  then show ?case using length_dropWhile_le [of "\<lambda>c. c \<noteq> sep" l] by simp
qed

declare pieces.simps [simp del]

definition strip :: "bytes \<Rightarrow> bytes" where
  "strip x = rev (dropWhile isspace (rev (dropWhile isspace x)))"

definition list_elem :: "bool \<Rightarrow> bytes \<Rightarrow> bytes option" where
  "list_elem ws x = (let y = (if ws then strip x else x) in if y = [] then None else Some y)"

text \<open>A callback, given the elements as they are, is called until it fails.\<close>

fun call_each :: "(bytes option \<Rightarrow> 'u \<Rightarrow> int \<times> 'u) \<Rightarrow> bytes option list \<Rightarrow> 'u \<Rightarrow> int \<times> 'u" where
  "call_each f [] arg = (1, arg)"
| "call_each f (x # xs) arg = (case f x arg of (ret, arg) \<Rightarrow> if ret \<le> 0 then (ret, arg) else call_each f xs arg)"

lemma trim_end_rev: "k \<le> length l \<Longrightarrow> take (trim_end l k) l = rev (dropWhile isspace (rev (take k l)))"
proof (induction k)
  case (Suc k)
  then have "rev (take (Suc k) l) = l ! k # rev (take k l)" by (simp add: take_Suc_conv_app_nth)
  then show ?case using Suc by (simp add: take_Suc_conv_app_nth)
qed simp

lemma trim_end_le: "trim_end l k \<le> k"
  by (induction k) auto

lemma dropWhile_last: "x \<noteq> [] \<Longrightarrow> \<not> P (last x) \<Longrightarrow> dropWhile P (rev x) = rev x"
  by (cases x rule: rev_cases) auto

lemma parse_list_split:
  assumes sep: "sep \<noteq> 0" "ws \<Longrightarrow> \<not> isspace sep"
  shows "parse_list_loop (\<lambda>x k. f (map_option (take k) x)) sep ws l arg = Some (call_each f (map (list_elem ws) (pieces sep l)) arg)"
proof (induction l arbitrary: arg rule: length_induct)
  case (1 l)
  define x where "x = takeWhile (\<lambda>c. c \<noteq> sep) l"
  define y where "y = dropWhile (\<lambda>c. c \<noteq> sep) l"
  have l: "l = x @ y" "\<forall>c \<in> set x. c \<noteq> sep" "y = [] \<or> (\<exists>r. y = sep # r)"
    unfolding x_def y_def using set_takeWhileD [of _ "\<lambda>c. c \<noteq> sep" l] hd_dropWhile [of "\<lambda>c. c \<noteq> sep" l]
    by (simp, blast, metis list.collapse)
  define x' where "x' = (if ws then dropWhile isspace x else x)"
  define l' where "l' = (if ws then dropWhile isspace l else l)"
  have ns: "y = [] \<or> \<not> ws \<or> \<not> isspace (hd y)" using l(3) sep(2) by auto
  have l': "l' = x' @ y"
  proof (cases "ws \<and> (\<forall>c \<in> set x. isspace c)")
    case True
    have "dropWhile isspace (x @ y) = y" using True ns by (cases y) (simp_all add: dropWhile_append2)
    moreover have "dropWhile isspace x = []" using True by simp
    ultimately show ?thesis using True by (simp only: l'_def x'_def l(1) if_True append_Nil)
  next
    case False
    then show ?thesis by (auto simp: l'_def x'_def l(1) dropWhile_append1)
  qed
  have x': "\<forall>c \<in> set x'. c \<noteq> sep" using l(2) set_dropWhileD [of _ isspace x] by (auto simp: x'_def)
  have tw: "takeWhile (\<lambda>c. c \<noteq> sep) l' = x'" using x' l(3) by (auto simp: l' takeWhile_append)
  have p: "strchr l' sep = (if y = [] then None else Some (length x'))"
    using sep(1) by (simp add: strchr_def tw) (simp add: l')
  have elem: "(if strchr l' sep = Some 0 \<or> l' = [] then f None arg
      else f (Some (take (if ws then trim_end l' (length x') else length x') l')) arg) = f (list_elem ws x) arg"
  proof (cases "x' = []")
    case True
    have "(if ws then strip x else x) = rev (if ws then dropWhile isspace (rev x') else rev x')" by (simp add: strip_def x'_def)
    then have "list_elem ws x = None" by (simp add: list_elem_def True)
    then show ?thesis using True p l' by auto
  next
    case False
    have "take (trim_end l' (length x')) l' = strip x" if ws
      using trim_end_rev [of "length x'" l'] that by (simp add: l' strip_def x'_def)
    moreover have "strip x \<noteq> []" if ws
    proof -
      have "\<not> isspace (hd x')" using False that by (simp add: x'_def hd_dropWhile)
      then have "dropWhile isspace (rev x') \<noteq> []" using False by (metis dropWhile_eq_Nil_conv hd_in_set set_rev)
      then show ?thesis using that by (simp add: strip_def x'_def)
    qed
    ultimately show ?thesis using False p l' by (auto simp: list_elem_def x'_def)
  qed
  have k: "(case strchr l' sep of Some i \<Rightarrow> i | None \<Rightarrow> length l') = length x'" by (simp add: p) (simp add: l')
  define C where "C = (\<lambda>x k. f (map_option (take k) x))"
  have "(if strchr l' sep = Some 0 \<or> l' = [] then C None 0 arg
      else C (Some l') (if ws then trim_end l' (length x') else length x') arg) = f (list_elem ws x) arg"
    unfolding C_def option.map by (rule elem)
  then have step: "parse_list_loop C sep ws l arg =
      (case f (list_elem ws x) arg of (ret, arg) \<Rightarrow>
        if ret \<le> 0 then Some (ret, arg)
        else (case strchr l' sep of None \<Rightarrow> Some (1, arg)
          | Some i \<Rightarrow> if length l' \<le> i then None else parse_list_loop C sep ws (drop (i + 1) l') arg))"
    unfolding parse_list_loop.simps [of C sep ws l arg] Let_def l'_def [symmetric] k by (rule arg_cong)
  have ps: "pieces sep l = (case y of [] \<Rightarrow> [l] | _ # r \<Rightarrow> x # pieces sep r)"
    unfolding x_def y_def by (rule pieces.simps)
  have "parse_list_loop C sep ws l arg = Some (call_each f (map (list_elem ws) (pieces sep l)) arg)"
  proof (cases y)
    case Nil
    then have "pieces sep l = [x]" using l(1) ps by simp
    then show ?thesis using step p Nil by (simp split: prod.split)
  next
    case (Cons s r)
    have ih: "parse_list_loop C sep ws r arg' = Some (call_each f (map (list_elem ws) (pieces sep r)) arg')" for arg'
      using 1 Cons l(1) by (simp add: C_def)
    have "pieces sep l = x # pieces sep r" using ps Cons by simp
    moreover have "\<not> length l' \<le> length x'" "drop (length x' + 1) l' = r" using Cons by (simp_all add: l')
    ultimately show ?thesis using step p Cons ih by (simp split: prod.split)
  qed
  then show ?case by (simp add: C_def)
qed

text \<open>A list that is read with a usable separator: \<open>CONF_parse_list\<close> is the split, with a call for each element.\<close>

lemma CONF_parse_list_split:
  assumes "sep \<noteq> 0" "ws \<Longrightarrow> \<not> isspace sep"
  shows "CONF_parse_list (Some l) sep ws (\<lambda>x k. f (map_option (take k) x)) arg =
    Some (call_each f (map (list_elem ws) (pieces sep (cstr l))) arg)"
  using parse_list_split [OF assms] by (simp add: CONF_parse_list_def)

text \<open>With the separator NUL, the code leaves the string as soon as the callback accepts an element.\<close>

lemma CONF_parse_list_nul:
  assumes "\<forall>x k arg. 0 < fst (cb x k arg)"
  shows "CONF_parse_list (Some l) 0 ws cb arg = None"
proof -
  have "strchr l' 0 = Some (length l')" if "0 \<notin> set l'" for l'
  proof -
    have "takeWhile (\<lambda>c. c \<noteq> 0) l' = l'" unfolding takeWhile_eq_all_conv using that by blast
    then have "length (takeWhile (\<lambda>c. c \<noteq> 0) l') = length l'" by (rule arg_cong)
    then show ?thesis by (simp only: strchr_def Let_def) simp
  qed
  moreover define l' where "l' = (if ws then dropWhile isspace (cstr l) else cstr l)"
  moreover have "0 \<notin> set l'" using set_dropWhileD [of 0 isspace "cstr l"] by (auto simp: l'_def)
  ultimately have s: "strchr l' 0 = Some (length l')" by blast
  have "parse_list_loop cb 0 ws (cstr l) arg = None"
    unfolding parse_list_loop.simps [of cb 0 ws "cstr l"] Let_def l'_def [symmetric] s
    using assms by (simp add: case_prod_unfold not_le)
  then show ?thesis by (simp add: CONF_parse_list_def)
qed

end
