(* ===== verification/Spec2Isabelle.thy ===== *)
theory Spec2Isabelle
  imports Der_Tree Cbb_Errors Oid Unicode Ber Constant_Time Base64 Stack Set_Of Lhash Bio_Read Bio_Chain Bio_Mem Conf_Load Conf_List
begin

text \<open>
  A verification library for the C code of the pods of the Any_competition app, that is for BoringSSL
  (\<open>Pods/BoringSSL-GRPC/src\<close>), the one large part of the repository that is written in C. Paths below are
  relative to its \<open>crypto\<close> directory.

  \<^bold>\<open>The program.\<close> The app is a Swift program that talks to Firestore over gRPC; gRPC's transport security is
  BoringSSL. The library models the layer everything else in BoringSSL is built on: memory and strings, the
  reader and the builder of byte strings with their ASN.1 (DER and BER) operations, the text encodings, Base64,
  the containers (stacks and hash tables), BIOs, the streams through which encoded objects travel, and configuration
  files, which use most of the others. Certificates, keys and handshakes are parsed and written with the byte strings,
  kept in the containers and read from BIOs.

  \<^bold>\<open>Theories.\<close> In the order of their dependencies:

  \<^item> \<open>Prelude\<close>: machine words as natural numbers (collection \<open>word_nat\<close>), big-endian numbers, parsers as functions from
    the input to an optional result and the rest.
  \<^item> \<open>Mem\<close>: \<open>mem.c\<close>, \<open>internal.h\<close>: the allocator, realloc, comparison, C strings, hashing. An allocator says of each size
    whether a request is granted; \<open>plentiful\<close> ones grant all that an address space can hold. What an allocator says
    is what it says at one moment: a call whose allocations may fail one without the other (\<open>BIO_new_bio_pair\<close>) takes
    an allocator for each of them.
  \<^item> \<open>Cbs\<close>, \<open>Cbs_Values\<close>: \<open>bytestring/cbs.c\<close>. A CBS is the list of the bytes left. \<open>Der\<close>, \<open>Der_Values\<close>: the reference
    encodings, and that the readers accept exactly these.
  \<^item> \<open>Cbb\<close>: \<open>bytestring/cbb.c\<close>. A CBB is its buffer with the stack of children that are being written. \<open>Cbb_Buffer\<close>,
    \<open>Cbb_Frames\<close>, \<open>Cbb_Refine\<close>: the abstraction to a stack of frames, each with what has been written to it, and the
    refinement of flushing. \<open>Sinks\<close>, \<open>Cbb_Ops\<close>, \<open>Cbb_Asn1\<close>, \<open>Cbb_Int\<close>: what each writer appends, through the locale
    \<open>byte_sink\<close>, which is interpreted on \<open>CBB_add_u8\<close>. \<open>Cbb_Api\<close>: whole sessions from \<open>CBB_init\<close> to \<open>CBB_finish\<close>.
  \<^item> \<open>Der_Tree\<close>: documents of nested elements, written with the builder and read back.
  \<^item> \<open>Codec\<close>: the locale \<open>codec\<close>, an encoder and a decoder of single values that give sequences of them;
    interpreted on base 128 in \<open>Oid\<close> (OBJECT IDENTIFIER texts of \<open>cbs.c\<close> and \<open>cbb.c\<close>) and on four encodings in
    \<open>Unicode\<close> (\<open>bytestring/unicode.c\<close>).
  \<^item> \<open>Ber\<close>: \<open>bytestring/ber.c\<close>: BER values as trees, what they stand for in DER, and the conversion.
  \<^item> \<open>Comparator\<close>: the locale \<open>comparator\<close> of three-way comparisons and what \<open>qsort\<close> may do with one; interpreted in
    \<open>Set_Of\<close> (SET OF order in \<open>cbb.c\<close>, \<open>asn1_compat.c\<close>) and used by \<open>Stack\<close> (\<open>stack/stack.c\<close>).
  \<^item> \<open>Cbb_Errors\<close>: the calls on a builder as one type of operations, and what a recorded error means for sequences of them.
  \<^item> \<open>Constant_Time\<close>: the branch-free primitives of \<open>internal.h\<close>; \<open>Base64\<close>: \<open>base64/base64.c\<close>, which uses them.
  \<^item> \<open>Lhash\<close>: \<open>lhash/lhash.c\<close>, with the locale \<open>hash_contract\<close> of the hash and comparison functions.
  \<^item> \<open>Bio\<close>: \<open>bio/bio.c\<close> for any \<open>BIO_METHOD\<close>. \<open>Pair\<close>: \<open>bio/pair.c\<close>, with the locale \<open>byte_queue\<close> interpreted on the ring
    buffer. \<open>Pair_Runs\<close>: the states that a pair can get into (\<open>pair_run\<close>) and the invariant of all of them.
    \<open>Bio_Read\<close>: the locale \<open>byte_source\<close> of BIOs that behave like pipes, with \<open>BIO_read_asn1\<close> on top, interpreted
    on the ends of a pair. \<open>Bio_Chain\<close>: chains, and the locale \<open>bio_destroyer\<close> of what \<open>BIO_free\<close> needs of the
    methods, interpreted on pairs.
  \<^item> \<open>Buf\<close>: \<open>buf/buf.c\<close>. \<open>Bio_Mem\<close>: \<open>bio/bio_mem.c\<close>, BIOs over such a buffer: \<open>byte_source\<close> is interpreted on them too, and
    so is \<open>line_source\<close>, the contract of \<open>BIO_gets\<close>; \<open>mem_run\<close> are the states they can get into.
  \<^item> \<open>Conf\<close>: the store of \<open>conf/conf.c\<close>, sections and values in a hash table, on whose functions \<open>hash_contract\<close> is
    interpreted; \<open>conf_run\<close> are the stores that additions make, \<open>represents\<close> relates one to a database.
    \<open>Conf_Chars\<close>: the table of characters in \<open>conf/conf_def.h\<close>. \<open>Conf_Text\<close>: the scanners and \<open>str_copy\<close>, which puts values
    together. \<open>Conf_Load\<close>: \<open>def_load_bio\<close>, with lemmas in the context of \<open>line_source\<close>, so that they hold for every BIO that
    hands out lines. \<open>Conf_List\<close>: \<open>CONF_parse_list\<close>.

  \<^bold>\<open>State.\<close> Structures are records with the fields of the code. Pointers to structures that the code shares (BIOs,
  the elements of stacks and hash tables) are numbers, 0 is NULL, and a heap maps them to records; where
  nothing is shared, a pointer is the value it points at. A function that may fail returns an option; one that
  changes a structure returns the new one.

  \<^bold>\<open>Loops.\<close> Loops are recursive functions with termination proofs, or structural recursion on the input, except
  where the code may loop for ever on some states (\<open>BIO_free\<close>, \<open>BIO_write_all\<close> and the readers of \<open>bio.c\<close> depend on what
  the method of a BIO returns, the ring loops on the invariant of the ring, the walks along chains on their being
  acyclic, the loader of configuration files on the lines that \<open>BIO_gets\<close> hands out). These are partial functions into an option, and the properties state that they return. The limit of nesting
  in \<open>ber.c\<close> (\<open>kMaxDepth\<close>) is the code's own.

  \<^bold>\<open>What the lemmas show.\<close> Readers accept exactly the reference encodings (equivalences); builders refine a stack
  of frames; what one component writes another reads back (round trips); invariants hold in all reachable states of
  stacks, hash tables and pairs; loops return; and errors are reported where they should be. Where the code departs
  from its description, the property states what the code does and its text says so (the search for BER in \<open>ber.c\<close>,
  the limits of \<open>BIO_read_asn1\<close>), or a lemma shows a case (\<open>ber_to_der_misses_nested_string\<close>, \<open>sk_set_breaks_find\<close>,
  \<open>read_all_takes_errors_for_lengths\<close>, \<open>mem_gets_large\<close>, \<open>add_string_unchecked_strdup\<close>, \<open>load_part_drops_escape\<close>,
  \<open>CONF_parse_list_nul\<close>).

  \<^bold>\<open>Not modelled.\<close> The rest of BoringSSL (big numbers, ciphers, digests, keys, X.509, TLS), which computes on top of
  this layer; BIOs on files and sockets, with \<open>NCONF_load\<close> on them; the error queue, whose entries no function here reads back; functions
  that only release memory; locks and atomic counters (each function runs alone). Outside BoringSSL: the Swift app
  and the Objective-C pods (user interface and bindings), the C++ pods (gRPC, abseil, leveldb, Firestore), the
  generated tables and protocol stubs (upb, nanopb, object identifiers), and libuv, which is calls to the operating
  system.
\<close>

end
